(* ===== verification/Prelude.thy ===== *)
theory Prelude
  imports Main "HOL-Library.Word" "HOL-Library.Char_ord"
begin

text \<open>
  What every component shares: the diagnostics that end a compilation, the two result
  types (errors as values, and errors or exhausted fuel), their sequencing operators, and
  the facts about them that let the component proofs go through by simplification.

  The C program reports a diagnostic with \<open>fail_at\<close> and leaves the process with \<open>exit(1)\<close>
  (\<open>bootstrap/stage0.c\<close>); no code runs after it. A call that may do so returns a value of
  the sum type, \<open>Inl\<close> being the diagnostic.
\<close>

section \<open>Collections of facts\<close>

named_theorems result_simps \<open>rewriting of the sequencing operators\<close>
named_theorems progress_intros \<open>a successful step leaves less input than it found\<close>

section \<open>Diagnostics\<close>

text \<open>
  \<open>fail_at(line, column, format, ...)\<close> prints \<open>path:line:column: error: message\<close> and exits
  with status 1. The path is a global set once by \<open>main\<close>; the model keeps the rest.
\<close>

datatype error = Fail_At (error_line: nat) (error_column: nat) (error_message: string)

definition fail_at :: "nat \<Rightarrow> nat \<Rightarrow> string \<Rightarrow> error + 'a" where
  "fail_at line column message = Inl (Fail_At line column message)"

lemma fail_at_not_Inr [simp]: "fail_at l c m \<noteq> Inr x" "Inr x \<noteq> fail_at l c m"
  by (simp_all add: fail_at_def)

section \<open>Results: an error or a value\<close>

definition rbind :: "'e + 'a \<Rightarrow> ('a \<Rightarrow> 'e + 'b) \<Rightarrow> 'e + 'b" where
  "rbind r f = (case r of Inl e \<Rightarrow> Inl e | Inr x \<Rightarrow> f x)"

lemma rbind_simps [simp, result_simps]:
  "rbind (Inl e) f = Inl e"
  "rbind (Inr x) f = f x"
  by (simp_all add: rbind_def)

lemma rbind_fail_at [simp, result_simps]: "rbind (fail_at l c m) f = fail_at l c m"
  by (simp add: fail_at_def)

lemma rbind_eq_Inr [result_simps]: "rbind r f = Inr y \<longleftrightarrow> (\<exists>x. r = Inr x \<and> f x = Inr y)"
  by (cases r) auto

lemma rbind_eq_Inl [result_simps]:
  "rbind r f = Inl e \<longleftrightarrow> r = Inl e \<or> (\<exists>x. r = Inr x \<and> f x = Inl e)"
  by (cases r) auto

lemma rbind_cong [fundef_cong]:
  "r = r' \<Longrightarrow> (\<And>x. r' = Inr x \<Longrightarrow> f x = f' x) \<Longrightarrow> rbind r f = rbind r' f'"
  by (cases r') simp_all

text \<open>Threading a fallible operation over a list, left to right, stopping at the first error.\<close>

fun rfold :: "('s \<Rightarrow> 'a \<Rightarrow> 'e + 's) \<Rightarrow> 's \<Rightarrow> 'a list \<Rightarrow> 'e + 's" where
  "rfold f s [] = Inr s"
| "rfold f s (x # xs) = rbind (f s x) (\<lambda>s'. rfold f s' xs)"

lemma rfold_append: "rfold f s (xs @ ys) = rbind (rfold f s xs) (\<lambda>s'. rfold f s' ys)"
proof (induction xs arbitrary: s)
  case Nil
  then show ?case by simp
next
  case (Cons x xs)
  then show ?case by (cases "f s x") simp_all
qed

section \<open>Outcomes of fuelled operations\<close>

text \<open>
  The recursive-descent parser recurses on the state its own calls return. Its functions take
  a fuel argument; \<open>Starved\<close> is running out of it, kept apart from the program's own errors.
\<close>

datatype 'a outcome = Done 'a | Failed error | Starved

definition obind :: "'a outcome \<Rightarrow> ('a \<Rightarrow> 'b outcome) \<Rightarrow> 'b outcome" where
  "obind r f = (case r of Done x \<Rightarrow> f x | Failed e \<Rightarrow> Failed e | Starved \<Rightarrow> Starved)"

lemma obind_simps [simp, result_simps]:
  "obind (Done x) f = f x"
  "obind (Failed e) f = Failed e"
  "obind Starved f = Starved"
  by (simp_all add: obind_def)

lemma obind_eq_Done [result_simps]: "obind r f = Done y \<longleftrightarrow> (\<exists>x. r = Done x \<and> f x = Done y)"
  by (cases r) auto

lemma obind_eq_Starved [result_simps]:
  "obind r f = Starved \<longleftrightarrow> r = Starved \<or> (\<exists>x. r = Done x \<and> f x = Starved)"
  by (cases r) auto

lemma obind_cong [fundef_cong]:
  "r = r' \<Longrightarrow> (\<And>x. r' = Done x \<Longrightarrow> f x = f' x) \<Longrightarrow> obind r f = obind r' f'"
  by (cases r') simp_all

definition lift :: "error + 'a \<Rightarrow> 'a outcome" where
  "lift r = (case r of Inl e \<Rightarrow> Failed e | Inr x \<Rightarrow> Done x)"

lemma lift_simps [simp, result_simps]:
  "lift (Inl e) = Failed e"
  "lift (Inr x) = Done x"
  by (simp_all add: lift_def)

lemma lift_eq [simp, result_simps]:
  "lift r = Done x \<longleftrightarrow> r = Inr x"
  "lift r = Failed e \<longleftrightarrow> r = Inl e"
  "lift r = Starved \<longleftrightarrow> False"
  by (cases r; simp)+

lemma lift_fail_at_Done [simp]: "lift (fail_at l c m) \<noteq> Done x" "lift (fail_at l c m) \<noteq> Starved"
  by (simp_all add: fail_at_def)

section \<open>The signed 64-bit range\<close>

definition LLONG_MAX :: int where
  "LLONG_MAX = 9223372036854775807"

definition LLONG_MIN :: int where
  "LLONG_MIN = - LLONG_MAX - 1"

lemma LLONG_MAX_pow: "LLONG_MAX = 2 ^ 63 - 1"
  by (simp add: LLONG_MAX_def)

section \<open>Decimal numerals\<close>

text \<open>The digits of a natural number, most significant first, as \<open>%d\<close> and \<open>%zu\<close> print them.\<close>

definition digit_char :: "nat \<Rightarrow> char" where
  "digit_char d = char_of (48 + d)"

fun decimal_nat :: "nat \<Rightarrow> string" where
  "decimal_nat n = (if n < 10 then [digit_char n] else decimal_nat (n div 10) @ [digit_char (n mod 10)])"

declare decimal_nat.simps [simp del]

definition decimal_int :: "int \<Rightarrow> string" where
  "decimal_int i = (if i < 0 then CHR ''-'' # decimal_nat (nat (- i)) else decimal_nat (nat i))"

end
