(* ===== verification/Lexer.thy ===== *)
theory Lexer
  imports Prelude
begin

text \<open>
  The tokenizer of the stage-zero compiler (\<open>bootstrap/stage0.c\<close>, \<open>peek\<close> to \<open>next_token\<close>).

  The source is a C string: a list of bytes whose end, or whose first zero byte, ends the
  program. A \<open>Lexer\<close> is the text still to read and the position of its first byte. Every
  function below either returns the token and the lexer that remains or the diagnostic the
  compiler exits with.
\<close>

section \<open>Data\<close>

datatype token_kind =
    TOKEN_EOF | TOKEN_NEWLINE | TOKEN_NAME | TOKEN_TEXT | TOKEN_CHARACTER | TOKEN_INTEGER
  | TOKEN_EQUAL_EQUAL | TOKEN_NOT_EQUAL | TOKEN_LESS_EQUAL | TOKEN_GREATER_EQUAL
  | TOKEN_AND | TOKEN_OR
  | Sym char \<comment> \<open>a one-byte token: its kind is the byte itself\<close>

record token =
  kind :: token_kind
  tok_text :: string
  tok_integer :: int
  tok_line :: nat
  tok_column :: nat

record lexer =
  cursor :: string
  lex_line :: nat
  lex_column :: nat

abbreviation NUL :: char where "NUL \<equiv> CHR 0x00"
abbreviation NEWLINE :: char where "NEWLINE \<equiv> CHR 0x0A"

section \<open>Reading bytes\<close>

definition peek :: "lexer \<Rightarrow> char" where
  "peek l = (case cursor l of [] \<Rightarrow> NUL | c # _ \<Rightarrow> c)"

text \<open>\<open>cursor[1]\<close>, read only where \<open>cursor[0]\<close> is not the terminator.\<close>

definition peek_second :: "lexer \<Rightarrow> char" where
  "peek_second l = (case cursor l of _ # c # _ \<Rightarrow> c | _ \<Rightarrow> NUL)"

definition take_byte :: "lexer \<Rightarrow> lexer" where
  "take_byte l =
     (if peek l = NUL then l
      else if peek l = NEWLINE
      then l\<lparr>cursor := tl (cursor l), lex_line := lex_line l + 1, lex_column := 1\<rparr>
      else l\<lparr>cursor := tl (cursor l), lex_column := lex_column l + 1\<rparr>)"

text \<open>\<open>while (p(peek(lexer))) take(lexer);\<close> -- at the terminator \<open>take\<close> does not move, and no
  caller's test holds there.\<close>

function take_while_byte :: "(char \<Rightarrow> bool) \<Rightarrow> lexer \<Rightarrow> lexer" where
  "take_while_byte p l =
     (if peek l \<noteq> NUL \<and> p (peek l) then take_while_byte p (take_byte l) else l)"
  by pat_completeness auto
termination
proof (relation "measure (\<lambda>(p, l). length (cursor l))")
  fix p :: "char \<Rightarrow> bool" and l :: lexer
  assume "peek l \<noteq> NUL \<and> p (peek l)"
  then show "((p, take_byte l), p, l) \<in> measure (\<lambda>(p, l). length (cursor l))"
    by (cases "cursor l") (auto simp: peek_def take_byte_def)
qed simp

declare take_while_byte.simps [simp del]

lemma take_byte_cursor: "cursor (take_byte l) = (if peek l = NUL then cursor l else tl (cursor l))"
  by (simp add: take_byte_def)

lemma cursor_take_byte_less: "peek l \<noteq> NUL \<Longrightarrow> length (cursor (take_byte l)) < length (cursor l)"
  by (cases "cursor l") (auto simp: peek_def take_byte_cursor)

lemma cursor_take_byte_le: "length (cursor (take_byte l)) \<le> length (cursor l)"
  by (simp add: take_byte_cursor)

lemma cursor_take_while_le: "length (cursor (take_while_byte p l)) \<le> length (cursor l)"
proof (induction p l rule: take_while_byte.induct)
  case (1 p l)
  show ?case
  proof (cases "peek l \<noteq> NUL \<and> p (peek l)")
    case True
    with "1.IH" cursor_take_byte_le [of l] show ?thesis
      by (simp add: take_while_byte.simps [of p l])
  next
    case False
    then show ?thesis by (auto simp: take_while_byte.simps [of p l])
  qed
qed

lemma cursor_take_while_less:
  assumes "peek l \<noteq> NUL" and "p (peek l)"
  shows "length (cursor (take_while_byte p l)) < length (cursor l)"
proof -
  have "length (cursor (take_while_byte p (take_byte l))) < length (cursor l)"
    using cursor_take_while_le [of p "take_byte l"] cursor_take_byte_less [OF assms(1)] by simp
  then show ?thesis using assms by (simp add: take_while_byte.simps [of p l])
qed

section \<open>Spaces and comments\<close>

definition is_blank :: "char \<Rightarrow> bool" where
  "is_blank c \<longleftrightarrow> c = CHR '' '' \<or> c = CHR 0x09 \<or> c = CHR 0x0D"

text \<open>The inside of a block comment: up to its closing mark or to the end of the source.\<close>

function skip_comment_body :: "lexer \<Rightarrow> lexer" where
  "skip_comment_body l =
     (if peek l \<noteq> NUL \<and> \<not> (peek l = CHR ''*'' \<and> peek_second l = CHR ''/'')
      then skip_comment_body (take_byte l) else l)"
  by pat_completeness auto
termination
  by (relation "measure (\<lambda>l. length (cursor l))") (auto simp: cursor_take_byte_less)

declare skip_comment_body.simps [simp del]

lemma cursor_skip_comment_body_le: "length (cursor (skip_comment_body l)) \<le> length (cursor l)"
proof (induction l rule: skip_comment_body.induct)
  case (1 l)
  then show ?case
    using cursor_take_byte_le [of l] by (fastforce simp: skip_comment_body.simps [of l])
qed

function skip_horizontal_space_and_comments :: "lexer \<Rightarrow> error + lexer" where
  "skip_horizontal_space_and_comments l0 =
     (let l = take_while_byte is_blank l0 in
      if peek l = CHR ''/'' \<and> peek_second l = CHR ''/'' then
        skip_horizontal_space_and_comments (take_while_byte (\<lambda>c. c \<noteq> NEWLINE) l)
      else if peek l = CHR ''/'' \<and> peek_second l = CHR ''*'' then
        (let l1 = skip_comment_body (take_byte (take_byte l)) in
         if peek l1 = NUL
         then fail_at (lex_line l) (lex_column l) ''this block comment is never closed''
         else skip_horizontal_space_and_comments (take_byte (take_byte l1)))
      else Inr l)"
  by pat_completeness auto
termination
proof (relation "measure (\<lambda>l. length (cursor l))", simp)
  fix l0 l
  assume l: "l = take_while_byte is_blank l0"
  have le: "length (cursor l) \<le> length (cursor l0)"
    by (simp add: l cursor_take_while_le)
  show "(take_while_byte (\<lambda>c. c \<noteq> NEWLINE) l, l0) \<in> measure (\<lambda>l. length (cursor l))"
    if "peek l = CHR ''/'' \<and> peek_second l = CHR ''/''"
    using that le cursor_take_while_less [of l "\<lambda>c. c \<noteq> NEWLINE"] by simp
  fix l1
  assume l1: "l1 = skip_comment_body (take_byte (take_byte l))"
  show "(take_byte (take_byte l1), l0) \<in> measure (\<lambda>l. length (cursor l))"
    if "peek l1 \<noteq> NUL"
    using that le l1 cursor_skip_comment_body_le [of "take_byte (take_byte l)"]
      cursor_take_byte_le [of l] cursor_take_byte_le [of "take_byte l"]
      cursor_take_byte_le [of "take_byte l1"] cursor_take_byte_less [of l1] by simp
qed

declare skip_horizontal_space_and_comments.simps [simp del]

section \<open>Tokens\<close>

definition is_letter :: "char \<Rightarrow> bool" where
  "is_letter c \<longleftrightarrow> (CHR ''a'' \<le> c \<and> c \<le> CHR ''z'') \<or> (CHR ''A'' \<le> c \<and> c \<le> CHR ''Z'') \<or> c = CHR ''_''"

definition is_digit :: "char \<Rightarrow> bool" where
  "is_digit c \<longleftrightarrow> CHR ''0'' \<le> c \<and> c \<le> CHR ''9''"

definition is_name_byte :: "char \<Rightarrow> bool" where
  "is_name_byte c \<longleftrightarrow> is_letter c \<or> is_digit c"

definition digit_value :: "char \<Rightarrow> int" where
  "digit_value c = of_char c - 48"

definition escaped_character :: "lexer \<Rightarrow> nat \<Rightarrow> nat \<Rightarrow> error + (char \<times> lexer)" where
  "escaped_character l line column =
     (let c = peek l; l' = take_byte l in
      if c = CHR ''0'' then Inr (NUL, l')
      else if c = CHR ''n'' then Inr (NEWLINE, l')
      else if c = CHR ''r'' then Inr (CHR 0x0D, l')
      else if c = CHR ''t'' then Inr (CHR 0x09, l')
      else if c = CHR 0x5C then Inr (CHR 0x5C, l')
      else if c = CHR 0x22 then Inr (CHR 0x22, l')
      else if c = CHR 0x27 then Inr (CHR 0x27, l')
      else fail_at line column (''I don't recognise the escape sequence '' @ [CHR 0x5C, c]))"

text \<open>The source between two positions of one lexer: \<open>copy_text(start, cursor - start)\<close>.\<close>

definition text_between :: "lexer \<Rightarrow> lexer \<Rightarrow> string" where
  "text_between start stop = take (length (cursor start) - length (cursor stop)) (cursor start)"

text \<open>The digits of an Integer literal. The bound is checked before each digit is added.\<close>

function lex_integer :: "nat \<Rightarrow> nat \<Rightarrow> int \<Rightarrow> lexer \<Rightarrow> error + (int \<times> lexer)" where
  "lex_integer line column n l =
     (if peek l \<noteq> NUL \<and> is_digit (peek l) then
        (let digit = digit_value (peek l) in
         if n > (LLONG_MAX - digit) div 10
         then fail_at line column ''this Integer is larger than Minyar currently supports''
         else lex_integer line column (n * 10 + digit) (take_byte l))
      else Inr (n, l))"
  by pat_completeness auto
termination
  by (relation "measure (\<lambda>(line, column, n, l). length (cursor l))") (auto simp: cursor_take_byte_less)

declare lex_integer.simps [simp del]

lemma escaped_character_cursor:
  "escaped_character l line column = Inr (c, l') \<Longrightarrow> length (cursor l') < length (cursor l)"
proof -
  assume a: "escaped_character l line column = Inr (c, l')"
  then have "l' = take_byte l" and "peek l \<noteq> NUL"
    by (auto simp: escaped_character_def Let_def split: if_splits)
  then show ?thesis by (simp add: cursor_take_byte_less)
qed

lemma escaped_after_backslash:
  assumes "peek l \<noteq> NUL" and "escaped_character (take_byte l) line column = Inr (c, l')"
  shows "length (cursor l') < length (cursor l)"
  using escaped_character_cursor [OF assms(2)] cursor_take_byte_less [OF assms(1)] by simp

text \<open>The bytes of a Text literal up to, and not including, its closing quote.\<close>

function lex_text :: "nat \<Rightarrow> nat \<Rightarrow> string \<Rightarrow> lexer \<Rightarrow> error + (string \<times> lexer)" where
  "lex_text line column text l =
     (if peek l \<noteq> NUL \<and> peek l \<noteq> CHR 0x22 then
        (if peek l = NEWLINE
         then fail_at line column ''text literals cannot continue onto the next line yet''
         else if peek l = CHR 0x5C
         then (case escaped_character (take_byte l) line column of
                 Inl e \<Rightarrow> Inl e
               | Inr (c, l') \<Rightarrow> lex_text line column (text @ [c]) l')
         else lex_text line column (text @ [peek l]) (take_byte l))
      else Inr (text, l))"
  by pat_completeness auto
termination
  by (relation "measure (\<lambda>(line, column, text, l). length (cursor l))")
     (auto simp: cursor_take_byte_less intro: escaped_after_backslash)

declare lex_text.simps [simp del]

definition symbols :: string where
  "symbols = ''(){}[]:,.;+-*/%=!<>''"

definition new_token :: "lexer \<Rightarrow> token_kind \<Rightarrow> token" where
  "new_token l k = \<lparr>kind = k, tok_text = [], tok_integer = 0, tok_line = lex_line l, tok_column = lex_column l\<rparr>"

definition two_byte_kind :: "char \<Rightarrow> char \<Rightarrow> token_kind option" where
  "two_byte_kind a b =
     (if a = CHR ''='' \<and> b = CHR ''='' then Some TOKEN_EQUAL_EQUAL
      else if a = CHR ''!'' \<and> b = CHR ''='' then Some TOKEN_NOT_EQUAL
      else if a = CHR ''<'' \<and> b = CHR ''='' then Some TOKEN_LESS_EQUAL
      else if a = CHR ''>'' \<and> b = CHR ''='' then Some TOKEN_GREATER_EQUAL
      else if a = CHR ''&'' \<and> b = CHR ''&'' then Some TOKEN_AND
      else if a = CHR ''|'' \<and> b = CHR ''|'' then Some TOKEN_OR
      else None)"

definition lex_character :: "nat \<Rightarrow> nat \<Rightarrow> lexer \<Rightarrow> error + (int \<times> lexer)" where
  "lex_character line column l =
     (if peek l = NUL \<or> peek l = NEWLINE \<or> peek l = CHR 0x27
      then fail_at line column ''a character literal contains exactly one character''
      else
        rbind (if peek l = CHR 0x5C then escaped_character (take_byte l) line column
               else Inr (peek l, take_byte l))
          (\<lambda>(c, l').
             if peek l' \<noteq> CHR 0x27
             then fail_at line column ''a character literal contains exactly one character''
             else Inr (of_char c, take_byte l')))"

text \<open>The token at the first byte that is neither blank nor comment.\<close>

definition token_at :: "lexer \<Rightarrow> error + (token \<times> lexer)" where
  "token_at l =
     (if peek l = NUL then Inr (new_token l TOKEN_EOF, l)
      else if peek l = NEWLINE then Inr (new_token l TOKEN_NEWLINE, take_byte l)
      else if is_letter (peek l) then
        (let l' = take_while_byte is_name_byte (take_byte l)
         in Inr ((new_token l TOKEN_NAME)\<lparr>tok_text := text_between l l'\<rparr>, l'))
      else if is_digit (peek l) then
        rbind (lex_integer (lex_line l) (lex_column l) 0 l)
          (\<lambda>(n, l'). Inr ((new_token l TOKEN_INTEGER)\<lparr>tok_integer := n\<rparr>, l'))
      else if peek l = CHR 0x22 then
        rbind (lex_text (lex_line l) (lex_column l) [] (take_byte l))
          (\<lambda>(text, l').
             if peek l' = NUL
             then fail_at (lex_line l) (lex_column l) ''this text literal is never closed''
             else Inr ((new_token l TOKEN_TEXT)\<lparr>tok_text := text\<rparr>, take_byte l'))
      else if peek l = CHR 0x27 then
        rbind (lex_character (lex_line l) (lex_column l) (take_byte l))
          (\<lambda>(n, l'). Inr ((new_token l TOKEN_CHARACTER)\<lparr>tok_integer := n\<rparr>, l'))
      else
        (case two_byte_kind (peek l) (peek_second l) of
           Some k \<Rightarrow> Inr (new_token l k, take_byte (take_byte l))
         | None \<Rightarrow>
             if peek l \<in> set symbols then Inr (new_token l (Sym (peek l)), take_byte l)
             else fail_at (lex_line l) (lex_column l)
                    (''I don't recognise the character '' @ [CHR 0x27, peek l, CHR 0x27])))"

definition next_token :: "lexer \<Rightarrow> error + (token \<times> lexer)" where
  "next_token l = rbind (skip_horizontal_space_and_comments l) token_at"

section \<open>Every token but the last consumes source\<close>

lemma cursor_skip_space_le:
  "skip_horizontal_space_and_comments l = Inr l' \<Longrightarrow> length (cursor l') \<le> length (cursor l)"
proof (induction l arbitrary: l' rule: skip_horizontal_space_and_comments.induct)
  case (1 l0)
  define l where "l = take_while_byte is_blank l0"
  define l1 where "l1 = skip_comment_body (take_byte (take_byte l))"
  have le: "length (cursor l) \<le> length (cursor l0)"
    by (simp add: l_def cursor_take_while_le)
  consider (line) "peek l = CHR ''/'' \<and> peek_second l = CHR ''/''"
    | (block) "\<not> (peek l = CHR ''/'' \<and> peek_second l = CHR ''/'')"
        "peek l = CHR ''/'' \<and> peek_second l = CHR ''*''"
    | (stop) "\<not> (peek l = CHR ''/'' \<and> peek_second l = CHR ''/'')"
        "\<not> (peek l = CHR ''/'' \<and> peek_second l = CHR ''*'')" by blast
  then show ?case
  proof cases
    case line
    have "length (cursor l') \<le> length (cursor (take_while_byte (\<lambda>c. c \<noteq> NEWLINE) l))"
      using "1.prems" line
      by (intro "1.IH"(1) [OF l_def line])
         (simp add: skip_horizontal_space_and_comments.simps [of l0] l_def [symmetric])
    then show ?thesis
      using le cursor_take_while_le [of "\<lambda>c. c \<noteq> NEWLINE" l] by simp
  next
    case block
    have nz: "peek l1 \<noteq> NUL"
      using "1.prems" block
      by (auto simp: skip_horizontal_space_and_comments.simps [of l0] l_def [symmetric] l1_def [symmetric]
        Let_def)
    have "length (cursor l') \<le> length (cursor (take_byte (take_byte l1)))"
      using "1.prems" block nz
      by (intro "1.IH"(2) [OF l_def block l1_def nz])
         (simp add: skip_horizontal_space_and_comments.simps [of l0] l_def [symmetric] l1_def [symmetric])
    then show ?thesis
      using le l1_def cursor_skip_comment_body_le [of "take_byte (take_byte l)"]
        cursor_take_byte_le [of l] cursor_take_byte_le [of "take_byte l"]
        cursor_take_byte_le [of l1] cursor_take_byte_le [of "take_byte l1"] by simp
  next
    case stop
    then have "l' = l"
      using "1.prems"
      by (auto simp: skip_horizontal_space_and_comments.simps [of l0] l_def [symmetric] split: if_splits)
    then show ?thesis using le by simp
  qed
qed

lemma cursor_lex_integer_le:
  "lex_integer line column n l = Inr (m, l') \<Longrightarrow> length (cursor l') \<le> length (cursor l)"
proof (induction line column n l rule: lex_integer.induct)
  case (1 line column n l)
  show ?case
  proof (cases "peek l \<noteq> NUL \<and> is_digit (peek l)")
    case True
    define d where "d = digit_value (peek l)"
    have "\<not> n > (LLONG_MAX - d) div 10"
      using "1.prems" True by (auto simp: lex_integer.simps [of line column n l] d_def)
    moreover from this True have "lex_integer line column (n * 10 + d) (take_byte l) = Inr (m, l')"
      using "1.prems" by (simp add: lex_integer.simps [of line column n l] d_def)
    ultimately have "length (cursor l') \<le> length (cursor (take_byte l))"
      using "1.IH" True d_def by simp
    then show ?thesis using cursor_take_byte_le [of l] by simp
  next
    case False
    then show ?thesis using "1.prems" by (auto simp: lex_integer.simps [of line column n l])
  qed
qed

lemma cursor_lex_text_le:
  "lex_text line column acc l = Inr (acc', l') \<Longrightarrow> length (cursor l') \<le> length (cursor l)"
proof (induction line column acc l rule: lex_text.induct)
  case (1 line column acc l)
  show ?case
  proof (cases "peek l \<noteq> NUL \<and> peek l \<noteq> CHR 0x22")
    case True
    then have nn: "peek l \<noteq> NEWLINE"
      using "1.prems" by (auto simp: lex_text.simps [of line column acc l])
    show ?thesis
    proof (cases "peek l = CHR 0x5C")
      case esc: True
      then obtain c l1 where e: "escaped_character (take_byte l) line column = Inr (c, l1)"
        and r: "lex_text line column (acc @ [c]) l1 = Inr (acc', l')"
        using "1.prems" by (auto simp: lex_text.simps [of line column acc l] split: sum.splits)
      from "1.IH"(1) [OF True nn esc e refl r] show ?thesis
        using escaped_after_backslash [OF _ e] True by simp
    next
      case False
      then have "lex_text line column (acc @ [peek l]) (take_byte l) = Inr (acc', l')"
        using "1.prems" True nn by (simp add: lex_text.simps [of line column acc l])
      from "1.IH"(2) [OF True nn False this] show ?thesis
        using cursor_take_byte_le [of l] by simp
    qed
  next
    case False
    then show ?thesis using "1.prems" by (auto simp: lex_text.simps [of line column acc l])
  qed
qed

lemma cursor_lex_character_le:
  assumes "lex_character line column l = Inr (n, l')"
  shows "length (cursor l') \<le> length (cursor l)"
proof -
  obtain c l1 where "(if peek l = CHR 0x5C then escaped_character (take_byte l) line column
      else Inr (peek l, take_byte l)) = Inr (c, l1)" and l': "l' = take_byte l1"
    and nz: "peek l \<noteq> NUL"
    using assms by (auto simp: lex_character_def rbind_eq_Inr split: if_splits)
  then have "length (cursor l1) \<le> length (cursor l)"
    using escaped_after_backslash [OF nz, of line column c l1] cursor_take_byte_le [of l]
    by (auto split: if_splits)
  then show ?thesis using l' cursor_take_byte_le [of l1] by simp
qed

lemma lex_integer_digit:
  assumes "peek l \<noteq> NUL" and "is_digit (peek l)" and "lex_integer line column n l = Inr (m, l')"
  shows "length (cursor l') < length (cursor l)"
proof -
  have "lex_integer line column (n * 10 + digit_value (peek l)) (take_byte l) = Inr (m, l')"
    using assms by (auto simp: lex_integer.simps [of line column n l] Let_def split: if_splits)
  from cursor_lex_integer_le [OF this] show ?thesis
    using cursor_take_byte_less [OF assms(1)] by simp
qed

lemma token_at_cursor:
  assumes "token_at l = Inr (t, l')"
  shows "length (cursor l') \<le> length (cursor l)"
    and "kind t \<noteq> TOKEN_EOF \<Longrightarrow> length (cursor l') < length (cursor l)"
proof -
  have less: "length (cursor l') < length (cursor l)" if nz: "peek l \<noteq> NUL"
  proof -
    note b = cursor_take_byte_less [OF nz] cursor_take_byte_le [of "take_byte l"]
    consider (nl) "peek l = NEWLINE" | (name) "peek l \<noteq> NEWLINE" "is_letter (peek l)"
      | (int) "peek l \<noteq> NEWLINE" "\<not> is_letter (peek l)" "is_digit (peek l)"
      | (other) "peek l \<noteq> NEWLINE" "\<not> is_letter (peek l)" "\<not> is_digit (peek l)" by blast
    then show ?thesis
    proof cases
      case name
      then show ?thesis
        using assms nz b(1) cursor_take_while_le [of is_name_byte "take_byte l"]
        by (auto simp: token_at_def Let_def)
    next
      case int
      then show ?thesis
        using assms nz by (auto simp: token_at_def rbind_eq_Inr dest: lex_integer_digit)
    next
      case other
      then show ?thesis
        using assms nz b
        by (auto simp: token_at_def rbind_eq_Inr split: if_splits option.splits
              dest!: cursor_lex_text_le cursor_lex_character_le)
           (use cursor_take_byte_le in \<open>fastforce dest: le_less_trans\<close>)+
    qed (use assms nz b in \<open>auto simp: token_at_def\<close>)
  qed
  then show "kind t \<noteq> TOKEN_EOF \<Longrightarrow> length (cursor l') < length (cursor l)"
    using assms by (cases "peek l = NUL") (auto simp: token_at_def new_token_def)
  show "length (cursor l') \<le> length (cursor l)"
    using less assms by (cases "peek l = NUL") (auto simp: token_at_def)
qed

lemma next_token_cursor:
  assumes "next_token l = Inr (t, l')"
  shows "length (cursor l') \<le> length (cursor l)"
    and "kind t \<noteq> TOKEN_EOF \<Longrightarrow> length (cursor l') < length (cursor l)"
  using assms cursor_skip_space_le token_at_cursor
  by (fastforce simp: next_token_def rbind_eq_Inr)+

end
