(* ===== verification/Ast.thy ===== *)
theory Ast
  imports Lexer
begin

text \<open>
  The data the stages of the stage-zero compiler share (\<open>bootstrap/stage0.c\<close>, the type
  enumeration and the \<open>Expression\<close>, \<open>Statement\<close>, \<open>Function\<close> and \<open>Program\<close> structures), and
  the helpers on types that the parser, the checker and the emitter call.

  The C structures are unions by convention: which fields are set depends on \<open>kind\<close>. Here each
  kind is a constructor with the fields that kind uses. The fields every expression has
  (position, the type and local slot the checker fills in, the literal's index) are the
  record \<open>node\<close>. The structures are trees that the checker updates in place; in the model it
  returns the updated tree.
\<close>

section \<open>Types\<close>

datatype ty =
    TYPE_UNKNOWN | TYPE_INTEGER | TYPE_TEXT | TYPE_CHARACTER | TYPE_BOOLEAN | TYPE_NOTHING
  | TYPE_LIST_INTEGER | TYPE_LIST_TEXT | TYPE_LIST_CHARACTER | TYPE_LIST_BOOLEAN

text \<open>The enumeration's values. The code compares types with \<open><\<close> and computes list and element
  types by adding offsets; the functions after it are those computations.\<close>

fun type_code :: "ty \<Rightarrow> int" where
  "type_code TYPE_UNKNOWN = 0"
| "type_code TYPE_INTEGER = 1"
| "type_code TYPE_TEXT = 2"
| "type_code TYPE_CHARACTER = 3"
| "type_code TYPE_BOOLEAN = 4"
| "type_code TYPE_NOTHING = 5"
| "type_code TYPE_LIST_INTEGER = 101"
| "type_code TYPE_LIST_TEXT = 102"
| "type_code TYPE_LIST_CHARACTER = 103"
| "type_code TYPE_LIST_BOOLEAN = 104"

definition type_of_code :: "int \<Rightarrow> ty" where
  "type_of_code n =
     (if n = 1 then TYPE_INTEGER else if n = 2 then TYPE_TEXT else if n = 3 then TYPE_CHARACTER
      else if n = 4 then TYPE_BOOLEAN else if n = 5 then TYPE_NOTHING
      else if n = 101 then TYPE_LIST_INTEGER else if n = 102 then TYPE_LIST_TEXT
      else if n = 103 then TYPE_LIST_CHARACTER else if n = 104 then TYPE_LIST_BOOLEAN
      else TYPE_UNKNOWN)"

definition is_element_type :: "ty \<Rightarrow> bool" where
  "is_element_type t \<longleftrightarrow>
     \<not> (type_code t < type_code TYPE_INTEGER \<or> type_code t > type_code TYPE_BOOLEAN \<or> t = TYPE_NOTHING)"

definition is_list_type :: "ty \<Rightarrow> bool" where
  "is_list_type t \<longleftrightarrow>
     type_code TYPE_LIST_INTEGER \<le> type_code t \<and> type_code t \<le> type_code TYPE_LIST_BOOLEAN"

definition list_type :: "ty \<Rightarrow> ty" where
  "list_type t = type_of_code (type_code TYPE_LIST_INTEGER + type_code t - type_code TYPE_INTEGER)"

definition element_type :: "ty \<Rightarrow> ty" where
  "element_type t = type_of_code (type_code TYPE_INTEGER + type_code t - type_code TYPE_LIST_INTEGER)"

lemma type_of_code_code [simp]: "type_of_code (type_code t) = t"
  by (cases t) (simp_all add: type_of_code_def)

lemma type_code_inject [simp]: "type_code s = type_code t \<longleftrightarrow> s = t"
  by (metis type_of_code_code)

lemma is_element_type_simps [simp]:
  "is_element_type TYPE_INTEGER" "is_element_type TYPE_TEXT"
  "is_element_type TYPE_CHARACTER" "is_element_type TYPE_BOOLEAN"
  "\<not> is_element_type TYPE_UNKNOWN" "\<not> is_element_type TYPE_NOTHING"
  "\<not> is_element_type TYPE_LIST_INTEGER" "\<not> is_element_type TYPE_LIST_TEXT"
  "\<not> is_element_type TYPE_LIST_CHARACTER" "\<not> is_element_type TYPE_LIST_BOOLEAN"
  by (simp_all add: is_element_type_def)

lemma is_list_type_simps [simp]:
  "is_list_type TYPE_LIST_INTEGER" "is_list_type TYPE_LIST_TEXT"
  "is_list_type TYPE_LIST_CHARACTER" "is_list_type TYPE_LIST_BOOLEAN"
  "\<not> is_list_type TYPE_UNKNOWN" "\<not> is_list_type TYPE_NOTHING"
  "\<not> is_list_type TYPE_INTEGER" "\<not> is_list_type TYPE_TEXT"
  "\<not> is_list_type TYPE_CHARACTER" "\<not> is_list_type TYPE_BOOLEAN"
  by (simp_all add: is_list_type_def)

lemma list_type_simps [simp]:
  "list_type TYPE_INTEGER = TYPE_LIST_INTEGER" "list_type TYPE_TEXT = TYPE_LIST_TEXT"
  "list_type TYPE_CHARACTER = TYPE_LIST_CHARACTER" "list_type TYPE_BOOLEAN = TYPE_LIST_BOOLEAN"
  by (simp_all add: list_type_def type_of_code_def)

lemma element_type_simps [simp]:
  "element_type TYPE_LIST_INTEGER = TYPE_INTEGER" "element_type TYPE_LIST_TEXT = TYPE_TEXT"
  "element_type TYPE_LIST_CHARACTER = TYPE_CHARACTER" "element_type TYPE_LIST_BOOLEAN = TYPE_BOOLEAN"
  by (simp_all add: element_type_def type_of_code_def)

lemma element_type_list_type: "is_element_type t \<Longrightarrow> element_type (list_type t) = t"
  by (cases t) simp_all

lemma is_element_type_element_type [simp]: "is_list_type t \<Longrightarrow> is_element_type (element_type t)"
  by (cases t) simp_all

fun type_name :: "ty \<Rightarrow> string" where
  "type_name TYPE_INTEGER = ''Integer''"
| "type_name TYPE_TEXT = ''Text''"
| "type_name TYPE_CHARACTER = ''Character''"
| "type_name TYPE_BOOLEAN = ''Boolean''"
| "type_name TYPE_NOTHING = ''Nothing''"
| "type_name TYPE_LIST_INTEGER = ''List<Integer>''"
| "type_name TYPE_LIST_TEXT = ''List<Text>''"
| "type_name TYPE_LIST_CHARACTER = ''List<Character>''"
| "type_name TYPE_LIST_BOOLEAN = ''List<Boolean>''"
| "type_name TYPE_UNKNOWN = ''an unknown type''"

fun llvm_type :: "ty \<Rightarrow> string" where
  "llvm_type TYPE_INTEGER = ''i64''"
| "llvm_type TYPE_TEXT = ''ptr''"
| "llvm_type TYPE_CHARACTER = ''i32''"
| "llvm_type TYPE_BOOLEAN = ''i1''"
| "llvm_type TYPE_NOTHING = ''void''"
| "llvm_type TYPE_LIST_INTEGER = ''ptr''"
| "llvm_type TYPE_LIST_TEXT = ''ptr''"
| "llvm_type TYPE_LIST_CHARACTER = ''ptr''"
| "llvm_type TYPE_LIST_BOOLEAN = ''ptr''"
| "llvm_type TYPE_UNKNOWN = ''void''"

section \<open>Syntax trees\<close>

record node =
  line :: nat
  column :: nat
  node_type :: ty
  local_index :: int
  string_index :: int

datatype expression =
    E_Integer node int
  | E_Text node string
  | E_Character node int
  | E_Boolean node bool
  | E_Name node string
  | E_Call node string "expression list"
  | E_Unary node token_kind expression
  | E_Binary node token_kind expression expression
  | E_Member node string expression
  | E_Index node expression expression
  | E_List node
  | E_Method_Call node string expression "expression list"

fun node_of :: "expression \<Rightarrow> node" where
  "node_of (E_Integer n _) = n"
| "node_of (E_Text n _) = n"
| "node_of (E_Character n _) = n"
| "node_of (E_Boolean n _) = n"
| "node_of (E_Name n _) = n"
| "node_of (E_Call n _ _) = n"
| "node_of (E_Unary n _ _) = n"
| "node_of (E_Binary n _ _ _) = n"
| "node_of (E_Member n _ _) = n"
| "node_of (E_Index n _ _) = n"
| "node_of (E_List n) = n"
| "node_of (E_Method_Call n _ _ _) = n"

text \<open>A statement starts with its line and column. \<open>let\<close> carries the declared type
  (\<open>TYPE_UNKNOWN\<close> when none is written); \<open>let\<close> and assignment carry the local slot.
  An empty block is a null array in the code, so an empty \<open>else\<close> block and no \<open>else\<close> at all
  are the same tree.\<close>

datatype statement =
    S_Let nat nat string ty int expression
  | S_Assign nat nat string int expression
  | S_Index_Assign nat nat expression expression
  | S_Expression nat nat expression
  | S_Return nat nat "expression option"
  | S_If nat nat expression "statement list" "statement list"
  | S_While nat nat expression "statement list"

fun statement_line :: "statement \<Rightarrow> nat" where
  "statement_line (S_Let l _ _ _ _ _) = l"
| "statement_line (S_Assign l _ _ _ _) = l"
| "statement_line (S_Index_Assign l _ _ _) = l"
| "statement_line (S_Expression l _ _) = l"
| "statement_line (S_Return l _ _) = l"
| "statement_line (S_If l _ _ _ _) = l"
| "statement_line (S_While l _ _ _) = l"

fun statement_column :: "statement \<Rightarrow> nat" where
  "statement_column (S_Let _ c _ _ _ _) = c"
| "statement_column (S_Assign _ c _ _ _) = c"
| "statement_column (S_Index_Assign _ c _ _) = c"
| "statement_column (S_Expression _ c _) = c"
| "statement_column (S_Return _ c _) = c"
| "statement_column (S_If _ c _ _ _) = c"
| "statement_column (S_While _ c _ _) = c"

record parameter =
  parameter_name :: string
  parameter_type :: ty
  parameter_line :: nat
  parameter_column :: nat

record local_slot =
  local_name :: string
  local_type :: ty
  active :: bool

record function_decl =
  function_name :: string
  parameters :: "parameter list"
  return_type :: ty
  return_was_written :: bool
  body :: "statement list"
  locals :: "local_slot list"
  function_line :: nat
  function_column :: nat

record program =
  program_functions :: "function_decl list"
  text_literals :: "string list"

end
