(* ===== verification/Checker.thy ===== *)
theory Checker
  imports Ast
begin

text \<open>
  The type and scope checker of the stage-zero compiler (\<open>bootstrap/stage0.c\<close>, \<open>find_function\<close>
  to \<open>check_program\<close>). It walks each function, resolves names to local slots, annotates every
  expression with its type, and stops at the first diagnostic.

  The code updates \<open>expression->type\<close>, \<open>local_index\<close> and \<open>function->locals\<close> in place; the
  model returns the annotated tree and the table of locals.
\<close>

section \<open>Names\<close>

definition find_function :: "program \<Rightarrow> string \<Rightarrow> function_decl option" where
  "find_function program name = List.find (\<lambda>f. function_name f = name) (program_functions program)"

text \<open>The scan runs from the newest slot down; \<open>find_local_below ls name i\<close> looks at slots under \<open>i\<close>.\<close>

fun find_local_below :: "local_slot list \<Rightarrow> string \<Rightarrow> nat \<Rightarrow> int" where
  "find_local_below ls name 0 = -1"
| "find_local_below ls name (Suc i) =
     (if active (ls ! i) \<and> local_name (ls ! i) = name then int i else find_local_below ls name i)"

definition find_local :: "local_slot list \<Rightarrow> string \<Rightarrow> int" where
  "find_local ls name = find_local_below ls name (length ls)"

definition quoted :: "string \<Rightarrow> string" where
  "quoted s = CHR 0x27 # s @ [CHR 0x27]"

definition add_local :: "local_slot list \<Rightarrow> string \<Rightarrow> ty \<Rightarrow> nat \<Rightarrow> nat \<Rightarrow> error + (int \<times> local_slot list)" where
  "add_local ls name t l c =
     (if find_local ls name \<ge> 0
      then fail_at l c (quoted name @ '' already has a meaning in this function'')
      else Inr (int (length ls), ls @ [\<lparr>local_name = name, local_type = t, active = True\<rparr>]))"

section \<open>Expressions\<close>

definition fail_on :: "node \<Rightarrow> string \<Rightarrow> error + 'a" where
  "fail_on nd message = fail_at (line nd) (column nd) message"

definition require_type :: "expression \<Rightarrow> ty \<Rightarrow> ty \<Rightarrow> string \<Rightarrow> error + unit" where
  "require_type e actual expected context_text =
     (if actual \<noteq> expected
      then fail_on (node_of e) (context_text @ '' needs '' @ type_name expected @
             '', but this expression produces '' @ type_name actual)
      else Inr ())"

lemma require_type_Inr [simp]: "require_type e s t m = Inr u \<longleftrightarrow> s = t"
  by (auto simp: require_type_def fail_on_def)

lemma require_type_refl [simp]: "require_type e t t m = Inr ()"
  by simp

lemma fail_on_simps [simp]:
  "fail_on nd m \<noteq> Inr x" "Inr x \<noteq> fail_on nd m" "rbind (fail_on nd m) f = fail_on nd m"
  by (simp_all add: fail_on_def)

abbreviation typed :: "node \<Rightarrow> ty \<Rightarrow> node" where
  "typed nd t \<equiv> nd\<lparr>node_type := t\<rparr>"

fun binary_result :: "node \<Rightarrow> token_kind \<Rightarrow> expression \<Rightarrow> ty \<Rightarrow> ty \<Rightarrow> error + ty" where
  "binary_result nd op le left right =
     (if left \<noteq> right
      then fail_on nd (''these two sides have different types: '' @ type_name left @ '' and '' @ type_name right)
      else if op = TOKEN_EQUAL_EQUAL \<or> op = TOKEN_NOT_EQUAL then
        (if left = TYPE_NOTHING then fail_on nd ''Nothing cannot be compared'' else Inr TYPE_BOOLEAN)
      else if op = TOKEN_AND \<or> op = TOKEN_OR then
        rbind (require_type le left TYPE_BOOLEAN ''a logical operation'') (\<lambda>_. Inr TYPE_BOOLEAN)
      else if op = Sym (CHR ''<'') \<or> op = Sym (CHR ''>'') \<or> op = TOKEN_LESS_EQUAL \<or> op = TOKEN_GREATER_EQUAL then
        (if left \<noteq> TYPE_INTEGER \<and> left \<noteq> TYPE_CHARACTER
         then fail_on nd (''ordered comparisons work with Integer or Character values, not '' @ type_name left)
         else Inr TYPE_BOOLEAN)
      else if op = Sym (CHR ''+'') \<and> left = TYPE_TEXT then Inr TYPE_TEXT
      else rbind (require_type le left TYPE_INTEGER ''arithmetic'') (\<lambda>_. Inr TYPE_INTEGER))"

declare binary_result.simps [simp del]

definition member_result :: "node \<Rightarrow> string \<Rightarrow> ty \<Rightarrow> error + ty" where
  "member_result nd name left =
     (if left = TYPE_TEXT \<and> name = ''byteLength'' then Inr TYPE_INTEGER
      else if (left = TYPE_TEXT \<or> is_list_type left) \<and> name = ''length'' then Inr TYPE_INTEGER
      else fail_on nd (type_name left @ '' does not have a property named '' @ quoted name))"

definition index_result :: "node \<Rightarrow> ty \<Rightarrow> error + ty" where
  "index_result nd left =
     (if left = TYPE_TEXT then Inr TYPE_CHARACTER
      else if is_list_type left then Inr (element_type left)
      else fail_on nd (type_name left @ '' values cannot be accessed by position''))"

fun check_expression :: "program \<Rightarrow> local_slot list \<Rightarrow> expression \<Rightarrow> error + (ty \<times> expression)"
and check_arguments :: "program \<Rightarrow> local_slot list \<Rightarrow> string list \<Rightarrow> ty list \<Rightarrow> expression list \<Rightarrow> error + expression list"
where
  "check_expression program ls (E_Integer nd i) = Inr (TYPE_INTEGER, E_Integer (typed nd TYPE_INTEGER) i)"
| "check_expression program ls (E_Text nd s) = Inr (TYPE_TEXT, E_Text (typed nd TYPE_TEXT) s)"
| "check_expression program ls (E_Character nd i) = Inr (TYPE_CHARACTER, E_Character (typed nd TYPE_CHARACTER) i)"
| "check_expression program ls (E_Boolean nd b) = Inr (TYPE_BOOLEAN, E_Boolean (typed nd TYPE_BOOLEAN) b)"
| "check_expression program ls (E_Name nd name) =
     (let i = find_local ls name in
      if i < 0 then fail_on nd (''I can't find a value named '' @ quoted name)
      else (let t = local_type (ls ! nat i) in Inr (t, E_Name (nd\<lparr>node_type := t, local_index := i\<rparr>) name)))"
| "check_expression program ls (E_Call nd name args) =
     (if name = ''print'' then
        (case args of
           [a] \<Rightarrow> rbind (check_expression program ls a) (\<lambda>(t, a').
                    if t = TYPE_NOTHING then fail_on nd ''print needs a value to display''
                    else Inr (TYPE_NOTHING, E_Call (typed nd TYPE_NOTHING) name [a']))
         | _ \<Rightarrow> fail_on nd ''print expects exactly one value'')
      else if name = ''fail'' then
        (if length args \<noteq> 1 then fail_on nd ''fail expects exactly one Text explanation''
         else rbind (check_arguments program ls [''a failure explanation''] [TYPE_TEXT] args) (\<lambda>as.
                Inr (TYPE_NOTHING, E_Call (typed nd TYPE_NOTHING) name as)))
      else if name = ''Text'' then
        (case args of
           [a] \<Rightarrow> rbind (check_expression program ls a) (\<lambda>(t, a').
                    if t = TYPE_NOTHING then fail_on nd ''Nothing cannot be converted to Text''
                    else Inr (TYPE_TEXT, E_Call (typed nd TYPE_TEXT) name [a']))
         | _ \<Rightarrow> fail_on nd ''Text expects exactly one value to describe'')
      else if name = ''joinText'' then
        (if length args \<noteq> 1 then fail_on nd ''joinText expects one List<Text>''
         else rbind (check_arguments program ls [''the Text pieces to join''] [TYPE_LIST_TEXT] args) (\<lambda>as.
                Inr (TYPE_TEXT, E_Call (typed nd TYPE_TEXT) name as)))
      else if name = ''readTextFile'' then
        (if length args \<noteq> 1 then fail_on nd ''readTextFile expects one file path''
         else rbind (check_arguments program ls [''a file path''] [TYPE_TEXT] args) (\<lambda>as.
                Inr (TYPE_TEXT, E_Call (typed nd TYPE_TEXT) name as)))
      else if name = ''writeTextFile'' then
        (if length args \<noteq> 2 then fail_on nd ''writeTextFile expects a file path and some Text''
         else rbind (check_arguments program ls [''a file path'', ''file contents''] [TYPE_TEXT, TYPE_TEXT] args) (\<lambda>as.
                Inr (TYPE_NOTHING, E_Call (typed nd TYPE_NOTHING) name as)))
      else if name = ''argumentCount'' then
        (if length args \<noteq> 0 then fail_on nd ''argumentCount does not take any values''
         else Inr (TYPE_INTEGER, E_Call (typed nd TYPE_INTEGER) name args))
      else if name = ''argument'' then
        (if length args \<noteq> 1 then fail_on nd ''argument expects one position''
         else rbind (check_arguments program ls [''an argument position''] [TYPE_INTEGER] args) (\<lambda>as.
                Inr (TYPE_TEXT, E_Call (typed nd TYPE_TEXT) name as)))
      else
        (case find_function program name of
           None \<Rightarrow> fail_on nd (''I can't find a function named '' @ quoted name)
         | Some f \<Rightarrow>
             if length args \<noteq> length (parameters f)
             then fail_on nd (name @ '' expects '' @ decimal_nat (length (parameters f)) @
                    '' arguments, but this call provides '' @ decimal_nat (length args))
             else rbind (check_arguments program ls (map (\<lambda>_. ''this function argument'') (parameters f))
                           (map parameter_type (parameters f)) args) (\<lambda>as.
                    Inr (return_type f, E_Call (typed nd (return_type f)) name as))))"
| "check_expression program ls (E_Unary nd op e) =
     rbind (check_expression program ls e) (\<lambda>(right, e').
       if op = Sym (CHR ''!'')
       then rbind (require_type e right TYPE_BOOLEAN ''logical not'') (\<lambda>_.
              Inr (TYPE_BOOLEAN, E_Unary (typed nd TYPE_BOOLEAN) op e'))
       else rbind (require_type e right TYPE_INTEGER ''negation'') (\<lambda>_.
              Inr (TYPE_INTEGER, E_Unary (typed nd TYPE_INTEGER) op e')))"
| "check_expression program ls (E_Binary nd op l r) =
     rbind (check_expression program ls l) (\<lambda>(left, l').
     rbind (check_expression program ls r) (\<lambda>(right, r').
     rbind (binary_result nd op l left right) (\<lambda>t.
       Inr (t, E_Binary (typed nd t) op l' r'))))"
| "check_expression program ls (E_Member nd name e) =
     rbind (check_expression program ls e) (\<lambda>(left, e').
     rbind (member_result nd name left) (\<lambda>t. Inr (t, E_Member (typed nd t) name e')))"
| "check_expression program ls (E_Index nd e i) =
     rbind (check_expression program ls e) (\<lambda>(left, e').
     rbind (check_expression program ls i) (\<lambda>(right, i').
     rbind (require_type i right TYPE_INTEGER ''a position'') (\<lambda>_.
     rbind (index_result nd left) (\<lambda>t. Inr (t, E_Index (typed nd t) e' i')))))"
| "check_expression program ls (E_List nd) =
     (if node_type nd = TYPE_UNKNOWN
      then fail_on nd (''an empty list needs a type, such as '' @ quoted ''let names: List<Text> = []'')
      else Inr (node_type nd, E_List nd))"
| "check_expression program ls (E_Method_Call nd name e args) =
     rbind (check_expression program ls e) (\<lambda>(left, e').
       if left = TYPE_TEXT then
         (if name \<noteq> ''slice''
          then fail_on nd (''Text does not provide the '' @ quoted name @ '' operation'')
          else if length args \<noteq> 2
          then fail_on nd ''Text.slice expects a starting and ending position''
          else rbind (check_arguments program ls [''a Text slice position'', ''a Text slice position'']
                        [TYPE_INTEGER, TYPE_INTEGER] args) (\<lambda>as.
                 Inr (TYPE_TEXT, E_Method_Call (typed nd TYPE_TEXT) name e' as)))
       else if \<not> is_list_type left
       then fail_on nd (type_name left @ '' does not provide the '' @ quoted name @ '' operation'')
       else if name \<noteq> ''add''
       then fail_on nd (''lists do not provide an operation named '' @ quoted name)
       else if length args \<noteq> 1
       then fail_on nd ''list.add expects exactly one value''
       else rbind (check_arguments program ls [''the value added to this list''] [element_type left] args) (\<lambda>as.
              Inr (TYPE_NOTHING, E_Method_Call (typed nd TYPE_NOTHING) name e' as)))"
| "check_arguments program ls (c # cs) (t # ts) (a # as) =
     rbind (check_expression program ls a) (\<lambda>(actual, a').
     rbind (require_type a actual t c) (\<lambda>_.
     rbind (check_arguments program ls cs ts as) (\<lambda>as'. Inr (a' # as'))))"
| "check_arguments program ls cs ts as = Inr []"

section \<open>Statements\<close>

lemma size_last_less: "xs \<noteq> [] \<Longrightarrow> f (last xs) < Suc (size_list f xs)"
  by (induction xs) auto

function statement_guarantees_return :: "statement \<Rightarrow> bool" where
  "statement_guarantees_return (S_Return l c e) = True"
| "statement_guarantees_return (S_If l c e then_body else_body) =
     (if else_body = [] then False
      else if then_body = [] \<or> else_body = [] then False
      else statement_guarantees_return (last then_body) \<and> statement_guarantees_return (last else_body))"
| "statement_guarantees_return (S_Let l c n t i e) = False"
| "statement_guarantees_return (S_Assign l c n i e) = False"
| "statement_guarantees_return (S_Index_Assign l c t e) = False"
| "statement_guarantees_return (S_Expression l c e) = False"
| "statement_guarantees_return (S_While l c e b) = False"
  by pat_completeness auto
termination
  by (relation "measure size") (auto dest!: size_last_less [of _ "size :: statement \<Rightarrow> nat"])

definition body_guarantees_return :: "statement list \<Rightarrow> bool" where
  "body_guarantees_return ss \<longleftrightarrow> ss \<noteq> [] \<and> statement_guarantees_return (last ss)"

text \<open>Leaving a scope: the slots added since its start are no longer visible, but stay allocated.\<close>

definition close_scope :: "nat \<Rightarrow> local_slot list \<Rightarrow> local_slot list" where
  "close_scope first ls = take first ls @ map (\<lambda>s. s\<lparr>active := False\<rparr>) (drop first ls)"

text \<open>An empty list literal takes the type its \<open>let\<close> declares.\<close>

definition declare_list :: "ty \<Rightarrow> expression \<Rightarrow> expression" where
  "declare_list declared e =
     (case e of E_List nd \<Rightarrow> if is_list_type declared then E_List (typed nd declared) else e | _ \<Rightarrow> e)"

definition index_base_type :: "expression \<Rightarrow> ty" where
  "index_base_type e = (case e of E_Index _ b _ \<Rightarrow> node_type (node_of b) | _ \<Rightarrow> TYPE_UNKNOWN)"

fun check_statement ::
    "program \<Rightarrow> ty \<Rightarrow> local_slot list \<Rightarrow> statement \<Rightarrow> error + (local_slot list \<times> statement)"
and check_statement_list ::
    "program \<Rightarrow> ty \<Rightarrow> local_slot list \<Rightarrow> bool \<Rightarrow> statement list \<Rightarrow> error + (local_slot list \<times> statement list)"
where
  "check_statement program rt ls (S_Let l c name declared i e) =
     rbind (check_expression program ls (declare_list declared e)) (\<lambda>(t, e').
       if t = TYPE_NOTHING then fail_at l c ''a let declaration needs a value''
       else if declared \<noteq> TYPE_UNKNOWN \<and> declared \<noteq> t
       then fail_at l c (quoted name @ '' was declared as '' @ type_name declared @ '' but receives '' @ type_name t)
       else rbind (add_local ls name t l c) (\<lambda>(j, ls'). Inr (ls', S_Let l c name t j e')))"
| "check_statement program rt ls (S_Assign l c name i e) =
     (let j = find_local ls name in
      if j < 0 then fail_at l c (''I can't find a value named '' @ quoted name)
      else rbind (check_expression program ls e) (\<lambda>(t, e').
             if t \<noteq> local_type (ls ! nat j)
             then fail_at l c (quoted name @ '' cannot change from '' @ type_name (local_type (ls ! nat j)) @
                    '' to '' @ type_name t)
             else Inr (ls, S_Assign l c name j e')))"
| "check_statement program rt ls (S_Index_Assign l c target e) =
     rbind (check_expression program ls target) (\<lambda>(target_type, target').
       if \<not> is_list_type (index_base_type target')
       then fail_at l c ''only List positions can receive a new value''
       else rbind (check_expression program ls e) (\<lambda>(t, e').
              if t \<noteq> target_type
              then fail_at l c (''this List contains '' @ type_name target_type @ '', not '' @ type_name t)
              else Inr (ls, S_Index_Assign l c target' e')))"
| "check_statement program rt ls (S_Expression l c e) =
     rbind (check_expression program ls e) (\<lambda>(t, e'). Inr (ls, S_Expression l c e'))"
| "check_statement program rt ls (S_Return l c eo) =
     rbind (case eo of None \<Rightarrow> Inr (TYPE_NOTHING, None)
            | Some e \<Rightarrow> rbind (check_expression program ls e) (\<lambda>(t, e'). Inr (t, Some e'))) (\<lambda>(t, eo').
       if t \<noteq> rt
       then fail_at l c (''this function returns '' @ type_name rt @ '', not '' @ type_name t)
       else Inr (ls, S_Return l c eo'))"
| "check_statement program rt ls (S_If l c e then_body else_body) =
     rbind (check_expression program ls e) (\<lambda>(t, e').
     rbind (require_type e t TYPE_BOOLEAN ''an if condition'') (\<lambda>_.
     rbind (check_statement_list program rt ls False then_body) (\<lambda>(ls1, then_body').
     let ls2 = close_scope (length ls) ls1 in
     rbind (check_statement_list program rt ls2 False else_body) (\<lambda>(ls3, else_body').
       Inr (close_scope (length ls2) ls3, S_If l c e' then_body' else_body')))))"
| "check_statement program rt ls (S_While l c e loop_body) =
     rbind (check_expression program ls e) (\<lambda>(t, e').
     rbind (require_type e t TYPE_BOOLEAN ''a while condition'') (\<lambda>_.
     rbind (check_statement_list program rt ls False loop_body) (\<lambda>(ls1, loop_body').
       Inr (close_scope (length ls) ls1, S_While l c e' loop_body'))))"
| "check_statement_list program rt ls returned [] = Inr (ls, [])"
| "check_statement_list program rt ls returned (s # ss) =
     (if returned
      then fail_at (statement_line s) (statement_column s)
             ''this statement can never run because the function already returned''
      else rbind (check_statement program rt ls s) (\<lambda>(ls1, s').
           rbind (check_statement_list program rt ls1 (statement_guarantees_return s) ss) (\<lambda>(ls2, ss').
             Inr (ls2, s' # ss'))))"

text \<open>\<open>check_statements\<close>: the list, then the end of the scope it creates, if it creates one.\<close>

definition check_statements ::
    "program \<Rightarrow> ty \<Rightarrow> local_slot list \<Rightarrow> statement list \<Rightarrow> bool \<Rightarrow> error + (local_slot list \<times> statement list)" where
  "check_statements program rt ls ss creates_scope =
     rbind (check_statement_list program rt ls False ss) (\<lambda>(ls', ss').
       Inr (if creates_scope then close_scope (length ls) ls' else ls', ss'))"

section \<open>Programs\<close>

fun add_parameters :: "local_slot list \<Rightarrow> parameter list \<Rightarrow> error + local_slot list" where
  "add_parameters ls [] = Inr ls"
| "add_parameters ls (q # qs) =
     rbind (add_local ls (parameter_name q) (parameter_type q) (parameter_line q) (parameter_column q))
       (\<lambda>(i, ls'). add_parameters ls' qs)"

definition check_function :: "program \<Rightarrow> string list \<Rightarrow> function_decl \<Rightarrow> error + function_decl" where
  "check_function program earlier f =
     (if function_name f \<in> set earlier
      then fail_at (function_line f) (function_column f)
             (''there is already a function named '' @ quoted (function_name f))
      else if function_name f = ''main'' \<and> parameters f \<noteq> []
      then fail_at (function_line f) (function_column f) ''main does not take parameters yet''
      else
        rbind (add_parameters (locals f) (parameters f)) (\<lambda>ls.
        rbind (check_statements program (return_type f) ls (body f) False) (\<lambda>(ls', statements).
          if return_type f \<noteq> TYPE_NOTHING \<and> function_name f \<noteq> ''main'' \<and> \<not> body_guarantees_return statements
          then fail_at (function_line f) (function_column f)
                 (quoted (function_name f) @ '' promises to return '' @ type_name (return_type f) @ '' on every path'')
          else Inr (f\<lparr>body := statements, locals := ls'\<rparr>))))"

fun check_functions :: "program \<Rightarrow> string list \<Rightarrow> function_decl list \<Rightarrow> error + function_decl list" where
  "check_functions program earlier [] = Inr []"
| "check_functions program earlier (f # fs) =
     rbind (check_function program earlier f) (\<lambda>f'.
     rbind (check_functions program (earlier @ [function_name f]) fs) (\<lambda>fs'. Inr (f' # fs')))"

definition check_program :: "program \<Rightarrow> error + program" where
  "check_program program =
     (if find_function program ''main'' = None
      then fail_at 1 1 (''every program needs a function named '' @ quoted ''main'')
      else rbind (check_functions program [] (program_functions program)) (\<lambda>fs.
             Inr (program\<lparr>program_functions := fs\<rparr>)))"

end
