(* ===== verification/Typing.thy ===== *)
theory Typing
  imports Checker
begin

text \<open>
  What the checker accepts. The language's typing rules are stated as an inductive relation,
  one rule per form of expression, over a scope: a map from the names visible at a point of the
  program to their types. The checker works on a table of slots that are switched on and off;
  \<open>visible\<close> abstracts such a table to a scope, and under that abstraction the checker's
  decisions are shown to be exactly the rules.
\<close>

section \<open>Visible bindings\<close>

text \<open>The type a name has: that of the newest slot of that name still in scope.\<close>

type_synonym scope = "string \<Rightarrow> ty option"

definition visible :: "local_slot list \<Rightarrow> scope" where
  "visible ls name = map_option local_type (List.find (\<lambda>s. active s \<and> local_name s = name) (rev ls))"

lemma visible_Nil [simp]: "visible [] name = None"
  by (simp add: visible_def)

lemma visible_snoc [simp]:
  "visible (ls @ [s]) name =
     (if active s \<and> local_name s = name then Some (local_type s) else visible ls name)"
  by (simp add: visible_def)

lemma find_local_below_append:
  "i \<le> length ls \<Longrightarrow> find_local_below (ls @ ls') name i = find_local_below ls name i"
  by (induction i) (simp_all add: nth_append)

lemma find_local_Nil [simp]: "find_local [] name = -1"
  by (simp add: find_local_def)

lemma find_local_snoc [simp]:
  "find_local (ls @ [s]) name =
     (if active s \<and> local_name s = name then int (length ls) else find_local ls name)"
  by (simp add: find_local_def find_local_below_append)

lemma find_local_cases:
  "(find_local ls name = -1 \<and> visible ls name = None) \<or>
   (0 \<le> find_local ls name \<and> nat (find_local ls name) < length ls \<and>
    active (ls ! nat (find_local ls name)) \<and> local_name (ls ! nat (find_local ls name)) = name \<and>
    visible ls name = Some (local_type (ls ! nat (find_local ls name))))"
proof (induction ls rule: rev_induct)
  case (snoc s ls)
  then show ?case by (auto simp: nth_append)
qed simp

lemma find_local_negative: "find_local ls name < 0 \<longleftrightarrow> visible ls name = None"
  using find_local_cases [of ls name] by auto

lemma find_local_visible:
  "0 \<le> find_local ls name \<Longrightarrow> visible ls name = Some (local_type (ls ! nat (find_local ls name)))"
  using find_local_cases [of ls name] by auto

lemma find_local_bound: "0 \<le> find_local ls name \<Longrightarrow> nat (find_local ls name) < length ls"
  using find_local_cases [of ls name] by auto

section \<open>Typing rules\<close>

text \<open>The built-in operations with fixed argument types: their parameters and their result.\<close>

definition builtin_signature :: "string \<Rightarrow> (ty list \<times> ty) option" where
  "builtin_signature name =
     (if name = ''fail'' then Some ([TYPE_TEXT], TYPE_NOTHING)
      else if name = ''joinText'' then Some ([TYPE_LIST_TEXT], TYPE_TEXT)
      else if name = ''readTextFile'' then Some ([TYPE_TEXT], TYPE_TEXT)
      else if name = ''writeTextFile'' then Some ([TYPE_TEXT, TYPE_TEXT], TYPE_NOTHING)
      else if name = ''argumentCount'' then Some ([], TYPE_INTEGER)
      else if name = ''argument'' then Some ([TYPE_INTEGER], TYPE_TEXT)
      else None)"

text \<open>Operands of one type \<open>t\<close>: the operators that accept it, and the result.\<close>

definition operator_type :: "token_kind \<Rightarrow> ty \<Rightarrow> ty option" where
  "operator_type op t =
     (if op = TOKEN_EQUAL_EQUAL \<or> op = TOKEN_NOT_EQUAL then
        (if t \<noteq> TYPE_NOTHING then Some TYPE_BOOLEAN else None)
      else if op = TOKEN_AND \<or> op = TOKEN_OR then
        (if t = TYPE_BOOLEAN then Some TYPE_BOOLEAN else None)
      else if op \<in> {Sym (CHR ''<''), Sym (CHR ''>''), TOKEN_LESS_EQUAL, TOKEN_GREATER_EQUAL} then
        (if t = TYPE_INTEGER \<or> t = TYPE_CHARACTER then Some TYPE_BOOLEAN else None)
      else if op = Sym (CHR ''+'') \<and> t = TYPE_TEXT then Some TYPE_TEXT
      else if t = TYPE_INTEGER then Some TYPE_INTEGER else None)"

inductive has_type :: "program \<Rightarrow> scope \<Rightarrow> expression \<Rightarrow> ty \<Rightarrow> bool"
  and has_types :: "program \<Rightarrow> scope \<Rightarrow> expression list \<Rightarrow> ty list \<Rightarrow> bool"
  for program \<Gamma>
where
  integer: "has_type program \<Gamma> (E_Integer nd i) TYPE_INTEGER"
| text_literal: "has_type program \<Gamma> (E_Text nd x) TYPE_TEXT"
| character: "has_type program \<Gamma> (E_Character nd i) TYPE_CHARACTER"
| boolean: "has_type program \<Gamma> (E_Boolean nd b) TYPE_BOOLEAN"
| name: "\<Gamma> x = Some t \<Longrightarrow> has_type program \<Gamma> (E_Name nd x) t"
| print: "has_type program \<Gamma> e t \<Longrightarrow> t \<noteq> TYPE_NOTHING \<Longrightarrow>
    has_type program \<Gamma> (E_Call nd ''print'' [e]) TYPE_NOTHING"
| text_of: "has_type program \<Gamma> e t \<Longrightarrow> t \<noteq> TYPE_NOTHING \<Longrightarrow>
    has_type program \<Gamma> (E_Call nd ''Text'' [e]) TYPE_TEXT"
| builtin: "builtin_signature f = Some (ts, t) \<Longrightarrow> has_types program \<Gamma> es ts \<Longrightarrow>
    has_type program \<Gamma> (E_Call nd f es) t"
| call: "builtin_signature f = None \<Longrightarrow> f \<noteq> ''print'' \<Longrightarrow> f \<noteq> ''Text'' \<Longrightarrow>
    find_function program f = Some d \<Longrightarrow> has_types program \<Gamma> es (map parameter_type (parameters d)) \<Longrightarrow>
    has_type program \<Gamma> (E_Call nd f es) (return_type d)"
| negation: "op = Sym (CHR ''!'') \<Longrightarrow> has_type program \<Gamma> e TYPE_BOOLEAN \<Longrightarrow>
    has_type program \<Gamma> (E_Unary nd op e) TYPE_BOOLEAN"
| minus: "op \<noteq> Sym (CHR ''!'') \<Longrightarrow> has_type program \<Gamma> e TYPE_INTEGER \<Longrightarrow>
    has_type program \<Gamma> (E_Unary nd op e) TYPE_INTEGER"
| binary: "has_type program \<Gamma> l t \<Longrightarrow> has_type program \<Gamma> r t \<Longrightarrow> operator_type op t = Some u \<Longrightarrow>
    has_type program \<Gamma> (E_Binary nd op l r) u"
| byte_length: "has_type program \<Gamma> e TYPE_TEXT \<Longrightarrow> has_type program \<Gamma> (E_Member nd ''byteLength'' e) TYPE_INTEGER"
| length: "has_type program \<Gamma> e t \<Longrightarrow> t = TYPE_TEXT \<or> is_list_type t \<Longrightarrow>
    has_type program \<Gamma> (E_Member nd ''length'' e) TYPE_INTEGER"
| character_at: "has_type program \<Gamma> e TYPE_TEXT \<Longrightarrow> has_type program \<Gamma> i TYPE_INTEGER \<Longrightarrow>
    has_type program \<Gamma> (E_Index nd e i) TYPE_CHARACTER"
| element_at: "has_type program \<Gamma> e t \<Longrightarrow> is_list_type t \<Longrightarrow> has_type program \<Gamma> i TYPE_INTEGER \<Longrightarrow>
    has_type program \<Gamma> (E_Index nd e i) (element_type t)"
| empty_list: "node_type nd \<noteq> TYPE_UNKNOWN \<Longrightarrow> has_type program \<Gamma> (E_List nd) (node_type nd)"
| slice: "has_type program \<Gamma> e TYPE_TEXT \<Longrightarrow> has_types program \<Gamma> es [TYPE_INTEGER, TYPE_INTEGER] \<Longrightarrow>
    has_type program \<Gamma> (E_Method_Call nd ''slice'' e es) TYPE_TEXT"
| add: "has_type program \<Gamma> e t \<Longrightarrow> is_list_type t \<Longrightarrow> has_types program \<Gamma> es [element_type t] \<Longrightarrow>
    has_type program \<Gamma> (E_Method_Call nd ''add'' e es) TYPE_NOTHING"
| types_Nil: "has_types program \<Gamma> [] []"
| types_Cons: "has_type program \<Gamma> e t \<Longrightarrow> has_types program \<Gamma> es ts \<Longrightarrow> has_types program \<Gamma> (e # es) (t # ts)"

inductive_simps has_type_simps:
  "has_type program \<Gamma> (E_Integer nd i) t"
  "has_type program \<Gamma> (E_Text nd x) t"
  "has_type program \<Gamma> (E_Character nd i) t"
  "has_type program \<Gamma> (E_Boolean nd b) t"
  "has_type program \<Gamma> (E_Name nd x) t"
  "has_type program \<Gamma> (E_Call nd f es) t"
  "has_type program \<Gamma> (E_Unary nd op e) t"
  "has_type program \<Gamma> (E_Binary nd op l r) t"
  "has_type program \<Gamma> (E_Member nd m e) t"
  "has_type program \<Gamma> (E_Index nd e i) t"
  "has_type program \<Gamma> (E_List nd) t"
  "has_type program \<Gamma> (E_Method_Call nd m e es) t"
  "has_types program \<Gamma> [] ts"
  "has_types program \<Gamma> (e # es) ts"

lemma has_types_length: "has_types program \<Gamma> es ts \<Longrightarrow> length es = length ts"
  by (induction es arbitrary: ts) (auto simp: has_type_simps)

section \<open>The checker decides the typing rules\<close>

definition accepts :: "program \<Rightarrow> local_slot list \<Rightarrow> expression \<Rightarrow> ty \<Rightarrow> bool" where
  "accepts program ls e t \<longleftrightarrow> (\<exists>e'. check_expression program ls e = Inr (t, e'))"

lemma acceptsI: "check_expression program ls e = Inr (t, e') \<Longrightarrow> accepts program ls e t"
  by (auto simp: accepts_def)

lemma binary_result_eq: "binary_result nd op e s t = Inr u \<longleftrightarrow> s = t \<and> operator_type op s = Some u"
  by (auto simp: binary_result.simps operator_type_def rbind_eq_Inr split: if_splits)

lemma member_result_eq:
  "member_result nd m t = Inr u \<longleftrightarrow>
     u = TYPE_INTEGER \<and> (t = TYPE_TEXT \<and> m = ''byteLength'' \<or> (t = TYPE_TEXT \<or> is_list_type t) \<and> m = ''length'')"
  by (auto simp: member_result_def split: if_splits)

lemma index_result_eq:
  "index_result nd t = Inr u \<longleftrightarrow>
     t = TYPE_TEXT \<and> u = TYPE_CHARACTER \<or> is_list_type t \<and> u = element_type t"
  by (auto simp: index_result_def split: if_splits)

lemma check_arguments_accepts:
  "length cs = length ts \<Longrightarrow> length es = length ts \<Longrightarrow>
   (\<exists>es'. check_arguments program ls cs ts es = Inr es') \<longleftrightarrow> list_all2 (accepts program ls) es ts"
proof (induction es arbitrary: cs ts)
  case Nil
  then show ?case by simp
next
  case (Cons e es)
  then obtain c cs' t ts' where "cs = c # cs'" "ts = t # ts'"
    by (cases cs; cases ts) auto
  with Cons.IH [of cs' ts'] Cons.prems show ?case
    by (auto simp: accepts_def rbind_eq_Inr)
qed

lemma has_types_list_all2: "has_types program (visible ls) es ts \<longleftrightarrow> list_all2 (has_type program (visible ls)) es ts"
proof (induction es arbitrary: ts)
  case (Cons e es)
  then show ?case by (cases ts) (auto simp: has_type_simps)
qed (auto simp: has_type_simps)

lemma check_arguments_has_types:
  assumes "\<And>e t. e \<in> set es \<Longrightarrow> accepts program ls e t \<longleftrightarrow> has_type program (visible ls) e t"
    and "length cs = length ts" and "length es = length ts"
  shows "(\<exists>es'. check_arguments program ls cs ts es = Inr es') \<longleftrightarrow> has_types program (visible ls) es ts"
  using assms check_arguments_accepts [of cs ts es program ls]
  by (simp add: has_types_list_all2 list_all2_conv_all_nth)

lemma builtin_accepts:
  assumes IH: "\<And>e t. e \<in> set es \<Longrightarrow> accepts program ls e t \<longleftrightarrow> has_type program (visible ls) e t"
    and f: "builtin_signature f = Some (ts, u)"
  shows "accepts program ls (E_Call nd f es) t \<longleftrightarrow> t = u \<and> has_types program (visible ls) es ts"
proof -
  have args: "(\<exists>es'. check_arguments program ls cs ts es = Inr es') \<longleftrightarrow> has_types program (visible ls) es ts"
    if "length cs = length ts" "length es = length ts" for cs
    using check_arguments_has_types [of es program ls cs ts] IH that by blast
  have len: "has_types program (visible ls) es ts \<Longrightarrow> length es = length ts"
    by (rule has_types_length)
  from f consider "f = ''fail''" | "f = ''joinText''" | "f = ''readTextFile''" | "f = ''writeTextFile''"
    | "f = ''argumentCount''" | "f = ''argument''"
    by (auto simp: builtin_signature_def split: if_splits)
  then show ?thesis
  proof cases
    case 5
    with f len show ?thesis
      by (auto simp: accepts_def builtin_signature_def has_type_simps)
  qed (use f len args [of "[''a failure explanation'']"] args [of "[''the Text pieces to join'']"]
        args [of "[''a file path'']"] args [of "[''a file path'', ''file contents'']"]
        args [of "[''an argument position'']"]
      in \<open>auto simp: accepts_def builtin_signature_def rbind_eq_Inr split: if_splits\<close>)
qed


lemma call_accepts:
  assumes IH: "\<And>e t. e \<in> set es \<Longrightarrow> accepts program ls e t \<longleftrightarrow> has_type program (visible ls) e t"
    and f: "builtin_signature f = None" "f \<noteq> ''print''" "f \<noteq> ''Text''"
  shows "accepts program ls (E_Call nd f es) t \<longleftrightarrow>
    (\<exists>d. find_function program f = Some d \<and> t = return_type d \<and>
         has_types program (visible ls) es (map parameter_type (parameters d)))"
proof (cases "find_function program f")
  case None
  with f show ?thesis by (auto simp: accepts_def builtin_signature_def split: if_splits)
next
  case (Some d)
  let ?ts = "map parameter_type (parameters d)"
  have "(\<exists>es'. check_arguments program ls (map (\<lambda>_. ''this function argument'') (parameters d)) ?ts es = Inr es')
      \<longleftrightarrow> has_types program (visible ls) es ?ts" if "length es = length (parameters d)"
    using check_arguments_has_types [of es program ls "map (\<lambda>_. ''this function argument'') (parameters d)" ?ts]
      IH that by simp
  then show ?thesis
    using f Some has_types_length [of program "visible ls" es ?ts]
    by (auto simp: accepts_def builtin_signature_def rbind_eq_Inr split: if_splits)
qed

lemma single_argument_accepts:
  assumes IH: "\<And>e t. e \<in> set es \<Longrightarrow> accepts program ls e t \<longleftrightarrow> has_type program (visible ls) e t"
    and f: "f = ''print'' \<or> f = ''Text''"
  shows "accepts program ls (E_Call nd f es) t \<longleftrightarrow>
    (\<exists>e u. es = [e] \<and> has_type program (visible ls) e u \<and> u \<noteq> TYPE_NOTHING \<and>
           t = (if f = ''print'' then TYPE_NOTHING else TYPE_TEXT))"
proof (cases "\<exists>e. es = [e]")
  case True
  then obtain e where e: "es = [e]" by blast
  have left: "has_type program (visible ls) e u \<longleftrightarrow> (\<exists>e'. check_expression program ls e = Inr (u, e'))" for u
    using IH [of e u] e by (simp add: accepts_def)
  from f show ?thesis
    by (elim disjE) (simp_all add: accepts_def rbind_eq_Inr left e, blast+)
next
  case False
  then consider "es = []" | a b cs where "es = a # b # cs"
    by (cases es; cases "tl es") auto
  then show ?thesis
    using f by cases (auto simp: accepts_def)
qed

lemma builtin_signature_reserved [simp]:
  "builtin_signature ''print'' = None" "builtin_signature ''Text'' = None"
  by (simp_all add: builtin_signature_def)

lemma accepts_binary:
  "accepts program ls (E_Binary nd op l r) t \<longleftrightarrow>
     (\<exists>u. accepts program ls l u \<and> accepts program ls r u \<and> operator_type op u = Some t)"
  unfolding accepts_def by (fastforce simp: rbind_eq_Inr binary_result_eq)

lemma accepts_index:
  "accepts program ls (E_Index nd e i) t \<longleftrightarrow>
     (\<exists>u. accepts program ls e u \<and> accepts program ls i TYPE_INTEGER \<and>
        (u = TYPE_TEXT \<and> t = TYPE_CHARACTER \<or> is_list_type u \<and> t = element_type u))"
  unfolding accepts_def by (fastforce simp: rbind_eq_Inr index_result_eq)

lemma accepts_iff: "accepts program ls e t \<longleftrightarrow> has_type program (visible ls) e t"
proof (induction e arbitrary: t)
  case (E_Name nd x)
  show ?case
    using find_local_negative [of ls x] find_local_visible [of ls x]
    by (auto simp: accepts_def has_type_simps Let_def)
next
  case (E_Call nd f es)
  consider (single) "f = ''print'' \<or> f = ''Text''" | (builtin) ts u where "builtin_signature f = Some (ts, u)"
    | (user) "builtin_signature f = None" "f \<noteq> ''print''" "f \<noteq> ''Text''"
    by (cases "builtin_signature f") auto
  then show ?case
  proof cases
    case single
    then show ?thesis
      using single_argument_accepts [of es program ls f nd t] E_Call
      by (auto simp: has_type_simps)
  next
    case builtin
    then have "f \<noteq> ''print''" "f \<noteq> ''Text''" by auto
    then show ?thesis
      using builtin_accepts [of es program ls f ts u nd t] builtin E_Call
      by (auto simp: has_type_simps)
  next
    case user
    then show ?thesis
      using call_accepts [of es program ls f nd t] E_Call
      by (auto simp: has_type_simps)
  qed
next
  case (E_Method_Call nd m e es)
  have args: "(\<exists>es'. check_arguments program ls cs ts es = Inr es') \<longleftrightarrow> has_types program (visible ls) es ts"
    if "length cs = length ts" "length es = length ts" for cs ts
    using check_arguments_has_types [of es program ls cs ts] E_Method_Call.IH(2) that by blast
  have left: "(\<exists>e'. check_expression program ls e = Inr (u, e')) \<longleftrightarrow> has_type program (visible ls) e u" for u
    using E_Method_Call.IH(1) by (simp add: accepts_def)
  have slice: "(\<exists>es'. length es = 2 \<and> check_arguments program ls [''a Text slice position'', ''a Text slice position'']
      [TYPE_INTEGER, TYPE_INTEGER] es = Inr es') \<longleftrightarrow> has_types program (visible ls) es [TYPE_INTEGER, TYPE_INTEGER]"
    using args [of "[''a Text slice position'', ''a Text slice position'']" "[TYPE_INTEGER, TYPE_INTEGER]"]
      has_types_length [of program "visible ls" es "[TYPE_INTEGER, TYPE_INTEGER]"] by auto
  have add: "(\<exists>es'. length es = 1 \<and> check_arguments program ls [''the value added to this list''] [u] es = Inr es')
      \<longleftrightarrow> has_types program (visible ls) es [u]" for u
    using args [of "[''the value added to this list'']" "[u]"] has_types_length [of program "visible ls" es "[u]"] by auto
  have "accepts program ls (E_Method_Call nd m e es) t \<longleftrightarrow>
      (\<exists>u. has_type program (visible ls) e u \<and>
        (u = TYPE_TEXT \<and> m = ''slice'' \<and> t = TYPE_TEXT \<and> has_types program (visible ls) es [TYPE_INTEGER, TYPE_INTEGER] \<or>
         is_list_type u \<and> m = ''add'' \<and> t = TYPE_NOTHING \<and> has_types program (visible ls) es [element_type u]))"
    unfolding left [symmetric] slice [symmetric] add [symmetric]
    by (fastforce simp: accepts_def rbind_eq_Inr split: if_splits)
  then show ?case by (auto simp: has_type_simps)
next
  case (E_Binary nd op l r)
  then show ?case by (auto simp: accepts_binary has_type_simps)
next
  case (E_Index nd e i)
  then show ?case by (auto simp: accepts_index has_type_simps)
qed (auto simp: accepts_def has_type_simps rbind_eq_Inr member_result_eq)

text \<open>
  C2. The checker decides the typing rules: on any expression, with any table of slots, it succeeds with
  type \<open>t\<close> exactly when the rules give the expression that type in the visible scope. So it neither accepts an
  ill-typed expression nor rejects a well-typed one.
\<close>

theorem check_expression_decides:
  "(\<exists>e'. check_expression program ls e = Inr (t, e')) \<longleftrightarrow> has_type program (visible ls) e t"
  using accepts_iff [of program ls e t] by (simp add: accepts_def)

section \<open>The annotated tree\<close>

text \<open>A second pass over the annotated tree changes nothing, and the root carries the type.\<close>

lemma check_arguments_length:
  "check_arguments program ls cs ts es = Inr es' \<Longrightarrow> length cs = length ts \<Longrightarrow> length es = length ts \<Longrightarrow>
   length es' = length ts"
proof (induction es arbitrary: cs ts es')
  case (Cons e es)
  then obtain c cs' t ts' where "cs = c # cs'" "ts = t # ts'"
    by (cases cs; cases ts) auto
  with Cons.IH Cons.prems show ?case by (auto simp: rbind_eq_Inr)
qed simp

lemma check_arguments_Cons:
  "check_arguments program ls (c # cs) (t # ts) (e # es) = Inr es' \<longleftrightarrow>
   (\<exists>e1 es1. check_expression program ls e = Inr (t, e1) \<and>
             check_arguments program ls cs ts es = Inr es1 \<and> es' = e1 # es1)"
  by (auto simp: rbind_eq_Inr)

lemma check_arguments_idem:
  assumes "\<And>e t e'. e \<in> set es \<Longrightarrow> check_expression program ls e = Inr (t, e') \<Longrightarrow>
      check_expression program ls e' = Inr (t, e')"
  shows "check_arguments program ls cs ts es = Inr es' \<Longrightarrow> length cs = length ts \<Longrightarrow> length es = length ts \<Longrightarrow>
     check_arguments program ls cs ts es' = Inr es'"
  using assms
proof (induction es arbitrary: cs ts es')
  case (Cons e es)
  from Cons.prems(2,3) obtain c cs' t ts' where cs: "cs = c # cs'" "ts = t # ts'"
    by (cases cs; cases ts) auto
  with Cons.prems(1) obtain e1 es1 where e1: "check_expression program ls e = Inr (t, e1)"
    and es1: "check_arguments program ls cs' ts' es = Inr es1" "es' = e1 # es1"
    by (auto simp: check_arguments_Cons simp del: check_arguments.simps)
  have "check_expression program ls e1 = Inr (t, e1)"
    using Cons.prems(4) [of e t e1] e1 by simp
  moreover have "check_arguments program ls cs' ts' es1 = Inr es1"
  proof (rule Cons.IH [OF es1(1)])
    show "length cs' = length ts'" "length es = length ts'"
      using Cons.prems(2,3) cs by simp_all
    show "check_expression program ls b' = Inr (u, b')"
      if "b \<in> set es" "check_expression program ls b = Inr (u, b')" for b u b'
      using Cons.prems(4) [of b u b'] that by simp
  qed
  ultimately show ?case
    unfolding cs es1(2) check_arguments_Cons by blast
qed simp

text \<open>The three kinds of call, each as one equivalence.\<close>

definition builtin_contexts :: "string \<Rightarrow> string list" where
  "builtin_contexts name =
     (if name = ''fail'' then [''a failure explanation'']
      else if name = ''joinText'' then [''the Text pieces to join'']
      else if name = ''readTextFile'' then [''a file path'']
      else if name = ''writeTextFile'' then [''a file path'', ''file contents'']
      else if name = ''argument'' then [''an argument position'']
      else [])"

lemma check_builtin_call:
  assumes "builtin_signature f = Some (ts, u)"
  shows "check_expression program ls (E_Call nd f es) = Inr (t, e') \<longleftrightarrow>
     length es = length ts \<and> t = u \<and>
     (\<exists>as. check_arguments program ls (builtin_contexts f) ts es = Inr as \<and> e' = E_Call (typed nd u) f as)"
proof -
  from assms consider "f = ''fail''" | "f = ''joinText''" | "f = ''readTextFile''" | "f = ''writeTextFile''"
    | "f = ''argumentCount''" | "f = ''argument''"
    by (auto simp: builtin_signature_def split: if_splits)
  then show ?thesis
    using assms by cases (auto simp: builtin_signature_def builtin_contexts_def rbind_eq_Inr split: if_splits)
qed

lemma length_builtin_contexts: "builtin_signature f = Some (ts, u) \<Longrightarrow> length (builtin_contexts f) = length ts"
  by (auto simp: builtin_signature_def builtin_contexts_def split: if_splits)

lemma check_user_call:
  assumes "builtin_signature f = None" "f \<noteq> ''print''" "f \<noteq> ''Text''"
  shows "check_expression program ls (E_Call nd f es) = Inr (t, e') \<longleftrightarrow>
     (\<exists>d as. find_function program f = Some d \<and> length es = length (parameters d) \<and> t = return_type d \<and>
        check_arguments program ls (map (\<lambda>_. ''this function argument'') (parameters d))
          (map parameter_type (parameters d)) es = Inr as \<and>
        e' = E_Call (typed nd t) f as)"
proof (cases "find_function program f")
  case None
  with assms show ?thesis by (auto simp: builtin_signature_def split: if_splits)
next
  case (Some d)
  with assms show ?thesis by (auto simp: builtin_signature_def rbind_eq_Inr split: if_splits)
qed

lemma check_single_call:
  assumes "f = ''print'' \<and> u = TYPE_NOTHING \<or> f = ''Text'' \<and> u = TYPE_TEXT"
  shows "check_expression program ls (E_Call nd f es) = Inr (t, e') \<longleftrightarrow>
     t = u \<and> (\<exists>a a' s. es = [a] \<and> check_expression program ls a = Inr (s, a') \<and> s \<noteq> TYPE_NOTHING \<and>
                       e' = E_Call (typed nd u) f [a'])"
proof (cases "\<exists>a. es = [a]")
  case True
  then obtain a where "es = [a]" by blast
  with assms show ?thesis
    by (elim disjE conjE) (auto simp: rbind_eq_Inr split: if_splits)
next
  case False
  then consider "es = []" | a b cs where "es = a # b # cs"
    by (cases es; cases "tl es") auto
  then show ?thesis
    using assms by cases auto
qed

lemma call_kind:
  obtains (single) u where "f = ''print'' \<and> u = TYPE_NOTHING \<or> f = ''Text'' \<and> u = TYPE_TEXT"
    | (builtin) ts u where "builtin_signature f = Some (ts, u)"
    | (user) "builtin_signature f = None" "f \<noteq> ''print''" "f \<noteq> ''Text''"
  by (cases "builtin_signature f") auto

declare check_expression.simps(6) [simp del]

lemma check_call_idem:
  assumes args: "\<And>e t e'. e \<in> set es \<Longrightarrow> check_expression program ls e = Inr (t, e') \<Longrightarrow>
      check_expression program ls e' = Inr (t, e')"
    and ok: "check_expression program ls (E_Call nd f es) = Inr (t, e')"
  shows "check_expression program ls e' = Inr (t, e')"
proof -
  have idem: "check_arguments program ls cs ts es' = Inr es' \<and> length es' = length ts"
    if "check_arguments program ls cs ts es = Inr es'" "length cs = length ts" "length es = length ts" for cs ts es'
    using check_arguments_idem [of es program ls cs ts es'] check_arguments_length [of program ls cs ts es es'] args that
    by blast
  show ?thesis
  proof (cases rule: call_kind [of f])
    case (single u)
    with ok obtain a a' s where a: "es = [a]" "check_expression program ls a = Inr (s, a')" "s \<noteq> TYPE_NOTHING"
      "e' = E_Call (typed nd u) f [a']" "t = u"
      by (auto simp: check_single_call [OF single])
    then show ?thesis
      using args [of a s a'] by (simp add: check_single_call [OF single])
  next
    case (builtin ts u)
    with ok length_builtin_contexts [OF builtin] idem show ?thesis
      by (auto simp: check_builtin_call [OF builtin])
  next
    case user
    with ok obtain d as where d: "find_function program f = Some d" "length es = length (parameters d)"
      "t = return_type d" "check_arguments program ls (map (\<lambda>_. ''this function argument'') (parameters d))
          (map parameter_type (parameters d)) es = Inr as" "e' = E_Call (typed nd t) f as"
      by (auto simp: check_user_call)
    with idem [OF d(4)] user show ?thesis by (auto simp: check_user_call)
  qed
qed

lemma check_expression_idem:
  "check_expression program ls e = Inr (t, e') \<Longrightarrow> check_expression program ls e' = Inr (t, e')"
proof (induction e arbitrary: t e')
  case (E_Call nd f es)
  show ?case by (rule check_call_idem [OF _ E_Call.prems]) (rule E_Call.IH)
next
  case (E_Method_Call nd m e es)
  have idem: "check_arguments program ls cs ts es' = Inr es' \<and> length es' = length ts"
    if "check_arguments program ls cs ts es = Inr es'" "length cs = length ts" "length es = length ts" for cs ts es'
    using check_arguments_idem [of es program ls cs ts es'] check_arguments_length [of program ls cs ts es es']
      E_Method_Call.IH(2) that by blast
  obtain u b where b: "check_expression program ls e = Inr (u, b)"
    using E_Method_Call.prems by (auto simp: rbind_eq_Inr)
  with E_Method_Call.IH(1) have b': "check_expression program ls b = Inr (u, b)" by blast
  from E_Method_Call.prems b show ?case
    by (auto simp: rbind_eq_Inr b' idem split: if_splits)
next
  case (E_Unary nd op e)
  from E_Unary.prems obtain u b where b: "check_expression program ls e = Inr (u, b)"
    by (auto simp: rbind_eq_Inr)
  with E_Unary.IH have "check_expression program ls b = Inr (u, b)" by blast
  with E_Unary.prems b show ?case by (auto split: if_splits simp: rbind_eq_Inr)
next
  case (E_Binary nd op l r)
  from E_Binary.prems obtain u l' v r' where lr: "check_expression program ls l = Inr (u, l')"
    "check_expression program ls r = Inr (v, r')" "binary_result nd op l u v = Inr t"
    "e' = E_Binary (typed nd t) op l' r'"
    by (auto simp: rbind_eq_Inr)
  with E_Binary.IH have "check_expression program ls l' = Inr (u, l')" "check_expression program ls r' = Inr (v, r')"
    by blast+
  moreover from lr(3) have "binary_result (typed nd t) op l' u v = Inr t"
    by (auto simp: binary_result_eq)
  ultimately show ?case using lr(4) by simp
next
  case (E_Member nd name e)
  from E_Member.prems obtain u b where b: "check_expression program ls e = Inr (u, b)"
    "member_result nd name u = Inr t" "e' = E_Member (typed nd t) name b"
    by (auto simp: rbind_eq_Inr)
  with E_Member.IH have "check_expression program ls b = Inr (u, b)" by blast
  with b show ?case by (simp add: rbind_eq_Inr member_result_eq)
next
  case (E_Index nd e i)
  from E_Index.prems obtain u b j where b: "check_expression program ls e = Inr (u, b)"
    "check_expression program ls i = Inr (TYPE_INTEGER, j)"
    "index_result nd u = Inr t" "e' = E_Index (typed nd t) b j"
    by (auto simp: rbind_eq_Inr)
  with E_Index.IH have "check_expression program ls b = Inr (u, b)" "check_expression program ls j = Inr (TYPE_INTEGER, j)"
    by blast+
  with b show ?case by (simp add: rbind_eq_Inr index_result_eq)
next
  case (E_Name nd name)
  then show ?case by (auto simp: Let_def split: if_splits)
qed (auto split: if_splits)

lemma check_expression_type: "check_expression program ls e = Inr (t, e') \<Longrightarrow> node_type (node_of e') = t"
proof (cases e)
  case (E_Call nd f es)
  assume ok: "check_expression program ls e = Inr (t, e')"
  show ?thesis
  proof (cases rule: call_kind [of f])
    case (single u)
    with ok E_Call show ?thesis by (auto simp: check_single_call [OF single])
  next
    case (builtin ts u)
    with ok E_Call show ?thesis by (auto simp: check_builtin_call [OF builtin])
  next
    case user
    with ok E_Call show ?thesis by (auto simp: check_user_call)
  qed
qed (auto simp: rbind_eq_Inr Let_def split: if_splits)

text \<open>
  The tree the checker leaves behind is fully annotated: its root carries the type that was
  found, and checking it once more, in the same scope, finds the same type and changes no
  annotation anywhere in it (no type, and no slot number of a name).
\<close>

theorem check_expression_annotates:
  assumes "check_expression program ls e = Inr (t, e')"
  shows "node_type (node_of e') = t \<and> check_expression program ls e' = Inr (t, e')"
  using check_expression_type [OF assms] check_expression_idem [OF assms] by simp

abbreviation plain_node :: node where
  "plain_node \<equiv> \<lparr>line = 1, column = 1, node_type = TYPE_UNKNOWN, local_index = -1, string_index = -1\<rparr>"

definition sample_slots :: "local_slot list" where
  "sample_slots = [\<lparr>local_name = ''t'', local_type = TYPE_TEXT, active = True\<rparr>,
                   \<lparr>local_name = ''x'', local_type = TYPE_INTEGER, active = True\<rparr>]"

definition sample_sum :: expression where
  "sample_sum = E_Binary plain_node (Sym (CHR ''+'')) (E_Name plain_node ''x'') (E_Member plain_node ''length'' (E_Name plain_node ''t''))"

definition sample_sum_checked :: expression where
  "sample_sum_checked =
     E_Binary (typed plain_node TYPE_INTEGER) (Sym (CHR ''+''))
       (E_Name (plain_node\<lparr>node_type := TYPE_INTEGER, local_index := 1\<rparr>) ''x'')
       (E_Member (typed plain_node TYPE_INTEGER) ''length''
         (E_Name (plain_node\<lparr>node_type := TYPE_TEXT, local_index := 0\<rparr>) ''t''))"

definition no_program :: program where
  "no_program = \<lparr>program_functions = [], text_literals = []\<rparr>"

lemma sample_sum_accepted:
  "check_expression no_program sample_slots sample_sum =
     Inr (TYPE_INTEGER, sample_sum_checked)"
  by code_simp

theorem check_expression_annotates_witness:
  "node_type (node_of sample_sum_checked) = TYPE_INTEGER \<and>
   check_expression no_program sample_slots sample_sum_checked =
     Inr (TYPE_INTEGER, sample_sum_checked)"
  by (rule check_expression_annotates [OF sample_sum_accepted])

end
