(* ===== verification/Scopes.thy ===== *)
theory Scopes
  imports Typing
begin

text \<open>
  Statements and scopes. The rules for statements thread a scope through a block; the checker
  threads a table of slots that never shrinks, because the emitter allocates every slot of a
  function at its start. Closing a block switches its slots off. The checker is shown to decide
  the rules, to leave the enclosing scope untouched when a block ends, and never to move or
  retype a slot once it is allocated.
\<close>

section \<open>The table of slots only grows\<close>

abbreviation switched_off :: "local_slot list \<Rightarrow> local_slot list" where
  "switched_off \<equiv> map (\<lambda>s. s\<lparr>active := False\<rparr>)"

lemma close_scope_append [simp]: "close_scope (length ls) (ls @ xs) = ls @ switched_off xs"
  by (simp add: close_scope_def)

lemma close_scope_append2 [simp]:
  "close_scope (length ls + length xs) (ls @ switched_off xs @ ys) = ls @ switched_off xs @ switched_off ys"
  by (simp add: close_scope_def)

lemma visible_switched_off [simp]: "visible (ls @ switched_off xs) = visible ls"
  by (induction xs rule: rev_induct) (auto simp: fun_eq_iff simp flip: append_assoc)

lemma add_local_Inr:
  "add_local ls x t l c = Inr (j, ls') \<longleftrightarrow>
     visible ls x = None \<and> j = int (length ls) \<and> ls' = ls @ [\<lparr>local_name = x, local_type = t, active = True\<rparr>]"
  using find_local_negative [of ls x] by (auto simp: add_local_def)

lemma visible_add:
  "visible (ls @ [\<lparr>local_name = x, local_type = t, active = True\<rparr>]) = (visible ls)(x \<mapsto> t)"
  by (auto simp: fun_eq_iff)

text \<open>Checking keeps every slot it finds, in place; the slots it adds come after them.\<close>

lemma check_statement_grows:
  "check_statement program rt ls s = Inr (ls', s') \<Longrightarrow> \<exists>xs. ls' = ls @ xs"
  "check_statement_list program rt ls r ss = Inr (ls', ss') \<Longrightarrow> \<exists>xs. ls' = ls @ xs"
proof (induction program rt ls s and program rt ls r ss arbitrary: ls' s' and ls' ss'
    rule: check_statement_check_statement_list.induct)
  case (6 program rt ls l c e a b)
  from "6.prems" obtain e' ls1 a' ls3 b' where
    "check_expression program ls e = Inr (TYPE_BOOLEAN, e')"
    and a: "check_statement_list program rt ls False a = Inr (ls1, a')"
    and b: "check_statement_list program rt (close_scope (length ls) ls1) False b = Inr (ls3, b')"
    and ls': "ls' = close_scope (length (close_scope (length ls) ls1)) ls3"
    by (auto simp: rbind_eq_Inr Let_def)
  with "6.IH"(1) obtain xs where xs: "ls1 = ls @ xs" by fastforce
  from "6.IH"(2) b obtain ys where "ls3 = close_scope (length ls) ls1 @ ys"
    using \<open>check_expression _ _ _ = _\<close> a by fastforce
  with xs ls' show ?case by simp
next
  case (7 program rt ls l c e b)
  from "7.prems" obtain e' ls1 b' where
    "check_expression program ls e = Inr (TYPE_BOOLEAN, e')"
    and b: "check_statement_list program rt ls False b = Inr (ls1, b')" "ls' = close_scope (length ls) ls1"
    by (auto simp: rbind_eq_Inr)
  with "7.IH" obtain xs where "ls1 = ls @ xs" by fastforce
  with b show ?case by simp
next
  case (9 program rt ls r s ss)
  then show ?case by (fastforce simp: rbind_eq_Inr split: if_splits)
qed (auto simp: rbind_eq_Inr add_local_Inr Let_def split: if_splits)

section \<open>Rules for statements\<close>

inductive statement_ok :: "program \<Rightarrow> ty \<Rightarrow> scope \<Rightarrow> statement \<Rightarrow> scope \<Rightarrow> bool"
  and block_ok :: "program \<Rightarrow> ty \<Rightarrow> scope \<Rightarrow> statement list \<Rightarrow> scope \<Rightarrow> bool"
  for program rt
where
  declare_value: "has_type program \<Gamma> (declare_list d e) t \<Longrightarrow> t \<noteq> TYPE_NOTHING \<Longrightarrow> d = TYPE_UNKNOWN \<or> d = t \<Longrightarrow>
    \<Gamma> x = None \<Longrightarrow> statement_ok program rt \<Gamma> (S_Let l c x d i e) (\<Gamma>(x \<mapsto> t))"
| assign: "\<Gamma> x = Some t \<Longrightarrow> has_type program \<Gamma> e t \<Longrightarrow> statement_ok program rt \<Gamma> (S_Assign l c x i e) \<Gamma>"
| assign_element: "has_type program \<Gamma> b u \<Longrightarrow> is_list_type u \<Longrightarrow> has_type program \<Gamma> i TYPE_INTEGER \<Longrightarrow>
    has_type program \<Gamma> e (element_type u) \<Longrightarrow> statement_ok program rt \<Gamma> (S_Index_Assign l c (E_Index nd b i) e) \<Gamma>"
| evaluate: "has_type program \<Gamma> e t \<Longrightarrow> statement_ok program rt \<Gamma> (S_Expression l c e) \<Gamma>"
| return_nothing: "rt = TYPE_NOTHING \<Longrightarrow> statement_ok program rt \<Gamma> (S_Return l c None) \<Gamma>"
| return_value: "has_type program \<Gamma> e rt \<Longrightarrow> statement_ok program rt \<Gamma> (S_Return l c (Some e)) \<Gamma>"
| choose: "has_type program \<Gamma> e TYPE_BOOLEAN \<Longrightarrow> block_ok program rt \<Gamma> a \<Gamma>1 \<Longrightarrow> block_ok program rt \<Gamma> b \<Gamma>2 \<Longrightarrow>
    statement_ok program rt \<Gamma> (S_If l c e a b) \<Gamma>"
| repeat: "has_type program \<Gamma> e TYPE_BOOLEAN \<Longrightarrow> block_ok program rt \<Gamma> b \<Gamma>1 \<Longrightarrow>
    statement_ok program rt \<Gamma> (S_While l c e b) \<Gamma>"
| block_end: "block_ok program rt \<Gamma> [] \<Gamma>"
| block_next: "statement_ok program rt \<Gamma> s \<Gamma>1 \<Longrightarrow> block_ok program rt \<Gamma>1 ss \<Gamma>2 \<Longrightarrow>
    \<not> statement_guarantees_return s \<or> ss = [] \<Longrightarrow> block_ok program rt \<Gamma> (s # ss) \<Gamma>2"

inductive_simps statement_ok_simps:
  "statement_ok program rt \<Gamma> (S_Let l c x d i e) \<Gamma>'"
  "statement_ok program rt \<Gamma> (S_Assign l c x i e) \<Gamma>'"
  "statement_ok program rt \<Gamma> (S_Index_Assign l c e1 e) \<Gamma>'"
  "statement_ok program rt \<Gamma> (S_Expression l c e) \<Gamma>'"
  "statement_ok program rt \<Gamma> (S_Return l c eo) \<Gamma>'"
  "statement_ok program rt \<Gamma> (S_If l c e a b) \<Gamma>'"
  "statement_ok program rt \<Gamma> (S_While l c e b) \<Gamma>'"
  "block_ok program rt \<Gamma> [] \<Gamma>'"
  "block_ok program rt \<Gamma> (s # ss) \<Gamma>'"

section \<open>The checker decides the rules\<close>

lemma typed_iff: "(\<exists>e'. check_expression program ls e = Inr (t, e')) \<longleftrightarrow> has_type program (visible ls) e t"
  using accepts_iff [of program ls e t] by (simp add: accepts_def)

lemma has_type_functional: "has_type program (visible ls) e t \<Longrightarrow> has_type program (visible ls) e u \<Longrightarrow> t = u"
  by (auto simp flip: typed_iff)

lemma check_expression_shape:
  assumes "check_expression program ls e = Inr (t, E_Index nd b i)"
  shows "\<exists>nd' b' i'. e = E_Index nd' b' i'"
proof (cases e)
  case (E_Call nd f es)
  then show ?thesis
    using assms
    by (cases rule: call_kind [of f])
      (auto simp: check_single_call check_builtin_call check_user_call)
qed (use assms in \<open>auto simp: rbind_eq_Inr Let_def split: if_splits\<close>)

text \<open>\<open>checks_to\<close>: the statement is accepted, and leaves the given scope visible.\<close>

definition checks_to :: "program \<Rightarrow> ty \<Rightarrow> local_slot list \<Rightarrow> statement \<Rightarrow> scope \<Rightarrow> bool" where
  "checks_to program rt ls s \<Gamma> \<longleftrightarrow> (\<exists>ls' s'. check_statement program rt ls s = Inr (ls', s') \<and> visible ls' = \<Gamma>)"

definition list_checks_to :: "program \<Rightarrow> ty \<Rightarrow> local_slot list \<Rightarrow> bool \<Rightarrow> statement list \<Rightarrow> scope \<Rightarrow> bool" where
  "list_checks_to program rt ls r ss \<Gamma> \<longleftrightarrow>
     (\<exists>ls' ss'. check_statement_list program rt ls r ss = Inr (ls', ss') \<and> visible ls' = \<Gamma>)"

lemma let_checks_to:
  "checks_to program rt ls (S_Let l c x d i e) \<Gamma> \<longleftrightarrow>
     (\<exists>t. has_type program (visible ls) (declare_list d e) t \<and> t \<noteq> TYPE_NOTHING \<and> (d = TYPE_UNKNOWN \<or> d = t) \<and>
          visible ls x = None \<and> \<Gamma> = (visible ls)(x \<mapsto> t))"
proof -
  have "checks_to program rt ls (S_Let l c x d i e) \<Gamma> \<longleftrightarrow>
      (\<exists>t. (\<exists>e'. check_expression program ls (declare_list d e) = Inr (t, e')) \<and> t \<noteq> TYPE_NOTHING \<and>
          (d = TYPE_UNKNOWN \<or> d = t) \<and> visible ls x = None \<and> \<Gamma> = (visible ls)(x \<mapsto> t))"
    by (fastforce simp: checks_to_def rbind_eq_Inr add_local_Inr visible_add split: if_splits)
  then show ?thesis by (simp only: typed_iff)
qed

lemma assign_checks_to:
  "checks_to program rt ls (S_Assign l c x i e) \<Gamma> \<longleftrightarrow>
     (\<exists>t. visible ls x = Some t \<and> has_type program (visible ls) e t \<and> \<Gamma> = visible ls)"
  unfolding checks_to_def typed_iff [symmetric]
  using find_local_negative [of ls x] find_local_visible [of ls x]
  by (auto simp: rbind_eq_Inr Let_def split: if_splits)

lemma index_assign_checks_to:
  "checks_to program rt ls (S_Index_Assign l c target e) \<Gamma> \<longleftrightarrow>
     (\<exists>nd b i u. target = E_Index nd b i \<and> has_type program (visible ls) b u \<and> is_list_type u \<and>
        has_type program (visible ls) i TYPE_INTEGER \<and> has_type program (visible ls) e (element_type u) \<and>
        \<Gamma> = visible ls)"
proof (cases "\<exists>nd b i. target = E_Index nd b i")
  case True
  then obtain nd b i where "target = E_Index nd b i" by blast
  moreover have "checks_to program rt ls (S_Index_Assign l c (E_Index nd b i) e) \<Gamma> \<longleftrightarrow>
      (\<exists>u. (\<exists>b'. check_expression program ls b = Inr (u, b')) \<and> is_list_type u \<and>
        (\<exists>i'. check_expression program ls i = Inr (TYPE_INTEGER, i')) \<and>
        (\<exists>e'. check_expression program ls e = Inr (element_type u, e')) \<and> \<Gamma> = visible ls)"
    by (fastforce simp: checks_to_def rbind_eq_Inr index_base_type_def index_result_eq is_list_type_def
        dest: check_expression_type split: if_splits)
  ultimately show ?thesis unfolding typed_iff by auto
next
  case False
  then have "index_base_type target' = TYPE_UNKNOWN"
    if "check_expression program ls target = Inr (t, target')" for t target'
    using check_expression_shape that by (fastforce simp: index_base_type_def split: expression.splits)
  with False show ?thesis
    by (auto simp: checks_to_def rbind_eq_Inr is_list_type_def)
qed

lemma return_checks_to:
  "checks_to program rt ls (S_Return l c eo) \<Gamma> \<longleftrightarrow>
     (case eo of None \<Rightarrow> rt = TYPE_NOTHING | Some e \<Rightarrow> has_type program (visible ls) e rt) \<and> \<Gamma> = visible ls"
proof (cases eo)
  case (Some e)
  then have "checks_to program rt ls (S_Return l c eo) \<Gamma> \<longleftrightarrow>
      (\<exists>e'. check_expression program ls e = Inr (rt, e')) \<and> \<Gamma> = visible ls"
    by (fastforce simp: checks_to_def rbind_eq_Inr split: if_splits)
  with Some show ?thesis by (simp add: typed_iff)
qed (auto simp: checks_to_def)

lemma expression_checks_to:
  "checks_to program rt ls (S_Expression l c e) \<Gamma> \<longleftrightarrow>
     (\<exists>t. has_type program (visible ls) e t) \<and> \<Gamma> = visible ls"
  unfolding typed_iff [symmetric] by (auto simp: checks_to_def rbind_eq_Inr)

text \<open>
  A list that is checked as a block of its own leaves, once closed, the scope it started from;
  this is what lets the second branch of an \<open>if\<close> be read in the scope of the first.
\<close>

lemma closed_scope_visible:
  assumes "check_statement_list program rt ls r ss = Inr (ls', ss')"
  shows "visible (close_scope (length ls) ls') = visible ls"
  using check_statement_grows(2) [OF assms] by auto

lemma if_checks_to:
  "checks_to program rt ls (S_If l c e a b) \<Gamma> \<longleftrightarrow>
     has_type program (visible ls) e TYPE_BOOLEAN \<and>
     (\<exists>ls1 a' \<Gamma>2. check_statement_list program rt ls False a = Inr (ls1, a') \<and>
        list_checks_to program rt (close_scope (length ls) ls1) False b \<Gamma>2) \<and> \<Gamma> = visible ls"
proof -
  have "checks_to program rt ls (S_If l c e a b) \<Gamma> \<longleftrightarrow>
     (\<exists>e'. check_expression program ls e = Inr (TYPE_BOOLEAN, e')) \<and>
     (\<exists>ls1 a' ls3 b'. check_statement_list program rt ls False a = Inr (ls1, a') \<and>
        check_statement_list program rt (close_scope (length ls) ls1) False b = Inr (ls3, b') \<and>
        \<Gamma> = visible (close_scope (length (close_scope (length ls) ls1)) ls3))"
    by (fastforce simp: checks_to_def rbind_eq_Inr Let_def)
  then show ?thesis
    using closed_scope_visible unfolding typed_iff list_checks_to_def by metis
qed

lemma while_checks_to:
  "checks_to program rt ls (S_While l c e b) \<Gamma> \<longleftrightarrow>
     has_type program (visible ls) e TYPE_BOOLEAN \<and> (\<exists>\<Gamma>1. list_checks_to program rt ls False b \<Gamma>1) \<and>
     \<Gamma> = visible ls"
proof -
  have "checks_to program rt ls (S_While l c e b) \<Gamma> \<longleftrightarrow>
     (\<exists>e'. check_expression program ls e = Inr (TYPE_BOOLEAN, e')) \<and>
     (\<exists>ls1 b'. check_statement_list program rt ls False b = Inr (ls1, b') \<and>
        \<Gamma> = visible (close_scope (length ls) ls1))"
    by (fastforce simp: checks_to_def rbind_eq_Inr)
  then show ?thesis
    using closed_scope_visible unfolding typed_iff list_checks_to_def by metis
qed

lemma Cons_list_checks_to:
  "list_checks_to program rt ls r (s # ss) \<Gamma> \<longleftrightarrow>
     \<not> r \<and> (\<exists>ls1 s'. check_statement program rt ls s = Inr (ls1, s') \<and>
              list_checks_to program rt ls1 (statement_guarantees_return s) ss \<Gamma>)"
  by (cases "check_statement program rt ls s") (auto simp: list_checks_to_def rbind_eq_Inr)

lemma statements_decided:
  "checks_to program rt ls s \<Gamma> \<longleftrightarrow> statement_ok program rt (visible ls) s \<Gamma>"
  "list_checks_to program rt ls r ss \<Gamma> \<longleftrightarrow> block_ok program rt (visible ls) ss \<Gamma> \<and> (r \<longrightarrow> ss = [])"
proof (induction program rt ls s and program rt ls r ss arbitrary: \<Gamma> and \<Gamma>
    rule: check_statement_check_statement_list.induct)
  case (6 program rt ls l c e a b)
  show ?case
  proof (cases "has_type program (visible ls) e TYPE_BOOLEAN \<and>
      (\<exists>ls1 a'. check_statement_list program rt ls False a = Inr (ls1, a'))")
    case True
    then obtain e' ls1 a' where ok: "check_expression program ls e = Inr (TYPE_BOOLEAN, e')"
      "check_statement_list program rt ls False a = Inr (ls1, a')"
      by (auto simp flip: typed_iff)
    have a: "list_checks_to program rt ls False a G \<longleftrightarrow> block_ok program rt (visible ls) a G" for G
      using "6.IH"(1) [of "(TYPE_BOOLEAN, e')" TYPE_BOOLEAN e' "()"] ok by simp
    have b: "list_checks_to program rt (close_scope (length ls) ls1) False b G \<longleftrightarrow> block_ok program rt (visible ls) b G" for G
      using "6.IH"(2) [of "(TYPE_BOOLEAN, e')" TYPE_BOOLEAN e' "()" "(ls1, a')" ls1 a' "close_scope (length ls) ls1"] ok
        closed_scope_visible [OF ok(2)] by simp
    have "\<exists>G. block_ok program rt (visible ls) a G"
      using ok(2) a [symmetric] by (auto simp: list_checks_to_def)
    with True ok b show ?thesis
      by (auto simp: if_checks_to statement_ok_simps)
  next
    case False
    have "\<not> has_type program (visible ls) e TYPE_BOOLEAN \<or> \<not> (\<exists>G. block_ok program rt (visible ls) a G)"
    proof (rule ccontr)
      assume "\<not> ?thesis"
      then obtain e' G where "check_expression program ls e = Inr (TYPE_BOOLEAN, e')" "block_ok program rt (visible ls) a G"
        "has_type program (visible ls) e TYPE_BOOLEAN"
        by (auto simp flip: typed_iff)
      with "6.IH"(1) [of "(TYPE_BOOLEAN, e')" TYPE_BOOLEAN e' "()"] have "list_checks_to program rt ls False a G" by simp
      with False \<open>has_type program (visible ls) e TYPE_BOOLEAN\<close> show False by (auto simp: list_checks_to_def)
    qed
    with False show ?thesis by (auto simp: if_checks_to statement_ok_simps)
  qed
next
  case (7 program rt ls l c e b)
  show ?case
  proof (cases "has_type program (visible ls) e TYPE_BOOLEAN")
    case True
    then obtain e' where "check_expression program ls e = Inr (TYPE_BOOLEAN, e')"
      by (auto simp flip: typed_iff)
    with "7.IH" [of "(TYPE_BOOLEAN, e')" TYPE_BOOLEAN e' "()"] True show ?thesis
      by (auto simp: while_checks_to statement_ok_simps)
  qed (simp add: while_checks_to statement_ok_simps)
next
  case (8 program rt ls r)
  show ?case by (auto simp: list_checks_to_def statement_ok_simps)
next
  case (9 program rt ls r s ss)
  show ?case
  proof (cases "\<not> r \<and> (\<exists>ls1 s'. check_statement program rt ls s = Inr (ls1, s'))")
    case True
    then obtain ls1 s' where ok: "\<not> r" "check_statement program rt ls s = Inr (ls1, s')" by blast
    have "statement_ok program rt (visible ls) s G \<longleftrightarrow> visible ls1 = G" for G
      using "9.IH"(1) ok unfolding checks_to_def by auto
    moreover have "list_checks_to program rt ls1 (statement_guarantees_return s) ss G \<longleftrightarrow>
        block_ok program rt (visible ls1) ss G \<and> (statement_guarantees_return s \<longrightarrow> ss = [])" for G
      using "9.IH"(2) [of "(ls1, s')" ls1 s'] ok by simp
    ultimately show ?thesis
      using ok by (auto simp: Cons_list_checks_to statement_ok_simps)
  next
    case False
    then have "r \<or> \<not> (\<exists>G. statement_ok program rt (visible ls) s G)"
      using "9.IH"(1) unfolding checks_to_def by blast
    with False show ?thesis by (auto simp: Cons_list_checks_to statement_ok_simps)
  qed
qed (auto simp: let_checks_to assign_checks_to index_assign_checks_to expression_checks_to return_checks_to
      statement_ok_simps split: option.splits)

text \<open>
  C4. The checker decides the rules for statements: on any block it succeeds exactly when the rules
  accept the block in the visible scope, and it leaves visible the scope the rules give, or, for
  a block with a scope of its own, the scope it started from.
\<close>

theorem check_statements_decides:
  "(\<exists>ls' ss'. check_statements program rt ls ss creates_scope = Inr (ls', ss') \<and> visible ls' = \<Gamma>) \<longleftrightarrow>
   (\<exists>\<Gamma>1. block_ok program rt (visible ls) ss \<Gamma>1 \<and> \<Gamma> = (if creates_scope then visible ls else \<Gamma>1))"
proof -
  have "(\<exists>ls' ss'. check_statements program rt ls ss creates_scope = Inr (ls', ss') \<and> visible ls' = \<Gamma>) \<longleftrightarrow>
      (\<exists>\<Gamma>1. list_checks_to program rt ls False ss \<Gamma>1 \<and> \<Gamma> = (if creates_scope then visible ls else \<Gamma>1))"
    using closed_scope_visible [of program rt ls False ss]
    by (cases "check_statement_list program rt ls False ss")
      (auto simp: check_statements_def list_checks_to_def rbind_eq_Inr)
  then show ?thesis by (simp add: statements_decided)
qed

section \<open>Slots stay where they are\<close>

text \<open>No two slots that are switched on carry the same name.\<close>

definition names_distinct :: "local_slot list \<Rightarrow> bool" where
  "names_distinct ls \<longleftrightarrow> distinct (map local_name (filter active ls))"

lemma visible_None_iff: "visible ls x = None \<longleftrightarrow> x \<notin> local_name ` set (filter active ls)"
  by (induction ls rule: rev_induct) auto

lemma names_distinct_add:
  "names_distinct ls \<Longrightarrow> visible ls x = None \<Longrightarrow> names_distinct (ls @ [\<lparr>local_name = x, local_type = t, active = True\<rparr>])"
  by (simp add: names_distinct_def visible_None_iff)

lemma names_distinct_switched_off [simp]: "names_distinct (ls @ switched_off xs) = names_distinct ls"
  by (simp add: names_distinct_def filter_map comp_def)

lemma names_distinct_closed:
  assumes "check_statement_list program rt ls r ss = Inr (ls', ss')" and "names_distinct ls"
  shows "names_distinct (close_scope (length ls) ls')"
  using check_statement_grows(2) [OF assms(1)] assms(2) by auto

lemma check_statement_names_distinct:
  "check_statement program rt ls s = Inr (ls', s') \<Longrightarrow> names_distinct ls \<Longrightarrow> names_distinct ls'"
  "check_statement_list program rt ls r ss = Inr (ls', ss') \<Longrightarrow> names_distinct ls \<Longrightarrow> names_distinct ls'"
proof (induction program rt ls s and program rt ls r ss arbitrary: ls' s' and ls' ss'
    rule: check_statement_check_statement_list.induct)
  case (9 program rt ls r s ss)
  then show ?case by (fastforce simp: rbind_eq_Inr split: if_splits)
qed (auto simp: rbind_eq_Inr add_local_Inr Let_def names_distinct_add names_distinct_closed split: if_splits)

text \<open>
  C5. Checking a block keeps every slot it found, with its name, type and visibility, at its
  index; a block with its own scope leaves exactly the names visible that were visible before it;
  and the names visible at any point are pairwise different, so a name never has two meanings.
\<close>

theorem check_statements_scope:
  assumes "check_statements program rt ls ss creates_scope = Inr (ls', ss')" and "names_distinct ls"
  shows "take (length ls) ls' = ls \<and> names_distinct ls' \<and> (creates_scope \<longrightarrow> visible ls' = visible ls)"
proof -
  from assms(1) obtain ls1 where ls1: "check_statement_list program rt ls False ss = Inr (ls1, ss')"
    "ls' = (if creates_scope then close_scope (length ls) ls1 else ls1)"
    by (auto simp: check_statements_def rbind_eq_Inr)
  then obtain xs where "ls1 = ls @ xs"
    using check_statement_grows(2) by blast
  then show ?thesis
    using ls1 check_statement_names_distinct(2) [OF ls1(1) assms(2)] assms(2) by auto
qed

definition sample_block :: "statement list" where
  "sample_block =
     [S_Let 1 1 ''y'' TYPE_UNKNOWN (-1) sample_sum,
      S_If 2 1 (E_Boolean plain_node True) [S_Let 3 1 ''z'' TYPE_UNKNOWN (-1) (E_Name plain_node ''y'')] [],
      S_Assign 4 1 ''x'' (-1) (E_Name plain_node ''y'')]"

lemma sample_block_checked:
  "map_sum id (\<lambda>(ls', _). map active ls') (check_statements no_program TYPE_NOTHING sample_slots sample_block False) =
     Inr [True, True, True, False]"
  by code_simp

theorem check_statements_scope_witness:
  "\<exists>ls'. map active ls' = [True, True, True, False] \<and> take 2 ls' = sample_slots \<and> names_distinct ls'"
proof -
  obtain ls' ss' where ok: "check_statements no_program TYPE_NOTHING sample_slots sample_block False = Inr (ls', ss')"
    "map active ls' = [True, True, True, False]"
    using sample_block_checked
    by (cases "check_statements no_program TYPE_NOTHING sample_slots sample_block False") auto
  have "names_distinct sample_slots" "length sample_slots = 2"
    by (simp_all add: names_distinct_def sample_slots_def)
  with check_statements_scope [OF ok(1)] ok(2) show ?thesis by metis
qed

end
