(* ===== verification/Parser.thy ===== *)
theory Parser
  imports Ast
begin

text \<open>
  The recursive-descent parser of the stage-zero compiler (\<open>bootstrap/stage0.c\<close>, \<open>advance\<close> to
  \<open>parse_program\<close>). It pulls tokens from the lexer as it goes, so a lexical diagnostic is
  reported only when the parser reaches it; the model keeps that order.

  The expression parsers call \<open>parse_expression\<close> for arguments, positions and parentheses.
  Here they take the function they call as an argument, as \<open>parse_binary\<close> does in the code,
  and \<open>parse_expression\<close> ties the knot on a fuel argument; the loops spend the same fuel.
  \<open>Starved\<close> is running out of it, and \<open>parse_program\<close> supplies enough (theory \<open>Parser_Total\<close>).
\<close>

section \<open>Parser state\<close>

record parser =
  p_lexer :: lexer
  p_token :: token
  p_literals :: "string list" \<comment> \<open>the texts of \<open>program.text_literals\<close>\<close>

abbreviation tok :: "parser \<Rightarrow> token_kind" where
  "tok p \<equiv> kind (p_token p)"

definition advance :: "parser \<Rightarrow> error + parser" where
  "advance p = rbind (next_token (p_lexer p)) (\<lambda>(t, l). Inr (p\<lparr>p_lexer := l, p_token := t\<rparr>))"

definition word_is :: "parser \<Rightarrow> string \<Rightarrow> bool" where
  "word_is p word \<longleftrightarrow> tok p = TOKEN_NAME \<and> tok_text (p_token p) = word"

definition fail_here :: "parser \<Rightarrow> string \<Rightarrow> error + 'a" where
  "fail_here p message = fail_at (tok_line (p_token p)) (tok_column (p_token p)) message"

text \<open>What is left to read: the source the lexer holds and the current token.\<close>

definition weight :: "parser \<Rightarrow> nat" where
  "weight p = length (cursor (p_lexer p)) + (if tok p = TOKEN_EOF then 0 else 1)"

lemma advance_weight_le: "advance p = Inr p' \<Longrightarrow> weight p' \<le> length (cursor (p_lexer p))"
  by (auto simp: advance_def weight_def rbind_eq_Inr dest: next_token_cursor split: if_splits)

lemma advance_weight [progress_intros]:
  "advance p = Inr p' \<Longrightarrow> tok p \<noteq> TOKEN_EOF \<Longrightarrow> weight p' < weight p"
  using advance_weight_le [of p p'] by (simp add: weight_def)

lemma advance_weight_weak: "advance p = Inr p' \<Longrightarrow> weight p' \<le> weight p"
  using advance_weight_le [of p p'] by (simp add: weight_def)

lemma fail_here_simps [simp]:
  "fail_here p m \<noteq> Inr x" "rbind (fail_here p m) f = fail_here p m"
  "lift (fail_here p m) \<noteq> Done y" "lift (fail_here p m) \<noteq> Starved"
  by (simp_all add: fail_here_def)

function skip_separators :: "parser \<Rightarrow> error + parser" where
  "skip_separators p =
     (if tok p = TOKEN_NEWLINE \<or> tok p = Sym (CHR '';'')
      then rbind (advance p) skip_separators else Inr p)"
  by pat_completeness auto
termination
  by (relation "measure weight") (auto intro: advance_weight)

declare skip_separators.simps [simp del]

definition expect :: "parser \<Rightarrow> token_kind \<Rightarrow> string \<Rightarrow> error + parser" where
  "expect p k description =
     (if tok p \<noteq> k then fail_here p (''I expected '' @ description @ '' here'') else advance p)"

definition expect_word :: "parser \<Rightarrow> string \<Rightarrow> error + parser" where
  "expect_word p word =
     (if \<not> word_is p word
      then fail_here p (''I expected '' @ [CHR 0x27] @ word @ [CHR 0x27] @ '' here'')
      else advance p)"

definition take_name :: "parser \<Rightarrow> string \<Rightarrow> error + (string \<times> parser)" where
  "take_name p description =
     (if tok p \<noteq> TOKEN_NAME then fail_here p (''I expected '' @ description @ '' here'')
      else rbind (advance p) (\<lambda>p'. Inr (tok_text (p_token p), p')))"

lemma expect_weight: "expect p k d = Inr p' \<Longrightarrow> k \<noteq> TOKEN_EOF \<Longrightarrow> weight p' < weight p"
  by (auto simp: expect_def intro: advance_weight split: if_splits)

lemma expect_word_weight: "expect_word p w = Inr p' \<Longrightarrow> weight p' < weight p"
  by (auto simp: expect_word_def word_is_def intro: advance_weight split: if_splits)

lemma take_name_weight: "take_name p d = Inr (x, p') \<Longrightarrow> weight p' < weight p"
  by (auto simp: take_name_def rbind_eq_Inr intro: advance_weight split: if_splits)

lemma skip_separators_weight: "skip_separators p = Inr p' \<Longrightarrow> weight p' \<le> weight p"
proof (induction p rule: skip_separators.induct)
  case (1 p)
  then show ?case
    by (fastforce simp: skip_separators.simps [of p] rbind_eq_Inr dest: advance_weight_weak
        split: if_splits)
qed

section \<open>Types\<close>

definition base_type :: "parser \<Rightarrow> ty option" where
  "base_type p =
     (if word_is p ''Integer'' then Some TYPE_INTEGER
      else if word_is p ''Text'' then Some TYPE_TEXT
      else if word_is p ''Character'' then Some TYPE_CHARACTER
      else if word_is p ''Boolean'' then Some TYPE_BOOLEAN
      else if word_is p ''Nothing'' then Some TYPE_NOTHING
      else None)"

function parse_type :: "parser \<Rightarrow> error + (ty \<times> parser)" where
  "parse_type p =
     (case base_type p of
        Some type \<Rightarrow> rbind (advance p) (\<lambda>p1. Inr (type, p1))
      | None \<Rightarrow>
          if word_is p ''List'' then
            rbind (advance p) (\<lambda>p1.
            rbind (expect p1 (Sym (CHR ''<'')) (CHR 0x27 # ''<'' @ CHR 0x27 # '' followed by the list's element type''))
              (\<lambda>p2. rbind (parse_type p2) (\<lambda>(type, p3).
                 if \<not> is_element_type type
                 then fail_here p3 ''lists currently contain Integer, Text, Character, or Boolean values''
                 else
                   rbind (expect p3 (Sym (CHR ''>''))
                            (''a closing '' @ CHR 0x27 # ''>'' @ CHR 0x27 # '' after the list's element type''))
                     (\<lambda>p4. Inr (list_type type, p4)))))
          else fail_here p ''I expected a type such as Integer, Text, Character, or Boolean'')"
  by pat_completeness auto
termination
proof (relation "measure weight", simp)
  fix p p1 p2
  assume "word_is p ''List''" and "advance p = Inr p1"
    and "expect p1 (Sym (CHR ''<'')) (CHR 0x27 # ''<'' @ CHR 0x27 # '' followed by the list's element type'') = Inr p2"
  then show "(p2, p) \<in> measure weight"
    using expect_weight [of p1 _ _ p2] advance_weight_weak [of p p1] by fastforce
qed

declare parse_type.simps [simp del]

section \<open>Expressions\<close>

type_synonym 'a parses = "parser \<Rightarrow> ('a \<times> parser) outcome"

definition new_expression :: "parser \<Rightarrow> node" where
  "new_expression p =
     \<lparr>line = tok_line (p_token p), column = tok_column (p_token p), node_type = TYPE_UNKNOWN,
      local_index = -1, string_index = -1\<rparr>"

text \<open>The argument loop, entered when the token is not the closing parenthesis.\<close>

fun parse_argument_loop :: "nat \<Rightarrow> expression parses \<Rightarrow> expression list parses" where
  "parse_argument_loop 0 pe p = Starved"
| "parse_argument_loop (Suc n) pe p =
     obind (pe p) (\<lambda>(e, p1).
       if tok p1 \<noteq> Sym (CHR '','') then Done ([e], p1)
       else obind (lift (advance p1)) (\<lambda>p2.
              if tok p2 = Sym (CHR '')'') then Done ([e], p2)
              else obind (parse_argument_loop n pe p2) (\<lambda>(es, p3). Done (e # es, p3))))"

text \<open>From the opening parenthesis of a call to past its closing one.\<close>

definition parse_arguments :: "nat \<Rightarrow> expression parses \<Rightarrow> expression list parses" where
  "parse_arguments n pe p =
     obind (lift (advance p)) (\<lambda>p1.
     obind (if tok p1 \<noteq> Sym (CHR '')'') then parse_argument_loop n pe p1 else Done ([], p1)) (\<lambda>(es, p2).
     obind (lift (expect p2 (Sym (CHR '')'')) ''a closing parenthesis'')) (\<lambda>p3. Done (es, p3))))"

definition parse_atom :: "nat \<Rightarrow> expression parses \<Rightarrow> expression parses" where
  "parse_atom n pe p =
     (if tok p = TOKEN_INTEGER then
        obind (lift (advance p)) (\<lambda>p1. Done (E_Integer (new_expression p) (tok_integer (p_token p)), p1))
      else if tok p = TOKEN_TEXT then
        (let e = E_Text ((new_expression p)\<lparr>string_index := int (length (p_literals p))\<rparr>) (tok_text (p_token p))
         in obind (lift (advance (p\<lparr>p_literals := p_literals p @ [tok_text (p_token p)]\<rparr>))) (\<lambda>p1. Done (e, p1)))
      else if tok p = TOKEN_CHARACTER then
        obind (lift (advance p)) (\<lambda>p1. Done (E_Character (new_expression p) (tok_integer (p_token p)), p1))
      else if word_is p ''true'' \<or> word_is p ''false'' then
        obind (lift (advance p)) (\<lambda>p1. Done (E_Boolean (new_expression p) (word_is p ''true''), p1))
      else if tok p = TOKEN_NAME then
        obind (lift (take_name p ''a name'')) (\<lambda>(name, p1).
          if tok p1 = Sym (CHR ''('')
          then obind (parse_arguments n pe p1) (\<lambda>(es, p2). Done (E_Call (new_expression p) name es, p2))
          else Done (E_Name (new_expression p) name, p1))
      else if tok p = Sym (CHR ''('') then
        obind (lift (advance p)) (\<lambda>p1.
        obind (pe p1) (\<lambda>(e, p2).
        obind (lift (expect p2 (Sym (CHR '')'')) ''a closing parenthesis'')) (\<lambda>p3. Done (e, p3))))
      else if tok p = Sym (CHR ''['') then
        obind (lift (advance p)) (\<lambda>p1.
        obind (lift (expect p1 (Sym (CHR '']'')) ''a closing bracket for this empty list''))
          (\<lambda>p2. Done (E_List (new_expression p), p2)))
      else lift (fail_here p ''I expected a value or expression here''))"

text \<open>The suffixes of a primary expression: members, method calls and positions.\<close>

fun parse_suffixes :: "nat \<Rightarrow> expression parses \<Rightarrow> expression \<Rightarrow> expression parses" where
  "parse_suffixes 0 pe e p = Starved"
| "parse_suffixes (Suc n) pe e p =
     (if tok p = Sym (CHR ''.'') then
        obind (lift (advance p)) (\<lambda>p1.
        obind (lift (take_name p1 (''a property name after '' @ CHR 0x27 # ''.'' @ [CHR 0x27]))) (\<lambda>(name, p2).
          if tok p2 = Sym (CHR ''('')
          then obind (parse_arguments n pe p2) (\<lambda>(es, p3).
                 parse_suffixes n pe (E_Method_Call (new_expression p) name e es) p3)
          else parse_suffixes n pe (E_Member (new_expression p) name e) p2))
      else if tok p = Sym (CHR ''['') then
        obind (lift (advance p)) (\<lambda>p1.
        obind (pe p1) (\<lambda>(i, p2).
        obind (lift (expect p2 (Sym (CHR '']'')) ''a closing bracket'')) (\<lambda>p3.
          parse_suffixes n pe (E_Index (new_expression p) e i) p3)))
      else Done (e, p))"

definition parse_primary :: "nat \<Rightarrow> expression parses \<Rightarrow> expression parses" where
  "parse_primary n pe p = obind (parse_atom n pe p) (\<lambda>(e, p1). parse_suffixes n pe e p1)"

function parse_unary :: "nat \<Rightarrow> expression parses \<Rightarrow> expression parses" where
  "parse_unary n pe p =
     (if tok p = Sym (CHR ''!'') \<or> tok p = Sym (CHR ''-'') then
        obind (lift (advance p)) (\<lambda>p1.
        obind (parse_unary n pe p1) (\<lambda>(e, p2). Done (E_Unary (new_expression p) (tok p) e, p2)))
      else parse_primary n pe p)"
  by pat_completeness auto
termination
  by (relation "measure (\<lambda>(n, pe, p). weight p)") (auto intro: advance_weight)

declare parse_unary.simps [simp del]

text \<open>\<open>parse_binary\<close>: operands of the next level joined, left to right, by the given operators.\<close>

fun parse_binary_loop :: "nat \<Rightarrow> expression parses \<Rightarrow> token_kind list \<Rightarrow> expression \<Rightarrow> expression parses" where
  "parse_binary_loop 0 next ops left p = Starved"
| "parse_binary_loop (Suc n) next ops left p =
     (if tok p \<notin> set ops then Done (left, p)
      else obind (lift (advance p)) (\<lambda>p1.
           obind (next p1) (\<lambda>(right, p2).
             parse_binary_loop n next ops (E_Binary (new_expression p) (tok p) left right) p2)))"

definition parse_binary :: "nat \<Rightarrow> expression parses \<Rightarrow> token_kind list \<Rightarrow> expression parses" where
  "parse_binary n next ops p = obind (next p) (\<lambda>(left, p1). parse_binary_loop n next ops left p1)"

definition product_ops :: "token_kind list" where
  "product_ops = [Sym (CHR ''*''), Sym (CHR ''/''), Sym (CHR ''%'')]"

definition sum_ops :: "token_kind list" where
  "sum_ops = [Sym (CHR ''+''), Sym (CHR ''-'')]"

definition comparison_ops :: "token_kind list" where
  "comparison_ops = [Sym (CHR ''<''), Sym (CHR ''>''), TOKEN_LESS_EQUAL, TOKEN_GREATER_EQUAL]"

definition equality_ops :: "token_kind list" where
  "equality_ops = [TOKEN_EQUAL_EQUAL, TOKEN_NOT_EQUAL]"

definition parse_product :: "nat \<Rightarrow> expression parses \<Rightarrow> expression parses" where
  "parse_product n pe = parse_binary n (parse_unary n pe) product_ops"

definition parse_sum :: "nat \<Rightarrow> expression parses \<Rightarrow> expression parses" where
  "parse_sum n pe = parse_binary n (parse_product n pe) sum_ops"

definition parse_comparison :: "nat \<Rightarrow> expression parses \<Rightarrow> expression parses" where
  "parse_comparison n pe = parse_binary n (parse_sum n pe) comparison_ops"

definition parse_equality :: "nat \<Rightarrow> expression parses \<Rightarrow> expression parses" where
  "parse_equality n pe = parse_binary n (parse_comparison n pe) equality_ops"

definition parse_and :: "nat \<Rightarrow> expression parses \<Rightarrow> expression parses" where
  "parse_and n pe = parse_binary n (parse_equality n pe) [TOKEN_AND]"

fun parse_expression :: "nat \<Rightarrow> expression parses" where
  "parse_expression 0 p = Starved"
| "parse_expression (Suc n) p = parse_binary n (parse_and n (parse_expression n)) [TOKEN_OR] p"

section \<open>Statements\<close>

definition finish_simple_statement :: "parser \<Rightarrow> error + parser" where
  "finish_simple_statement p =
     rbind (if tok p = Sym (CHR '';'') then advance p else Inr p) (\<lambda>p1.
       if tok p1 = TOKEN_NEWLINE then skip_separators p1
       else if tok p1 \<noteq> Sym (CHR ''}'') then fail_here p1 ''start the next statement on a new line''
       else Inr p1)"

definition parse_let :: "expression parses \<Rightarrow> statement parses" where
  "parse_let pe p =
     obind (lift (advance p)) (\<lambda>p1.
     obind (lift (take_name p1 ''a name for this value'')) (\<lambda>(name, p2).
     obind (lift (if tok p2 = Sym (CHR '':'') then rbind (advance p2) parse_type
                  else Inr (TYPE_UNKNOWN, p2))) (\<lambda>(declared, p3).
     obind (lift (expect p3 (Sym (CHR ''='')) (CHR 0x27 # ''='' @ CHR 0x27 # '' followed by the value to store''))) (\<lambda>p4.
     obind (pe p4) (\<lambda>(e, p5).
     obind (lift (finish_simple_statement p5)) (\<lambda>p6.
       Done (S_Let (tok_line (p_token p)) (tok_column (p_token p)) name declared (-1) e, p6)))))))"

definition parse_return :: "expression parses \<Rightarrow> statement parses" where
  "parse_return pe p =
     obind (lift (advance p)) (\<lambda>p1.
     obind (if tok p1 \<noteq> TOKEN_NEWLINE \<and> tok p1 \<noteq> Sym (CHR '';'') \<and> tok p1 \<noteq> Sym (CHR ''}'')
            then obind (pe p1) (\<lambda>(e, p2). Done (Some e, p2)) else Done (None, p1)) (\<lambda>(e, p2).
     obind (lift (finish_simple_statement p2)) (\<lambda>p3.
       Done (S_Return (tok_line (p_token p)) (tok_column (p_token p)) e, p3))))"

definition parse_if :: "expression parses \<Rightarrow> statement list parses \<Rightarrow> statement parses" where
  "parse_if pe pb p =
     obind (lift (advance p)) (\<lambda>p1.
     obind (pe p1) (\<lambda>(e, p2).
     obind (pb p2) (\<lambda>(then_body, p3).
     obind (lift (skip_separators p3)) (\<lambda>p4.
     obind (if word_is p4 ''else'' then obind (lift (advance p4)) pb else Done ([], p4))
       (\<lambda>(else_body, p5).
          Done (S_If (tok_line (p_token p)) (tok_column (p_token p)) e then_body else_body, p5))))))"

definition parse_while :: "expression parses \<Rightarrow> statement list parses \<Rightarrow> statement parses" where
  "parse_while pe pb p =
     obind (lift (advance p)) (\<lambda>p1.
     obind (pe p1) (\<lambda>(e, p2).
     obind (pb p2) (\<lambda>(loop_body, p3).
       Done (S_While (tok_line (p_token p)) (tok_column (p_token p)) e loop_body, p3))))"

text \<open>An expression statement, or an assignment when a name or a position is followed by \<open>=\<close>.\<close>

definition parse_simple :: "expression parses \<Rightarrow> statement parses" where
  "parse_simple pe p =
     (let l = tok_line (p_token p); c = tok_column (p_token p) in
      obind (pe p) (\<lambda>(e, p1).
      obind (case e of
               E_Name _ name \<Rightarrow>
                 if tok p1 = Sym (CHR ''='')
                 then obind (lift (advance p1)) (\<lambda>p2. obind (pe p2) (\<lambda>(v, p3). Done (S_Assign l c name (-1) v, p3)))
                 else Done (S_Expression l c e, p1)
             | E_Index _ _ _ \<Rightarrow>
                 if tok p1 = Sym (CHR ''='')
                 then obind (lift (advance p1)) (\<lambda>p2. obind (pe p2) (\<lambda>(v, p3). Done (S_Index_Assign l c e v, p3)))
                 else Done (S_Expression l c e, p1)
             | _ \<Rightarrow> Done (S_Expression l c e, p1)) (\<lambda>(s, p4).
      obind (lift (finish_simple_statement p4)) (\<lambda>p5. Done (s, p5)))))"

definition parse_statement :: "expression parses \<Rightarrow> statement list parses \<Rightarrow> statement parses" where
  "parse_statement pe pb p =
     (if word_is p ''let'' then parse_let pe p
      else if word_is p ''return'' then parse_return pe p
      else if word_is p ''if'' then parse_if pe pb p
      else if word_is p ''while'' then parse_while pe pb p
      else parse_simple pe p)"

fun parse_block_loop :: "nat \<Rightarrow> statement parses \<Rightarrow> statement list parses" where
  "parse_block_loop 0 ps p = Starved"
| "parse_block_loop (Suc n) ps p =
     (if tok p \<noteq> Sym (CHR ''}'') then
        (if tok p = TOKEN_EOF then lift (fail_here p ''this block needs a closing brace'')
         else obind (ps p) (\<lambda>(s, p1).
              obind (lift (skip_separators p1)) (\<lambda>p2.
              obind (parse_block_loop n ps p2) (\<lambda>(ss, p3). Done (s # ss, p3)))))
      else obind (lift (advance p)) (\<lambda>p1. Done ([], p1)))"

fun parse_block :: "nat \<Rightarrow> statement list parses" where
  "parse_block 0 p = Starved"
| "parse_block (Suc n) p =
     obind (lift (expect p (Sym (CHR ''{'')) ''an opening brace'')) (\<lambda>p1.
     obind (lift (skip_separators p1)) (\<lambda>p2.
       parse_block_loop n (parse_statement (parse_expression n) (parse_block n)) p2))"

section \<open>Functions and programs\<close>

lemma parse_type_weight: "parse_type p = Inr (t, p') \<Longrightarrow> weight p' < weight p"
proof (induction p arbitrary: t p' rule: parse_type.induct)
  case (1 p)
  show ?case
  proof (cases "base_type p")
    case (Some b)
    then have "tok p \<noteq> TOKEN_EOF"
      by (auto simp: base_type_def word_is_def split: if_splits)
    then show ?thesis
      using "1.prems" Some by (auto simp: parse_type.simps [of p] rbind_eq_Inr intro: advance_weight)
  next
    case None
    then obtain p1 p2 p3 u where w: "word_is p ''List''" and a: "advance p = Inr p1"
      and e: "expect p1 (Sym (CHR ''<'')) (CHR 0x27 # ''<'' @ CHR 0x27 # '' followed by the list's element type'') = Inr p2"
      and r: "parse_type p2 = Inr (u, p3)"
      and c: "expect p3 (Sym (CHR ''>''))
                (''a closing '' @ CHR 0x27 # ''>'' @ CHR 0x27 # '' after the list's element type'') = Inr p'"
      using "1.prems" by (auto simp: parse_type.simps [of p] rbind_eq_Inr split: if_splits)
    from "1.IH" [OF None w a e r] advance_weight_weak [OF a] expect_weight [OF e] expect_weight [OF c]
    show ?thesis by simp
  qed
qed

definition parse_parameter :: "parser \<Rightarrow> error + (parameter \<times> parser)" where
  "parse_parameter p =
     rbind (take_name p ''a parameter name'') (\<lambda>(name, p1).
     rbind (expect p1 (Sym (CHR '':'')) (CHR 0x27 # '':'' @ CHR 0x27 # '' and the parameter's type'')) (\<lambda>p2.
     rbind (parse_type p2) (\<lambda>(type, p3).
       Inr (\<lparr>parameter_name = name, parameter_type = type,
             parameter_line = tok_line (p_token p), parameter_column = tok_column (p_token p)\<rparr>, p3))))"

lemma parse_parameter_weight: "parse_parameter p = Inr (q, p') \<Longrightarrow> weight p' < weight p"
  by (fastforce simp: parse_parameter_def rbind_eq_Inr
        dest: take_name_weight expect_weight parse_type_weight)

function parse_parameter_loop :: "parser \<Rightarrow> error + (parameter list \<times> parser)" where
  "parse_parameter_loop p =
     rbind (parse_parameter p) (\<lambda>(q, p1).
       if tok p1 \<noteq> Sym (CHR '','') then Inr ([q], p1)
       else rbind (advance p1) (\<lambda>p2.
              if tok p2 = Sym (CHR '')'') then Inr ([q], p2)
              else rbind (parse_parameter_loop p2) (\<lambda>(qs, p3). Inr (q # qs, p3))))"
  by pat_completeness auto
termination
  by (relation "measure weight")
     (auto dest!: parse_parameter_weight advance_weight_weak)

declare parse_parameter_loop.simps [simp del]

definition parse_function :: "nat \<Rightarrow> function_decl parses" where
  "parse_function n p =
     obind (lift (expect_word p ''function'')) (\<lambda>p1.
     obind (lift (take_name p1 ''a function name'')) (\<lambda>(name, p2).
     obind (lift (expect p2 (Sym (CHR ''('')) ''an opening parenthesis'')) (\<lambda>p3.
     obind (lift (if tok p3 \<noteq> Sym (CHR '')'') then parse_parameter_loop p3 else Inr ([], p3))) (\<lambda>(qs, p4).
     obind (lift (expect p4 (Sym (CHR '')'')) ''a closing parenthesis'')) (\<lambda>p5.
     obind (lift (if tok p5 = Sym (CHR '':'')
                  then rbind (advance p5) (\<lambda>p6. rbind (parse_type p6) (\<lambda>(type, p7). Inr ((type, True), p7)))
                  else if name = ''main'' then Inr ((TYPE_INTEGER, False), p5)
                  else Inr ((TYPE_NOTHING, False), p5))) (\<lambda>((type, written), p8).
     obind (parse_block n p8) (\<lambda>(statements, p9).
       Done (\<lparr>function_name = name, parameters = qs, return_type = type, return_was_written = written,
              body = statements, locals = [],
              function_line = tok_line (p_token p), function_column = tok_column (p_token p)\<rparr>, p9))))))))"

fun parse_functions :: "nat \<Rightarrow> function_decl list parses" where
  "parse_functions 0 p = Starved"
| "parse_functions (Suc n) p =
     (if tok p \<noteq> TOKEN_EOF then
        (if \<not> word_is p ''function''
         then lift (fail_here p ''a Minyar file contains function declarations here'')
         else obind (parse_function n p) (\<lambda>(f, p1).
              obind (lift (skip_separators p1)) (\<lambda>p2.
              obind (parse_functions n p2) (\<lambda>(fs, p3). Done (f # fs, p3)))))
      else Done ([], p))"

definition initial_lexer :: "string \<Rightarrow> lexer" where
  "initial_lexer source = \<lparr>cursor = source, lex_line = 1, lex_column = 1\<rparr>"

definition parse_program_fuelled :: "nat \<Rightarrow> string \<Rightarrow> program outcome" where
  "parse_program_fuelled n source =
     obind (lift (next_token (initial_lexer source))) (\<lambda>(t, l).
     obind (lift (skip_separators \<lparr>p_lexer = l, p_token = t, p_literals = []\<rparr>)) (\<lambda>p.
     obind (parse_functions n p) (\<lambda>(fs, p').
       Done \<lparr>program_functions = fs, text_literals = p_literals p'\<rparr>)))"

text \<open>Every loop and every nested expression or block of the source costs at least one of its
  bytes, so its length bounds the recursion.\<close>

definition parse_program :: "string \<Rightarrow> program outcome" where
  "parse_program source = parse_program_fuelled (length source + 2) source"

end
