(* ===== verification/Parser_Total.thy ===== *)
theory Parser_Total
  imports Parser
begin

text \<open>
  The parser always answers: every expression and every block it reads consumes source, and
  with fuel above what is left to read it never starves. The two facts about the parser an
  expression parser calls are the locale \<open>sub_parser\<close>; \<open>parse_expression\<close> and \<open>parse_block\<close>
  are shown to satisfy it level by level.
\<close>

section \<open>What a parser promises its callers\<close>

text \<open>
  \<open>progress\<close>: an answer leaves strictly less to read. \<open>fed\<close>: with less than \<open>bound\<close> left to
  read, there is an answer or a diagnostic.
\<close>

locale sub_parser =
  fixes pp :: "'a parses" and bound :: nat
  assumes progress: "pp p = Done (x, p') \<Longrightarrow> weight p' < weight p"
    and fed: "weight p < bound \<Longrightarrow> pp p \<noteq> Starved"

lemma sub_parser_mono: "sub_parser pp b \<Longrightarrow> b' \<le> b \<Longrightarrow> sub_parser pp b'"
  by (auto simp: sub_parser_def)

context sub_parser
begin

lemma progress_le: "pp p = Done (x, p') \<Longrightarrow> weight p' \<le> weight p"
  using progress by fastforce

lemma starvedD: "pp p = Starved \<Longrightarrow> bound \<le> weight p"
  using fed [of p] by fastforce

end

lemma weight_literals [simp]: "weight (p\<lparr>p_literals := ls\<rparr>) = weight p"
  by (simp add: weight_def)

section \<open>Expressions\<close>

text \<open>Reading below \<open>pe\<close>, the parser for nested expressions.\<close>

locale expression_reader = sub_parser pe bound for pe :: "expression parses" and bound
begin

lemma argument_loop_progress:
  "parse_argument_loop n pe p = Done (es, p') \<Longrightarrow> weight p' < weight p"
proof (induction n arbitrary: p es p')
  case (Suc n)
  then show ?case
    by (fastforce simp: obind_eq_Done dest: progress advance_weight_weak split: if_splits)
qed simp

lemma argument_loop_fed:
  "weight p < n \<Longrightarrow> weight p < bound \<Longrightarrow> parse_argument_loop n pe p \<noteq> Starved"
proof (induction n arbitrary: p)
  case (Suc n)
  have "parse_argument_loop n pe p2 \<noteq> Starved"
    if "pe p = Done (e, p1)" "advance p1 = Inr p2" for e p1 p2
    using that Suc progress [of p e p1] advance_weight_weak [of p1 p2] by fastforce
  then show ?case
    using fed [OF Suc.prems(2)] by (auto simp: obind_eq_Starved split: if_splits)
qed simp

lemma arguments_progress:
  assumes "parse_arguments n pe p = Done (es, p')"
  shows "weight p' < weight p"
  using assms
  by (auto simp: parse_arguments_def obind_eq_Done split: if_splits
        dest!: argument_loop_progress expect_weight advance_weight_weak)

lemma arguments_fed:
  assumes "weight p \<le> n" and "weight p \<le> bound" and "tok p \<noteq> TOKEN_EOF"
  shows "parse_arguments n pe p \<noteq> Starved"
  using assms advance_weight [of p] argument_loop_fed [of _ n]
  by (fastforce simp: parse_arguments_def obind_eq_Starved split: if_splits)

lemma arguments_fedD:
  "parse_arguments n pe p = Starved \<Longrightarrow> tok p \<noteq> TOKEN_EOF \<Longrightarrow> n < weight p \<or> bound < weight p"
  using arguments_fed [of p n] by fastforce

lemma atom_progress:
  assumes "parse_atom n pe p = Done (e, p')"
  shows "weight p' < weight p"
  using assms
  by (auto simp: parse_atom_def Let_def obind_eq_Done word_is_def split: if_splits
        dest!: advance_weight take_name_weight arguments_progress expect_weight progress)

lemma atom_fed:
  assumes "weight p \<le> n" and "weight p \<le> bound"
  shows "parse_atom n pe p \<noteq> Starved"
proof -
  have "parse_arguments n pe p1 \<noteq> Starved"
    if "take_name p d = Inr (x, p1)" "tok p1 = Sym (CHR ''('')" for d x p1
    using that assms take_name_weight [of p d x p1] by (intro arguments_fed) auto
  moreover have "pe p1 \<noteq> Starved" if "advance p = Inr p1" "tok p = Sym (CHR ''('')" for p1
    using that assms advance_weight [of p p1] by (intro fed) simp
  ultimately show ?thesis
    by (auto simp: parse_atom_def Let_def obind_eq_Starved)
qed

lemma suffixes_progress:
  "parse_suffixes n pe e p = Done (e', p') \<Longrightarrow> weight p' \<le> weight p"
proof (induction n arbitrary: e p e' p')
  case (Suc n)
  show ?case
    using Suc.prems
    by (auto simp: obind_eq_Done split: if_splits
        dest!: Suc.IH advance_weight_weak take_name_weight arguments_progress expect_weight progress)
qed simp

lemma suffixes_fed:
  "weight p < n \<Longrightarrow> weight p \<le> bound \<Longrightarrow> parse_suffixes n pe e p \<noteq> Starved"
proof (induction n arbitrary: e p)
  case (Suc n)
  have again: "weight p \<le> weight p'" if "parse_suffixes n pe e' p' = Starved" for e' p'
    using that Suc.IH [of p' e'] Suc.prems by fastforce
  show ?case
  proof
    assume "parse_suffixes (Suc n) pe e p = Starved"
    with Suc.prems show False
      by (auto simp: obind_eq_Starved split: if_splits
          dest!: starvedD arguments_fedD advance_weight take_name_weight arguments_progress
            expect_weight progress again)
  qed
qed simp

lemma primary_progress: "parse_primary n pe p = Done (e, p') \<Longrightarrow> weight p' < weight p"
  by (fastforce simp: parse_primary_def obind_eq_Done dest: atom_progress suffixes_progress)

lemma primary_fed:
  assumes "weight p \<le> n" and "weight p \<le> bound"
  shows "parse_primary n pe p \<noteq> Starved"
proof -
  have "parse_suffixes n pe e p1 \<noteq> Starved" if "parse_atom n pe p = Done (e, p1)" for e p1
    using assms atom_progress [OF that] by (intro suffixes_fed) simp_all
  then show ?thesis
    using atom_fed [OF assms] by (auto simp: parse_primary_def obind_eq_Starved)
qed

lemma unary_progress: "parse_unary n pe p = Done (e, p') \<Longrightarrow> weight p' < weight p"
proof (induction "weight p" arbitrary: p e p' rule: less_induct)
  case less
  show ?case
  proof (cases "tok p = Sym (CHR ''!'') \<or> tok p = Sym (CHR ''-'')")
    case True
    then obtain p1 e1 where "advance p = Inr p1" and "parse_unary n pe p1 = Done (e1, p')"
      using less.prems by (auto simp: parse_unary.simps [of n pe p] obind_eq_Done)
    then show ?thesis using True less.hyps advance_weight [of p p1] by fastforce
  next
    case False
    then show ?thesis
      using less.prems by (auto simp: parse_unary.simps [of n pe p] intro: primary_progress)
  qed
qed

lemma unary_fed:
  "weight p \<le> n \<Longrightarrow> weight p \<le> bound \<Longrightarrow> parse_unary n pe p \<noteq> Starved"
proof (induction "weight p" arbitrary: p rule: less_induct)
  case less
  show ?case
  proof (cases "tok p = Sym (CHR ''!'') \<or> tok p = Sym (CHR ''-'')")
    case True
    have "parse_unary n pe p1 \<noteq> Starved" if "advance p = Inr p1" for p1
      using that True less advance_weight [of p p1] by fastforce
    with True show ?thesis by (auto simp: parse_unary.simps [of n pe p] obind_eq_Starved)
  next
    case False
    then show ?thesis using primary_fed less.prems by (simp add: parse_unary.simps [of n pe p])
  qed
qed

lemma unary_sub_parser: "sub_parser (parse_unary n pe) (Suc (min n bound))"
  by unfold_locales (simp_all add: unary_progress unary_fed)

end

text \<open>Operators joining operands of a level that keeps the promise: one lemma for the six levels.\<close>

locale operand_reader = sub_parser operand b for operand :: "expression parses" and b
begin

lemma binary_loop_progress:
  "parse_binary_loop n operand ops e p = Done (e', p') \<Longrightarrow> weight p' \<le> weight p"
proof (induction n arbitrary: e p)
  case (Suc n)
  show ?case
    using Suc.prems
    by (auto simp: obind_eq_Done split: if_splits dest!: Suc.IH advance_weight_weak progress)
qed simp

lemma binary_loop_fed:
  assumes "TOKEN_EOF \<notin> set ops"
  shows "weight p < n \<Longrightarrow> weight p \<le> b \<Longrightarrow> parse_binary_loop n operand ops e p \<noteq> Starved"
proof (induction n arbitrary: e p)
  case (Suc n)
  have "operand p1 \<noteq> Starved \<and> (\<forall>e1 p2. operand p1 = Done (e1, p2) \<longrightarrow>
      (\<forall>e2. parse_binary_loop n operand ops e2 p2 \<noteq> Starved))"
    if "advance p = Inr p1" "tok p \<in> set ops" for p1
  proof -
    have w: "weight p1 < weight p"
      using that assms by (metis advance_weight)
    then have "operand p1 \<noteq> Starved"
      using fed [of p1] Suc.prems by simp
    moreover have "parse_binary_loop n operand ops e2 p2 \<noteq> Starved" if "operand p1 = Done (e1, p2)" for e1 p2 e2
      using progress [OF that] w Suc by simp
    ultimately show ?thesis by blast
  qed
  then show ?case by (auto simp: obind_eq_Starved)
qed simp

lemma binary_sub_parser:
  assumes "TOKEN_EOF \<notin> set ops" and "b \<le> Suc n"
  shows "sub_parser (parse_binary n operand ops) b"
proof
  fix p e p'
  assume "parse_binary n operand ops p = Done (e, p')"
  then show "weight p' < weight p"
    by (fastforce simp: parse_binary_def obind_eq_Done dest: progress binary_loop_progress)
next
  fix p
  assume w: "weight p < b"
  have "parse_binary_loop n operand ops e p1 \<noteq> Starved" if "operand p = Done (e, p1)" for e p1
    using progress [OF that] w assms by (intro binary_loop_fed) simp_all
  then show "parse_binary n operand ops p \<noteq> Starved"
    using fed [OF w] by (auto simp: parse_binary_def obind_eq_Starved)
qed

end

lemmas operator_defs = product_ops_def sum_ops_def comparison_ops_def equality_ops_def

lemma parse_and_sub_parser:
  assumes "sub_parser pe n"
  shows "sub_parser (parse_and n pe) (Suc n)"
proof -
  have step: "sub_parser (parse_binary n q ops) (Suc n)"
    if "sub_parser q (Suc n)" and "TOKEN_EOF \<notin> set ops" for q ops
    using that operand_reader.binary_sub_parser [of q "Suc n" ops n] by (simp add: operand_reader_def)
  have "sub_parser (parse_unary n pe) (Suc n)"
    using expression_reader.unary_sub_parser [of pe n n] assms by (simp add: expression_reader_def)
  then show ?thesis
    unfolding parse_and_def parse_equality_def parse_comparison_def parse_sum_def parse_product_def
    by (intro step) (simp_all add: operator_defs)
qed

lemma parse_expression_sub_parser: "sub_parser (parse_expression n) n"
proof (induction n)
  case 0
  then show ?case by unfold_locales simp_all
next
  case (Suc n)
  have "sub_parser (parse_binary n (parse_and n (parse_expression n)) [TOKEN_OR]) (Suc n)"
    using parse_and_sub_parser [OF Suc] operand_reader.binary_sub_parser [of _ "Suc n" "[TOKEN_OR]" n]
    by (simp add: operand_reader_def)
  then show ?case by (simp add: sub_parser_def)
qed

interpretation expression: expression_reader "parse_expression n" n for n
  using parse_expression_sub_parser by (simp add: expression_reader_def)

interpretation conjunctions: operand_reader "parse_and n (parse_expression n)" "Suc n" for n
  using parse_and_sub_parser [OF parse_expression_sub_parser] by (simp add: operand_reader_def)

section \<open>Statements\<close>

lemma finish_simple_statement_weight:
  "finish_simple_statement p = Inr p' \<Longrightarrow> weight p' \<le> weight p"
  by (fastforce simp: finish_simple_statement_def rbind_eq_Inr
        dest: advance_weight_weak skip_separators_weight split: if_splits)

text \<open>Reading a statement with a parser for expressions and one for blocks.\<close>

locale statement_reader = pe: sub_parser pe bound + pb: sub_parser pb bound
  for pe :: "expression parses" and pb :: "statement list parses" and bound
begin

lemmas weights = advance_weight_weak take_name_weight expect_weight parse_type_weight
  finish_simple_statement_weight skip_separators_weight pe.progress pb.progress

lemma let_progress: "parse_let pe p = Done (s, p') \<Longrightarrow> weight p' < weight p"
  by (fastforce simp: parse_let_def obind_eq_Done rbind_eq_Inr dest: weights split: if_splits)

lemma return_progress: "parse_return pe p = Done (s, p') \<Longrightarrow> tok p \<noteq> TOKEN_EOF \<Longrightarrow> weight p' < weight p"
  by (fastforce simp: parse_return_def obind_eq_Done dest: weights advance_weight split: if_splits)

lemma if_progress: "parse_if pe pb p = Done (s, p') \<Longrightarrow> weight p' < weight p"
  by (fastforce simp: parse_if_def obind_eq_Done dest: weights split: if_splits)

lemma while_progress: "parse_while pe pb p = Done (s, p') \<Longrightarrow> weight p' < weight p"
  by (fastforce simp: parse_while_def obind_eq_Done dest: weights)

lemma simple_progress: "parse_simple pe p = Done (s, p') \<Longrightarrow> weight p' < weight p"
  by (fastforce simp: parse_simple_def Let_def obind_eq_Done dest: weights
        split: if_splits expression.splits)

lemma statement_progress: "parse_statement pe pb p = Done (s, p') \<Longrightarrow> weight p' < weight p"
  by (auto simp: parse_statement_def word_is_def split: if_splits
        intro: let_progress return_progress if_progress while_progress simple_progress)

lemmas fedDs = pe.starvedD pb.starvedD

lemma statement_fed:
  assumes "weight p < bound"
  shows "parse_statement pe pb p \<noteq> Starved"
proof -
  have "parse_let pe p \<noteq> Starved"
    using assms by (fastforce simp: parse_let_def obind_eq_Starved rbind_eq_Inr
        dest: fedDs weights split: if_splits)
  moreover have "parse_return pe p \<noteq> Starved"
    using assms by (fastforce simp: parse_return_def obind_eq_Starved obind_eq_Done
        dest: fedDs weights split: if_splits)
  moreover have "parse_if pe pb p \<noteq> Starved"
    using assms by (fastforce simp: parse_if_def obind_eq_Starved dest: fedDs weights split: if_splits)
  moreover have "parse_while pe pb p \<noteq> Starved"
    using assms by (fastforce simp: parse_while_def obind_eq_Starved dest: fedDs weights)
  moreover have "parse_simple pe p \<noteq> Starved"
    using assms by (fastforce simp: parse_simple_def Let_def obind_eq_Starved dest: fedDs weights
        split: if_splits expression.splits)
  ultimately show ?thesis by (simp add: parse_statement_def)
qed

lemma statement_sub_parser: "sub_parser (parse_statement pe pb) bound"
  by unfold_locales (simp_all add: statement_progress statement_fed)

end

locale block_reader = sub_parser ps bound for ps :: "statement parses" and bound
begin

lemma block_loop_progress: "parse_block_loop n ps p = Done (ss, p') \<Longrightarrow> weight p' < weight p"
proof (induction n arbitrary: p ss)
  case (Suc n)
  show ?case
    using Suc.prems
    by (auto simp: obind_eq_Done split: if_splits
        dest!: Suc.IH advance_weight skip_separators_weight progress)
qed simp

lemma block_loop_fed: "weight p < n \<Longrightarrow> weight p < bound \<Longrightarrow> parse_block_loop n ps p \<noteq> Starved"
proof (induction n arbitrary: p)
  case (Suc n)
  have "parse_block_loop n ps p2 \<noteq> Starved"
    if "ps p = Done (s, p1)" "skip_separators p1 = Inr p2" for s p1 p2
    using that Suc progress [of p s p1] skip_separators_weight [of p1 p2] by simp
  then show ?case
    using fed [OF Suc.prems(2)] by (auto simp: obind_eq_Starved)
qed simp

end

lemma parse_block_sub_parser: "sub_parser (parse_block n) n"
proof (induction n)
  case 0
  then show ?case by unfold_locales simp_all
next
  case (Suc n)
  have "statement_reader (parse_expression n) (parse_block n) n"
    using Suc parse_expression_sub_parser by (simp add: statement_reader_def)
  then have reader: "block_reader (parse_statement (parse_expression n) (parse_block n)) n"
    by (simp add: block_reader_def statement_reader.statement_sub_parser)
  show ?case
  proof
    fix p ss p'
    assume "parse_block (Suc n) p = Done (ss, p')"
    then show "weight p' < weight p"
      by (fastforce simp: obind_eq_Done dest: expect_weight skip_separators_weight
          block_reader.block_loop_progress [OF reader])
  next
    fix p
    assume "weight p < Suc n"
    moreover have "parse_block_loop n (parse_statement (parse_expression n) (parse_block n)) p2 \<noteq> Starved"
      if "weight p2 < n" for p2
      using block_reader.block_loop_fed [OF reader that that] .
    ultimately show "parse_block (Suc n) p \<noteq> Starved"
      by (fastforce simp: obind_eq_Starved dest: expect_weight skip_separators_weight)
  qed
qed

interpretation blocks: statement_reader "parse_expression n" "parse_block n" n for n
  using parse_expression_sub_parser parse_block_sub_parser by (simp add: statement_reader_def)

interpretation statements: block_reader "parse_statement (parse_expression n) (parse_block n)" n for n
  using blocks.statement_sub_parser by (simp add: block_reader_def)

section \<open>Programs\<close>

lemma parse_parameter_loop_weight:
  "parse_parameter_loop p = Inr (qs, p') \<Longrightarrow> weight p' < weight p"
proof (induction p arbitrary: qs p' rule: parse_parameter_loop.induct)
  case (1 p)
  obtain q p1 where q: "parse_parameter p = Inr (q, p1)"
    using "1.prems" by (auto simp: parse_parameter_loop.simps [of p] rbind_eq_Inr)
  note w = parse_parameter_weight [OF q]
  show ?case
  proof (cases "tok p1 = Sym (CHR '','')")
    case True
    then obtain p2 where p2: "advance p1 = Inr p2"
      using "1.prems" q by (auto simp: parse_parameter_loop.simps [of p] rbind_eq_Inr)
    show ?thesis
    proof (cases "tok p2 = Sym (CHR '')'')")
      case closed: True
      with True p2 q "1.prems" w show ?thesis
        by (auto simp: parse_parameter_loop.simps [of p] dest: advance_weight_weak)
    next
      case False
      then obtain qs1 where "parse_parameter_loop p2 = Inr (qs1, p')"
        using True p2 q "1.prems" by (auto simp: parse_parameter_loop.simps [of p] rbind_eq_Inr)
      from "1.IH" [OF q refl _ p2 False this] True w show ?thesis
        using advance_weight_weak [OF p2] by simp
    qed
  next
    case False
    with q "1.prems" w show ?thesis by (auto simp: parse_parameter_loop.simps [of p])
  qed
qed

lemma parse_function_progress: "parse_function n p = Done (f, p') \<Longrightarrow> weight p' < weight p"
  by (fastforce simp: parse_function_def obind_eq_Done rbind_eq_Inr split: if_splits
        dest: expect_word_weight take_name_weight expect_weight parse_parameter_loop_weight
          advance_weight_weak parse_type_weight blocks.pb.progress)

lemma parse_function_fed:
  assumes "weight p \<le> n"
  shows "parse_function n p \<noteq> Starved"
proof
  assume "parse_function n p = Starved"
  with assms show False
    by (auto simp: parse_function_def obind_eq_Starved rbind_eq_Inr split: if_splits
        dest!: expect_word_weight take_name_weight expect_weight parse_parameter_loop_weight
          advance_weight_weak parse_type_weight blocks.pb.starvedD)
qed

lemma parse_functions_fed: "weight p < n \<Longrightarrow> parse_functions n p \<noteq> Starved"
proof (induction n arbitrary: p)
  case (Suc n)
  have "parse_functions n p2 \<noteq> Starved"
    if "parse_function n p = Done (f, p1)" "skip_separators p1 = Inr p2" for f p1 p2
    using that Suc parse_function_progress [of n p f p1] skip_separators_weight [of p1 p2] by simp
  then show ?case
    using parse_function_fed [of p n] Suc.prems by (auto simp: obind_eq_Starved)
qed simp

lemma initial_weight:
  assumes "next_token (initial_lexer source) = Inr (t, l)"
    and "skip_separators \<lparr>p_lexer = l, p_token = t, p_literals = []\<rparr> = Inr p"
  shows "weight p < length source + 2"
  using next_token_cursor(1) [OF assms(1)] skip_separators_weight [OF assms(2)]
  by (auto simp: weight_def initial_lexer_def split: if_splits)

lemma parse_program_fed: "parse_program source \<noteq> Starved"
  using initial_weight parse_functions_fed
  by (fastforce simp: parse_program_def parse_program_fuelled_def obind_eq_Starved)

text \<open>
  C1. The parser is total: on every source text, of whatever bytes, \<open>parse_program\<close> ends with a
  program or with a diagnostic. The fuel it takes from the length of the source is never
  exhausted, so \<open>Starved\<close> is not a behaviour of the compiler.
\<close>

theorem parse_program_total:
  "(\<exists>program. parse_program source = Done program) \<or> (\<exists>e. parse_program source = Failed e)"
  using parse_program_fed [of source] by (cases "parse_program source") auto

end
