(* ===== verification/Emitter.thy ===== *)
theory Emitter
  imports Ast "HOL-Library.Monad_Syntax"
begin

text \<open>
  The LLVM emitter of the stage-zero compiler (\<open>bootstrap/stage0.c\<close>, \<open>emit_llvm_text\<close> to
  \<open>emit_program\<close>). The code prints each instruction with \<open>fprintf\<close>; here every format string
  is a constructor of \<open>instruction\<close>, the emitter returns the list of instructions, and
  \<open>render_instruction\<close> is the text the format string produces.

  The emitter reads \<open>arguments[0]\<close> and \<open>arguments[1]\<close> of a built-in call, and \<open>target->left\<close>
  of an indexed assignment, without testing that they exist: it relies on the checker. Such
  a read outside the tree is the result \<open>None\<close>.
\<close>

section \<open>Values, labels and instructions\<close>

text \<open>\<open>Value.name\<close>, by the format \<open>make_value\<close> was given.\<close>

datatype operand =
    O_Integer int      \<comment> \<open>\<open>%lld\<close>\<close>
  | O_Text int         \<comment> \<open>\<open>getelementptr (i8, ptr @.text.%d, i64 8)\<close>\<close>
  | O_Boolean bool     \<comment> \<open>\<open>true\<close> or \<open>false\<close>\<close>
  | O_Value nat        \<comment> \<open>\<open>%value.%d\<close>\<close>
  | O_Nothing          \<comment> \<open>the empty name of a call that returns nothing\<close>

record val =
  val_type :: ty
  val_name :: operand

datatype label =
    Entry | Logical_Right nat | Logical_End nat | If_Then nat | If_Else nat | If_End nat
  | While_Condition nat | While_Body nat | While_End nat

datatype instruction =
    I_Load nat ty int
  | I_Store ty operand int
  | I_Call_Void string "(string \<times> operand) list"
  | I_Call nat string string "(string \<times> operand) list"
  | I_Not nat operand
  | I_Checked nat string operand operand
  | I_Checked_Value nat
  | I_Checked_Overflow nat
  | I_Check_Overflow nat
  | I_Arithmetic nat string operand operand
  | I_Compare nat string ty operand operand
  | I_Int_To_Pointer nat nat
  | I_Truncate nat nat ty
  | I_Truncate_Status nat operand
  | I_Pointer_To_Int nat operand
  | I_Extend nat ty operand
  | I_Phi nat bool label operand label
  | I_Branch label
  | I_Branch_If operand label label
  | I_Label label
  | I_Return_Void
  | I_Return ty operand
  | I_Return_Status nat
  | I_Return_Zero
  | I_Unreachable
  | I_Allocate nat ty
  | I_Store_Argument ty nat

section \<open>Text\<close>

abbreviation newline :: string where "newline \<equiv> [NEWLINE]"

definition value_name :: "nat \<Rightarrow> string" where
  "value_name n = ''%value.'' @ decimal_nat n"

fun operand_text :: "operand \<Rightarrow> string" where
  "operand_text (O_Integer i) = decimal_int i"
| "operand_text (O_Text i) = ''getelementptr (i8, ptr @.text.'' @ decimal_int i @ '', i64 8)''"
| "operand_text (O_Boolean b) = (if b then ''true'' else ''false'')"
| "operand_text (O_Value n) = value_name n"
| "operand_text O_Nothing = []"

fun label_text :: "label \<Rightarrow> string" where
  "label_text Entry = ''entry''"
| "label_text (Logical_Right n) = ''logical.right.'' @ decimal_nat n"
| "label_text (Logical_End n) = ''logical.end.'' @ decimal_nat n"
| "label_text (If_Then n) = ''if.then.'' @ decimal_nat n"
| "label_text (If_Else n) = ''if.else.'' @ decimal_nat n"
| "label_text (If_End n) = ''if.end.'' @ decimal_nat n"
| "label_text (While_Condition n) = ''while.condition.'' @ decimal_nat n"
| "label_text (While_Body n) = ''while.body.'' @ decimal_nat n"
| "label_text (While_End n) = ''while.end.'' @ decimal_nat n"

fun arguments_text :: "(string \<times> operand) list \<Rightarrow> string" where
  "arguments_text [] = []"
| "arguments_text [(t, v)] = t @ '' '' @ operand_text v"
| "arguments_text ((t, v) # as) = t @ '' '' @ operand_text v @ '', '' @ arguments_text as"

fun render_instruction :: "instruction \<Rightarrow> string" where
  "render_instruction (I_Load n t i) =
     ''  '' @ value_name n @ '' = load '' @ llvm_type t @ '', ptr %local.'' @ decimal_int i @ newline"
| "render_instruction (I_Store t v i) =
     ''  store '' @ llvm_type t @ '' '' @ operand_text v @ '', ptr %local.'' @ decimal_int i @ newline"
| "render_instruction (I_Call_Void f as) =
     ''  call void @'' @ f @ ''('' @ arguments_text as @ '')'' @ newline"
| "render_instruction (I_Call n t f as) =
     ''  '' @ value_name n @ '' = call '' @ t @ '' @'' @ f @ ''('' @ arguments_text as @ '')'' @ newline"
| "render_instruction (I_Not n v) =
     ''  '' @ value_name n @ '' = xor i1 '' @ operand_text v @ '', true'' @ newline"
| "render_instruction (I_Checked n operation l r) =
     ''  %checked.'' @ decimal_nat n @ '' = call { i64, i1 } @llvm.'' @ operation @
     ''.with.overflow.i64(i64 '' @ operand_text l @ '', i64 '' @ operand_text r @ '')'' @ newline"
| "render_instruction (I_Checked_Value n) =
     ''  '' @ value_name n @ '' = extractvalue { i64, i1 } %checked.'' @ decimal_nat n @ '', 0'' @ newline"
| "render_instruction (I_Checked_Overflow n) =
     ''  %overflow.'' @ decimal_nat n @ '' = extractvalue { i64, i1 } %checked.'' @ decimal_nat n @ '', 1'' @ newline"
| "render_instruction (I_Check_Overflow n) =
     ''  call void @minyar_check_integer_overflow(i1 %overflow.'' @ decimal_nat n @ '')'' @ newline"
| "render_instruction (I_Arithmetic n operation l r) =
     ''  '' @ value_name n @ '' = '' @ operation @ '' i64 '' @ operand_text l @ '', '' @ operand_text r @ newline"
| "render_instruction (I_Compare n condition t l r) =
     ''  '' @ value_name n @ '' = icmp '' @ condition @ '' '' @ llvm_type t @ '' '' @ operand_text l @ '', '' @
     operand_text r @ newline"
| "render_instruction (I_Int_To_Pointer n m) =
     ''  '' @ value_name n @ '' = inttoptr i64 '' @ value_name m @ '' to ptr'' @ newline"
| "render_instruction (I_Truncate n m t) =
     ''  '' @ value_name n @ '' = trunc i64 '' @ value_name m @ '' to '' @ llvm_type t @ newline"
| "render_instruction (I_Truncate_Status n v) =
     ''  '' @ value_name n @ '' = trunc i64 '' @ operand_text v @ '' to i32'' @ newline"
| "render_instruction (I_Pointer_To_Int n v) =
     ''  '' @ value_name n @ '' = ptrtoint ptr '' @ operand_text v @ '' to i64'' @ newline"
| "render_instruction (I_Extend n t v) =
     ''  '' @ value_name n @ '' = zext '' @ llvm_type t @ '' '' @ operand_text v @ '' to i64'' @ newline"
| "render_instruction (I_Phi n b left_block v right_block) =
     ''  '' @ value_name n @ '' = phi i1 [ '' @ (if b then ''true'' else ''false'') @ '', %'' @ label_text left_block @
     '' ], [ '' @ operand_text v @ '', %'' @ label_text right_block @ '' ]'' @ newline"
| "render_instruction (I_Branch l) = ''  br label %'' @ label_text l @ newline"
| "render_instruction (I_Branch_If v l m) =
     ''  br i1 '' @ operand_text v @ '', label %'' @ label_text l @ '', label %'' @ label_text m @ newline"
| "render_instruction (I_Label l) = newline @ label_text l @ '':'' @ newline"
| "render_instruction I_Return_Void = ''  ret void'' @ newline"
| "render_instruction (I_Return t v) = ''  ret '' @ llvm_type t @ '' '' @ operand_text v @ newline"
| "render_instruction (I_Return_Status n) = ''  ret i32 '' @ value_name n @ newline"
| "render_instruction I_Return_Zero = ''  ret i32 0'' @ newline"
| "render_instruction I_Unreachable = ''  unreachable'' @ newline"
| "render_instruction (I_Allocate n t) = ''  %local.'' @ decimal_nat n @ '' = alloca '' @ llvm_type t @ newline"
| "render_instruction (I_Store_Argument t n) =
     ''  store '' @ llvm_type t @ '' %argument.'' @ decimal_nat n @ '', ptr %local.'' @ decimal_nat n @ newline"

text \<open>\<open>emit_llvm_text\<close>: the bytes of a literal between quotes, with a final zero byte.\<close>

definition hex_digit :: "nat \<Rightarrow> char" where
  "hex_digit d = (if d < 10 then char_of (48 + d) else char_of (55 + d))"

definition llvm_byte :: "char \<Rightarrow> string" where
  "llvm_byte c =
     (if 32 \<le> (of_char c :: nat) \<and> (of_char c :: nat) \<le> 126 \<and> c \<noteq> CHR 0x22 \<and> c \<noteq> CHR 0x5C then [c]
      else [CHR 0x5C, hex_digit (of_char c div 16), hex_digit (of_char c mod 16)])"

definition emit_llvm_text :: "string \<Rightarrow> string" where
  "emit_llvm_text s = CHR 0x22 # concat (map llvm_byte s) @ [CHR 0x5C] @ ''00'' @ [CHR 0x22]"

section \<open>Emitter state\<close>

record emitter =
  out_code :: "instruction list"
  in_main :: bool
  next_temporary :: nat
  next_label :: nat
  current_block :: label

definition new_temporary :: "emitter \<Rightarrow> nat \<times> emitter" where
  "new_temporary s = (next_temporary s, s\<lparr>next_temporary := next_temporary s + 1\<rparr>)"

definition new_label :: "emitter \<Rightarrow> nat \<times> emitter" where
  "new_label s = (next_label s, s\<lparr>next_label := next_label s + 1\<rparr>)"

definition put :: "instruction list \<Rightarrow> emitter \<Rightarrow> emitter" where
  "put is s = s\<lparr>out_code := out_code s @ is\<rparr>"

text \<open>Printing a label line is always followed by the update of \<open>current_block\<close>.\<close>

definition start_block :: "label \<Rightarrow> emitter \<Rightarrow> emitter" where
  "start_block l s = s\<lparr>out_code := out_code s @ [I_Label l], current_block := l\<rparr>"

abbreviation mk_val :: "ty \<Rightarrow> operand \<Rightarrow> val" where
  "mk_val t v \<equiv> \<lparr>val_type = t, val_name = v\<rparr>"

definition nothing :: val where
  "nothing = mk_val TYPE_NOTHING O_Nothing"

text \<open>Emit one instruction that defines a fresh temporary, and its value.\<close>

definition define_value :: "ty \<Rightarrow> (nat \<Rightarrow> instruction list) \<Rightarrow> emitter \<Rightarrow> val \<times> emitter" where
  "define_value t is s = (let (n, s1) = new_temporary s in (mk_val t (O_Value n), put (is n) s1))"

section \<open>Expressions\<close>

definition checked_code :: "string \<Rightarrow> operand \<Rightarrow> operand \<Rightarrow> nat \<Rightarrow> instruction list" where
  "checked_code operation l r n =
     [I_Checked n operation l r, I_Checked_Value n, I_Checked_Overflow n, I_Check_Overflow n]"

text \<open>The \<open>switch\<close> on the operator of a binary expression.\<close>

definition operator_code :: "token_kind \<Rightarrow> val \<Rightarrow> val \<Rightarrow> nat \<Rightarrow> instruction list" where
  "operator_code op left right n =
     (let l = val_name left; r = val_name right; t = val_type left in
      if op = Sym (CHR ''+'') then checked_code ''sadd'' l r n
      else if op = Sym (CHR ''-'') then checked_code ''ssub'' l r n
      else if op = Sym (CHR ''*'') then checked_code ''smul'' l r n
      else if op = Sym (CHR ''/'') then
        [I_Call_Void ''minyar_check_integer_division'' [(''i64'', l), (''i64'', r)], I_Arithmetic n ''sdiv'' l r]
      else if op = Sym (CHR ''%'') then
        [I_Call_Void ''minyar_check_integer_division'' [(''i64'', l), (''i64'', r)], I_Arithmetic n ''srem'' l r]
      else if op = Sym (CHR ''<'') then [I_Compare n ''slt'' t l r]
      else if op = Sym (CHR ''>'') then [I_Compare n ''sgt'' t l r]
      else if op = TOKEN_LESS_EQUAL then [I_Compare n ''sle'' t l r]
      else if op = TOKEN_GREATER_EQUAL then [I_Compare n ''sge'' t l r]
      else if op = TOKEN_EQUAL_EQUAL then [I_Compare n ''eq'' t l r]
      else if op = TOKEN_NOT_EQUAL then [I_Compare n ''ne'' t l r]
      else [])"

text \<open>A binary expression once both sides are emitted.\<close>

definition emit_operator :: "node \<Rightarrow> token_kind \<Rightarrow> val \<Rightarrow> val \<Rightarrow> emitter \<Rightarrow> val \<times> emitter" where
  "emit_operator nd op left right s =
     (if op = Sym (CHR ''+'') \<and> val_type left = TYPE_TEXT then
        define_value TYPE_TEXT
          (\<lambda>n. [I_Call n ''ptr'' ''minyar_join_text'' [(''ptr'', val_name left), (''ptr'', val_name right)]]) s
      else if (op = TOKEN_EQUAL_EQUAL \<or> op = TOKEN_NOT_EQUAL) \<and> val_type left = TYPE_TEXT then
        (let (v, s1) = define_value TYPE_BOOLEAN
               (\<lambda>n. [I_Call n ''i1'' ''minyar_texts_are_equal'' [(''ptr'', val_name left), (''ptr'', val_name right)]]) s
         in if op = TOKEN_NOT_EQUAL then define_value TYPE_BOOLEAN (\<lambda>n. [I_Not n (val_name v)]) s1
            else (v, s1))
      else define_value (node_type nd) (operator_code op left right) s)"

definition print_suffix :: "ty \<Rightarrow> string" where
  "print_suffix t =
     (if t = TYPE_INTEGER then ''integer'' else if t = TYPE_CHARACTER then ''character''
      else if t = TYPE_BOOLEAN then ''boolean'' else ''text'')"

definition text_suffix :: "ty \<Rightarrow> string" where
  "text_suffix t =
     (if t = TYPE_INTEGER then ''integer'' else if t = TYPE_CHARACTER then ''character'' else ''boolean'')"

abbreviation typed_operand :: "val \<Rightarrow> string \<times> operand" where
  "typed_operand v \<equiv> (llvm_type (val_type v), val_name v)"

text \<open>A call once its arguments are emitted. \<open>nth_argument\<close> is \<open>arguments[i]\<close>.\<close>

definition nth_argument :: "'a list \<Rightarrow> nat \<Rightarrow> 'a option" where
  "nth_argument as i = (if i < length as then Some (as ! i) else None)"

definition emit_call :: "node \<Rightarrow> string \<Rightarrow> val list \<Rightarrow> emitter \<Rightarrow> (val \<times> emitter) option" where
  "emit_call nd name as s =
     (if name = ''print'' then do {
        a \<leftarrow> nth_argument as 0;
        Some (nothing, put [I_Call_Void (''minyar_print_'' @ print_suffix (val_type a)) [typed_operand a]] s)
      }
      else if name = ''fail'' then do {
        a \<leftarrow> nth_argument as 0;
        Some (nothing, put [I_Call_Void ''minyar_fail'' [(''ptr'', val_name a)]] s)
      }
      else if name = ''Text'' then do {
        a \<leftarrow> nth_argument as 0;
        Some (if val_type a = TYPE_TEXT then (a, s)
              else define_value TYPE_TEXT
                     (\<lambda>n. [I_Call n ''ptr'' (''minyar_'' @ text_suffix (val_type a) @ ''_text'') [typed_operand a]]) s)
      }
      else if name = ''joinText'' then do {
        a \<leftarrow> nth_argument as 0;
        Some (define_value TYPE_TEXT (\<lambda>n. [I_Call n ''ptr'' ''minyar_join_texts'' [(''ptr'', val_name a)]]) s)
      }
      else if name = ''readTextFile'' \<or> name = ''argument'' then do {
        a \<leftarrow> nth_argument as 0;
        Some (define_value TYPE_TEXT
                (\<lambda>n. [I_Call n ''ptr'' (''minyar_'' @ (if name = ''argument'' then ''argument'' else ''read_text_file''))
                        [typed_operand a]]) s)
      }
      else if name = ''argumentCount'' then
        Some (define_value TYPE_INTEGER (\<lambda>n. [I_Call n ''i64'' ''minyar_argument_count'' []]) s)
      else if name = ''writeTextFile'' then do {
        a \<leftarrow> nth_argument as 0;
        b \<leftarrow> nth_argument as 1;
        Some (nothing, put [I_Call_Void ''minyar_write_text_file'' [(''ptr'', val_name a), (''ptr'', val_name b)]] s)
      }
      else if node_type nd = TYPE_NOTHING then
        Some (nothing, put [I_Call_Void name (map typed_operand as)] s)
      else
        Some (define_value (node_type nd) (\<lambda>n. [I_Call n (llvm_type (node_type nd)) name (map typed_operand as)]) s))"

text \<open>Widening a value to the 64 bits of a list slot.\<close>

definition emit_slot_value :: "val \<Rightarrow> emitter \<Rightarrow> val \<times> emitter" where
  "emit_slot_value v s =
     (if val_type v \<noteq> TYPE_INTEGER then
        define_value TYPE_INTEGER
          (\<lambda>n. [if val_type v = TYPE_TEXT then I_Pointer_To_Int n (val_name v)
                else I_Extend n (val_type v) (val_name v)]) s
      else (v, s))"

text \<open>Reading a list slot and narrowing it to the element type.\<close>

definition emit_slot_read :: "ty \<Rightarrow> val \<Rightarrow> val \<Rightarrow> emitter \<Rightarrow> val \<times> emitter" where
  "emit_slot_read element l i s =
     (let (raw, s1) = new_temporary s;
          s2 = put [I_Call raw ''i64'' ''minyar_list_get'' [(''ptr'', val_name l), (''i64'', val_name i)]] s1
      in if element = TYPE_INTEGER then (mk_val TYPE_INTEGER (O_Value raw), s2)
         else define_value element
                (\<lambda>n. [if element = TYPE_TEXT then I_Int_To_Pointer n raw else I_Truncate n raw element]) s2)"

definition member_code :: "ty \<Rightarrow> string \<Rightarrow> val \<Rightarrow> nat \<Rightarrow> instruction list" where
  "member_code t name v n =
     [I_Call n ''i64''
        (if t = TYPE_TEXT \<and> name = ''byteLength'' then ''minyar_text_byte_length''
         else if t = TYPE_TEXT then ''minyar_text_length'' else ''minyar_list_length'')
        [(''ptr'', val_name v)]]"

definition logical_branch :: "token_kind \<Rightarrow> operand \<Rightarrow> nat \<Rightarrow> nat \<Rightarrow> instruction" where
  "logical_branch op v right_label end_label =
     (if op = TOKEN_AND then I_Branch_If v (Logical_Right right_label) (Logical_End end_label)
      else I_Branch_If v (Logical_End end_label) (Logical_Right right_label))"

fun emit_expression :: "emitter \<Rightarrow> expression \<Rightarrow> (val \<times> emitter) option"
and emit_arguments :: "emitter \<Rightarrow> expression list \<Rightarrow> (val list \<times> emitter) option"
where
  "emit_expression s (E_Integer nd i) = Some (mk_val TYPE_INTEGER (O_Integer i), s)"
| "emit_expression s (E_Text nd x) = Some (mk_val TYPE_TEXT (O_Text (string_index nd)), s)"
| "emit_expression s (E_Character nd i) = Some (mk_val TYPE_CHARACTER (O_Integer i), s)"
| "emit_expression s (E_Boolean nd b) = Some (mk_val TYPE_BOOLEAN (O_Boolean b), s)"
| "emit_expression s (E_Name nd x) =
     Some (define_value (node_type nd) (\<lambda>n. [I_Load n (node_type nd) (local_index nd)]) s)"
| "emit_expression s (E_Call nd name args) =
     do { (as, s1) \<leftarrow> emit_arguments s args; emit_call nd name as s1 }"
| "emit_expression s (E_Unary nd op e) =
     do { (right, s1) \<leftarrow> emit_expression s e;
          Some (define_value (node_type nd)
                  (\<lambda>n. if op = Sym (CHR ''!'') then [I_Not n (val_name right)]
                       else checked_code ''ssub'' (O_Integer 0) (val_name right) n) s1) }"
| "emit_expression s (E_Member nd name e) =
     do { (left, s1) \<leftarrow> emit_expression s e;
          Some (define_value TYPE_INTEGER (member_code (node_type (node_of e)) name left) s1) }"
| "emit_expression s (E_Index nd e i) =
     do { (left, s1) \<leftarrow> emit_expression s e;
          (right, s2) \<leftarrow> emit_expression s1 i;
          Some (if node_type (node_of e) = TYPE_TEXT
                then define_value TYPE_CHARACTER
                       (\<lambda>n. [I_Call n ''i32'' ''minyar_text_character_at'' [(''ptr'', val_name left), (''i64'', val_name right)]]) s2
                else emit_slot_read (node_type nd) left right s2) }"
| "emit_expression s (E_List nd) = Some (define_value (node_type nd) (\<lambda>n. [I_Call n ''ptr'' ''minyar_list_new'' []]) s)"
| "emit_expression s (E_Method_Call nd name e args) =
     do { (left, s1) \<leftarrow> emit_expression s e;
          if node_type (node_of e) = TYPE_TEXT
          then (case args of
                  a # b # _ \<Rightarrow>
                    do { (right, s2) \<leftarrow> emit_expression s1 a;
                         (stop, s3) \<leftarrow> emit_expression s2 b;
                         Some (define_value TYPE_TEXT
                                 (\<lambda>n. [I_Call n ''ptr'' ''minyar_text_slice''
                                         [(''ptr'', val_name left), (''i64'', val_name right), (''i64'', val_name stop)]]) s3) }
                | _ \<Rightarrow> None)
          else (case args of
                  a # _ \<Rightarrow>
                    do { (right, s2) \<leftarrow> emit_expression s1 a;
                         let (slot, s3) = emit_slot_value right s2;
                         Some (nothing, put [I_Call_Void ''minyar_list_add'' [(''ptr'', val_name left), (''i64'', val_name slot)]] s3) }
                | _ \<Rightarrow> None) }"
| "emit_expression s (E_Binary nd op l r) =
     do { (left, s1) \<leftarrow> emit_expression s l;
          if op = TOKEN_AND \<or> op = TOKEN_OR then
            (let (right_label, s2) = new_label s1;
                 (end_label, s3) = new_label s2;
                 left_block = current_block s3;
                 s4 = start_block (Logical_Right right_label)
                        (put [logical_branch op (val_name left) right_label end_label] s3)
             in do { (right, s5) \<leftarrow> emit_expression s4 r;
                     let right_block = current_block s5;
                     let s6 = start_block (Logical_End end_label) (put [I_Branch (Logical_End end_label)] s5);
                     Some (define_value TYPE_BOOLEAN
                             (\<lambda>n. [I_Phi n (op \<noteq> TOKEN_AND) left_block (val_name right) right_block]) s6) })
          else do { (right, s2) \<leftarrow> emit_expression s1 r;
                    Some (emit_operator nd op left right s2) } }"
| "emit_arguments s [] = Some ([], s)"
| "emit_arguments s (e # es) =
     do { (v, s1) \<leftarrow> emit_expression s e;
          (vs, s2) \<leftarrow> emit_arguments s1 es;
          Some (v # vs, s2) }"

section \<open>Statements\<close>

text \<open>The boolean is the function's result: whether the code emitted ends in a return.\<close>

fun emit_statement :: "emitter \<Rightarrow> statement \<Rightarrow> (bool \<times> emitter) option"
and emit_statements :: "emitter \<Rightarrow> statement list \<Rightarrow> (bool \<times> emitter) option"
where
  "emit_statement s (S_Let l c name t i e) =
     do { (v, s1) \<leftarrow> emit_expression s e; Some (False, put [I_Store (val_type v) (val_name v) i] s1) }"
| "emit_statement s (S_Assign l c name i e) =
     do { (v, s1) \<leftarrow> emit_expression s e; Some (False, put [I_Store (val_type v) (val_name v) i] s1) }"
| "emit_statement s (S_Index_Assign l c target e) =
     (case target of
        E_Index nd b i \<Rightarrow>
          do { (base, s1) \<leftarrow> emit_expression s b;
               (position, s2) \<leftarrow> emit_expression s1 i;
               (v, s3) \<leftarrow> emit_expression s2 e;
               let (slot, s4) = emit_slot_value v s3;
               Some (False, put [I_Call_Void ''minyar_list_set''
                 [(''ptr'', val_name base), (''i64'', val_name position), (''i64'', val_name slot)]] s4) }
      | _ \<Rightarrow> None)"
| "emit_statement s (S_Expression l c e) =
     do { (v, s1) \<leftarrow> emit_expression s e; Some (False, s1) }"
| "emit_statement s (S_Return l c eo) =
     (case eo of
        None \<Rightarrow> Some (True, put [I_Return_Void] s)
      | Some e \<Rightarrow>
          do { (v, s1) \<leftarrow> emit_expression s e;
               Some (True,
                 if in_main s1
                 then (let (n, s2) = new_temporary s1 in put [I_Truncate_Status n (val_name v), I_Return_Status n] s2)
                 else put [I_Return (val_type v) (val_name v)] s1) })"
| "emit_statement s (S_If l c e then_body else_body) =
     do { (v, s1) \<leftarrow> emit_expression s e;
          let (then_label, s2) = new_label s1;
          let (else_label, s3) = new_label s2;
          let (end_label, s4) = new_label s3;
          let s5 = put [I_Branch_If (val_name v) (If_Then then_label)
                          (if else_body \<noteq> [] then If_Else else_label else If_End end_label)] s4;
          (then_returns, s6) \<leftarrow> emit_statements (start_block (If_Then then_label) s5) then_body;
          let s7 = (if \<not> then_returns then put [I_Branch (If_End end_label)] s6 else s6);
          (else_returns, s8) \<leftarrow>
            (if else_body \<noteq> [] then
               do { (returns, s') \<leftarrow> emit_statements (start_block (If_Else else_label) s7) else_body;
                    Some (returns, if \<not> returns then put [I_Branch (If_End end_label)] s' else s') }
             else Some (False, s7));
          let both = (then_returns \<and> else_body \<noteq> [] \<and> else_returns);
          Some (both, if \<not> both then start_block (If_End end_label) s8 else s8) }"
| "emit_statement s (S_While l c e loop_body) =
     (let (condition_label, s1) = new_label s;
          (body_label, s2) = new_label s1;
          (end_label, s3) = new_label s2;
          s4 = start_block (While_Condition condition_label) (put [I_Branch (While_Condition condition_label)] s3)
      in do { (v, s5) \<leftarrow> emit_expression s4 e;
              let s6 = start_block (While_Body body_label)
                         (put [I_Branch_If (val_name v) (While_Body body_label) (While_End end_label)] s5);
              (returns, s7) \<leftarrow> emit_statements s6 loop_body;
              let s8 = (if \<not> returns then put [I_Branch (While_Condition condition_label)] s7 else s7);
              Some (False, start_block (While_End end_label) s8) })"
| "emit_statements s [] = Some (False, s)"
| "emit_statements s (x # xs) =
     do { (returns, s1) \<leftarrow> emit_statement s x;
          if returns then Some (True, s1) else emit_statements s1 xs }"

section \<open>Functions and programs\<close>

definition is_main :: "function_decl \<Rightarrow> bool" where
  "is_main f \<longleftrightarrow> function_name f = ''main''"

text \<open>The slots and the arguments stored into them, before the body.\<close>

definition prologue :: "function_decl \<Rightarrow> instruction list" where
  "prologue f =
     map (\<lambda>i. I_Allocate i (local_type (locals f ! i))) [0..<length (locals f)] @
     map (\<lambda>i. I_Store_Argument (parameter_type (parameters f ! i)) i) [0..<length (parameters f)]"

definition initial_emitter :: "function_decl \<Rightarrow> emitter" where
  "initial_emitter f =
     \<lparr>out_code = prologue f, in_main = is_main f, next_temporary = 0, next_label = 0, current_block = Entry\<rparr>"

definition function_end :: "function_decl \<Rightarrow> instruction" where
  "function_end f =
     (if is_main f then I_Return_Zero
      else if return_type f = TYPE_NOTHING then I_Return_Void
      else I_Unreachable)"

definition emit_function :: "function_decl \<Rightarrow> instruction list option" where
  "emit_function f =
     do { (returns, s) \<leftarrow> emit_statements (initial_emitter f) (body f);
          Some (out_code s @ (if \<not> returns then [function_end f] else [])) }"

fun parameters_text :: "nat \<Rightarrow> parameter list \<Rightarrow> string" where
  "parameters_text i [] = []"
| "parameters_text i (q # qs) =
     (if i > 0 then '', '' else []) @ llvm_type (parameter_type q) @ '' %argument.'' @ decimal_nat i @
     parameters_text (i + 1) qs"

definition function_text :: "function_decl \<Rightarrow> instruction list \<Rightarrow> string" where
  "function_text f code =
     ''define '' @ (if is_main f then ''i32'' else llvm_type (return_type f)) @ '' @'' @ function_name f @ ''('' @
     (if is_main f then ''i32 %minyar.argument.count, ptr %minyar.argument.values''
      else parameters_text 0 (parameters f)) @
     '') {'' @ newline @ ''entry:'' @ newline @
     (if is_main f
      then ''  call void @minyar_initialize_arguments(i32 %minyar.argument.count, ptr %minyar.argument.values)'' @ newline
      else []) @
     concat (map render_instruction code) @ ''}'' @ newline @ newline"

definition literal_text :: "nat \<Rightarrow> string \<Rightarrow> string" where
  "literal_text i s =
     ''@.text.data.'' @ decimal_nat i @ '' = private unnamed_addr constant ['' @ decimal_nat (length s + 1) @
     '' x i8] c'' @ emit_llvm_text s @ newline @
     ''@.text.'' @ decimal_nat i @ '' = private global { i64, ptr, i64, i64, ptr } { i64 0, ptr @.text.data.'' @
     decimal_nat i @ '', i64 '' @ decimal_nat (length s) @ '', i64 -1, ptr null }'' @ newline"

definition declarations :: "string list" where
  "declarations =
     [''declare void @minyar_print_integer(i64)'',
      ''declare void @minyar_print_text(ptr)'',
      ''declare void @minyar_print_character(i32)'',
      ''declare void @minyar_print_boolean(i1)'',
      ''declare void @minyar_fail(ptr)'',
      ''declare i1 @minyar_texts_are_equal(ptr, ptr)'',
      ''declare ptr @minyar_join_text(ptr, ptr)'',
      ''declare ptr @minyar_join_texts(ptr)'',
      ''declare i64 @minyar_text_length(ptr)'',
      ''declare i64 @minyar_text_byte_length(ptr)'',
      ''declare i32 @minyar_text_character_at(ptr, i64)'',
      ''declare ptr @minyar_text_slice(ptr, i64, i64)'',
      ''declare ptr @minyar_integer_text(i64)'',
      ''declare ptr @minyar_character_text(i32)'',
      ''declare ptr @minyar_boolean_text(i1)'',
      ''declare void @minyar_initialize_arguments(i32, ptr)'',
      ''declare i64 @minyar_argument_count()'',
      ''declare ptr @minyar_argument(i64)'',
      ''declare ptr @minyar_read_text_file(ptr)'',
      ''declare void @minyar_write_text_file(ptr, ptr)'',
      ''declare ptr @minyar_list_new()'',
      ''declare void @minyar_list_add(ptr, i64)'',
      ''declare i64 @minyar_list_length(ptr)'',
      ''declare i64 @minyar_list_get(ptr, i64)'',
      ''declare void @minyar_list_set(ptr, i64, i64)'',
      ''declare void @minyar_check_integer_overflow(i1)'',
      ''declare void @minyar_check_integer_division(i64, i64)'',
      ''declare { i64, i1 } @llvm.sadd.with.overflow.i64(i64, i64)'',
      ''declare { i64, i1 } @llvm.ssub.with.overflow.i64(i64, i64)'',
      ''declare { i64, i1 } @llvm.smul.with.overflow.i64(i64, i64)'']"

fun emit_functions :: "function_decl list \<Rightarrow> string option" where
  "emit_functions [] = Some []"
| "emit_functions (f # fs) =
     do { code \<leftarrow> emit_function f; rest \<leftarrow> emit_functions fs; Some (function_text f code @ rest) }"

definition emit_program :: "program \<Rightarrow> string option" where
  "emit_program program =
     do { code \<leftarrow> emit_functions (program_functions program);
          Some (''; Generated by Minyar's temporary stage-zero compiler.'' @ newline @ newline @
            concat (map (\<lambda>i. literal_text i (text_literals program ! i)) [0..<length (text_literals program)]) @
            newline @ concat (map (\<lambda>d. d @ newline) declarations) @ newline @ code) }"

end
