(* ===== verification/Emission.thy ===== *)
theory Emission
  imports Emitter Parser
begin

text \<open>
  The shape of the emitted code. LLVM accepts a function only if it is in static single
  assignment form and cut into basic blocks. Three executable checks say so on a list of
  instructions: \<open>scan\<close> (each register is written once and read only after it was written),
  \<open>run_blocks\<close> (each block ends in exactly one terminator and starts at a label), and
  \<open>closed_labels\<close> (no label twice, and every branch goes to a label of the function). The
  emitter is shown to produce only code that passes them.
\<close>

section \<open>Registers\<close>

datatype register = R_Value nat | R_Checked nat | R_Overflow nat

fun register_number :: "register \<Rightarrow> nat" where
  "register_number (R_Value n) = n"
| "register_number (R_Checked n) = n"
| "register_number (R_Overflow n) = n"

fun operand_registers :: "operand \<Rightarrow> register list" where
  "operand_registers (O_Value n) = [R_Value n]"
| "operand_registers _ = []"

fun reads :: "instruction \<Rightarrow> register list" where
  "reads (I_Store t v i) = operand_registers v"
| "reads (I_Call_Void f as) = concat (map (operand_registers \<circ> snd) as)"
| "reads (I_Call n t f as) = concat (map (operand_registers \<circ> snd) as)"
| "reads (I_Not n v) = operand_registers v"
| "reads (I_Checked n operation l r) = operand_registers l @ operand_registers r"
| "reads (I_Checked_Value n) = [R_Checked n]"
| "reads (I_Checked_Overflow n) = [R_Checked n]"
| "reads (I_Check_Overflow n) = [R_Overflow n]"
| "reads (I_Arithmetic n operation l r) = operand_registers l @ operand_registers r"
| "reads (I_Compare n condition t l r) = operand_registers l @ operand_registers r"
| "reads (I_Int_To_Pointer n m) = [R_Value m]"
| "reads (I_Truncate n m t) = [R_Value m]"
| "reads (I_Truncate_Status n v) = operand_registers v"
| "reads (I_Pointer_To_Int n v) = operand_registers v"
| "reads (I_Extend n t v) = operand_registers v"
| "reads (I_Phi n b left_block v right_block) = operand_registers v"
| "reads (I_Branch_If v l m) = operand_registers v"
| "reads (I_Return t v) = operand_registers v"
| "reads (I_Return_Status n) = [R_Value n]"
| "reads _ = []"

fun writes :: "instruction \<Rightarrow> register option" where
  "writes (I_Load n t i) = Some (R_Value n)"
| "writes (I_Call n t f as) = Some (R_Value n)"
| "writes (I_Not n v) = Some (R_Value n)"
| "writes (I_Checked n operation l r) = Some (R_Checked n)"
| "writes (I_Checked_Value n) = Some (R_Value n)"
| "writes (I_Checked_Overflow n) = Some (R_Overflow n)"
| "writes (I_Arithmetic n operation l r) = Some (R_Value n)"
| "writes (I_Compare n condition t l r) = Some (R_Value n)"
| "writes (I_Int_To_Pointer n m) = Some (R_Value n)"
| "writes (I_Truncate n m t) = Some (R_Value n)"
| "writes (I_Truncate_Status n v) = Some (R_Value n)"
| "writes (I_Pointer_To_Int n v) = Some (R_Value n)"
| "writes (I_Extend n t v) = Some (R_Value n)"
| "writes (I_Phi n b left_block v right_block) = Some (R_Value n)"
| "writes _ = None"

text \<open>The registers written after the code, or \<open>None\<close> if one is written twice or read too early.\<close>

fun scan :: "register set \<Rightarrow> instruction list \<Rightarrow> register set option" where
  "scan D [] = Some D"
| "scan D (i # is) =
     (if set (reads i) \<subseteq> D then
        (case writes i of
           None \<Rightarrow> scan D is
         | Some r \<Rightarrow> if r \<in> D then None else scan (insert r D) is)
      else None)"

lemma scan_append: "scan D (xs @ ys) = Option.bind (scan D xs) (\<lambda>D'. scan D' ys)"
  by (induction xs arbitrary: D) (auto split: option.splits)

text \<open>After \<open>k\<close> temporaries every value below \<open>k\<close> is written, and nothing from \<open>k\<close> on.\<close>

definition written_below :: "nat \<Rightarrow> register set \<Rightarrow> bool" where
  "written_below k D \<longleftrightarrow> R_Value ` {..<k} \<subseteq> D \<and> (\<forall>r \<in> D. register_number r < k)"

definition scans :: "nat \<Rightarrow> nat \<Rightarrow> instruction list \<Rightarrow> bool" where
  "scans k k' is \<longleftrightarrow> (\<forall>D. written_below k D \<longrightarrow> (\<exists>D'. scan D is = Some D' \<and> written_below k' D'))"

lemma scans_Nil [simp]: "scans k k []"
  by (simp add: scans_def)

lemma scans_append: "scans k k1 xs \<Longrightarrow> scans k1 k2 ys \<Longrightarrow> scans k k2 (xs @ ys)"
  by (fastforce simp: scans_def scan_append)

text \<open>Operands whose registers are all values below \<open>k\<close>.\<close>

definition operand_below :: "nat \<Rightarrow> operand \<Rightarrow> bool" where
  "operand_below k v \<longleftrightarrow> (\<forall>n. v = O_Value n \<longrightarrow> n < k)"

lemma operand_below_simps [simp]:
  "operand_below k (O_Value n) \<longleftrightarrow> n < k" "operand_below k (O_Integer i)" "operand_below k (O_Text j)"
  "operand_below k (O_Boolean b)" "operand_below k O_Nothing"
  by (simp_all add: operand_below_def)

lemma operand_below_mono: "operand_below k v \<Longrightarrow> k \<le> k' \<Longrightarrow> operand_below k' v"
  by (auto simp: operand_below_def)

lemma operand_below_registers: "written_below k D \<Longrightarrow> operand_below k v \<Longrightarrow> set (operand_registers v) \<subseteq> D"
  by (cases v) (auto simp: written_below_def)

definition reads_below :: "nat \<Rightarrow> instruction \<Rightarrow> bool" where
  "reads_below k i \<longleftrightarrow> set (reads i) \<subseteq> R_Value ` {..<k}"

lemma operand_registers_below: "set (operand_registers v) \<subseteq> R_Value ` {..<k} \<longleftrightarrow> operand_below k v"
  by (cases v) auto

lemma scans_read: "reads_below k i \<Longrightarrow> writes i = None \<Longrightarrow> scans k k [i]"
  by (auto simp: scans_def reads_below_def written_below_def subset_iff)

lemma written_below_insert: "written_below k D \<Longrightarrow> written_below (Suc k) (insert (R_Value k) D)"
  by (auto simp: written_below_def lessThan_Suc less_Suc_eq)

lemma written_below_fresh: "written_below k D \<Longrightarrow> r \<in> D \<Longrightarrow> register_number r < k"
  by (simp add: written_below_def)

lemma scans_write: "reads_below k i \<Longrightarrow> writes i = Some (R_Value k) \<Longrightarrow> scans k (Suc k) [i]"
  unfolding scans_def
proof (intro allI impI)
  fix D assume D: "written_below k D" and i: "reads_below k i" "writes i = Some (R_Value k)"
  then have "set (reads i) \<subseteq> D" "R_Value k \<notin> D"
    by (auto simp: reads_below_def written_below_def subset_iff)
  with i D show "\<exists>D'. scan D [i] = Some D' \<and> written_below (Suc k) D'"
    by (auto intro: written_below_insert)
qed

lemma scans_checked:
  assumes "operand_below k l" "operand_below k r"
  shows "scans k (Suc k) (checked_code operation l r k)"
  unfolding scans_def
proof (intro allI impI)
  fix D assume D: "written_below k D"
  then have "R_Checked k \<notin> D" "R_Value k \<notin> D" "R_Overflow k \<notin> D"
    by (auto dest: written_below_fresh)
  moreover have "written_below (Suc k) (insert (R_Overflow k) (insert (R_Value k) (insert (R_Checked k) D)))"
    using D by (auto simp: written_below_def lessThan_Suc less_Suc_eq)
  ultimately show "\<exists>D'. scan D (checked_code operation l r k) = Some D' \<and> written_below (Suc k) D'"
    using D assms operand_below_registers by (auto simp: checked_code_def)
qed

section \<open>Blocks\<close>

definition is_terminator :: "instruction \<Rightarrow> bool" where
  "is_terminator i \<longleftrightarrow> (case i of I_Branch _ \<Rightarrow> True | I_Branch_If _ _ _ \<Rightarrow> True | I_Return_Void \<Rightarrow> True
     | I_Return _ _ \<Rightarrow> True | I_Return_Status _ \<Rightarrow> True | I_Return_Zero \<Rightarrow> True | I_Unreachable \<Rightarrow> True | _ \<Rightarrow> False)"

text \<open>
  The block the code is in: \<open>Some b\<close> inside block \<open>b\<close>, \<open>None\<close> after a terminator. The result is
  \<open>None\<close> when an instruction follows a terminator or a label is reached without one.
\<close>

fun run_blocks :: "label option \<Rightarrow> instruction list \<Rightarrow> label option option" where
  "run_blocks b [] = Some b"
| "run_blocks (Some b) (I_Label l # is) = None"
| "run_blocks None (I_Label l # is) = run_blocks (Some l) is"
| "run_blocks None (i # is) = None"
| "run_blocks (Some b) (i # is) = run_blocks (if is_terminator i then None else Some b) is"

lemma run_blocks_append: "run_blocks b (xs @ ys) = Option.bind (run_blocks b xs) (\<lambda>b'. run_blocks b' ys)"
  by (induction b xs rule: run_blocks.induct) auto

definition straight :: "instruction \<Rightarrow> bool" where
  "straight i \<longleftrightarrow> \<not> is_terminator i \<and> (\<forall>l. i \<noteq> I_Label l)"

lemma run_blocks_straight [simp]: "straight i \<Longrightarrow> run_blocks (Some b) (i # is) = run_blocks (Some b) is"
  by (cases i) (auto simp: straight_def)

lemma run_blocks_terminator [simp]: "is_terminator i \<Longrightarrow> run_blocks (Some b) (i # is) = run_blocks None is"
  by (cases i) (auto simp: is_terminator_def)

section \<open>Labels\<close>

fun label_number :: "label \<Rightarrow> nat" where
  "label_number Entry = 0"
| "label_number (Logical_Right n) = n"
| "label_number (Logical_End n) = n"
| "label_number (If_Then n) = n"
| "label_number (If_Else n) = n"
| "label_number (If_End n) = n"
| "label_number (While_Condition n) = n"
| "label_number (While_Body n) = n"
| "label_number (While_End n) = n"

fun labels :: "instruction list \<Rightarrow> label list" where
  "labels [] = []"
| "labels (I_Label l # is) = l # labels is"
| "labels (i # is) = labels is"

lemma labels_append [simp]: "labels (xs @ ys) = labels xs @ labels ys"
  by (induction xs rule: labels.induct) auto

fun targets :: "instruction \<Rightarrow> label list" where
  "targets (I_Branch l) = [l]"
| "targets (I_Branch_If v l m) = [l, m]"
| "targets _ = []"

definition closed_labels :: "instruction list \<Rightarrow> bool" where
  "closed_labels is \<longleftrightarrow> distinct (Entry # labels is) \<and> (\<forall>i \<in> set is. set (targets i) \<subseteq> set (labels is))"

text \<open>A fragment that numbers its labels from \<open>k\<close> to below \<open>k'\<close> and branches only within itself.\<close>

definition numbers_labels :: "nat \<Rightarrow> nat \<Rightarrow> instruction list \<Rightarrow> bool" where
  "numbers_labels k k' is \<longleftrightarrow>
     closed_labels is \<and> (\<forall>l \<in> set (labels is). k \<le> label_number l \<and> label_number l < k')"

lemma numbers_labels_append:
  assumes "numbers_labels k k1 xs" "numbers_labels k1 k2 ys" "k \<le> k1" "k1 \<le> k2"
  shows "numbers_labels k k2 (xs @ ys)"
proof -
  have "l \<notin> set (labels ys)" if "l \<in> set (labels xs)" for l
    using assms(1,2) that unfolding numbers_labels_def by (metis not_le)
  with assms show ?thesis
    by (fastforce simp: numbers_labels_def closed_labels_def)
qed

lemma straight_labels [simp]: "straight i \<Longrightarrow> labels (i # is) = labels is" "straight i \<Longrightarrow> targets i = []"
  by (cases i; simp add: straight_def is_terminator_def)+

lemma numbers_labels_straight: "\<forall>i \<in> set is. straight i \<Longrightarrow> numbers_labels k k' is"
  by (induction "is") (auto simp: numbers_labels_def closed_labels_def)

lemma numbers_labels_below: "numbers_labels k k' is \<Longrightarrow> label_number l < k \<Longrightarrow> l \<notin> set (labels is)"
  by (auto simp: numbers_labels_def)

section \<open>Fragments\<close>

text \<open>
  \<open>fragment s s' b is\<close>: from state \<open>s\<close> the emitter has appended \<open>is\<close> and reached \<open>s'\<close>; the
  code keeps the three checks, leaves the block \<open>b\<close> open (none, after a return), and holds no
  \<open>unreachable\<close>.
\<close>

definition fragment :: "emitter \<Rightarrow> emitter \<Rightarrow> label option \<Rightarrow> instruction list \<Rightarrow> bool" where
  "fragment s s' b is \<longleftrightarrow>
     out_code s' = out_code s @ is \<and> in_main s' = in_main s \<and>
     next_temporary s \<le> next_temporary s' \<and> next_label s \<le> next_label s' \<and>
     scans (next_temporary s) (next_temporary s') is \<and>
     numbers_labels (next_label s) (next_label s') is \<and>
     run_blocks (Some (current_block s)) is = Some b \<and> I_Unreachable \<notin> set is"

definition extends :: "emitter \<Rightarrow> emitter \<Rightarrow> bool" where
  "extends s s' \<longleftrightarrow> (\<exists>is. fragment s s' (Some (current_block s')) is)"

lemma fragment_append:
  "fragment s s1 (Some (current_block s1)) xs \<Longrightarrow> fragment s1 s2 b ys \<Longrightarrow> fragment s s2 b (xs @ ys)"
  by (auto simp: fragment_def run_blocks_append intro: scans_append numbers_labels_append)

lemma extends_refl [simp]: "extends s s"
  unfolding extends_def by (rule exI [of _ "[]"]) (simp add: fragment_def numbers_labels_straight)

lemma extends_trans: "extends s s1 \<Longrightarrow> extends s1 s2 \<Longrightarrow> extends s s2"
  unfolding extends_def by (blast intro: fragment_append)

lemma extends_fragment: "extends s s1 \<Longrightarrow> fragment s1 s2 b ys \<Longrightarrow> \<exists>is. fragment s s2 b is"
  unfolding extends_def by (blast intro: fragment_append)

lemma extends_temporary: "extends s s' \<Longrightarrow> next_temporary s \<le> next_temporary s'"
  by (auto simp: extends_def fragment_def)

lemma run_blocks_straights: "\<forall>i \<in> set is. straight i \<Longrightarrow> run_blocks (Some b) is = Some (Some b)"
  by (induction "is") auto

lemma straight_reachable: "\<forall>i \<in> set is. straight i \<Longrightarrow> I_Unreachable \<notin> set is"
  by (auto simp: straight_def is_terminator_def)

lemma extends_put:
  assumes "\<forall>i \<in> set is. straight i" "scans (next_temporary s) (next_temporary s) is"
  shows "extends s (put is s)"
  unfolding extends_def
  by (rule exI [of _ "is"]) (use assms in \<open>simp add: fragment_def put_def numbers_labels_straight run_blocks_straights straight_reachable\<close>)

lemma extends_define:
  assumes "\<forall>i \<in> set (code (next_temporary s)). straight i"
    and "scans (next_temporary s) (Suc (next_temporary s)) (code (next_temporary s))"
    and "define_value t code s = (v, s')"
  shows "extends s s' \<and> operand_below (next_temporary s') (val_name v) \<and> val_type v = t"
proof -
  from assms(3) have s': "s' = put (code (next_temporary s)) (s\<lparr>next_temporary := Suc (next_temporary s)\<rparr>)"
    and v: "v = mk_val t (O_Value (next_temporary s))"
    by (auto simp: define_value_def new_temporary_def)
  have "fragment s s' (Some (current_block s')) (code (next_temporary s))"
    using assms by (simp add: s' fragment_def put_def numbers_labels_straight run_blocks_straights straight_reachable)
  then show ?thesis
    by (auto simp: extends_def v s' put_def)
qed

text \<open>One instruction that writes the fresh temporary.\<close>

lemma extends_define_one:
  assumes "define_value t (\<lambda>n. [f n]) s = (v, s')"
    and "straight (f (next_temporary s))" "writes (f (next_temporary s)) = Some (R_Value (next_temporary s))"
    and "reads_below (next_temporary s) (f (next_temporary s))"
  shows "extends s s' \<and> operand_below (next_temporary s') (val_name v) \<and> val_type v = t"
  using assms by (intro extends_define [of "\<lambda>n. [f n]"]) (auto intro: scans_write)

lemma reads_below_simps [simp]:
  "reads_below k (I_Load n t i)"
  "reads_below k (I_Store t v i) \<longleftrightarrow> operand_below k v"
  "reads_below k (I_Call_Void f as) \<longleftrightarrow> (\<forall>a \<in> set as. operand_below k (snd a))"
  "reads_below k (I_Call n s f as) \<longleftrightarrow> (\<forall>a \<in> set as. operand_below k (snd a))"
  "reads_below k (I_Not n v) \<longleftrightarrow> operand_below k v"
  "reads_below k (I_Arithmetic n operation l r) \<longleftrightarrow> operand_below k l \<and> operand_below k r"
  "reads_below k (I_Compare n condition t l r) \<longleftrightarrow> operand_below k l \<and> operand_below k r"
  "reads_below k (I_Int_To_Pointer n m) \<longleftrightarrow> m < k"
  "reads_below k (I_Truncate n m t) \<longleftrightarrow> m < k"
  "reads_below k (I_Truncate_Status n v) \<longleftrightarrow> operand_below k v"
  "reads_below k (I_Pointer_To_Int n v) \<longleftrightarrow> operand_below k v"
  "reads_below k (I_Extend n t v) \<longleftrightarrow> operand_below k v"
  "reads_below k (I_Phi n b x v y) \<longleftrightarrow> operand_below k v"
  "reads_below k (I_Branch x)"
  "reads_below k (I_Branch_If v x y) \<longleftrightarrow> operand_below k v"
  "reads_below k (I_Label x)"
  "reads_below k I_Return_Void" "reads_below k I_Return_Zero" "reads_below k I_Unreachable"
  "reads_below k (I_Return t v) \<longleftrightarrow> operand_below k v"
  "reads_below k (I_Return_Status n) \<longleftrightarrow> n < k"
  by (auto simp: reads_below_def simp flip: operand_registers_below)

lemma straight_simps [simp]:
  "straight (I_Load n t i)" "straight (I_Store t v i)" "straight (I_Call_Void f as)" "straight (I_Call n s f as)"
  "straight (I_Not n v)" "straight (I_Checked n operation l r)" "straight (I_Checked_Value n)"
  "straight (I_Checked_Overflow n)" "straight (I_Check_Overflow n)" "straight (I_Arithmetic n operation l r)"
  "straight (I_Compare n condition t l r)" "straight (I_Int_To_Pointer n m)" "straight (I_Truncate n m t)"
  "straight (I_Truncate_Status n v)" "straight (I_Pointer_To_Int n v)" "straight (I_Extend n t v)"
  "straight (I_Phi n b x v y)" "straight (I_Allocate m t)" "straight (I_Store_Argument t m)"
  by (simp_all add: straight_def is_terminator_def)

lemma terminator_simps [simp]:
  "is_terminator (I_Branch l)" "is_terminator (I_Branch_If v l m)" "is_terminator I_Return_Void"
  "is_terminator (I_Return t v)" "is_terminator (I_Return_Status n)" "is_terminator I_Return_Zero"
  "is_terminator I_Unreachable"
  by (simp_all add: is_terminator_def)

section \<open>Expressions\<close>

definition binary_operators :: "token_kind list" where
  "binary_operators = product_ops @ sum_ops @ comparison_ops @ equality_ops @ [TOKEN_AND, TOKEN_OR]"

text \<open>
  The operator \<open>switch\<close> of the emitter has no default: an operator outside the grammar would
  leave a temporary unwritten. Trees from the parser contain no other.
\<close>

fun known_operators :: "expression \<Rightarrow> bool" where
  "known_operators (E_Call nd f es) \<longleftrightarrow> (\<forall>e \<in> set es. known_operators e)"
| "known_operators (E_Unary nd op e) \<longleftrightarrow> known_operators e"
| "known_operators (E_Binary nd op l r) \<longleftrightarrow> op \<in> set binary_operators \<and> known_operators l \<and> known_operators r"
| "known_operators (E_Member nd m e) \<longleftrightarrow> known_operators e"
| "known_operators (E_Index nd e i) \<longleftrightarrow> known_operators e \<and> known_operators i"
| "known_operators (E_Method_Call nd m e es) \<longleftrightarrow> known_operators e \<and> (\<forall>a \<in> set es. known_operators a)"
| "known_operators _ \<longleftrightarrow> True"

abbreviation value_below :: "emitter \<Rightarrow> val \<Rightarrow> bool" where
  "value_below s v \<equiv> operand_below (next_temporary s) (val_name v)"

lemma value_below_extends: "value_below s v \<Longrightarrow> extends s s' \<Longrightarrow> value_below s' v"
  by (blast intro: operand_below_mono extends_temporary)

lemma operator_code_ok:
  assumes "op \<in> set binary_operators" "op \<noteq> TOKEN_AND" "op \<noteq> TOKEN_OR"
    and "operand_below k (val_name l)" "operand_below k (val_name r)"
  shows "(\<forall>i \<in> set (operator_code op l r k). straight i) \<and> scans k (Suc k) (operator_code op l r k)"
proof -
  have division: "scans k (Suc k) [I_Call_Void f [(a, val_name l), (b, val_name r)], I_Arithmetic k x (val_name l) (val_name r)]" for f a b x
    using scans_append [of k k "[I_Call_Void f [(a, val_name l), (b, val_name r)]]" "Suc k"
        "[I_Arithmetic k x (val_name l) (val_name r)]"] assms(4,5)
    by (simp add: scans_read scans_write)
  from assms(1-3) have "op \<in> {Sym (CHR ''*''), Sym (CHR ''/''), Sym (CHR ''%''), Sym (CHR ''+''), Sym (CHR ''-''),
      Sym (CHR ''<''), Sym (CHR ''>''), TOKEN_LESS_EQUAL, TOKEN_GREATER_EQUAL, TOKEN_EQUAL_EQUAL, TOKEN_NOT_EQUAL}"
    by (auto simp: binary_operators_def product_ops_def sum_ops_def comparison_ops_def equality_ops_def)
  moreover have "scans k (Suc k) (checked_code x (val_name l) (val_name r) k)"
      "\<forall>i \<in> set (checked_code x (val_name l) (val_name r) k). straight i" for x
    using scans_checked [OF assms(4,5)] by (simp_all add: checked_code_def)
  moreover have "scans k (Suc k) [I_Compare k x t (val_name l) (val_name r)]" for x t
    using assms(4,5) by (simp add: scans_write)
  ultimately show ?thesis
    unfolding operator_code_def Let_def
    by (elim insertE emptyE) (simp_all add: division)
qed

lemma emit_operator_extends:
  assumes "op \<in> set binary_operators" "op \<noteq> TOKEN_AND" "op \<noteq> TOKEN_OR"
    and "value_below s l" "value_below s r" and "emit_operator nd op l r s = (v, s')"
  shows "extends s s' \<and> value_below s' v"
proof (cases "val_type l = TYPE_TEXT \<and> op \<in> {Sym (CHR ''+''), TOKEN_EQUAL_EQUAL, TOKEN_NOT_EQUAL}")
  case False
  then have "define_value (node_type nd) (operator_code op l r) s = (v, s')"
    using assms(6) by (auto simp: emit_operator_def split: if_splits)
  then show ?thesis
    using operator_code_ok [OF assms(1-5)] extends_define by blast
next
  case True
  show ?thesis
  proof (cases "op = TOKEN_NOT_EQUAL")
    case True
    obtain v1 s1 where one: "define_value TYPE_BOOLEAN
        (\<lambda>n. [I_Call n ''i1'' ''minyar_texts_are_equal'' [(''ptr'', val_name l), (''ptr'', val_name r)]]) s = (v1, s1)"
      by (cases "define_value TYPE_BOOLEAN
        (\<lambda>n. [I_Call n ''i1'' ''minyar_texts_are_equal'' [(''ptr'', val_name l), (''ptr'', val_name r)]]) s")
    from extends_define_one [OF this] assms(4,5) have s1: "extends s s1" "value_below s1 v1" by simp_all
    have "define_value TYPE_BOOLEAN (\<lambda>n. [I_Not n (val_name v1)]) s1 = (v, s')"
      using assms(6) one True \<open>val_type l = TYPE_TEXT \<and> _\<close> by (simp add: emit_operator_def)
    from extends_define_one [OF this] s1 show ?thesis by (auto intro: extends_trans)
  next
    case False
    with True assms(6) show ?thesis
      using assms(4,5) by (auto simp: emit_operator_def dest!: extends_define_one split: if_splits prod.splits)
  qed
qed

lemma emit_slot_value_extends:
  "value_below s v \<Longrightarrow> emit_slot_value v s = (w, s') \<Longrightarrow> extends s s' \<and> value_below s' w"
  by (auto simp: emit_slot_value_def dest!: extends_define_one split: if_splits)

lemma emit_slot_read_extends:
  assumes "value_below s l" "value_below s i" "emit_slot_read element l i s = (v, s')"
  shows "extends s s' \<and> value_below s' v"
proof -
  obtain w s1 where one: "define_value TYPE_INTEGER
      (\<lambda>n. [I_Call n ''i64'' ''minyar_list_get'' [(''ptr'', val_name l), (''i64'', val_name i)]]) s = (w, s1)"
    by (cases "define_value TYPE_INTEGER
      (\<lambda>n. [I_Call n ''i64'' ''minyar_list_get'' [(''ptr'', val_name l), (''i64'', val_name i)]]) s")
  from extends_define_one [OF this] assms(1,2) have s1: "extends s s1" "value_below s1 w" by simp_all
  from one have w: "w = mk_val TYPE_INTEGER (O_Value (next_temporary s))"
    by (auto simp: define_value_def new_temporary_def)
  show ?thesis
  proof (cases "element = TYPE_INTEGER")
    case True
    with one assms(3) have "v = w \<and> s' = s1"
      by (auto simp: emit_slot_read_def define_value_def new_temporary_def)
    with s1 show ?thesis by simp
  next
    case False
    with one assms(3) have "define_value element
        (\<lambda>n. [if element = TYPE_TEXT then I_Int_To_Pointer n (next_temporary s) else I_Truncate n (next_temporary s) element]) s1 = (v, s')"
      by (auto simp: emit_slot_read_def define_value_def [of TYPE_INTEGER] new_temporary_def)
    from extends_define_one [OF this] s1 w show ?thesis by (auto intro: extends_trans)
  qed
qed

lemma emit_call_extends:
  assumes "\<forall>a \<in> set as. value_below s a" "emit_call nd f as s = Some (v, s')"
  shows "extends s s' \<and> value_below s' v"
proof -
  have arg: "value_below s a" if "nth_argument as i = Some a" for a i
    using that assms(1) by (auto simp: nth_argument_def split: if_splits)
  have put: "extends s (put [I_Call_Void g bs] s)" if "\<forall>b \<in> set bs. operand_below (next_temporary s) (snd b)" for g bs
    using that by (intro extends_put) (auto intro: scans_read)
  from assms(2) show ?thesis
    using arg assms(1)
    by (auto simp: emit_call_def bind_eq_Some_conv nothing_def intro!: put dest!: extends_define_one
        split: if_splits)
qed

lemma scans_reads: "\<forall>i \<in> set is. reads_below k i \<and> writes i = None \<Longrightarrow> scans k k is"
proof (induction "is")
  case (Cons i "is")
  then show ?case using scans_append [of k k "[i]" k "is"] by (simp add: scans_read)
qed simp

lemma checked_code_straight [simp]: "i \<in> set (checked_code operation l r n) \<Longrightarrow> straight i"
  by (auto simp: checked_code_def)

lemma numbers_labels_logical:
  assumes "numbers_labels (Suc (Suc k)) k' is" "Suc (Suc k) \<le> k'"
  shows "numbers_labels k k' ([logical_branch op v k (Suc k), I_Label (Logical_Right k)] @ is @
           [I_Branch (Logical_End (Suc k)), I_Label (Logical_End (Suc k))])"
  using assms numbers_labels_below [OF assms(1), of "Logical_Right k"] numbers_labels_below [OF assms(1), of "Logical_End (Suc k)"]
  by (auto simp: numbers_labels_def closed_labels_def logical_branch_def)

lemma logical_branch_simps [simp]:
  "reads_below k (logical_branch op v m n) \<longleftrightarrow> operand_below k v" "writes (logical_branch op v m n) = None"
  "is_terminator (logical_branch op v m n)" "logical_branch op v m n \<noteq> I_Unreachable"
  "I_Unreachable \<noteq> logical_branch op v m n"
  by (simp_all add: logical_branch_def)

lemma logical_extends:
  assumes left: "value_below s v"
    and s4: "s4 = start_block (Logical_Right (next_label s))
        (put [logical_branch op (val_name v) (next_label s) (Suc (next_label s))] (s\<lparr>next_label := Suc (Suc (next_label s))\<rparr>))"
    and right: "extends s4 s5"
    and s6: "s6 = start_block (Logical_End (Suc (next_label s))) (put [I_Branch (Logical_End (Suc (next_label s)))] s5)"
  shows "extends s s6"
proof -
  obtain "is" where frag: "fragment s4 s5 (Some (current_block s5)) is"
    using right by (auto simp: extends_def)
  let ?pre = "[logical_branch op (val_name v) (next_label s) (Suc (next_label s)), I_Label (Logical_Right (next_label s))]"
  let ?post = "[I_Branch (Logical_End (Suc (next_label s))), I_Label (Logical_End (Suc (next_label s)))]"
  have "scans (next_temporary s) (next_temporary s) ?pre"
    using left by (intro scans_reads) simp
  moreover have "scans (next_temporary s5) (next_temporary s5) ?post"
    by (intro scans_reads) simp
  ultimately have "scans (next_temporary s) (next_temporary s6) (?pre @ is @ ?post)"
    using frag by (intro scans_append [of _ _ ?pre] scans_append [of _ _ "is"]) (auto simp: fragment_def s4 s6 put_def start_block_def)
  moreover have "numbers_labels (next_label s) (next_label s5) (?pre @ is @ ?post)"
    using frag by (intro numbers_labels_logical) (auto simp: fragment_def s4 put_def start_block_def)
  ultimately have "fragment s s6 (Some (current_block s6)) (?pre @ is @ ?post)"
    using frag by (auto simp: fragment_def s4 s6 put_def start_block_def run_blocks_append)
  then show ?thesis by (auto simp: extends_def)
qed

lemma emit_arguments_extends:
  assumes "\<And>e s v s'. e \<in> set es \<Longrightarrow> emit_expression s e = Some (v, s') \<Longrightarrow> extends s s' \<and> value_below s' v"
  shows "emit_arguments s es = Some (vs, s') \<Longrightarrow> extends s s' \<and> (\<forall>v \<in> set vs. value_below s' v)"
  using assms
proof (induction es arbitrary: s vs)
  case (Cons e es)
  from Cons.prems(1) obtain v s1 ws where e: "emit_expression s e = Some (v, s1)"
    and es: "emit_arguments s1 es = Some (ws, s')" "vs = v # ws"
    by (auto simp: bind_eq_Some_conv)
  have "extends s1 s' \<and> (\<forall>v \<in> set ws. value_below s' v)"
    by (rule Cons.IH [OF es(1)]) (auto intro!: Cons.prems(2))
  moreover have "extends s s1 \<and> value_below s1 v"
    using Cons.prems(2) [of e s v s1] e by simp
  ultimately show ?case
    using es(2) by (auto intro: extends_trans value_below_extends)
qed simp

lemma emit_expression_extends:
  "emit_expression s e = Some (v, s') \<Longrightarrow> known_operators e \<Longrightarrow> extends s s' \<and> value_below s' v"
proof (induction e arbitrary: s v s')
  case (E_Name nd x)
  then show ?case by (auto dest!: extends_define_one)
next
  case (E_Call nd f es)
  from E_Call.prems obtain vs s1 where args: "emit_arguments s es = Some (vs, s1)" and call: "emit_call nd f vs s1 = Some (v, s')"
    by (auto simp: bind_eq_Some_conv)
  have "extends s s1 \<and> (\<forall>v \<in> set vs. value_below s1 v)"
    by (rule emit_arguments_extends [OF _ args]) (use E_Call in auto)
  with emit_call_extends [OF _ call] show ?case by (auto intro: extends_trans)
next
  case (E_Unary nd op e)
  from E_Unary.prems(1) obtain r s1 where r: "emit_expression s e = Some (r, s1)"
    and v: "define_value (node_type nd) (\<lambda>n. if op = Sym (CHR ''!'') then [I_Not n (val_name r)]
              else checked_code ''ssub'' (O_Integer 0) (val_name r) n) s1 = (v, s')"
    by (auto simp: bind_eq_Some_conv)
  have s1: "extends s s1" "value_below s1 r" using E_Unary.IH [OF r] E_Unary.prems(2) by auto
  have "extends s1 s' \<and> value_below s' v"
    using extends_define [OF _ _ v] s1(2) by (cases "op = Sym (CHR ''!'')") (simp_all add: scans_write scans_checked)
  with s1 show ?case by (auto intro: extends_trans)
next
  case (E_Member nd m e)
  from E_Member.prems(1) obtain l s1 where l: "emit_expression s e = Some (l, s1)"
    and v: "define_value TYPE_INTEGER (member_code (node_type (node_of e)) m l) s1 = (v, s')"
    by (auto simp: bind_eq_Some_conv)
  have s1: "extends s s1" "value_below s1 l" using E_Member.IH [OF l] E_Member.prems(2) by auto
  have "extends s1 s' \<and> value_below s' v"
    using extends_define_one [OF v [unfolded member_code_def]] s1(2) by simp
  with s1 show ?case by (auto intro: extends_trans)
next
  case (E_List nd)
  then show ?case by (auto dest!: extends_define_one)
next
  case (E_Index nd e i)
  from E_Index.prems(1) obtain l s1 r s2 where l: "emit_expression s e = Some (l, s1)"
    and r: "emit_expression s1 i = Some (r, s2)"
    and v: "(if node_type (node_of e) = TYPE_TEXT then define_value TYPE_CHARACTER
        (\<lambda>n. [I_Call n ''i32'' ''minyar_text_character_at'' [(''ptr'', val_name l), (''i64'', val_name r)]]) s2
      else emit_slot_read (node_type nd) l r s2) = (v, s')"
    by (auto simp: bind_eq_Some_conv)
  have s1: "extends s s1" "value_below s1 l" using E_Index.IH(1) [OF l] E_Index.prems(2) by auto
  have s2: "extends s1 s2" "value_below s2 r" using E_Index.IH(2) [OF r] E_Index.prems(2) by auto
  have "extends s2 s' \<and> value_below s' v"
    using v value_below_extends [OF s1(2) s2(1)] s2(2)
    by (auto dest: emit_slot_read_extends dest!: extends_define_one split: if_splits)
  with s1 s2 show ?case by (auto intro: extends_trans)
next
  case (E_Method_Call nd m e es)
  from E_Method_Call.prems(1) obtain l s1 where l: "emit_expression s e = Some (l, s1)"
    by (auto simp: bind_eq_Some_conv)
  have s1: "extends s s1" "value_below s1 l" using E_Method_Call.IH(1) [OF l] E_Method_Call.prems(2) by auto
  from E_Method_Call.prems(1) l obtain a as where es: "es = a # as"
    by (auto split: list.splits if_splits)
  with E_Method_Call.prems(1) l obtain r s2 where r: "emit_expression s1 a = Some (r, s2)"
    by (auto simp: bind_eq_Some_conv split: list.splits if_splits)
  have s2: "extends s1 s2" "value_below s2 r"
    using E_Method_Call.IH(2) [OF _ r] E_Method_Call.prems(2) es by auto
  have l2: "value_below s2 l" using value_below_extends s1 s2 by blast
  show ?case
  proof (cases "node_type (node_of e) = TYPE_TEXT")
    case True
    with E_Method_Call.prems(1) l es r obtain b bs w s3 where b: "as = b # bs" "emit_expression s2 b = Some (w, s3)"
      and v: "define_value TYPE_TEXT (\<lambda>n. [I_Call n ''ptr'' ''minyar_text_slice''
                [(''ptr'', val_name l), (''i64'', val_name r), (''i64'', val_name w)]]) s3 = (v, s')"
      by (auto simp: bind_eq_Some_conv split: list.splits)
    have s3: "extends s2 s3" "value_below s3 w"
      using E_Method_Call.IH(2) [OF _ b(2)] E_Method_Call.prems(2) es b(1) by auto
    have "extends s3 s' \<and> value_below s' v"
      using extends_define_one [OF v] value_below_extends [OF l2 s3(1)] value_below_extends [OF s2(2) s3(1)] s3(2) by simp
    with s1 s2 s3 show ?thesis by (blast intro: extends_trans)
  next
    case False
    obtain w s3 where w: "emit_slot_value r s2 = (w, s3)" by fastforce
    with False E_Method_Call.prems(1) l es r have v: "v = nothing"
      "s' = put [I_Call_Void ''minyar_list_add'' [(''ptr'', val_name l), (''i64'', val_name w)]] s3"
      by auto
    have s3: "extends s2 s3" "value_below s3 w" using emit_slot_value_extends [OF s2(2) w] by auto
    have "extends s3 s'"
      unfolding v(2) using s3(2) value_below_extends [OF l2 s3(1)] by (intro extends_put) (auto intro: scans_read)
    with s1 s2 s3 v show ?thesis by (auto simp: nothing_def intro: extends_trans)
  qed
next
  case (E_Binary nd op l r)
  from E_Binary.prems(1) obtain left s1 where l: "emit_expression s l = Some (left, s1)"
    by (auto simp: bind_eq_Some_conv)
  have s1: "extends s s1" "value_below s1 left" using E_Binary.IH(1) [OF l] E_Binary.prems(2) by auto
  show ?case
  proof (cases "op = TOKEN_AND \<or> op = TOKEN_OR")
    case True
    define s4 where "s4 = start_block (Logical_Right (next_label s1))
        (put [logical_branch op (val_name left) (next_label s1) (Suc (next_label s1))] (s1\<lparr>next_label := Suc (Suc (next_label s1))\<rparr>))"
    from E_Binary.prems(1) l True obtain right s5 where r: "emit_expression s4 r = Some (right, s5)"
      and v: "define_value TYPE_BOOLEAN (\<lambda>n. [I_Phi n (op \<noteq> TOKEN_AND) (current_block s1) (val_name right) (current_block s5)])
        (start_block (Logical_End (Suc (next_label s1))) (put [I_Branch (Logical_End (Suc (next_label s1)))] s5)) = (v, s')"
      by (auto simp: bind_eq_Some_conv new_label_def s4_def)
    have s5: "extends s4 s5" "value_below s5 right" using E_Binary.IH(2) [OF r] E_Binary.prems(2) by auto
    note s6 = logical_extends [OF s1(2) s4_def s5(1) refl]
    from extends_define_one [OF v] s5(2) have "extends (start_block (Logical_End (Suc (next_label s1)))
        (put [I_Branch (Logical_End (Suc (next_label s1)))] s5)) s' \<and> value_below s' v"
      by (simp add: start_block_def put_def)
    with s1 s6 show ?thesis by (blast intro: extends_trans)
  next
    case False
    with E_Binary.prems(1) l obtain right s2 where r: "emit_expression s1 r = Some (right, s2)"
      and v: "emit_operator nd op left right s2 = (v, s')"
      by (auto simp: bind_eq_Some_conv)
    have s2: "extends s1 s2" "value_below s2 right" using E_Binary.IH(2) [OF r] E_Binary.prems(2) by auto
    have "extends s2 s' \<and> value_below s' v"
      using emit_operator_extends [OF _ _ _ value_below_extends [OF s1(2) s2(1)] s2(2) v] False E_Binary.prems(2) by simp
    with s1 s2 show ?thesis by (blast intro: extends_trans)
  qed
qed simp_all

section \<open>Statements\<close>

fun known_statement :: "statement \<Rightarrow> bool" where
  "known_statement (S_Let l c x t i e) \<longleftrightarrow> known_operators e"
| "known_statement (S_Assign l c x i e) \<longleftrightarrow> known_operators e"
| "known_statement (S_Index_Assign l c target e) \<longleftrightarrow> known_operators target \<and> known_operators e"
| "known_statement (S_Expression l c e) \<longleftrightarrow> known_operators e"
| "known_statement (S_Return l c eo) \<longleftrightarrow> (case eo of None \<Rightarrow> True | Some e \<Rightarrow> known_operators e)"
| "known_statement (S_If l c e a b) \<longleftrightarrow>
     known_operators e \<and> (\<forall>s \<in> set a. known_statement s) \<and> (\<forall>s \<in> set b. known_statement s)"
| "known_statement (S_While l c e b) \<longleftrightarrow> known_operators e \<and> (\<forall>s \<in> set b. known_statement s)"

text \<open>\<open>emits s s' r\<close>: a fragment that, when \<open>r\<close>, ends in a return and else leaves its block open.\<close>

definition emits :: "emitter \<Rightarrow> emitter \<Rightarrow> bool \<Rightarrow> bool" where
  "emits s s' r \<longleftrightarrow> (\<exists>is. fragment s s' (if r then None else Some (current_block s')) is)"

lemma emits_False [simp]: "emits s s' False \<longleftrightarrow> extends s s'"
  by (simp add: emits_def extends_def)

lemma extends_emits: "extends s s1 \<Longrightarrow> emits s1 s2 r \<Longrightarrow> emits s s2 r"
  unfolding emits_def extends_def by (blast intro: fragment_append)

lemma emits_terminator:
  assumes "is_terminator i" "reads_below (next_temporary s) i" "writes i = None" "targets i = []" "\<forall>l. i \<noteq> I_Label l"
    "i \<noteq> I_Unreachable"
  shows "emits s (put [i] s) True"
proof -
  have "labels [i] = []" using assms(5) by (cases i) auto
  then have "fragment s (put [i] s) None [i]"
    using assms by (simp add: fragment_def put_def scans_read numbers_labels_def closed_labels_def)
  then show ?thesis by (auto simp: emits_def)
qed

text \<open>The branch to \<open>l\<close> that closes a body, unless the body returned.\<close>

definition join_code :: "bool \<Rightarrow> label \<Rightarrow> instruction list" where
  "join_code r l = (if r then [] else [I_Branch l])"

lemma run_blocks_join: "run_blocks (Some b) is = Some (if r then None else Some b') \<Longrightarrow>
    run_blocks (Some b) (is @ join_code r l @ js) = run_blocks None js"
  by (simp add: run_blocks_append join_code_def)

lemma join_code_simps [simp]: "labels (join_code r l) = []" "i \<in> set (join_code r l) \<longleftrightarrow> \<not> r \<and> i = I_Branch l"
  by (simp_all add: join_code_def)

lemma scans_join: "scans k k (join_code r l)"
  by (simp add: join_code_def scans_read)

lemma scans_labelled:
  assumes "operand_below k v" "scans k k' is"
  shows "scans k k' ([I_Branch_If v x y, I_Label l] @ is)"
  by (rule scans_append [OF scans_reads assms(2)]) (simp add: assms(1))

lemma scans_label: "scans k k' is \<Longrightarrow> scans k k' (I_Label l # is)"
  using scans_append [of k k "[I_Label l]" k' "is"] by (simp add: scans_read)

lemma if_then_extends:
  assumes v: "value_below s v"
    and s5: "s5 = start_block (If_Then k) (put [I_Branch_If (val_name v) (If_Then k) (If_End (Suc (Suc k)))]
              (s\<lparr>next_label := Suc (Suc (Suc k))\<rparr>))" and k: "k = next_label s"
    and a: "emits s5 s6 r"
    and s': "s' = start_block (If_End (Suc (Suc k))) (put (join_code r (If_End (Suc (Suc k)))) s6)"
  shows "extends s s'"
proof -
  obtain "is" where a: "fragment s5 s6 (if r then None else Some (current_block s6)) is"
    using a by (auto simp: emits_def)
  let ?stop = "If_End (Suc (Suc k))"
  let ?code = "([I_Branch_If (val_name v) (If_Then k) ?stop, I_Label (If_Then k)] @ is) @ join_code r ?stop @ [I_Label ?stop]"
  from a have labels: "numbers_labels (Suc (Suc (Suc k))) (next_label s6) is"
    by (simp add: fragment_def s5 start_block_def put_def)
  have "scans (next_temporary s) (next_temporary s6) ?code"
    using a v by (intro scans_append [OF scans_labelled scans_append [OF scans_join]] scans_label)
      (auto simp: fragment_def s5 start_block_def put_def)
  moreover have "numbers_labels k (next_label s6) ?code"
    using a labels numbers_labels_below [OF labels, of "If_Then k"] numbers_labels_below [OF labels, of ?stop]
    by (auto simp: numbers_labels_def closed_labels_def fragment_def s5 start_block_def put_def)
  ultimately have "fragment s s' (Some (current_block s')) ?code"
    using a by (auto simp: fragment_def s5 s' k start_block_def put_def run_blocks_join)
  then show ?thesis by (auto simp: extends_def)
qed

lemma if_else_emits:
  assumes v: "value_below s v"
    and s5: "s5 = start_block (If_Then k) (put [I_Branch_If (val_name v) (If_Then k) (If_Else (Suc k))]
              (s\<lparr>next_label := Suc (Suc (Suc k))\<rparr>))" and k: "k = next_label s"
    and a: "emits s5 s6 r"
    and s7: "s7 = start_block (If_Else (Suc k)) (put (join_code r (If_End (Suc (Suc k)))) s6)"
    and b: "emits s7 s8 q"
    and s': "s' = (let t = put (join_code q (If_End (Suc (Suc k)))) s8 in
              if r \<and> q then t else start_block (If_End (Suc (Suc k))) t)"
  shows "emits s s' (r \<and> q)"
proof -
  obtain "is" where a: "fragment s5 s6 (if r then None else Some (current_block s6)) is"
    using a by (auto simp: emits_def)
  obtain js where b: "fragment s7 s8 (if q then None else Some (current_block s8)) js"
    using b by (auto simp: emits_def)
  let ?stop = "If_End (Suc (Suc k))"
  let ?tail = "if r \<and> q then [] else [I_Label ?stop]"
  let ?code = "([I_Branch_If (val_name v) (If_Then k) (If_Else (Suc k)), I_Label (If_Then k)] @ is) @
      join_code r ?stop @ (I_Label (If_Else (Suc k)) # js @ join_code q ?stop @ ?tail)"
  from a have la: "numbers_labels (Suc (Suc (Suc k))) (next_label s6) is" "Suc (Suc (Suc k)) \<le> next_label s6"
    by (simp_all add: fragment_def s5 start_block_def put_def)
  from b have lb: "numbers_labels (next_label s6) (next_label s8) js" "next_label s6 \<le> next_label s8"
    by (simp_all add: fragment_def s7 start_block_def put_def)
  have disjoint: "l \<notin> set (labels js)" if "l \<in> set (labels is)" for l
    using la(1) lb(1) that unfolding numbers_labels_def by (metis not_le)
  have "scans (next_temporary s) (next_temporary s8) ?code"
    using a b v by (intro scans_append [OF scans_labelled scans_append [OF scans_join scans_label [OF scans_append [OF _ scans_append [OF scans_join]]]]])
      (auto simp: fragment_def s5 s7 start_block_def put_def scans_read)
  moreover have "numbers_labels k (next_label s8) ?code"
    using la lb disjoint numbers_labels_below [OF la(1), of "If_Then k"] numbers_labels_below [OF la(1), of ?stop]
      numbers_labels_below [OF la(1), of "If_Else (Suc k)"] numbers_labels_below [OF lb(1), of "If_Then k"]
      numbers_labels_below [OF lb(1), of ?stop] numbers_labels_below [OF lb(1), of "If_Else (Suc k)"]
    by (fastforce simp: numbers_labels_def closed_labels_def)
  ultimately have "fragment s s' (if r \<and> q then None else Some (current_block s')) ?code"
    using a b by (auto simp: fragment_def s5 s7 s' k start_block_def put_def run_blocks_join Let_def)
  then show ?thesis unfolding emits_def by blast
qed

lemma while_extends:
  assumes s4: "s4 = start_block (While_Condition k) (put [I_Branch (While_Condition k)] (s\<lparr>next_label := Suc (Suc (Suc k))\<rparr>))"
    and k: "k = next_label s" and e: "extends s4 s5" "value_below s5 v"
    and s6: "s6 = start_block (While_Body (Suc k)) (put [I_Branch_If (val_name v) (While_Body (Suc k)) (While_End (Suc (Suc k)))] s5)"
    and b: "emits s6 s7 r"
    and s': "s' = start_block (While_End (Suc (Suc k))) (put (join_code r (While_Condition k)) s7)"
  shows "extends s s'"
proof -
  obtain "is" where a: "fragment s4 s5 (Some (current_block s5)) is"
    using e(1) by (auto simp: extends_def)
  obtain js where b: "fragment s6 s7 (if r then None else Some (current_block s7)) js"
    using b by (auto simp: emits_def)
  let ?stop = "While_End (Suc (Suc k))"
  let ?code = "([I_Branch (While_Condition k), I_Label (While_Condition k)] @ is) @
      ([I_Branch_If (val_name v) (While_Body (Suc k)) ?stop, I_Label (While_Body (Suc k))] @ js) @
      join_code r (While_Condition k) @ [I_Label ?stop]"
  from a have la: "numbers_labels (Suc (Suc (Suc k))) (next_label s5) is" "Suc (Suc (Suc k)) \<le> next_label s5"
    by (simp_all add: fragment_def s4 start_block_def put_def)
  from b have lb: "numbers_labels (next_label s5) (next_label s7) js" "next_label s5 \<le> next_label s7"
    by (simp_all add: fragment_def s6 start_block_def put_def)
  have disjoint: "l \<notin> set (labels js)" if "l \<in> set (labels is)" for l
    using la(1) lb(1) that unfolding numbers_labels_def by (metis not_le)
  have "scans (next_temporary s) (next_temporary s5) ([I_Branch (While_Condition k), I_Label (While_Condition k)] @ is)"
    using a by (intro scans_append [OF scans_reads]) (auto simp: fragment_def s4 start_block_def put_def)
  moreover have "scans (next_temporary s5) (next_temporary s7)
      (([I_Branch_If (val_name v) (While_Body (Suc k)) ?stop, I_Label (While_Body (Suc k))] @ js) @
       join_code r (While_Condition k) @ [I_Label ?stop])"
    using b e(2) by (intro scans_append [OF scans_labelled scans_append [OF scans_join]] scans_label)
      (auto simp: fragment_def s6 start_block_def put_def)
  ultimately have "scans (next_temporary s) (next_temporary s7) ?code"
    by (rule scans_append)
  moreover have "numbers_labels k (next_label s7) ?code"
    using la lb disjoint numbers_labels_below [OF la(1), of "While_Condition k"] numbers_labels_below [OF la(1), of ?stop]
      numbers_labels_below [OF la(1), of "While_Body (Suc k)"] numbers_labels_below [OF lb(1), of "While_Condition k"]
      numbers_labels_below [OF lb(1), of ?stop] numbers_labels_below [OF lb(1), of "While_Body (Suc k)"]
    by (fastforce simp: numbers_labels_def closed_labels_def)
  ultimately have "fragment s s' (Some (current_block s')) ?code"
    using a b by (auto simp: fragment_def s4 s6 s' k start_block_def put_def run_blocks_append join_code_def)
  then show ?thesis by (auto simp: extends_def)
qed

lemma put_join: "(if \<not> r then put [I_Branch l] s else s) = put (join_code r l) s"
  by (simp add: join_code_def put_def)

text \<open>The two forms of \<open>if\<close>, with the three labels written out.\<close>

lemma emit_if_then:
  assumes "emit_statement s (S_If l c e a []) = Some (r, s')"
  obtains v s1 k s5 r1 s6 where "emit_expression s e = Some (v, s1)" "k = next_label s1"
    "s5 = start_block (If_Then k) (put [I_Branch_If (val_name v) (If_Then k) (If_End (Suc (Suc k)))]
            (s1\<lparr>next_label := Suc (Suc (Suc k))\<rparr>))"
    "emit_statements s5 a = Some (r1, s6)" "\<not> r"
    "s' = start_block (If_End (Suc (Suc k))) (put (join_code r1 (If_End (Suc (Suc k)))) s6)"
  using assms by (auto simp: bind_eq_Some_conv new_label_def put_join)

lemma emit_if_else:
  assumes "emit_statement s (S_If l c e a b) = Some (r, s')" "b \<noteq> []"
  obtains v s1 k s5 r1 s6 s7 r2 s8 where "emit_expression s e = Some (v, s1)" "k = next_label s1"
    "s5 = start_block (If_Then k) (put [I_Branch_If (val_name v) (If_Then k) (If_Else (Suc k))]
            (s1\<lparr>next_label := Suc (Suc (Suc k))\<rparr>))"
    "emit_statements s5 a = Some (r1, s6)"
    "s7 = start_block (If_Else (Suc k)) (put (join_code r1 (If_End (Suc (Suc k)))) s6)"
    "emit_statements s7 b = Some (r2, s8)" "r = (r1 \<and> r2)"
    "s' = (let t = put (join_code r2 (If_End (Suc (Suc k)))) s8 in
            if r1 \<and> r2 then t else start_block (If_End (Suc (Suc k))) t)"
proof -
  from assms obtain v s1 where v: "emit_expression s e = Some (v, s1)"
    by (auto simp: bind_eq_Some_conv)
  define k where "k = next_label s1"
  define s5 where "s5 = start_block (If_Then k) (put [I_Branch_If (val_name v) (If_Then k) (If_Else (Suc k))]
            (s1\<lparr>next_label := Suc (Suc (Suc k))\<rparr>))"
  from assms v obtain r1 s6 where a: "emit_statements s5 a = Some (r1, s6)"
    by (auto simp: bind_eq_Some_conv new_label_def s5_def k_def cong: if_cong)
  define s7 where "s7 = start_block (If_Else (Suc k)) (put (join_code r1 (If_End (Suc (Suc k)))) s6)"
  from assms v a obtain r2 s8 where b: "emit_statements s7 b = Some (r2, s8)"
    by (auto simp: bind_eq_Some_conv new_label_def put_join Let_def s5_def s7_def k_def cong: if_cong)
  from assms v a b have "r = (r1 \<and> r2)"
    "s' = (let t = put (join_code r2 (If_End (Suc (Suc k)))) s8 in
            if r1 \<and> r2 then t else start_block (If_End (Suc (Suc k))) t)"
    by (auto simp: bind_eq_Some_conv new_label_def put_join Let_def s5_def s7_def k_def cong: if_cong)
  then show thesis by (rule that [OF v k_def s5_def a s7_def b])
qed

lemma emit_while:
  assumes "emit_statement s (S_While l c e b) = Some (r, s')"
  obtains k s4 v s5 s6 r1 s7 where "k = next_label s"
    "s4 = start_block (While_Condition k) (put [I_Branch (While_Condition k)] (s\<lparr>next_label := Suc (Suc (Suc k))\<rparr>))"
    "emit_expression s4 e = Some (v, s5)"
    "s6 = start_block (While_Body (Suc k)) (put [I_Branch_If (val_name v) (While_Body (Suc k)) (While_End (Suc (Suc k)))] s5)"
    "emit_statements s6 b = Some (r1, s7)" "\<not> r"
    "s' = start_block (While_End (Suc (Suc k))) (put (join_code r1 (While_Condition k)) s7)"
  using assms by (auto simp: bind_eq_Some_conv new_label_def put_join)

lemma emit_store_extends:
  assumes "emit_expression s e = Some (v, s1)" "known_operators e"
  shows "extends s (put [I_Store t (val_name v) i] s1)"
proof -
  have "extends s s1" "value_below s1 v" using emit_expression_extends [OF assms] by auto
  then show ?thesis by (elim extends_trans [OF _ extends_put]) (auto intro: scans_read)
qed

lemma emit_return_emits:
  assumes "emit_statement s (S_Return l c (Some e)) = Some (r, s')" "known_operators e"
  shows "r \<and> emits s s' True"
proof -
  from assms(1) obtain v s1 where v: "emit_expression s e = Some (v, s1)" and r: "r"
    and s': "s' = (if in_main s1 then (let (n, s2) = new_temporary s1 in put [I_Truncate_Status n (val_name v), I_Return_Status n] s2)
             else put [I_Return (val_type v) (val_name v)] s1)"
    by (auto simp: bind_eq_Some_conv)
  have s1: "extends s s1" "value_below s1 v" using emit_expression_extends [OF v assms(2)] by auto
  have "emits s1 s' True"
  proof (cases "in_main s1")
    case True
    obtain w s2 where w: "define_value TYPE_INTEGER (\<lambda>n. [I_Truncate_Status n (val_name v)]) s1 = (w, s2)"
      by (cases "define_value TYPE_INTEGER (\<lambda>n. [I_Truncate_Status n (val_name v)]) s1")
    with True s' have "s' = put [I_Return_Status (next_temporary s1)] s2" "next_temporary s2 = Suc (next_temporary s1)"
      by (auto simp: define_value_def new_temporary_def put_def)
    moreover have "extends s1 s2" using extends_define_one [OF w] s1(2) by simp
    ultimately show ?thesis
      using extends_emits [OF _ emits_terminator [of "I_Return_Status (next_temporary s1)" s2]] by simp
  next
    case False
    then show ?thesis using s' s1(2) by (simp add: emits_terminator)
  qed
  with r s1 show ?thesis by (blast intro: extends_emits)
qed

lemma emit_index_assign_extends:
  assumes "emit_statement s (S_Index_Assign l c target e) = Some (r, s')" "known_operators target" "known_operators e"
  shows "\<not> r \<and> extends s s'"
proof -
  from assms(1) obtain nd b i where t: "target = E_Index nd b i" by (auto split: expression.splits)
  with assms(1) obtain x s1 y s2 v s3 where
    em: "emit_expression s b = Some (x, s1)" "emit_expression s1 i = Some (y, s2)" "emit_expression s2 e = Some (v, s3)"
    by (auto simp: bind_eq_Some_conv)
  obtain w s4 where w: "emit_slot_value v s3 = (w, s4)" by fastforce
  with assms(1) t em have r: "\<not> r"
    and s': "s' = put [I_Call_Void ''minyar_list_set'' [(''ptr'', val_name x), (''i64'', val_name y), (''i64'', val_name w)]] s4"
    by auto
  have s1: "extends s s1" "value_below s1 x" using emit_expression_extends [OF em(1)] assms(2) t by auto
  have s2: "extends s1 s2" "value_below s2 y" using emit_expression_extends [OF em(2)] assms(2) t by auto
  have s3: "extends s2 s3" "value_below s3 v" using emit_expression_extends [OF em(3) assms(3)] by auto
  have s4: "extends s3 s4" "value_below s4 w" using emit_slot_value_extends [OF s3(2) w] by auto
  have "value_below s4 x" "value_below s4 y"
    using s1 s2 s3 s4 by (blast intro: value_below_extends extends_trans)+
  then have "extends s4 s'"
    unfolding s' using s4(2) by (intro extends_put) (auto intro: scans_read)
  with r s1 s2 s3 s4 show ?thesis by (blast intro: extends_trans)
qed

lemma emit_statements_emits:
  assumes "\<And>x s r s'. x \<in> set xs \<Longrightarrow> emit_statement s x = Some (r, s') \<Longrightarrow> emits s s' r"
  shows "emit_statements s xs = Some (r, s') \<Longrightarrow> emits s s' r"
  using assms
proof (induction xs arbitrary: s)
  case (Cons x xs)
  from Cons.prems(1) obtain q s1 where q: "emit_statement s x = Some (q, s1)"
    and rest: "if q then r \<and> s' = s1 else emit_statements s1 xs = Some (r, s')"
    by (auto simp: bind_eq_Some_conv split: if_splits)
  have x: "emits s s1 q" using Cons.prems(2) [of x s q s1] q by simp
  show ?case
  proof (cases q)
    case False
    have "emits s1 s' r" by (rule Cons.IH) (use rest False Cons.prems(2) in auto)
    with False x show ?thesis by (auto intro: extends_emits)
  qed (use rest x in auto)
qed simp

lemma emit_statement_emits: "emit_statement s x = Some (r, s') \<Longrightarrow> known_statement x \<Longrightarrow> emits s s' r"
proof (induction x arbitrary: s r s')
  case (S_Return l c eo)
  then show ?case
  proof (cases eo)
    case (Some e)
    with S_Return emit_return_emits [of s l c e r s'] show ?thesis by (simp del: emit_statement.simps)
  qed (auto simp: emits_terminator)
next
  case (S_Index_Assign l c target e)
  then show ?case using emit_index_assign_extends [of s l c target e r s'] by (simp del: emit_statement.simps)
next
  case (S_If l c e a b)
  have a: "emits t t' q" if "emit_statements t a = Some (q, t')" for t q t'
    by (rule emit_statements_emits [OF _ that]) (use S_If in auto)
  have b: "emits t t' q" if "emit_statements t b = Some (q, t')" for t q t'
    by (rule emit_statements_emits [OF _ that]) (use S_If in auto)
  show ?case
  proof (cases "b = []")
    case True
    show ?thesis using S_If.prems(1) unfolding True
    proof (cases rule: emit_if_then)
      case (1 v s1 k s5 r1 s6)
      have s1: "extends s s1" "value_below s1 v" using emit_expression_extends [OF 1(1)] S_If.prems(2) by auto
      from 1(4) have "emits s5 s6 r1" by (rule a)
      from if_then_extends [OF s1(2) 1(3,2) this 1(6)] s1(1) 1(5) show ?thesis by (auto intro: extends_trans)
    qed
  next
    case False
    show ?thesis using S_If.prems(1) False
    proof (cases rule: emit_if_else)
      case (1 v s1 k s5 r1 s6 s7 r2 s8)
      have s1: "extends s s1" "value_below s1 v" using emit_expression_extends [OF 1(1)] S_If.prems(2) by auto
      from 1(4) have then_part: "emits s5 s6 r1" by (rule a)
      from 1(6) have "emits s7 s8 r2" by (rule b)
      from if_else_emits [OF s1(2) 1(3,2) then_part 1(5) this 1(8)] s1(1) 1(7) show ?thesis by (auto intro: extends_emits)
    qed
  qed
next
  case (S_While l c e b)
  have b: "emits t t' q" if "emit_statements t b = Some (q, t')" for t q t'
    by (rule emit_statements_emits [OF _ that]) (use S_While in auto)
  show ?case using S_While.prems(1)
  proof (cases rule: emit_while)
    case (1 k s4 v s5 s6 r1 s7)
    have s5: "extends s4 s5" "value_below s5 v" using emit_expression_extends [OF 1(3)] S_While.prems(2) by auto
    from 1(5) have "emits s6 s7 r1" by (rule b)
    from while_extends [OF 1(2,1) s5 1(4) this 1(7)] 1(6) show ?thesis by simp
  qed
qed (auto simp: bind_eq_Some_conv dest: emit_expression_extends intro: emit_store_extends)

section \<open>Functions\<close>

definition well_formed_code :: "instruction list \<Rightarrow> bool" where
  "well_formed_code is \<longleftrightarrow>
     scan {} is \<noteq> None \<and> run_blocks (Some Entry) is = Some None \<and> closed_labels is"

lemma prologue_plain: "i \<in> set (prologue f) \<Longrightarrow> straight i \<and> reads_below k i \<and> writes i = None"
  by (auto simp: prologue_def reads_below_def)

lemma labels_straight: "\<forall>i \<in> set is. straight i \<Longrightarrow> labels is = []"
  by (induction "is") auto

lemma function_end_simps [simp]:
  "is_terminator (function_end f)" "labels [function_end f] = []" "targets (function_end f) = []"
  "reads_below k (function_end f)" "writes (function_end f) = None"
  by (simp_all add: function_end_def)

lemma well_formed_codeI:
  assumes "scans 0 k is" "numbers_labels 0 m is" "run_blocks (Some Entry) is = Some None"
  shows "well_formed_code is"
proof -
  have "written_below 0 {}" by (simp add: written_below_def)
  with assms show ?thesis by (auto simp: well_formed_code_def scans_def numbers_labels_def)
qed

lemma emit_function_well_formed:
  assumes "emit_function f = Some code" "\<forall>x \<in> set (body f). known_statement x"
    and "emit_statements (initial_emitter f) (body f) = Some (r, s)"
  shows "well_formed_code code" and "r \<or> function_end f \<noteq> I_Unreachable \<Longrightarrow> I_Unreachable \<notin> set code"
proof -
  note s = assms(3)
  from assms(1,3) have code: "code = out_code s @ (if \<not> r then [function_end f] else [])"
    by (auto simp: emit_function_def bind_eq_Some_conv)
  have "emits (initial_emitter f) s r"
    by (rule emit_statements_emits [OF _ s]) (use assms(2) emit_statement_emits in blast)
  then obtain "is" where frag: "fragment (initial_emitter f) s (if r then None else Some (current_block s)) is"
    by (auto simp: emits_def)
  let ?stop = "if \<not> r then [function_end f] else []"
  have code': "code = prologue f @ is @ ?stop"
    using frag code by (simp add: fragment_def initial_emitter_def)
  have plain: "\<forall>i \<in> set (prologue f). straight i" using prologue_plain by blast
  from frag straight_reachable [OF plain] show "I_Unreachable \<notin> set code" if "r \<or> function_end f \<noteq> I_Unreachable"
    using that by (auto simp: code' fragment_def)
  show "well_formed_code code"
  proof (rule well_formed_codeI)
    have "scans 0 0 (prologue f)" by (rule scans_reads) (use prologue_plain in blast)
    moreover have "scans (next_temporary s) (next_temporary s) ?stop" by (simp add: scans_read)
    ultimately show "scans 0 (next_temporary s) code"
      unfolding code' using frag by (intro scans_append) (auto simp: fragment_def initial_emitter_def)
    have "numbers_labels 0 (next_label s) is"
      using frag by (simp add: fragment_def initial_emitter_def)
    moreover have "numbers_labels (next_label s) (next_label s) ?stop"
      by (simp add: numbers_labels_def closed_labels_def)
    ultimately have "numbers_labels 0 (next_label s) (is @ ?stop)"
      by (rule numbers_labels_append) simp_all
    then show "numbers_labels 0 (next_label s) code"
      unfolding code' by (intro numbers_labels_append [OF numbers_labels_straight [OF plain, of 0 0]]) simp_all
    show "run_blocks (Some Entry) code = Some None"
      unfolding code' using frag
      by (auto simp: run_blocks_append run_blocks_straights [OF plain] fragment_def initial_emitter_def)
  qed
qed

end
