(* ===== verification/Trees.thy ===== *)
theory Trees
  imports Parser_Total Emission
begin

text \<open>
  What the parser builds. Every binary operator in a parsed tree is one the emitter has code
  for, and every text literal carries the index under which \<open>Program.text_literals\<close> holds its
  bytes, so the global \<open>@.text.i\<close> an expression names is the one printed for it. The table
  grows while the parser runs; a tree stays right because entries are only appended.
\<close>

section \<open>Trees over a table of literals\<close>

fun built :: "string list \<Rightarrow> expression \<Rightarrow> bool" where
  "built ts (E_Text nd x) \<longleftrightarrow>
     0 \<le> string_index nd \<and> nat (string_index nd) < length ts \<and> ts ! nat (string_index nd) = x"
| "built ts (E_Call nd f es) \<longleftrightarrow> (\<forall>e \<in> set es. built ts e)"
| "built ts (E_Unary nd op e) \<longleftrightarrow> op \<in> {Sym (CHR ''!''), Sym (CHR ''-'')} \<and> built ts e"
| "built ts (E_Binary nd op l r) \<longleftrightarrow> op \<in> set binary_operators \<and> built ts l \<and> built ts r"
| "built ts (E_Member nd m e) \<longleftrightarrow> built ts e"
| "built ts (E_Index nd e i) \<longleftrightarrow> built ts e \<and> built ts i"
| "built ts (E_Method_Call nd m e es) \<longleftrightarrow> built ts e \<and> (\<forall>a \<in> set es. built ts a)"
| "built ts _ \<longleftrightarrow> True"

fun built_statement :: "string list \<Rightarrow> statement \<Rightarrow> bool" where
  "built_statement ts (S_Let l c x t i e) \<longleftrightarrow> built ts e"
| "built_statement ts (S_Assign l c x i e) \<longleftrightarrow> built ts e"
| "built_statement ts (S_Index_Assign l c target e) \<longleftrightarrow> built ts target \<and> built ts e"
| "built_statement ts (S_Expression l c e) \<longleftrightarrow> built ts e"
| "built_statement ts (S_Return l c eo) \<longleftrightarrow> (case eo of None \<Rightarrow> True | Some e \<Rightarrow> built ts e)"
| "built_statement ts (S_If l c e a b) \<longleftrightarrow>
     built ts e \<and> (\<forall>s \<in> set a. built_statement ts s) \<and> (\<forall>s \<in> set b. built_statement ts s)"
| "built_statement ts (S_While l c e b) \<longleftrightarrow> built ts e \<and> (\<forall>s \<in> set b. built_statement ts s)"

lemma built_append: "built ts e \<Longrightarrow> built (ts @ us) e"
  by (induction e) (auto simp: nth_append)

lemma built_statement_append: "built_statement ts s \<Longrightarrow> built_statement (ts @ us) s"
  by (induction s) (auto simp: built_append split: option.splits)

lemma built_known: "built ts e \<Longrightarrow> known_operators e"
  by (induction e) auto

lemma built_statement_known: "built_statement ts s \<Longrightarrow> known_statement s"
  by (induction s) (auto dest: built_known split: option.splits)

section \<open>Readers that only append literals\<close>

definition grown :: "parser \<Rightarrow> parser \<Rightarrow> bool" where
  "grown p p' \<longleftrightarrow> (\<exists>ys. p_literals p' = p_literals p @ ys)"

lemma grown_same: "p_literals p' = p_literals p \<Longrightarrow> grown p p'"
  by (simp add: grown_def)

lemma grown_refl [simp]: "grown p p"
  by (simp add: grown_same)

lemma grown_trans [trans]: "grown p q \<Longrightarrow> grown q r \<Longrightarrow> grown p r"
  by (auto simp: grown_def)

lemma built_grown: "built (p_literals p) e \<Longrightarrow> grown p p' \<Longrightarrow> built (p_literals p') e"
  by (auto simp: grown_def built_append)

lemma built_statement_grown: "built_statement (p_literals p) s \<Longrightarrow> grown p p' \<Longrightarrow> built_statement (p_literals p') s"
  by (auto simp: grown_def built_statement_append)

definition builds :: "(string list \<Rightarrow> 'a \<Rightarrow> bool) \<Rightarrow> 'a parses \<Rightarrow> bool" where
  "builds P r \<longleftrightarrow> (\<forall>p x p'. r p = Done (x, p') \<longrightarrow> grown p p' \<and> P (p_literals p') x)"

lemma buildsD: "builds P r \<Longrightarrow> r p = Done (x, p') \<Longrightarrow> grown p p' \<and> P (p_literals p') x"
  by (auto simp: builds_def)

lemma advance_literals: "advance p = Inr p' \<Longrightarrow> p_literals p' = p_literals p"
  by (auto simp: advance_def rbind_eq_Inr)

lemma expect_literals: "expect p k m = Inr p' \<Longrightarrow> p_literals p' = p_literals p"
  by (auto simp: expect_def fail_here_def dest: advance_literals split: if_splits)

lemma expect_word_literals: "expect_word p w = Inr p' \<Longrightarrow> p_literals p' = p_literals p"
  by (auto simp: expect_word_def fail_here_def dest: advance_literals split: if_splits)

lemma take_name_literals: "take_name p m = Inr (x, p') \<Longrightarrow> p_literals p' = p_literals p"
  by (auto simp: take_name_def fail_here_def rbind_eq_Inr dest: advance_literals split: if_splits)

lemma skip_separators_literals: "skip_separators p = Inr p' \<Longrightarrow> p_literals p' = p_literals p"
proof (induction p arbitrary: p' rule: skip_separators.induct)
  case (1 p)
  show ?case
  proof (cases "tok p = TOKEN_NEWLINE \<or> tok p = Sym (CHR '';'')")
    case True
    with "1.prems" obtain q where q: "advance p = Inr q" "skip_separators q = Inr p'"
      by (auto simp: skip_separators.simps [of p] rbind_eq_Inr)
    from "1.IH" [OF True q] advance_literals [OF q(1)] show ?thesis by simp
  next
    case False
    with "1.prems" show ?thesis by (simp add: skip_separators.simps [of p])
  qed
qed

lemma parse_type_literals: "parse_type p = Inr (t, p') \<Longrightarrow> p_literals p' = p_literals p"
proof (induction p arbitrary: t p' rule: parse_type.induct)
  case (1 p)
  show ?case
  proof (cases "base_type p")
    case (Some b)
    with "1.prems" have "advance p = Inr p'"
      by (auto simp: parse_type.simps [of p] rbind_eq_Inr)
    then show ?thesis by (rule advance_literals)
  next
    case None
    then obtain p1 p2 p3 u where w: "word_is p ''List''" and a: "advance p = Inr p1"
      and e: "expect p1 (Sym (CHR ''<'')) (CHR 0x27 # ''<'' @ CHR 0x27 # '' followed by the list's element type'') = Inr p2"
      and r: "parse_type p2 = Inr (u, p3)"
      and c: "expect p3 (Sym (CHR ''>''))
                (''a closing '' @ CHR 0x27 # ''>'' @ CHR 0x27 # '' after the list's element type'') = Inr p'"
      using "1.prems" by (auto simp: parse_type.simps [of p] rbind_eq_Inr split: if_splits)
    from "1.IH" [OF None w a e r] advance_literals [OF a] expect_literals [OF e] expect_literals [OF c]
    show ?thesis by simp
  qed
qed

lemma finish_literals: "finish_simple_statement p = Inr p' \<Longrightarrow> p_literals p' = p_literals p"
  by (auto simp: finish_simple_statement_def rbind_eq_Inr fail_here_def
      dest!: skip_separators_literals advance_literals split: if_splits)

lemmas grown_tokens = advance_literals [THEN grown_same] expect_literals [THEN grown_same]
  expect_word_literals [THEN grown_same] take_name_literals [THEN grown_same]
  skip_separators_literals [THEN grown_same] parse_type_literals [THEN grown_same] finish_literals [THEN grown_same]

abbreviation all_built :: "string list \<Rightarrow> expression list \<Rightarrow> bool" where
  "all_built ts es \<equiv> \<forall>e \<in> set es. built ts e"

abbreviation all_built_statements :: "string list \<Rightarrow> statement list \<Rightarrow> bool" where
  "all_built_statements ts ss \<equiv> \<forall>s \<in> set ss. built_statement ts s"

section \<open>Expressions\<close>

text \<open>The contract of an expression reader, and what the code around it makes of it.\<close>

locale tree_reader =
  fixes pe :: "expression parses"
  assumes reads_trees: "builds built pe"
begin

lemma pe_builds: "pe p = Done (e, p') \<Longrightarrow> grown p p' \<and> built (p_literals p') e"
  using buildsD [OF reads_trees] .

lemma argument_loop_builds:
  "parse_argument_loop n pe p = Done (es, p') \<Longrightarrow> grown p p' \<and> all_built (p_literals p') es"
proof (induction n arbitrary: p es)
  case (Suc n)
  from Suc.prems obtain e p1 where e: "pe p = Done (e, p1)"
    and rest: "p1 = p' \<and> es = [e] \<or> (\<exists>p2. advance p1 = Inr p2 \<and> (p2 = p' \<and> es = [e] \<or>
      (\<exists>es1. parse_argument_loop n pe p2 = Done (es1, p') \<and> es = e # es1)))"
    by (auto simp: obind_eq_Done split: if_splits)
  note head = pe_builds [OF e]
  from rest show ?case
  proof (elim disjE exE conjE)
    fix p2 es1 assume p2: "advance p1 = Inr p2" "parse_argument_loop n pe p2 = Done (es1, p')" "es = e # es1"
    with Suc.IH have tail: "grown p2 p' \<and> all_built (p_literals p') es1" by blast
    with grown_tokens(1) [OF p2(1)] have "grown p1 p'" by (blast intro: grown_trans)
    with head tail p2(3) show ?thesis by (auto intro: grown_trans built_grown)
  qed (use head in \<open>auto dest!: grown_tokens(1) intro: grown_trans built_grown\<close>)
qed simp

lemma arguments_build:
  assumes "parse_arguments n pe p = Done (es, p')"
  shows "grown p p' \<and> all_built (p_literals p') es"
proof -
  from assms obtain p1 p2 where p1: "advance p = Inr p1"
    and es: "p1 = p2 \<and> es = [] \<or> parse_argument_loop n pe p1 = Done (es, p2)"
    and p2: "expect p2 (Sym (CHR '')'')) ''a closing parenthesis'' = Inr p'"
    by (auto simp: parse_arguments_def obind_eq_Done split: if_splits)
  from es argument_loop_builds have "grown p1 p2 \<and> all_built (p_literals p2) es" by auto
  with grown_tokens(1) [OF p1] grown_tokens(2) [OF p2] show ?thesis
    by (auto intro: grown_trans built_grown)
qed

lemma text_atom_builds:
  assumes "advance (p\<lparr>p_literals := p_literals p @ [x]\<rparr>) = Inr p'"
  shows "grown p p' \<and> built (p_literals p') (E_Text (nd\<lparr>string_index := int (length (p_literals p))\<rparr>) x)"
  using advance_literals [OF assms] by (simp add: grown_def)

lemma atom_builds:
  assumes "parse_atom n pe p = Done (e, p')"
  shows "grown p p' \<and> built (p_literals p') e"
proof (cases "tok p = TOKEN_TEXT")
  case True
  with assms text_atom_builds show ?thesis
    by (auto simp: parse_atom_def obind_eq_Done Let_def simp del: built.simps)
next
  case False
  then show ?thesis
    using assms unfolding parse_atom_def
    by (auto simp: obind_eq_Done dest!: grown_tokens pe_builds arguments_build
        intro: grown_trans built_grown split: if_splits)
qed

lemma suffixes_build:
  "parse_suffixes n pe e p = Done (e', p') \<Longrightarrow> built (p_literals p) e \<Longrightarrow> grown p p' \<and> built (p_literals p') e'"
proof (induction n arbitrary: e p)
  case (Suc n)
  have step: "grown p p' \<and> built (p_literals p') e'"
    if "parse_suffixes n pe e1 q = Done (e', p')" "grown p q" "built (p_literals q) e1" for q e1
    using Suc.IH [OF that(1,3)] that(2) by (blast intro: grown_trans)
  from Suc.prems(1) consider "e' = e" "p' = p"
    | (call) p1 name p2 es p3 where "advance p = Inr p1"
        "take_name p1 (''a property name after '' @ CHR 0x27 # ''.'' @ [CHR 0x27]) = Inr (name, p2)"
        "parse_arguments n pe p2 = Done (es, p3)"
        "parse_suffixes n pe (E_Method_Call (new_expression p) name e es) p3 = Done (e', p')"
    | (member) p1 name p2 where "advance p = Inr p1"
        "take_name p1 (''a property name after '' @ CHR 0x27 # ''.'' @ [CHR 0x27]) = Inr (name, p2)"
        "parse_suffixes n pe (E_Member (new_expression p) name e) p2 = Done (e', p')"
    | (index) p1 i p2 p3 where "advance p = Inr p1" "pe p1 = Done (i, p2)"
        "expect p2 (Sym (CHR '']'')) ''a closing bracket'' = Inr p3"
        "parse_suffixes n pe (E_Index (new_expression p) e i) p3 = Done (e', p')"
    by (auto simp: obind_eq_Done split: if_splits)
  then show ?case
  proof cases
    case call
    have g: "grown p p3"
      using grown_tokens(1) [OF call(1)] grown_tokens(4) [OF call(2)] arguments_build [OF call(3)] by (blast intro: grown_trans)
    show ?thesis
      using step [OF call(4) g] built_grown [OF Suc.prems(2) g] arguments_build [OF call(3)] by (auto intro: built_grown)
  next
    case member
    have g: "grown p p2"
      using grown_tokens(1) [OF member(1)] grown_tokens(4) [OF member(2)] by (blast intro: grown_trans)
    show ?thesis
      using step [OF member(3) g] built_grown [OF Suc.prems(2) g] by (auto intro: built_grown)
  next
    case index
    have g: "grown p p3"
      using grown_tokens(1) [OF index(1)] pe_builds [OF index(2)] grown_tokens(2) [OF index(3)] by (blast intro: grown_trans)
    show ?thesis
      using step [OF index(4) g] built_grown [OF Suc.prems(2) g] grown_tokens(2) [OF index(3)] pe_builds [OF index(2)] by (auto intro: built_grown)
  qed (use Suc.prems(2) in simp)
qed simp

lemma primary_builds: "parse_primary n pe p = Done (e, p') \<Longrightarrow> grown p p' \<and> built (p_literals p') e"
  by (auto simp: parse_primary_def obind_eq_Done dest!: atom_builds suffixes_build intro: grown_trans)

lemma unary_builds: "parse_unary n pe p = Done (e, p') \<Longrightarrow> grown p p' \<and> built (p_literals p') e"
proof (induction p arbitrary: e p' rule: measure_induct_rule [of weight])
  case (less p)
  show ?case
  proof (cases "tok p = Sym (CHR ''!'') \<or> tok p = Sym (CHR ''-'')")
    case True
    with less.prems obtain p1 e1 where p1: "advance p = Inr p1" and e1: "parse_unary n pe p1 = Done (e1, p')"
      and e: "e = E_Unary (new_expression p) (tok p) e1"
      by (auto simp: parse_unary.simps [of n pe p] obind_eq_Done)
    have "weight p1 < weight p" using advance_weight [OF p1] True by auto
    with less.IH e1 grown_tokens(1) [OF p1] True show ?thesis
      by (auto simp: e intro: grown_trans)
  next
    case False
    with less.prems primary_builds show ?thesis by (simp add: parse_unary.simps [of n pe p])
  qed
qed

end

text \<open>A level of binary operators over any reader of operands.\<close>

lemma binary_loop_builds:
  assumes "builds built next" "set ops \<subseteq> set binary_operators"
  shows "parse_binary_loop n next ops left p = Done (e, p') \<Longrightarrow> built (p_literals p) left \<Longrightarrow>
    grown p p' \<and> built (p_literals p') e"
proof (induction n arbitrary: left p)
  case (Suc n)
  show ?case
  proof (cases "tok p \<in> set ops")
    case True
    with Suc.prems(1) obtain p1 r p2 where p1: "advance p = Inr p1" and r: "next p1 = Done (r, p2)"
      and rest: "parse_binary_loop n next ops (E_Binary (new_expression p) (tok p) left r) p2 = Done (e, p')"
      by (auto simp: obind_eq_Done)
    have g: "grown p p2" using grown_tokens(1) [OF p1] buildsD [OF assms(1) r] by (blast intro: grown_trans)
    moreover have "built (p_literals p2) (E_Binary (new_expression p) (tok p) left r)"
      using built_grown [OF Suc.prems(2) g] buildsD [OF assms(1) r] True assms(2) by auto
    ultimately show ?thesis using Suc.IH [OF rest] by (blast intro: grown_trans)
  next
    case False
    with Suc.prems show ?thesis by simp
  qed
qed simp

lemma binary_builds:
  assumes "builds built next" "set ops \<subseteq> set binary_operators"
  shows "builds built (parse_binary n next ops)"
  unfolding builds_def parse_binary_def
  using buildsD [OF assms(1)] binary_loop_builds [OF assms]
  by (auto simp: obind_eq_Done intro: grown_trans) (blast intro: grown_trans)+

lemma parse_and_builds: "builds built pe \<Longrightarrow> builds built (parse_and n pe)"
  unfolding parse_and_def parse_equality_def parse_comparison_def parse_sum_def parse_product_def
  by (intro binary_builds) (auto simp: builds_def binary_operators_def dest: tree_reader.unary_builds [OF tree_reader.intro, rotated])

lemma parse_expression_builds: "builds built (parse_expression n)"
proof (induction n)
  case (Suc n)
  have "builds built (parse_binary n (parse_and n (parse_expression n)) [TOKEN_OR])"
    by (intro binary_builds parse_and_builds Suc) (simp add: binary_operators_def)
  then show ?case by (simp add: builds_def)
qed (simp add: builds_def)

interpretation trees: tree_reader "parse_expression n" for n
  by unfold_locales (rule parse_expression_builds)

section \<open>Statements\<close>

locale tree_statement_reader = tree_reader +
  fixes pb :: "statement list parses"
  assumes reads_blocks: "builds all_built_statements pb"
begin

lemma pb_builds: "pb p = Done (ss, p') \<Longrightarrow> grown p p' \<and> all_built_statements (p_literals p') ss"
  using buildsD [OF reads_blocks] .

lemma let_builds:
  assumes "parse_let pe p = Done (s, p')" shows "grown p p' \<and> built_statement (p_literals p') s"
proof -
  from assms obtain p1 name p2 d p3 p4 e p5 where p1: "advance p = Inr p1"
    and p2: "take_name p1 ''a name for this value'' = Inr (name, p2)"
    and p3: "(if tok p2 = Sym (CHR '':'') then rbind (advance p2) parse_type else Inr (TYPE_UNKNOWN, p2)) = Inr (d, p3)"
    and p4: "expect p3 (Sym (CHR ''='')) (CHR 0x27 # ''='' @ CHR 0x27 # '' followed by the value to store'') = Inr p4"
    and e: "pe p4 = Done (e, p5)" and p': "finish_simple_statement p5 = Inr p'"
    and s: "s = S_Let (tok_line (p_token p)) (tok_column (p_token p)) name d (-1) e"
    unfolding parse_let_def by (auto simp: obind_eq_Done simp del: if_split_asm)
  have "grown p2 p3"
    using p3 by (auto simp: rbind_eq_Inr dest!: grown_tokens(1,6) intro: grown_trans split: if_splits)
  then have g: "grown p p4"
    using grown_tokens(1) [OF p1] grown_tokens(4) [OF p2] grown_tokens(2) [OF p4] by (blast intro: grown_trans)
  with pe_builds [OF e] grown_tokens(7) [OF p'] show ?thesis
    by (auto simp: s intro: grown_trans built_grown)
qed

lemma return_builds:
  assumes "parse_return pe p = Done (s, p')" shows "grown p p' \<and> built_statement (p_literals p') s"
proof -
  from assms obtain p1 eo p2 where p1: "advance p = Inr p1"
    and eo: "eo = None \<and> p2 = p1 \<or> (\<exists>e. eo = Some e \<and> pe p1 = Done (e, p2))"
    and p': "finish_simple_statement p2 = Inr p'"
    and s: "s = S_Return (tok_line (p_token p)) (tok_column (p_token p)) eo"
    unfolding parse_return_def by (auto simp: obind_eq_Done split: if_splits)
  from eo pe_builds have "grown p1 p2 \<and> (case eo of None \<Rightarrow> True | Some e \<Rightarrow> built (p_literals p2) e)" by auto
  with grown_tokens(1) [OF p1] grown_tokens(7) [OF p'] show ?thesis
    by (auto simp: s intro: grown_trans built_grown split: option.splits)
qed

lemma if_builds:
  assumes "parse_if pe pb p = Done (s, p')" shows "grown p p' \<and> built_statement (p_literals p') s"
proof -
  from assms obtain p1 e p2 a p3 p4 b where p1: "advance p = Inr p1" and e: "pe p1 = Done (e, p2)"
    and a: "pb p2 = Done (a, p3)" and p4: "skip_separators p3 = Inr p4"
    and b: "b = [] \<and> p' = p4 \<or> (\<exists>p5. advance p4 = Inr p5 \<and> pb p5 = Done (b, p'))"
    and s: "s = S_If (tok_line (p_token p)) (tok_column (p_token p)) e a b"
    unfolding parse_if_def by (auto simp: obind_eq_Done split: if_splits)
  from b have "grown p4 p' \<and> all_built_statements (p_literals p') b"
    by (auto dest!: grown_tokens(1) pb_builds intro: grown_trans)
  moreover from this have "grown p3 p'" using grown_tokens(5) [OF p4] by (blast intro: grown_trans)
  moreover from this have "grown p2 p'" using pb_builds [OF a] by (blast intro: grown_trans)
  moreover from this have "grown p p'"
    using grown_tokens(1) [OF p1] pe_builds [OF e] by (blast intro: grown_trans)
  ultimately show ?thesis
    using pe_builds [OF e] pb_builds [OF a] by (auto simp: s intro: built_grown built_statement_grown)
qed

lemma while_builds:
  assumes "parse_while pe pb p = Done (s, p')" shows "grown p p' \<and> built_statement (p_literals p') s"
proof -
  from assms obtain p1 e p2 b where p1: "advance p = Inr p1" and e: "pe p1 = Done (e, p2)"
    and b: "pb p2 = Done (b, p')" and s: "s = S_While (tok_line (p_token p)) (tok_column (p_token p)) e b"
    unfolding parse_while_def by (auto simp: obind_eq_Done)
  with grown_tokens(1) [OF p1] pe_builds [OF e] pb_builds [OF b] show ?thesis
    by (auto simp: s intro: grown_trans built_grown)
qed

lemma simple_builds:
  assumes "parse_simple pe p = Done (s, p')" shows "grown p p' \<and> built_statement (p_literals p') s"
proof -
  from assms obtain e p1 p4 where e: "pe p = Done (e, p1)" and p': "finish_simple_statement p4 = Inr p'"
    and s: "p4 = p1 \<and> (\<exists>l c. s = S_Expression l c e) \<or>
      (\<exists>p2 v. advance p1 = Inr p2 \<and> pe p2 = Done (v, p4) \<and>
        ((\<exists>l c x. s = S_Assign l c x (-1) v) \<or> (\<exists>l c. s = S_Index_Assign l c e v)))"
    unfolding parse_simple_def by (auto simp: obind_eq_Done Let_def split: if_splits expression.splits)
  note head = pe_builds [OF e]
  from s have "grown p1 p4 \<and> built_statement (p_literals p4) s"
    using head by (fastforce dest!: grown_tokens(1) pe_builds intro: grown_trans built_grown)
  with head grown_tokens(7) [OF p'] show ?thesis
    by (auto intro: grown_trans built_statement_grown)
qed

lemma statement_builds: "builds built_statement (parse_statement pe pb)"
  unfolding builds_def parse_statement_def
  by (auto dest: let_builds return_builds if_builds while_builds simple_builds split: if_splits)

end

lemma block_loop_builds:
  assumes "builds built_statement ps"
  shows "parse_block_loop n ps p = Done (ss, p') \<Longrightarrow> grown p p' \<and> all_built_statements (p_literals p') ss"
proof (induction n arbitrary: p ss)
  case (Suc n)
  then consider "ss = []" "advance p = Inr p'"
    | s p1 p2 ss1 where "ps p = Done (s, p1)" "skip_separators p1 = Inr p2"
        "parse_block_loop n ps p2 = Done (ss1, p')" "ss = s # ss1"
    by (auto simp: obind_eq_Done split: if_splits)
  then show ?case
  proof cases
    case 2
    with buildsD [OF assms 2(1)] grown_tokens(5) [OF 2(2)] Suc.IH [OF 2(3)] show ?thesis
      by (auto intro: grown_trans built_statement_grown)
  qed (auto dest: grown_tokens(1))
qed simp

lemma parse_block_builds: "builds all_built_statements (parse_block n)"
proof (induction n)
  case (Suc n)
  have "tree_statement_reader (parse_expression n) (parse_block n)"
    by unfold_locales (rule parse_expression_builds, rule Suc)
  note block_loop_builds [OF tree_statement_reader.statement_builds [OF this]]
  then show ?case
    by (auto simp: builds_def obind_eq_Done dest!: grown_tokens(2,5) intro: grown_trans)
qed (simp add: builds_def)

interpretation tree_blocks: tree_statement_reader "parse_expression n" "parse_block n" for n
  by unfold_locales (rule parse_block_builds)

section \<open>Programs\<close>

lemma parse_parameter_literals: "parse_parameter p = Inr (q, p') \<Longrightarrow> p_literals p' = p_literals p"
  by (auto simp: parse_parameter_def rbind_eq_Inr dest!: take_name_literals expect_literals parse_type_literals)

lemma parse_parameter_loop_literals: "parse_parameter_loop p = Inr (qs, p') \<Longrightarrow> p_literals p' = p_literals p"
proof (induction p arbitrary: qs rule: measure_induct_rule [of weight])
  case (less p)
  from less.prems obtain q p1 where q: "parse_parameter p = Inr (q, p1)"
    and rest: "p1 = p' \<or> (\<exists>p2. advance p1 = Inr p2 \<and> (p2 = p' \<or> (\<exists>qs'. parse_parameter_loop p2 = Inr (qs', p'))))"
    by (auto simp: parse_parameter_loop.simps [of p] rbind_eq_Inr split: if_splits)
  have "p_literals p1 = p_literals p" by (rule parse_parameter_literals [OF q])
  moreover have "weight p2 < weight p" if "advance p1 = Inr p2" for p2
    using advance_weight_weak [OF that] parse_parameter_weight [OF q] by simp
  ultimately show ?case
    using rest less.IH by (metis advance_literals)
qed

lemma parse_function_builds:
  assumes "parse_function n p = Done (f, p')"
  shows "grown p p' \<and> all_built_statements (p_literals p') (body f)"
proof -
  from assms obtain p1 p2 p3 p4 p5 p8 name qs tw where p1: "expect_word p ''function'' = Inr p1"
    and p2: "take_name p1 ''a function name'' = Inr (name, p2)"
    and p3: "expect p2 (Sym (CHR ''('')) ''an opening parenthesis'' = Inr p3"
    and qs: "(if tok p3 \<noteq> Sym (CHR '')'') then parse_parameter_loop p3 else Inr ([], p3)) = Inr (qs, p4)"
    and p5: "expect p4 (Sym (CHR '')'')) ''a closing parenthesis'' = Inr p5"
    and p8: "(if tok p5 = Sym (CHR '':'')
                  then rbind (advance p5) (\<lambda>p6. rbind (parse_type p6) (\<lambda>(type, p7). Inr ((type, True), p7)))
                  else if name = ''main'' then Inr ((TYPE_INTEGER, False), p5)
                  else Inr ((TYPE_NOTHING, False), p5)) = Inr (tw, p8)"
    and b: "parse_block n p8 = Done (body f, p')"
    unfolding parse_function_def by (auto simp: obind_eq_Done simp del: if_split_asm)
  have "p_literals p4 = p_literals p3"
    using qs by (auto dest!: parse_parameter_loop_literals split: if_splits)
  moreover have "p_literals p8 = p_literals p5"
    using p8 by (auto simp: rbind_eq_Inr dest!: advance_literals parse_type_literals split: if_splits)
  ultimately have "grown p p8"
    using expect_word_literals [OF p1] take_name_literals [OF p2] expect_literals [OF p3] expect_literals [OF p5]
    by (simp add: grown_same)
  with buildsD [OF parse_block_builds b] show ?thesis by (blast intro: grown_trans)
qed

lemma parse_functions_build:
  "parse_functions n p = Done (fs, p') \<Longrightarrow> grown p p' \<and> (\<forall>f \<in> set fs. all_built_statements (p_literals p') (body f))"
proof (induction n arbitrary: p fs)
  case (Suc n)
  then consider "fs = []" "p' = p"
    | f p1 p2 fs1 where "parse_function n p = Done (f, p1)" "skip_separators p1 = Inr p2"
        "parse_functions n p2 = Done (fs1, p')" "fs = f # fs1"
    by (auto simp: obind_eq_Done split: if_splits)
  then show ?case
  proof cases
    case 2
    note rest = Suc.IH [OF 2(3)]
    then have "grown p1 p'" using grown_tokens(5) [OF 2(2)] by (blast intro: grown_trans)
    with rest parse_function_builds [OF 2(1)] 2(4) show ?thesis
      by (auto intro: grown_trans built_statement_grown)
  qed simp
qed simp

lemma parse_program_built:
  assumes "parse_program source = Done program" "f \<in> set (program_functions program)"
  shows "all_built_statements (text_literals program) (body f)"
proof -
  from assms(1) obtain p fs p' where "parse_functions (length source + 2) p = Done (fs, p')"
    "program = \<lparr>program_functions = fs, text_literals = p_literals p'\<rparr>"
    by (auto simp: parse_program_def parse_program_fuelled_def obind_eq_Done simp del: parse_functions.simps)
  with parse_functions_build [of "length source + 2" p fs p'] assms(2) show ?thesis by simp
qed

text \<open>
  C7. In a parsed program every text literal of every function body carries an index at which
  the program's literal table holds exactly its bytes, every binary operator is one the emitter
  translates, and every unary operator is \<open>!\<close> or \<open>-\<close>.
\<close>

theorem parse_program_trees:
  assumes "parse_program source = Done program"
  shows "\<forall>f \<in> set (program_functions program). \<forall>s \<in> set (body f). built_statement (text_literals program) s"
  using parse_program_built [OF assms] by blast

definition literal_source :: string where
  "literal_source = ''function main() { print('' @ [CHR 0x22] @ ''a'' @ [CHR 0x22] @ '' + '' @
     [CHR 0x22] @ ''bc'' @ [CHR 0x22] @ '') }''"

lemma literal_source_parses:
  "case parse_program literal_source of Done p \<Rightarrow> text_literals p = [''a'', ''bc''] \<and> length (program_functions p) = 1 | _ \<Rightarrow> False"
  by code_simp

theorem parse_program_trees_witness:
  "\<exists>program. parse_program literal_source = Done program \<and> text_literals program = [''a'', ''bc''] \<and>
     (\<exists>f. program_functions program = [f] \<and> all_built_statements [''a'', ''bc''] (body f))"
proof -
  obtain program where program: "parse_program literal_source = Done program" "text_literals program = [''a'', ''bc'']"
    "length (program_functions program) = 1"
    using literal_source_parses by (auto split: outcome.splits)
  then obtain f where "program_functions program = [f]" by (cases "program_functions program") auto
  with program parse_program_trees [OF program(1)] show ?thesis by auto
qed

end
