(* ===== verification/Pipeline.thy ===== *)
theory Pipeline
  imports Acceptance Trees
begin

text \<open>
  The stages together, in the order \<open>main\<close> of \<open>bootstrap/stage0.c\<close> runs them. The emitter trusts
  the checker: it indexes argument arrays and reads annotations without a test. Here that trust
  is discharged: on every program that passes the checker the emitter succeeds, each value it
  makes has the type the checker found, and the code is well formed.
\<close>

section \<open>Checking keeps the shape of trees\<close>

lemma check_arguments_origin:
  "check_arguments program ls cs ts es = Inr es' \<Longrightarrow>
   \<forall>a' \<in> set es'. \<exists>a \<in> set es. \<exists>u. check_expression program ls a = Inr (u, a')"
proof (induction es arbitrary: cs ts es')
  case (Cons e es)
  show ?case
  proof (cases "cs = [] \<or> ts = []")
    case False
    then obtain c cs' t ts' where cs: "cs = c # cs'" "ts = t # ts'" by (cases cs; cases ts) auto
    with Cons.prems(1) obtain e1 es1 where e1: "check_expression program ls e = Inr (t, e1)"
      and es1: "check_arguments program ls cs' ts' es = Inr es1" "es' = e1 # es1"
      by (auto simp: check_arguments_Cons simp del: check_arguments.simps)
    with Cons.IH [OF es1(1)] show ?thesis by auto
  next
    case True
    with Cons.prems(1) have "es' = []" by (cases cs) auto
    then show ?thesis by simp
  qed
qed simp

text \<open>A call that checks: its arguments all check, and only its type annotation changes.\<close>

lemma check_call_cases:
  assumes "check_expression program ls (E_Call nd f es) = Inr (t, e')"
  obtains as where "e' = E_Call (typed nd t) f as" "length as = length es"
    "\<forall>a' \<in> set as. \<exists>a \<in> set es. \<exists>u. check_expression program ls a = Inr (u, a')"
    "f = ''print'' \<or> f = ''Text'' \<Longrightarrow> length es = 1"
    "\<And>ts u. builtin_signature f = Some (ts, u) \<Longrightarrow> length es = length ts \<and> t = u"
    "f = ''Text'' \<Longrightarrow> t = TYPE_TEXT" "f = ''print'' \<Longrightarrow> t = TYPE_NOTHING"
proof (cases rule: call_kind [of f])
  case (single u)
  with assms obtain a a' v where a: "es = [a]" "check_expression program ls a = Inr (v, a')" "t = u"
    "e' = E_Call (typed nd u) f [a']"
    by (auto simp: check_single_call [OF single])
  show thesis by (rule that [of "[a']"]) (use a single in auto)
next
  case (builtin ts u)
  with assms obtain as where a: "length es = length ts" "t = u"
    "check_arguments program ls (builtin_contexts f) ts es = Inr as" "e' = E_Call (typed nd u) f as"
    by (auto simp: check_builtin_call [OF builtin])
  have "length as = length ts"
    using check_arguments_length [OF a(3) length_builtin_contexts [OF builtin] a(1)] .
  then show thesis
    using a builtin by (intro that [of as]) (auto dest: check_arguments_origin)
next
  case user
  with assms obtain d :: function_decl and as where a: "length es = length (parameters d)" "t = return_type d"
    "check_arguments program ls (map (\<lambda>_. ''this function argument'') (parameters d))
          (map parameter_type (parameters d)) es = Inr as" "e' = E_Call (typed nd t) f as"
    unfolding check_user_call [OF user] by blast
  have "length as = length es"
    using check_arguments_length [OF a(3)] a(1) by simp
  then show thesis
    using a user by (intro that [of as]) (auto dest: check_arguments_origin)
qed

lemma check_expression_built:
  "check_expression program ls e = Inr (t, e') \<Longrightarrow> built ts e \<Longrightarrow> built ts e'"
proof (induction e arbitrary: t e')
  case (E_Call nd f es)
  from E_Call.prems(1) show ?case
  proof (cases rule: check_call_cases)
    case (1 as)
    then show ?thesis using E_Call.IH E_Call.prems(2) by fastforce
  qed
next
  case (E_Method_Call nd m e es)
  from E_Method_Call.prems(1) obtain u b cs us as v where b: "check_expression program ls e = Inr (u, b)"
    and as: "check_arguments program ls cs us es = Inr as" "e' = E_Method_Call (typed nd v) m b as"
    by (auto simp: rbind_eq_Inr split: if_splits)
  have "\<forall>a' \<in> set as. built ts a'"
    using check_arguments_origin [OF as(1)] E_Method_Call.IH(2) E_Method_Call.prems(2) by fastforce
  with E_Method_Call.IH(1) [OF b] E_Method_Call.prems(2) as(2) show ?case by simp
next
  case (E_Unary nd op e)
  then show ?case by (auto simp: rbind_eq_Inr split: if_splits)
next
  case (E_Name nd x)
  then show ?case by (auto simp: Let_def split: if_splits)
qed (auto simp: rbind_eq_Inr split: if_splits)

lemma declare_list_built: "built ts e \<Longrightarrow> built ts (declare_list d e)"
  by (auto simp: declare_list_def split: expression.splits)

lemma check_statement_built:
  "check_statement program rt ls s = Inr (ls', s') \<Longrightarrow> built_statement ts s \<Longrightarrow> built_statement ts s'"
  "check_statement_list program rt ls r ss = Inr (ls', ss') \<Longrightarrow> all_built_statements ts ss \<Longrightarrow> all_built_statements ts ss'"
proof (induction program rt ls s and program rt ls r ss arbitrary: ls' s' and ls' ss'
    rule: check_statement_check_statement_list.induct)
  case (1 program rt ls l c name d i e)
  from "1.prems"(1) obtain t e1 where "check_expression program ls (declare_list d e) = Inr (t, e1)"
    and "\<exists>j. s' = S_Let l c name t j e1"
    by (auto simp: rbind_eq_Inr split: if_splits)
  with check_expression_built declare_list_built "1.prems"(2) show ?case by fastforce
next
  case (2 program rt ls l c name i e)
  then show ?case by (auto simp: rbind_eq_Inr Let_def dest: check_expression_built split: if_splits)
next
  case (3 program rt ls l c target e)
  then show ?case by (auto simp: rbind_eq_Inr dest: check_expression_built split: if_splits)
next
  case (4 program rt ls l c e)
  then show ?case by (auto simp: rbind_eq_Inr dest: check_expression_built)
next
  case (5 program rt ls l c eo)
  then show ?case
    by (auto simp: rbind_eq_Inr dest: check_expression_built split: if_splits option.splits)
next
  case (6 program rt ls l c e a b)
  from "6.prems"(1) obtain e' ls1 a' ls3 b' where
    e: "check_expression program ls e = Inr (TYPE_BOOLEAN, e')"
    and a: "check_statement_list program rt ls False a = Inr (ls1, a')"
    and b: "check_statement_list program rt (close_scope (length ls) ls1) False b = Inr (ls3, b')"
    and s': "s' = S_If l c e' a' b'"
    by (auto simp: rbind_eq_Inr Let_def)
  have "all_built_statements ts a'" using "6.IH"(1) e a "6.prems"(2) by simp
  moreover have "all_built_statements ts b'" using "6.IH"(2) e a b "6.prems"(2) by simp
  ultimately show ?case using check_expression_built [OF e] "6.prems"(2) by (simp add: s')
next
  case (7 program rt ls l c e b)
  from "7.prems"(1) obtain e' ls1 b' where
    e: "check_expression program ls e = Inr (TYPE_BOOLEAN, e')"
    and b: "check_statement_list program rt ls False b = Inr (ls1, b')" and s': "s' = S_While l c e' b'"
    by (auto simp: rbind_eq_Inr)
  have "all_built_statements ts b'" using "7.IH" e b "7.prems"(2) by simp
  then show ?case using check_expression_built [OF e] "7.prems"(2) by (simp add: s')
next
  case (9 program rt ls r s ss)
  from "9.prems"(1) obtain ls1 s1 ss1 where
    s: "\<not> r" "check_statement program rt ls s = Inr (ls1, s1)"
    and ss: "check_statement_list program rt ls1 (statement_guarantees_return s) ss = Inr (ls', ss1)" "ss' = s1 # ss1"
    by (auto simp: rbind_eq_Inr split: if_splits)
  have "built_statement ts s1" using "9.IH"(1) s "9.prems"(2) by simp
  moreover have "all_built_statements ts ss1" using "9.IH"(2) s ss "9.prems"(2) by simp
  ultimately show ?case using ss(2) by simp
qed simp

section \<open>Checked trees can be emitted\<close>

text \<open>An expression the checker has annotated is emitted, with a value of the annotated type.\<close>

definition emittable :: "expression \<Rightarrow> bool" where
  "emittable e \<longleftrightarrow> (\<forall>s. \<exists>v s'. emit_expression s e = Some (v, s') \<and> val_type v = node_type (node_of e))"

lemma emittableE:
  assumes "emittable e"
  obtains v s' where "emit_expression s e = Some (v, s')" "val_type v = node_type (node_of e)"
  using assms unfolding emittable_def by blast

lemma emit_arguments_defined:
  "\<forall>e \<in> set es. emittable e \<Longrightarrow>
   \<exists>vs s'. emit_arguments s es = Some (vs, s') \<and> map val_type vs = map (node_type \<circ> node_of) es"
proof (induction es arbitrary: s)
  case (Cons e es)
  have "emittable e" using Cons.prems by simp
  then obtain v s1 where v: "emit_expression s e = Some (v, s1)" "val_type v = node_type (node_of e)"
    by (rule emittableE)
  from Cons obtain vs s' where "emit_arguments s1 es = Some (vs, s')" "map val_type vs = map (node_type \<circ> node_of) es"
    by fastforce
  with v show ?case by simp
qed simp

lemma define_value_type: "define_value t code s = (v, s') \<Longrightarrow> val_type v = t"
  by (auto simp: define_value_def new_temporary_def)

lemma emit_call_defined:
  assumes "f = ''print'' \<or> f = ''Text'' \<Longrightarrow> length as = 1"
    and "\<And>ts u. builtin_signature f = Some (ts, u) \<Longrightarrow> length as = length ts \<and> node_type nd = u"
    and "f = ''Text'' \<Longrightarrow> node_type nd = TYPE_TEXT" "f = ''print'' \<Longrightarrow> node_type nd = TYPE_NOTHING"
  shows "\<exists>v s'. emit_call nd f as s = Some (v, s') \<and> val_type v = node_type nd"
proof -
  have fresh: "\<exists>v s'. define_value t code s = (v, s') \<and> val_type v = t" for t code
    by (cases "define_value t code s") (auto dest: define_value_type)
  show ?thesis
  proof (cases rule: call_kind [of f])
    case (single u)
    with assms(1) obtain a where "as = [a]" by (cases as) auto
    with single assms(3,4) fresh show ?thesis
      by (auto simp: emit_call_def nth_argument_def nothing_def)
  next
    case (builtin ts u)
    with assms(2) have len: "length as = length ts" "node_type nd = u" by auto
    from builtin consider "f = ''fail''" | "f = ''joinText''" | "f = ''readTextFile''" | "f = ''writeTextFile''"
      | "f = ''argumentCount''" | "f = ''argument''"
      by (auto simp: builtin_signature_def split: if_splits)
    then show ?thesis
      using len builtin fresh by cases (auto simp: emit_call_def builtin_signature_def nth_argument_def nothing_def)
  next
    case user
    then show ?thesis
      using fresh by (auto simp: emit_call_def builtin_signature_def nothing_def split: if_splits)
  qed
qed

lemma emit_operator_defined:
  assumes "operator_type op (val_type l) = Some (node_type nd)"
  shows "\<exists>v s'. emit_operator nd op l r s = (v, s') \<and> val_type v = node_type nd"
proof -
  obtain v s' where v: "emit_operator nd op l r s = (v, s')" by fastforce
  have "val_type v = node_type nd"
    using v assms by (auto simp: emit_operator_def operator_type_def dest!: define_value_type split: if_splits prod.splits)
  with v show ?thesis by blast
qed

lemma emit_slot_read_type: "emit_slot_read t l i s = (v, s') \<Longrightarrow> val_type v = t"
  by (auto simp: emit_slot_read_def new_temporary_def Let_def dest!: define_value_type split: if_splits)

lemma emittable_define:
  assumes "emittable b"
    and "\<And>s v s1. emit_expression s b = Some (v, s1) \<Longrightarrow>
      emit_expression s e = Some (define_value (node_type (node_of e)) (code v) s1)"
  shows "emittable e"
  unfolding emittable_def
proof
  fix s
  obtain v s1 where "emit_expression s b = Some (v, s1)" using assms(1) by (rule emittableE)
  with assms(2) show "\<exists>v s'. emit_expression s e = Some (v, s') \<and> val_type v = node_type (node_of e)"
    by (simp add: define_value_def new_temporary_def)
qed

lemma emit_method_defined:
  assumes "emittable b" "\<forall>a \<in> set as. emittable a"
    and "node_type (node_of b) = TYPE_TEXT \<and> node_type nd = TYPE_TEXT \<and> length as = 2 \<or>
         node_type (node_of b) \<noteq> TYPE_TEXT \<and> node_type nd = TYPE_NOTHING \<and> length as = 1"
  shows "emittable (E_Method_Call nd m b as)"
  unfolding emittable_def
proof
  fix s
  obtain l s1 where l: "emit_expression s b = Some (l, s1)" using assms(1) by (rule emittableE)
  show "\<exists>v s'. emit_expression s (E_Method_Call nd m b as) = Some (v, s') \<and>
      val_type v = node_type (node_of (E_Method_Call nd m b as))"
    using assms(3)
  proof (elim disjE conjE)
    assume t: "node_type (node_of b) = TYPE_TEXT" "node_type nd = TYPE_TEXT" "length as = 2"
    then obtain x y where as: "as = [x, y]" by (auto simp: numeral_2_eq_2 length_Suc_conv)
    with assms(2) have "emittable x" "emittable y" by auto
    then obtain r s2 q s3 where "emit_expression s1 x = Some (r, s2)" "emit_expression s2 y = Some (q, s3)"
      by (metis emittableE)
    with l t as show ?thesis by (simp add: define_value_def new_temporary_def)
  next
    assume t: "node_type (node_of b) \<noteq> TYPE_TEXT" "node_type nd = TYPE_NOTHING" "length as = 1"
    then obtain x where as: "as = [x]" by (auto simp: length_Suc_conv)
    with assms(2) obtain r s2 where "emit_expression s1 x = Some (r, s2)" by (metis emittableE list.set_intros(1))
    with l t as show ?thesis by (cases "emit_slot_value r s2") (simp add: nothing_def)
  qed
qed

lemma emit_binary_defined:
  assumes "emittable l" "emittable r" "operator_type op (node_type (node_of l)) = Some (node_type nd)"
  shows "emittable (E_Binary nd op l r)"
  unfolding emittable_def
proof
  fix s
  obtain left s1 where l: "emit_expression s l = Some (left, s1)" "val_type left = node_type (node_of l)"
    using assms(1) by (rule emittableE)
  show "\<exists>v s'. emit_expression s (E_Binary nd op l r) = Some (v, s') \<and> val_type v = node_type (node_of (E_Binary nd op l r))"
  proof (cases "op = TOKEN_AND \<or> op = TOKEN_OR")
    case True
    then have "node_type nd = TYPE_BOOLEAN"
      using assms(3) by (auto simp: operator_type_def split: if_splits)
    define s4 where "s4 = start_block (Logical_Right (next_label s1))
        (put [logical_branch op (val_name left) (next_label s1) (Suc (next_label s1))] (s1\<lparr>next_label := Suc (Suc (next_label s1))\<rparr>))"
    obtain right s5 where "emit_expression s4 r = Some (right, s5)" using assms(2) by (rule emittableE)
    with True l \<open>node_type nd = TYPE_BOOLEAN\<close> show ?thesis
      by (auto simp: new_label_def s4_def define_value_def new_temporary_def Let_def)
  next
    case False
    obtain right s2 where "emit_expression s1 r = Some (right, s2)" using assms(2) by (rule emittableE)
    with False l show ?thesis
      using emit_operator_defined [of op left nd right s2] assms(3) by auto
  qed
qed

lemma emit_index_defined:
  assumes "emittable e" "emittable i" "node_type (node_of e) = TYPE_TEXT \<Longrightarrow> node_type nd = TYPE_CHARACTER"
  shows "emittable (E_Index nd e i)"
  unfolding emittable_def
proof
  fix s
  obtain l s1 where l: "emit_expression s e = Some (l, s1)" using assms(1) by (rule emittableE)
  obtain r s2 where r: "emit_expression s1 i = Some (r, s2)" using assms(2) by (rule emittableE)
  show "\<exists>v s'. emit_expression s (E_Index nd e i) = Some (v, s') \<and> val_type v = node_type (node_of (E_Index nd e i))"
  proof (cases "node_type (node_of e) = TYPE_TEXT")
    case True
    with l r assms(3) show ?thesis by (simp add: define_value_def new_temporary_def)
  next
    case False
    with l r show ?thesis
      by (cases "emit_slot_read (node_type nd) l r s2") (auto dest: emit_slot_read_type)
  qed
qed

lemma check_expression_emittable: "check_expression program ls e = Inr (t, e') \<Longrightarrow> emittable e'"
proof (induction e arbitrary: t e')
  case (E_Call nd f es)
  from E_Call.prems show ?case
  proof (cases rule: check_call_cases)
    case (1 as)
    have "\<forall>a \<in> set as. emittable a" using 1(3) E_Call.IH by blast
    show ?thesis unfolding emittable_def
    proof
      fix s
      from emit_arguments_defined [OF \<open>\<forall>a \<in> set as. emittable a\<close>, of s] obtain vs s1 where
        vs: "emit_arguments s as = Some (vs, s1)" "length vs = length as"
        by (metis length_map)
      have "\<exists>v s'. emit_call (typed nd t) f vs s1 = Some (v, s') \<and> val_type v = node_type (typed nd t)"
        by (rule emit_call_defined) (use 1 vs in auto)
      with vs 1(1) show "\<exists>v s'. emit_expression s e' = Some (v, s') \<and> val_type v = node_type (node_of e')"
        by auto
    qed
  qed
next
  case (E_Method_Call nd m e es)
  from E_Method_Call.prems obtain u b cs us as v where b: "check_expression program ls e = Inr (u, b)"
    and as: "check_arguments program ls cs us es = Inr as" "length cs = length us" "length es = length us"
    and v: "e' = E_Method_Call (typed nd v) m b as"
      "u = TYPE_TEXT \<and> v = TYPE_TEXT \<and> length us = 2 \<or> u \<noteq> TYPE_TEXT \<and> v = TYPE_NOTHING \<and> length us = 1"
    by (fastforce simp: rbind_eq_Inr split: if_splits)
  have args: "\<forall>a \<in> set as. emittable a"
    using check_arguments_origin [OF as(1)] E_Method_Call.IH(2) by blast
  have len: "length as = length us" by (rule check_arguments_length [OF as])
  show ?case
    using emit_method_defined [OF E_Method_Call.IH(1) [OF b] args] check_expression_type [OF b] len v by auto
next
  case (E_Unary nd op e)
  then obtain u b v where b: "check_expression program ls e = Inr (u, b)" and e': "e' = E_Unary (typed nd v) op b"
    by (auto simp: rbind_eq_Inr split: if_splits)
  show ?case unfolding e' by (rule emittable_define [OF E_Unary.IH [OF b]]) simp
next
  case (E_Member nd m e)
  then obtain u b where b: "check_expression program ls e = Inr (u, b)" and e': "e' = E_Member (typed nd TYPE_INTEGER) m b"
    by (auto simp: rbind_eq_Inr member_result_eq)
  show ?case unfolding e' by (rule emittable_define [OF E_Member.IH [OF b]]) simp
next
  case (E_Index nd e i)
  then obtain u b j where b: "check_expression program ls e = Inr (u, b)" "check_expression program ls i = Inr (TYPE_INTEGER, j)"
    "index_result nd u = Inr t" and e': "e' = E_Index (typed nd t) b j"
    by (auto simp: rbind_eq_Inr)
  show ?case
    unfolding e' using E_Index.IH(1) [OF b(1)] E_Index.IH(2) [OF b(2)] check_expression_type [OF b(1)] b(3)
    by (auto simp: index_result_eq is_list_type_def intro!: emit_index_defined)
next
  case (E_Binary nd op l r)
  then obtain u l' r' where lr: "check_expression program ls l = Inr (u, l')" "check_expression program ls r = Inr (u, r')"
    "operator_type op u = Some t" and e': "e' = E_Binary (typed nd t) op l' r'"
    by (auto simp: rbind_eq_Inr binary_result_eq)
  show ?case
    unfolding e' using E_Binary.IH(1) [OF lr(1)] E_Binary.IH(2) [OF lr(2)] check_expression_type [OF lr(1)] lr(3)
    by (intro emit_binary_defined) auto
next
  case (E_Name nd x)
  then show ?case by (auto simp: emittable_def Let_def define_value_def new_temporary_def split: if_splits)
next
  case (E_List nd)
  then show ?case by (auto simp: emittable_def define_value_def new_temporary_def split: if_splits)
qed (auto simp: emittable_def)

text \<open>
  A statement the checker has annotated is emitted, and the emitter reports a return exactly
  when the checker's return analysis does.
\<close>

definition emittable_statement :: "statement \<Rightarrow> bool" where
  "emittable_statement x \<longleftrightarrow> (\<forall>s. \<exists>s'. emit_statement s x = Some (statement_guarantees_return x, s'))"

lemma emit_statements_defined:
  "\<forall>x \<in> set xs. emittable_statement x \<Longrightarrow> \<forall>x \<in> set (butlast xs). \<not> statement_guarantees_return x \<Longrightarrow>
   \<exists>s'. emit_statements s xs = Some (body_guarantees_return xs, s')"
proof (induction xs arbitrary: s)
  case (Cons x xs)
  from Cons.prems(1) obtain s1 where "emit_statement s x = Some (statement_guarantees_return x, s1)"
    by (fastforce simp: emittable_statement_def)
  with Cons show ?case by (cases "xs = []") auto
qed (simp add: body_guarantees_return_def)

lemma check_statement_list_butlast:
  "check_statement_list program rt ls r ss = Inr (ls', ss') \<Longrightarrow> \<forall>x \<in> set (butlast ss'). \<not> statement_guarantees_return x"
proof (induction ss arbitrary: ls r ss')
  case (Cons s ss)
  from Cons.prems obtain ls1 s1 ss1 where
    s: "check_statement program rt ls s = Inr (ls1, s1)"
    and ss: "check_statement_list program rt ls1 (statement_guarantees_return s) ss = Inr (ls', ss1)" "ss' = s1 # ss1"
    by (auto simp: rbind_eq_Inr split: if_splits)
  have "\<not> statement_guarantees_return s1" if "ss1 \<noteq> []"
    using that ss(1) guarantees_return_checked(1) [OF s] by (cases ss) (auto split: if_splits)
  with Cons.IH [OF ss(1)] ss(2) show ?case by auto
qed simp

lemma emittable_fun:
  assumes "emittable e" shows "\<exists>w h. \<forall>s. emit_expression s e = Some (w s, h s)"
  using assms unfolding emittable_def by metis

lemma emittable_simple:
  assumes "emittable e"
  shows "emittable_statement (S_Let l c x t j e)" "emittable_statement (S_Assign l c x j e)"
    "emittable_statement (S_Expression l c e)" "emittable_statement (S_Return l c (Some e))"
proof -
  obtain w h where "\<And>s. emit_expression s e = Some (w s, h s)" using emittable_fun [OF assms] by blast
  then show "emittable_statement (S_Let l c x t j e)" "emittable_statement (S_Assign l c x j e)"
    "emittable_statement (S_Expression l c e)" "emittable_statement (S_Return l c (Some e))"
    by (simp_all add: emittable_statement_def)
qed

lemma emittable_index_assign:
  assumes "emittable b" "emittable i" "emittable e"
  shows "emittable_statement (S_Index_Assign l c (E_Index nd b i) e)"
proof -
  obtain w1 h1 where "\<And>s. emit_expression s b = Some (w1 s, h1 s)" using emittable_fun [OF assms(1)] by blast
  moreover obtain w2 h2 where "\<And>s. emit_expression s i = Some (w2 s, h2 s)" using emittable_fun [OF assms(2)] by blast
  moreover obtain w3 h3 where "\<And>s. emit_expression s e = Some (w3 s, h3 s)" using emittable_fun [OF assms(3)] by blast
  ultimately show ?thesis by (simp add: emittable_statement_def split: prod.splits)
qed

lemma emittable_if:
  assumes "emittable e" "\<And>s. \<exists>s'. emit_statements s a = Some (body_guarantees_return a, s')"
    "\<And>s. \<exists>s'. emit_statements s b = Some (body_guarantees_return b, s')"
  shows "emittable_statement (S_If l c e a b)"
proof -
  obtain f where f: "\<And>s. emit_statements s a = Some (body_guarantees_return a, f s)" using assms(2) by metis
  obtain g where g: "\<And>s. emit_statements s b = Some (body_guarantees_return b, g s)" using assms(3) by metis
  obtain w h where h: "\<And>s. emit_expression s e = Some (w s, h s)" using emittable_fun [OF assms(1)] by blast
  show ?thesis
  proof (cases "b = []")
    case True
    then show ?thesis
      by (simp add: emittable_statement_def f h new_label_def Let_def body_guarantees_return_def del: emit_statements.simps)
  next
    case False
    then show ?thesis
      by (simp add: emittable_statement_def f g h new_label_def Let_def del: statement_guarantees_return.simps)
  qed
qed

lemma emittable_while:
  assumes "emittable e" "\<And>s. \<exists>s' r. emit_statements s b = Some (r, s')"
  shows "emittable_statement (S_While l c e b)"
proof -
  obtain f r where f: "\<And>s. emit_statements s b = Some (r s, f s)" using assms(2) by metis
  obtain w h where h: "\<And>s. emit_expression s e = Some (w s, h s)" using emittable_fun [OF assms(1)] by blast
  show ?thesis by (simp add: emittable_statement_def f h new_label_def Let_def)
qed

lemma check_statement_emittable:
  "check_statement program rt ls s = Inr (ls', s') \<Longrightarrow> emittable_statement s'"
  "check_statement_list program rt ls r ss = Inr (ls', ss') \<Longrightarrow> \<forall>s \<in> set ss'. emittable_statement s"
proof (induction program rt ls s and program rt ls r ss arbitrary: ls' s' and ls' ss'
    rule: check_statement_check_statement_list.induct)
  case (1 program rt ls l c name d i e)
  then obtain t e1 where "check_expression program ls (declare_list d e) = Inr (t, e1)"
    and "\<exists>j. s' = S_Let l c name t j e1"
    by (auto simp: rbind_eq_Inr split: if_splits)
  then show ?case by (auto intro: emittable_simple check_expression_emittable)
next
  case (2 program rt ls l c name i e)
  then obtain t e1 where "check_expression program ls e = Inr (t, e1)" and "\<exists>j. s' = S_Assign l c name j e1"
    by (auto simp: rbind_eq_Inr Let_def split: if_splits)
  then show ?case by (auto intro: emittable_simple check_expression_emittable)
next
  case (3 program rt ls l c target e)
  then obtain u t t1 e1 where "check_expression program ls target = Inr (u, t1)" "check_expression program ls e = Inr (t, e1)"
    "s' = S_Index_Assign l c t1 e1" "is_list_type (index_base_type t1)"
    by (auto simp: rbind_eq_Inr split: if_splits)
  moreover from this obtain nd b i where t1: "t1 = E_Index nd b i"
    by (cases t1) (auto simp: index_base_type_def is_list_type_def)
  moreover from calculation obtain nd' b' i' where "target = E_Index nd' b' i'"
    using check_expression_shape by blast
  ultimately have "emittable b" "emittable i" "emittable e1"
    by (auto simp: rbind_eq_Inr dest: check_expression_emittable)
  with t1 \<open>s' = _\<close> show ?case by (simp add: emittable_index_assign)
next
  case (4 program rt ls l c e)
  then obtain t e1 where "check_expression program ls e = Inr (t, e1)" "s' = S_Expression l c e1"
    by (auto simp: rbind_eq_Inr)
  then show ?case by (auto intro: emittable_simple check_expression_emittable)
next
  case (5 program rt ls l c eo)
  show ?case
  proof (cases eo)
    case (Some e)
    with "5.prems" obtain t e1 where "check_expression program ls e = Inr (t, e1)" "s' = S_Return l c (Some e1)"
      by (auto simp: rbind_eq_Inr split: if_splits)
    then show ?thesis by (auto intro: emittable_simple check_expression_emittable)
  qed (use "5.prems" in \<open>auto simp: emittable_statement_def split: if_splits\<close>)
next
  case (6 program rt ls l c e a b)
  from "6.prems"(1) obtain e' ls1 a' ls3 b' where
    e: "check_expression program ls e = Inr (TYPE_BOOLEAN, e')"
    and a: "check_statement_list program rt ls False a = Inr (ls1, a')"
    and b: "check_statement_list program rt (close_scope (length ls) ls1) False b = Inr (ls3, b')"
    and s': "s' = S_If l c e' a' b'"
    by (auto simp: rbind_eq_Inr Let_def)
  have "\<forall>s \<in> set a'. emittable_statement s" using "6.IH"(1) e a by simp
  moreover have "\<forall>s \<in> set b'. emittable_statement s" using "6.IH"(2) e a b by simp
  ultimately show ?case
    unfolding s' using check_expression_emittable [OF e] check_statement_list_butlast [OF a] check_statement_list_butlast [OF b]
    by (intro emittable_if emit_statements_defined)
next
  case (7 program rt ls l c e b)
  from "7.prems"(1) obtain e' ls1 b' where
    e: "check_expression program ls e = Inr (TYPE_BOOLEAN, e')"
    and b: "check_statement_list program rt ls False b = Inr (ls1, b')" and s': "s' = S_While l c e' b'"
    by (auto simp: rbind_eq_Inr)
  have "\<forall>s \<in> set b'. emittable_statement s" using "7.IH" e b by simp
  then show ?case
    unfolding s' using check_expression_emittable [OF e] emit_statements_defined check_statement_list_butlast [OF b]
    by (intro emittable_while) blast+
next
  case (9 program rt ls r s ss)
  from "9.prems"(1) obtain ls1 s1 ss1 where
    s: "\<not> r" "check_statement program rt ls s = Inr (ls1, s1)"
    and ss: "check_statement_list program rt ls1 (statement_guarantees_return s) ss = Inr (ls', ss1)" "ss' = s1 # ss1"
    by (auto simp: rbind_eq_Inr split: if_splits)
  have "emittable_statement s1" using "9.IH"(1) s by simp
  moreover have "\<forall>s \<in> set ss1. emittable_statement s" using "9.IH"(2) s ss by simp
  ultimately show ?case using ss(2) by simp
qed simp

section \<open>Functions\<close>

lemma check_function_emits:
  assumes "check_function program earlier f = Inr f'"
    and "\<forall>s \<in> set (body f). built_statement ts s"
  shows "\<exists>code. emit_function f' = Some code \<and> well_formed_code code \<and> I_Unreachable \<notin> set code"
proof -
  from assms(1) obtain ls ls' ss where
    ss: "check_statement_list program (return_type f) ls False (body f) = Inr (ls', ss)"
    and f': "f' = f\<lparr>body := ss, locals := ls'\<rparr>"
    and returns: "return_type f \<noteq> TYPE_NOTHING \<and> function_name f \<noteq> ''main'' \<longrightarrow> body_guarantees_return ss"
    by (auto simp: check_function_def check_statements_def rbind_eq_Inr split: if_splits)
  obtain s where s: "emit_statements (initial_emitter f') (body f') = Some (body_guarantees_return ss, s)"
    using emit_statements_defined [OF check_statement_emittable(2) [OF ss] check_statement_list_butlast [OF ss], of "initial_emitter f'"]
    by (auto simp: f')
  then obtain code where code: "emit_function f' = Some code"
    by (simp add: emit_function_def)
  have known: "\<forall>x \<in> set (body f'). known_statement x"
    using check_statement_built(2) [OF ss assms(2)] by (auto simp: f' dest: built_statement_known)
  have "body_guarantees_return ss \<or> function_end f' \<noteq> I_Unreachable"
    using returns by (auto simp: function_end_def is_main_def f')
  with code emit_function_well_formed [OF code known s] show ?thesis by blast
qed

lemma check_functions_origin:
  "check_functions program earlier fs = Inr fs' \<Longrightarrow> f' \<in> set fs' \<Longrightarrow>
   \<exists>f \<in> set fs. \<exists>before. check_function program before f = Inr f'"
proof (induction fs arbitrary: earlier fs')
  case (Cons f fs)
  from Cons.prems(1) obtain f1 fs1 where "check_function program earlier f = Inr f1"
    "check_functions program (earlier @ [function_name f]) fs = Inr fs1" "fs' = f1 # fs1"
    by (auto simp: rbind_eq_Inr)
  with Cons.IH [of "earlier @ [function_name f]" fs1] Cons.prems(2) show ?case by auto
qed simp

lemma check_program_origin:
  assumes "check_program program = Inr program'" "f' \<in> set (program_functions program')"
  shows "\<exists>f \<in> set (program_functions program). \<exists>before. check_function program before f = Inr f'"
  using assms check_functions_origin [of program "[]" "program_functions program"]
  by (auto simp: check_program_def rbind_eq_Inr split: if_splits)

lemma compiled_function:
  assumes "parse_program source = Done program" "check_program program = Inr program'"
    and "f \<in> set (program_functions program')"
  shows "\<exists>code. emit_function f = Some code \<and> well_formed_code code \<and> I_Unreachable \<notin> set code"
proof -
  from check_program_origin [OF assms(2,3)] obtain f0 before where f0: "f0 \<in> set (program_functions program)"
    "check_function program before f0 = Inr f" by blast
  show ?thesis by (rule check_function_emits [OF f0(2)]) (use parse_program_built [OF assms(1) f0(1)] in blast)
qed

section \<open>Programs\<close>

text \<open>
  \<open>compile\<close>: what \<open>main\<close> does between reading the source and closing the output file; \<open>None\<close>
  in the second component would be a read outside an array of the tree.
\<close>

definition compile :: "string \<Rightarrow> error + string option" where
  "compile source =
     (case parse_program source of
        Done program \<Rightarrow> rbind (check_program program) (\<lambda>program'. Inr (emit_program program'))
      | Failed e \<Rightarrow> Inl e
      | Starved \<Rightarrow> Inr None)"

lemma emit_functions_defined:
  "\<forall>f \<in> set fs. \<exists>code. emit_function f = Some code \<Longrightarrow> \<exists>out. emit_functions fs = Some out"
  by (induction fs) (auto simp: bind_eq_Some_conv)

lemma emit_program_defined:
  assumes "parse_program source = Done program" "check_program program = Inr program'"
  shows "\<exists>out. emit_program program' = Some out"
proof -
  have "\<exists>out. emit_functions (program_functions program') = Some out"
    by (rule emit_functions_defined) (use compiled_function [OF assms] in blast)
  then show ?thesis by (auto simp: emit_program_def)
qed

text \<open>
  C8. Code that compiles is well formed: for every function of a source text that parses and
  passes the checker, the emitter produces code in which every register is written exactly once
  and read only after that, every block ends in exactly one terminator, no label occurs twice,
  every branch goes to a label of the same function, and no \<open>unreachable\<close> is needed because a
  function that promises a value returns one on every path.
\<close>

theorem compiled_code_well_formed:
  assumes "parse_program source = Done program" "check_program program = Inr program'"
    and "f \<in> set (program_functions program')"
  shows "\<exists>code. emit_function f = Some code \<and> well_formed_code code \<and> I_Unreachable \<notin> set code"
  by (rule compiled_function [OF assms])

theorem compiled_code_well_formed_witness:
  "\<exists>program program' f. parse_program sample_source = Done program \<and> check_program program = Inr program' \<and>
     f \<in> set (program_functions program') \<and> (\<exists>code. emit_function f = Some code \<and> well_formed_code code)"
proof -
  obtain program program' where p: "parse_program sample_source = Done program" "check_program program = Inr program'"
    and "length (program_functions program') = 2"
    using sample_source_checks by (auto split: outcome.splits sum.splits)
  then obtain f where f: "f \<in> set (program_functions program')"
    by (cases "program_functions program'") auto
  with p compiled_code_well_formed [OF p f] show ?thesis by blast
qed

text \<open>
  C9. The compiler always answers: every source text yields either a diagnostic with a position
  or a complete LLVM module; the parser never runs out of fuel and the emitter never reads a
  part of the tree that is not there.
\<close>

theorem compile_total: "(\<exists>e. compile source = Inl e) \<or> (\<exists>out. compile source = Inr (Some out))"
  using parse_program_fed [of source] emit_program_defined [of source]
  by (cases "parse_program source") (auto simp: compile_def rbind_def split: sum.splits)

end
