(* ===== verification/Guards.thy ===== *)
theory Guards
  imports Prelude
begin

text \<open>
  The checks every compiled program runs under (\<open>runtime/minyar_runtime.c\<close>): the guard on the
  depth of calls, and the two integer checks the emitter places around arithmetic.

  A check that fails prints a message and ends the process (\<open>minyar_stop\<close>,
  \<open>integer_overflow_stop\<close>, \<open>integer_division_stop\<close>); that is the value \<open>Inl\<close> of the message.
\<close>

definition minyar_stop :: "string \<Rightarrow> string + 'a" where
  "minyar_stop message = Inl message"

lemma minyar_stop_simps [simp]:
  "minyar_stop m \<noteq> Inr x" "Inr x \<noteq> minyar_stop m" "rbind (minyar_stop m) f = minyar_stop m"
  "minyar_stop m = minyar_stop m' \<longleftrightarrow> m = m'" "minyar_stop m = Inl m' \<longleftrightarrow> m = m'"
  by (simp_all add: minyar_stop_def)

section \<open>Call depth\<close>

text \<open>
  The bounds of the thread's stack come from the platform (\<open>minyar_find_stack_bounds\<close> asks
  pthreads or Windows once); they are fields of the state, 0 when unknown. The address of the
  marker on the native stack is the argument \<open>current\<close>.
\<close>

record call_guard =
  call_depth :: nat
  stack_low :: nat
  stack_high :: nat

definition MAX_CALL_DEPTH :: nat where "MAX_CALL_DEPTH = 1048576"
definition FALLBACK_CALL_DEPTH :: nat where "FALLBACK_CALL_DEPTH = 32768"
definition STACK_RESERVE_BYTES :: nat where "STACK_RESERVE_BYTES = 128 * 1024"

definition minyar_stack_enter :: "nat \<Rightarrow> call_guard \<Rightarrow> string + call_guard" where
  "minyar_stack_enter current g =
     (if call_depth g \<ge> MAX_CALL_DEPTH \<or>
         ((stack_low g = 0 \<or> stack_high g = 0) \<and> call_depth g \<ge> FALLBACK_CALL_DEPTH) \<or>
         (current \<ge> stack_low g \<and> current < stack_high g \<and> current - stack_low g \<le> STACK_RESERVE_BYTES)
      then minyar_stop ''the program exceeded the maximum call depth.''
      else Inr (g\<lparr>call_depth := call_depth g + 1\<rparr>))"

definition minyar_stack_leave :: "call_guard \<Rightarrow> string + call_guard" where
  "minyar_stack_leave g =
     (if call_depth g = 0 then minyar_stop ''the runtime detected an unbalanced function return.''
      else Inr (g\<lparr>call_depth := call_depth g - 1\<rparr>))"

text \<open>A run of the program, as far as the guard sees it.\<close>

datatype call_event = Enter nat | Leave

fun call_event_step :: "call_guard \<Rightarrow> call_event \<Rightarrow> string + call_guard" where
  "call_event_step g (Enter current) = minyar_stack_enter current g"
| "call_event_step g Leave = minyar_stack_leave g"

definition run_calls :: "call_guard \<Rightarrow> call_event list \<Rightarrow> string + call_guard" where
  "run_calls = rfold call_event_step"

text \<open>Every return matched by an earlier call, and every call returned from.\<close>

inductive balanced :: "call_event list \<Rightarrow> bool" where
  none: "balanced []"
| call: "balanced es \<Longrightarrow> balanced (Enter c # es @ [Leave])"
| sequence: "balanced es \<Longrightarrow> balanced fs \<Longrightarrow> balanced (es @ fs)"

lemma enter_Inr:
  "minyar_stack_enter c g = Inr g' \<Longrightarrow> g' = g\<lparr>call_depth := call_depth g + 1\<rparr> \<and> call_depth g < MAX_CALL_DEPTH"
  by (auto simp: minyar_stack_enter_def split: if_splits)

lemma leave_Inr: "minyar_stack_leave g = Inr g' \<Longrightarrow> 0 < call_depth g \<and> g' = g\<lparr>call_depth := call_depth g - 1\<rparr>"
  by (auto simp: minyar_stack_leave_def split: if_splits)

lemma balanced_returns: "balanced es \<Longrightarrow> run_calls g es = Inr g' \<Longrightarrow> g' = g"
proof (induction arbitrary: g g' rule: balanced.induct)
  case (call es c)
  then obtain g1 g2 where g: "minyar_stack_enter c g = Inr g1" "run_calls g1 es = Inr g2" "minyar_stack_leave g2 = Inr g'"
    by (auto simp: run_calls_def rfold_append rbind_eq_Inr)
  with call.IH have "g2 = g1" by blast
  with g show ?case by (auto dest!: enter_Inr leave_Inr)
next
  case (sequence es fs)
  then show ?case by (fastforce simp: run_calls_def rfold_append rbind_eq_Inr)
qed (simp add: run_calls_def)

lemma balanced_stop: "balanced es \<Longrightarrow> run_calls g es = Inl m \<Longrightarrow> m = ''the program exceeded the maximum call depth.''"
proof (induction arbitrary: g rule: balanced.induct)
  case (call es c)
  show ?case
  proof (cases "minyar_stack_enter c g")
    case (Inl m')
    with call.prems show ?thesis by (auto simp: run_calls_def minyar_stack_enter_def split: if_splits)
  next
    case (Inr g1)
    have "run_calls g1 es = Inl m \<or> (\<exists>g2. run_calls g1 es = Inr g2 \<and> minyar_stack_leave g2 = Inl m)"
      using call.prems Inr by (auto simp: run_calls_def rfold_append rbind_eq_Inl)
    moreover have "minyar_stack_leave g2 \<noteq> Inl m" if "run_calls g1 es = Inr g2" for g2
      using balanced_returns [OF call.hyps that] Inr by (auto simp: minyar_stack_leave_def dest!: enter_Inr)
    ultimately show ?thesis using call.IH by blast
  qed
next
  case (sequence es fs)
  then show ?case by (fastforce simp: run_calls_def rfold_append rbind_eq_Inl)
qed (simp add: run_calls_def)

lemma run_calls_depth:
  "run_calls g es = Inr g' \<Longrightarrow> call_depth g \<le> MAX_CALL_DEPTH \<Longrightarrow> call_depth g' \<le> MAX_CALL_DEPTH"
proof (induction es arbitrary: g)
  case (Cons e es)
  then obtain g1 where g1: "call_event_step g e = Inr g1" "run_calls g1 es = Inr g'"
    by (auto simp: run_calls_def rbind_eq_Inr)
  have "call_depth g1 \<le> MAX_CALL_DEPTH"
    using g1(1) Cons.prems(2) by (cases e) (auto dest!: enter_Inr leave_Inr)
  with Cons.IH g1(2) show ?case by blast
qed (simp add: run_calls_def)



section \<open>Integer checks\<close>

definition minyar_check_integer_overflow :: "bool \<Rightarrow> string + unit" where
  "minyar_check_integer_overflow overflowed =
     (if overflowed then minyar_stop ''this Integer calculation is outside the supported range.'' else Inr ())"

definition minyar_check_integer_division :: "int \<Rightarrow> int \<Rightarrow> string + unit" where
  "minyar_check_integer_division left right =
     (if right = 0 then minyar_stop ''an Integer cannot be divided by zero.''
      else if left = LLONG_MIN \<and> right = -1
      then minyar_stop ''this Integer division is outside the supported range.''
      else Inr ())"

text \<open>LLVM's \<open>sdiv\<close> and \<open>srem\<close> truncate towards zero; both are undefined where the quotient is.\<close>

definition truncated_quotient :: "int \<Rightarrow> int \<Rightarrow> int" where
  "truncated_quotient l r = sgn l * sgn r * (\<bar>l\<bar> div \<bar>r\<bar>)"

definition representable :: "int \<Rightarrow> bool" where
  "representable i \<longleftrightarrow> LLONG_MIN \<le> i \<and> i \<le> LLONG_MAX"

lemma truncated_quotient_magnitude:
  assumes "r \<noteq> 0" shows "\<bar>truncated_quotient l r\<bar> = \<bar>l\<bar> div \<bar>r\<bar>"
proof (cases "l = 0")
  case False
  have "0 \<le> \<bar>l\<bar> div \<bar>r\<bar>" using assms by (simp add: pos_imp_zdiv_nonneg_iff)
  with False assms show ?thesis by (simp add: truncated_quotient_def abs_mult abs_sgn_eq)
qed (simp add: truncated_quotient_def)

lemma division_shrinks:
  fixes a b :: int
  assumes "0 \<le> a" "2 \<le> b" shows "2 * (a div b) \<le> a"
  using mult_right_mono [OF assms(2), of "a div b"] assms
  by (smt (verit) mult.commute minus_mod_eq_mult_div pos_imp_zdiv_nonneg_iff pos_mod_sign)

text \<open>
  The guard emitted before a division admits exactly the divisions that have a result: for
  two \<open>Integer\<close> operands it passes if and only if the divisor is not zero and the quotient,
  truncated towards zero, is itself an \<open>Integer\<close>.
\<close>

theorem division_guard_exact:
  assumes "representable l" "representable r"
  shows "minyar_check_integer_division l r = Inr () \<longleftrightarrow> r \<noteq> 0 \<and> representable (truncated_quotient l r)"
proof (cases "r = 0 \<or> \<bar>r\<bar> = 1")
  case True
  then consider "r = 0" | "r = 1" | "r = -1" by linarith
  then show ?thesis
    using assms
    by cases (auto simp: minyar_check_integer_division_def minyar_stop_def truncated_quotient_def
      representable_def LLONG_MIN_def LLONG_MAX_def sgn_mult_abs mult.commute abs_mult_sgn split: if_splits)
next
  case False
  then have "r \<noteq> 0" "2 \<le> \<bar>r\<bar>" by linarith+
  then have "2 * \<bar>truncated_quotient l r\<bar> \<le> \<bar>l\<bar>"
    using division_shrinks [of "\<bar>l\<bar>" "\<bar>r\<bar>"] truncated_quotient_magnitude [of r l] by simp
  with assms(1) have "representable (truncated_quotient l r)"
    by (auto simp: representable_def LLONG_MIN_def LLONG_MAX_def)
  with False show ?thesis by (auto simp: minyar_check_integer_division_def)
qed

theorem division_guard_exact_witness:
  "minyar_check_integer_division (-7) 2 = Inr () \<and> representable (truncated_quotient (-7) 2) \<and>
   minyar_check_integer_division LLONG_MIN (-1) \<noteq> Inr () \<and>
   \<not> representable (truncated_quotient LLONG_MIN (-1))"
proof -
  have "minyar_check_integer_division (-7) 2 = Inr () \<longleftrightarrow> (2::int) \<noteq> 0 \<and> representable (truncated_quotient (-7) 2)"
    by (rule division_guard_exact) (simp_all add: representable_def LLONG_MIN_def LLONG_MAX_def)
  moreover have "minyar_check_integer_division LLONG_MIN (-1) \<noteq> Inr ()"
    by (simp add: minyar_check_integer_division_def minyar_stop_def)
  moreover have "minyar_check_integer_division LLONG_MIN (-1) = Inr () \<longleftrightarrow>
      (-1::int) \<noteq> 0 \<and> representable (truncated_quotient LLONG_MIN (-1))"
    by (rule division_guard_exact) (simp_all add: representable_def LLONG_MIN_def LLONG_MAX_def)
  ultimately show ?thesis by (simp add: minyar_check_integer_division_def)
qed

end
