(* ===== verification/Utf8.thy ===== *)
theory Utf8
  imports Guards
begin

unbundle bit_operations_syntax

text \<open>
  The UTF-8 coder of the runtime (\<open>runtime/minyar_runtime.c\<close>: \<open>encode_character\<close> and
  \<open>decode_character\<close>). A C \<open>unsigned char\<close> is an \<open>8 word\<close>; the \<open>int\<close> and \<open>unsigned int\<close> values
  the coder computes stay below \<open>2 ^ 21\<close> and are integers here, with the source's shifts and
  masks. A pointer with its \<open>remaining\<close> count is the list of the remaining bytes.

  The main result is that the decoder accepts exactly the output of the encoder: no
  overlong form, no surrogate and nothing above U+10FFFF is decoded.
\<close>

type_synonym byte = "8 word"

section \<open>The coder\<close>

definition encode_character :: "int \<Rightarrow> string + byte list" where
  "encode_character c =
     (if c < 0 \<or> c > 0x10ffff \<or> (c \<ge> 0xd800 \<and> c \<le> 0xdfff)
      then minyar_stop ''this Character is not valid Unicode.''
      else if c < 0x80 then Inr [word_of_int c]
      else if c < 0x800 then
        Inr [word_of_int (0xc0 OR drop_bit 6 c), word_of_int (0x80 OR (c AND 0x3f))]
      else if c < 0x10000 then
        Inr [word_of_int (0xe0 OR drop_bit 12 c), word_of_int (0x80 OR (drop_bit 6 c AND 0x3f)),
             word_of_int (0x80 OR (c AND 0x3f))]
      else if c \<le> 0x10ffff then
        Inr [word_of_int (0xf0 OR drop_bit 18 c), word_of_int (0x80 OR (drop_bit 12 c AND 0x3f)),
             word_of_int (0x80 OR (drop_bit 6 c AND 0x3f)), word_of_int (0x80 OR (c AND 0x3f))]
      else minyar_stop ''this Character is not valid Unicode.'')"

definition byte_at :: "byte list \<Rightarrow> nat \<Rightarrow> int" where
  "byte_at bytes i = uint (bytes ! i)"

definition invalid_utf8 :: "string + 'a" where
  "invalid_utf8 = minyar_stop ''Text contained invalid UTF-8.''"

definition position_outside_text :: "string + 'a" where
  "position_outside_text = minyar_stop ''a Text position was outside the Text.''"

definition decode_character :: "byte list \<Rightarrow> string + int \<times> nat" where
  "decode_character bytes =
     (let remaining = length bytes; first = byte_at bytes 0 in
      if remaining = 0 then position_outside_text
      else if first < 0x80 then Inr (first, 1)
      else if first \<ge> 0xc2 \<and> first \<le> 0xdf \<and> remaining \<ge> 2 \<and> byte_at bytes 1 AND 0xc0 = 0x80 then
        Inr (push_bit 6 (first AND 0x1f) OR (byte_at bytes 1 AND 0x3f), 2)
      else if first AND 0xf0 = 0xe0 \<and> remaining \<ge> 3 \<and>
          byte_at bytes 1 AND 0xc0 = 0x80 \<and> byte_at bytes 2 AND 0xc0 = 0x80 \<and>
          (first \<noteq> 0xe0 \<or> byte_at bytes 1 \<ge> 0xa0) \<and> (first \<noteq> 0xed \<or> byte_at bytes 1 < 0xa0) then
        Inr (push_bit 12 (first AND 0x0f) OR push_bit 6 (byte_at bytes 1 AND 0x3f) OR
             (byte_at bytes 2 AND 0x3f), 3)
      else if first \<ge> 0xf0 \<and> first \<le> 0xf4 \<and> remaining \<ge> 4 \<and>
          byte_at bytes 1 AND 0xc0 = 0x80 \<and> byte_at bytes 2 AND 0xc0 = 0x80 \<and>
          byte_at bytes 3 AND 0xc0 = 0x80 \<and>
          (first \<noteq> 0xf0 \<or> byte_at bytes 1 \<ge> 0x90) \<and> (first \<noteq> 0xf4 \<or> byte_at bytes 1 < 0x90) then
        Inr (push_bit 18 (first AND 0x07) OR push_bit 12 (byte_at bytes 1 AND 0x3f) OR
             push_bit 6 (byte_at bytes 2 AND 0x3f) OR (byte_at bytes 3 AND 0x3f), 4)
      else invalid_utf8)"

lemma stops_not_Inr [simp]: "invalid_utf8 \<noteq> Inr x" "position_outside_text \<noteq> Inr x"
  by (simp_all add: invalid_utf8_def position_outside_text_def)

section \<open>Masks and shifts as arithmetic\<close>

lemma low_mask:
  fixes x :: int
  shows "x AND 0x3f = x mod 64" "x AND 0x1f = x mod 32" "x AND 0x0f = x mod 16" "x AND 0x07 = x mod 8"
  using take_bit_eq_mask [of 6 x] take_bit_eq_mask [of 5 x] take_bit_eq_mask [of 4 x] take_bit_eq_mask [of 3 x]
  by (simp_all add: take_bit_eq_mod mask_eq_exp_minus_1)

lemma or_shifted:
  fixes x :: int
  assumes "0 \<le> x" "x < 2 ^ n" shows "push_bit n k OR x = k * 2 ^ n + x"
proof -
  have "x = take_bit n x" using assms by (simp add: take_bit_int_eq_self)
  then have "push_bit n k AND x = push_bit n k AND take_bit n x" by simp
  also have "\<dots> = 0" by (rule bit_eqI) (auto simp: bit_simps)
  finally show ?thesis by (simp add: disjunctive_add_eq_or [symmetric] push_bit_eq_mult)
qed

lemma or_marker:
  fixes x :: int
  shows "0 \<le> x \<Longrightarrow> x < 64 \<Longrightarrow> 0x80 OR x = 128 + x" "0 \<le> x \<Longrightarrow> x < 32 \<Longrightarrow> 0xc0 OR x = 192 + x"
    "0 \<le> x \<Longrightarrow> x < 16 \<Longrightarrow> 0xe0 OR x = 224 + x" "0 \<le> x \<Longrightarrow> x < 8 \<Longrightarrow> 0xf0 OR x = 240 + x"
  using or_shifted [of x 6 2] or_shifted [of x 5 6] or_shifted [of x 4 14] or_shifted [of x 3 30]
  by (simp_all add: push_bit_eq_mult)

lemma high_mask:
  fixes x :: int
  assumes "0 \<le> x" "x < 256"
  shows "x AND 0xc0 = 0x80 \<longleftrightarrow> 128 \<le> x \<and> x < 192" "x AND 0xf0 = 0xe0 \<longleftrightarrow> 224 \<le> x \<and> x < 240"
proof -
  have all: "list_all (\<lambda>n. (int n AND 0xc0 = 0x80 \<longleftrightarrow> 128 \<le> n \<and> n < 192) \<and>
      (int n AND 0xf0 = 0xe0 \<longleftrightarrow> 224 \<le> n \<and> n < 240)) [0..<256]"
    by code_simp
  have "nat x \<in> set [0..<256]" using assms by auto
  with all have "(int (nat x) AND 0xc0 = 0x80 \<longleftrightarrow> 128 \<le> nat x \<and> nat x < 192) \<and>
      (int (nat x) AND 0xf0 = 0xe0 \<longleftrightarrow> 224 \<le> nat x \<and> nat x < 240)"
    unfolding list_all_iff by blast
  with assms show "x AND 0xc0 = 0x80 \<longleftrightarrow> 128 \<le> x \<and> x < 192" "x AND 0xf0 = 0xe0 \<longleftrightarrow> 224 \<le> x \<and> x < 240"
    by auto
qed

lemma byte_bounds [simp]: "0 \<le> byte_at bs i" "byte_at bs i < 256"
  using uint_lt_0 [of "bs ! i"] uint_lt2p [of "bs ! i"] by (simp_all add: byte_at_def not_less)

section \<open>The forms of a character\<close>

text \<open>The bytes of a scalar value, by arithmetic on its base-64 digits.\<close>

definition scalar_value :: "int \<Rightarrow> bool" where
  "scalar_value c \<longleftrightarrow> 0 \<le> c \<and> c \<le> 0x10ffff \<and> \<not> (0xd800 \<le> c \<and> c \<le> 0xdfff)"

definition character_form :: "int \<Rightarrow> int list" where
  "character_form c =
     (if c < 0x80 then [c]
      else if c < 0x800 then [192 + c div 64, 128 + c mod 64]
      else if c < 0x10000 then [224 + c div 4096, 128 + c div 64 mod 64, 128 + c mod 64]
      else [240 + c div 262144, 128 + c div 4096 mod 64, 128 + c div 64 mod 64, 128 + c mod 64])"

lemma encode_character_form:
  "encode_character c =
     (if scalar_value c then Inr (map word_of_int (character_form c))
      else minyar_stop ''this Character is not valid Unicode.'')"
proof (cases "scalar_value c")
  case True
  have "c < 2048 \<Longrightarrow> c div 64 < 32" "c < 65536 \<Longrightarrow> c div 4096 < 16" "c \<le> 1114111 \<Longrightarrow> c div 262144 < 8"
    "0 \<le> c div 64" "0 \<le> c div 4096" "0 \<le> c div 262144"
    using True by (auto simp: scalar_value_def)
  with True show ?thesis
    by (auto simp: encode_character_def character_form_def scalar_value_def low_mask drop_bit_eq_div or_marker)
qed (auto simp: encode_character_def scalar_value_def)

lemma lead_digit:
  fixes x :: int
  shows "194 \<le> x \<Longrightarrow> x \<le> 223 \<Longrightarrow> x AND 0x1f = x - 192" "224 \<le> x \<Longrightarrow> x < 240 \<Longrightarrow> x AND 0x0f = x - 224"
    "240 \<le> x \<Longrightarrow> x \<le> 244 \<Longrightarrow> x AND 0x07 = x - 240" "128 \<le> x \<Longrightarrow> x < 192 \<Longrightarrow> x AND 0x3f = x - 128"
  unfolding low_mask by presburger+

lemma form_values:
  fixes w x y z :: int
  assumes "128 \<le> z" "z < 192"
  shows "194 \<le> w \<Longrightarrow> w \<le> 223 \<Longrightarrow>
      push_bit 6 (w AND 0x1f) OR (z AND 0x3f) = (w - 192) * 64 + (z - 128)"
    "224 \<le> w \<Longrightarrow> w < 240 \<Longrightarrow> 128 \<le> y \<Longrightarrow> y < 192 \<Longrightarrow>
      push_bit 12 (w AND 0x0f) OR push_bit 6 (y AND 0x3f) OR (z AND 0x3f) =
      (w - 224) * 4096 + (y - 128) * 64 + (z - 128)"
    "240 \<le> w \<Longrightarrow> w \<le> 244 \<Longrightarrow> 128 \<le> x \<Longrightarrow> x < 192 \<Longrightarrow> 128 \<le> y \<Longrightarrow> y < 192 \<Longrightarrow>
      push_bit 18 (w AND 0x07) OR push_bit 12 (x AND 0x3f) OR push_bit 6 (y AND 0x3f) OR (z AND 0x3f) =
      (w - 240) * 262144 + (x - 128) * 4096 + (y - 128) * 64 + (z - 128)"
  using assms or_shifted [of "z - 128" 6 "w - 192"] or_shifted [of "z - 128" 6 "y - 128"]
    or_shifted [of "(y - 128) * 64 + (z - 128)" 12 "w - 224"]
    or_shifted [of "(y - 128) * 64 + (z - 128)" 12 "x - 128"]
    or_shifted [of "(x - 128) * 4096 + ((y - 128) * 64 + (z - 128))" 18 "w - 240"]
  by (simp_all only: lead_digit or.assoc) simp_all

lemma decode_character_form:
  "decode_character bytes =
     (let b = byte_at bytes in
      if bytes = [] then position_outside_text
      else if b 0 < 128 then Inr (b 0, 1)
      else if 194 \<le> b 0 \<and> b 0 \<le> 223 \<and> 2 \<le> length bytes \<and> 128 \<le> b 1 \<and> b 1 < 192 then
        Inr ((b 0 - 192) * 64 + (b 1 - 128), 2)
      else if 224 \<le> b 0 \<and> b 0 < 240 \<and> 3 \<le> length bytes \<and> 128 \<le> b 1 \<and> b 1 < 192 \<and>
          128 \<le> b 2 \<and> b 2 < 192 \<and> (b 0 \<noteq> 224 \<or> b 1 \<ge> 160) \<and> (b 0 \<noteq> 237 \<or> b 1 < 160) then
        Inr ((b 0 - 224) * 4096 + (b 1 - 128) * 64 + (b 2 - 128), 3)
      else if 240 \<le> b 0 \<and> b 0 \<le> 244 \<and> 4 \<le> length bytes \<and> 128 \<le> b 1 \<and> b 1 < 192 \<and>
          128 \<le> b 2 \<and> b 2 < 192 \<and> 128 \<le> b 3 \<and> b 3 < 192 \<and>
          (b 0 \<noteq> 240 \<or> b 1 \<ge> 144) \<and> (b 0 \<noteq> 244 \<or> b 1 < 144) then
        Inr ((b 0 - 240) * 262144 + (b 1 - 128) * 4096 + (b 2 - 128) * 64 + (b 3 - 128), 4)
      else invalid_utf8)"
  unfolding decode_character_def Let_def high_mask [OF byte_bounds] length_0_conv
  by (simp only: form_values conj_assoc cong: if_cong)

lemma character_form_bytes:
  assumes "scalar_value c" "i < length (character_form c)"
  shows "byte_at (map word_of_int (character_form c) @ rest) i = character_form c ! i"
proof -
  have "\<forall>v \<in> set (character_form c). 0 \<le> v \<and> v < 256"
    using assms(1) by (auto simp: character_form_def scalar_value_def)
  then have "0 \<le> character_form c ! i" "character_form c ! i < 256" using assms(2) by simp_all
  then show ?thesis using assms(2) by (simp add: byte_at_def nth_append uint_word_of_int)
qed

text \<open>The base-64 digits of a scalar value in each of the three multi-byte ranges.\<close>

lemma two_byte_digits:
  assumes "128 \<le> c" "c < 2048"
  obtains q r where "character_form c = [192 + q, 128 + r]" "c = q * 64 + r" "2 \<le> q" "q < 32" "0 \<le> r" "r < 64"
proof
  show "character_form c = [192 + c div 64, 128 + c mod 64]" using assms by (simp add: character_form_def)
qed (use assms in auto)

lemma nested_digits:
  fixes c :: int
  obtains a a' a'' r r' r'' where "c div 64 = a" "c mod 64 = r" "c div 4096 = a'" "a mod 64 = r'"
    "c div 262144 = a''" "a' mod 64 = r''" "c = 64 * a + r" "a = 64 * a' + r'" "a' = 64 * a'' + r''"
    "0 \<le> r" "r < 64" "0 \<le> r'" "r' < 64" "0 \<le> r''" "r'' < 64"
proof -
  have "c div 4096 = c div 64 div 64" "c div 262144 = c div 64 div 64 div 64"
    by (simp_all add: zdiv_zmult2_eq [symmetric])
  then show ?thesis
    by (intro that [of "c div 64" "c mod 64" "c div 64 div 64" "c div 64 mod 64" "c div 64 div 64 div 64"
          "c div 64 div 64 mod 64"]) simp_all
qed

lemma three_byte_digits:
  assumes "scalar_value c" "2048 \<le> c" "c < 65536"
  obtains q r r' where "character_form c = [224 + q, 128 + r, 128 + r']" "c = q * 4096 + r * 64 + r'"
    "0 \<le> q" "q < 16" "0 \<le> r" "r < 64" "0 \<le> r'" "r' < 64" "q = 0 \<longrightarrow> 32 \<le> r" "q = 13 \<longrightarrow> r < 32"
proof -
  obtain a a' r r' where d: "c div 64 = a" "c mod 64 = r" "c div 4096 = a'" "a mod 64 = r'"
    "c = 64 * a + r" "a = 64 * a' + r'" "0 \<le> r" "r < 64" "0 \<le> r'" "r' < 64"
    by (rule nested_digits)
  have "character_form c = [224 + a', 128 + r', 128 + r]"
    using assms by (simp add: character_form_def d(1-4))
  moreover have "c = a' * 4096 + r' * 64 + r" using d(5,6) by simp
  moreover from this have "0 \<le> a'" "a' < 16" "a' = 0 \<longrightarrow> 32 \<le> r'" "a' = 13 \<longrightarrow> r' < 32"
    using assms d(7-) by (auto simp: scalar_value_def)
  ultimately show ?thesis using that d(7-) by blast
qed

lemma four_byte_digits:
  assumes "scalar_value c" "65536 \<le> c"
  obtains q r r' r'' where "character_form c = [240 + q, 128 + r, 128 + r', 128 + r'']"
    "c = q * 262144 + r * 4096 + r' * 64 + r''" "0 \<le> q" "q < 5" "0 \<le> r" "r < 64" "0 \<le> r'" "r' < 64"
    "0 \<le> r''" "r'' < 64" "q = 0 \<longrightarrow> 16 \<le> r" "q = 4 \<longrightarrow> r < 16"
proof -
  obtain a a' a'' r r' r'' where d: "c div 64 = a" "c mod 64 = r" "c div 4096 = a'" "a mod 64 = r'"
    "c div 262144 = a''" "a' mod 64 = r''" "c = 64 * a + r" "a = 64 * a' + r'" "a' = 64 * a'' + r''"
    "0 \<le> r" "r < 64" "0 \<le> r'" "r' < 64" "0 \<le> r''" "r'' < 64"
    by (rule nested_digits)
  have "character_form c = [240 + a'', 128 + r'', 128 + r', 128 + r]"
    using assms by (simp add: character_form_def d(1-6))
  moreover have "c = a'' * 262144 + r'' * 4096 + r' * 64 + r" using d(7-9) by simp
  moreover from this have "0 \<le> a''" "a'' < 5" "a'' = 0 \<longrightarrow> 16 \<le> r''" "a'' = 4 \<longrightarrow> r'' < 16"
    using assms d(10-) by (auto simp: scalar_value_def)
  ultimately show ?thesis using that d(10-) by blast
qed

lemma decode_character_encoded:
  assumes "encode_character c = Inr form"
  shows "decode_character (form @ rest) = Inr (c, length form)"
proof -
  have c: "scalar_value c" and form: "form = map word_of_int (character_form c)"
    using assms by (auto simp: encode_character_form split: if_splits)
  note at = character_form_bytes [OF c, of _ rest, folded form]
  consider "c < 128" | "128 \<le> c" "c < 2048" | "2048 \<le> c" "c < 65536" | "65536 \<le> c" by linarith
  then show ?thesis
  proof cases
    case 1
    then show ?thesis using at [of 0] by (simp add: decode_character_form form character_form_def Let_def)
  next
    case 2
    from two_byte_digits [OF this] obtain q r where d: "character_form c = [192 + q, 128 + r]" "c = q * 64 + r"
      "2 \<le> q" "q < 32" "0 \<le> r" "r < 64" .
    have "form \<noteq> []" "length form = 2" "byte_at (form @ rest) 0 = 192 + q" "byte_at (form @ rest) 1 = 128 + r"
      using at [of 0] at [of 1] by (simp_all add: d(1) form)
    with d(2-) show ?thesis by (simp add: decode_character_form Let_def)
  next
    case 3
    from three_byte_digits [OF c this] obtain q r r' where d: "character_form c = [224 + q, 128 + r, 128 + r']"
      "c = q * 4096 + r * 64 + r'" "0 \<le> q" "q < 16" "0 \<le> r" "r < 64" "0 \<le> r'" "r' < 64"
      "q = 0 \<longrightarrow> 32 \<le> r" "q = 13 \<longrightarrow> r < 32" .
    have "form \<noteq> []" "length form = 3" "byte_at (form @ rest) 0 = 224 + q" "byte_at (form @ rest) 1 = 128 + r"
      "byte_at (form @ rest) 2 = 128 + r'"
      using at [of 0] at [of 1] at [of 2] by (simp_all add: d(1) form)
    with d(2-) show ?thesis by (simp add: decode_character_form Let_def)
  next
    case 4
    from four_byte_digits [OF c this] obtain q r r' r'' where d:
      "character_form c = [240 + q, 128 + r, 128 + r', 128 + r'']"
      "c = q * 262144 + r * 4096 + r' * 64 + r''" "0 \<le> q" "q < 5" "0 \<le> r" "r < 64" "0 \<le> r'" "r' < 64"
      "0 \<le> r''" "r'' < 64" "q = 0 \<longrightarrow> 16 \<le> r" "q = 4 \<longrightarrow> r < 16" .
    have "form \<noteq> []" "length form = 4" "byte_at (form @ rest) 0 = 240 + q" "byte_at (form @ rest) 1 = 128 + r"
      "byte_at (form @ rest) 2 = 128 + r'" "byte_at (form @ rest) 3 = 128 + r''"
      using at [of 0] at [of 1] at [of 2] at [of 3] by (simp_all add: d(1) form)
    with d(2-) show ?thesis by (simp add: decode_character_form Let_def)
  qed
qed

lemma character_form_digits:
  fixes q r r' r'' :: int
  assumes "0 \<le> r" "r < 64" "0 \<le> r'" "r' < 64" "0 \<le> r''" "r'' < 64"
  shows "2 \<le> q \<Longrightarrow> q < 32 \<Longrightarrow> character_form (q * 64 + r) = [192 + q, 128 + r]"
    "0 \<le> q \<Longrightarrow> q < 16 \<Longrightarrow> (q = 0 \<longrightarrow> 32 \<le> r) \<Longrightarrow>
      character_form (q * 4096 + r * 64 + r') = [224 + q, 128 + r, 128 + r']"
    "0 \<le> q \<Longrightarrow> (q = 0 \<longrightarrow> 16 \<le> r) \<Longrightarrow>
      character_form (q * 262144 + r * 4096 + r' * 64 + r'') = [240 + q, 128 + r, 128 + r', 128 + r'']"
proof -
  have digit: "(x * 64 + y) div 64 = x" "(x * 64 + y) mod 64 = y" if "0 \<le> y" "y < 64" for x y :: int
    using that by simp_all
  have nest: "c div 4096 = c div 64 div 64" "c div 262144 = c div 64 div 64 div 64" for c :: int
    by (simp_all add: zdiv_zmult2_eq [symmetric])
  show "2 \<le> q \<Longrightarrow> q < 32 \<Longrightarrow> character_form (q * 64 + r) = [192 + q, 128 + r]"
    using assms by (simp add: character_form_def)
  show "character_form (q * 4096 + r * 64 + r') = [224 + q, 128 + r, 128 + r']"
    if "0 \<le> q" "q < 16" "q = 0 \<longrightarrow> 32 \<le> r"
  proof -
    have c: "q * 4096 + r * 64 + r' = (q * 64 + r) * 64 + r'" by simp
    have "2048 \<le> q * 4096 + r * 64 + r'" using that assms by (cases "q = 0") simp_all
    moreover have "q * 4096 + r * 64 + r' < 65536" using that assms by simp
    ultimately show ?thesis unfolding c using assms by (simp only: character_form_def nest digit) simp
  qed
  show "character_form (q * 262144 + r * 4096 + r' * 64 + r'') = [240 + q, 128 + r, 128 + r', 128 + r'']"
    if "0 \<le> q" "q = 0 \<longrightarrow> 16 \<le> r"
  proof -
    have c: "q * 262144 + r * 4096 + r' * 64 + r'' = ((q * 64 + r) * 64 + r') * 64 + r''" by simp
    have "65536 \<le> q * 262144 + r * 4096 + r' * 64 + r''" using that assms by (cases "q = 0") simp_all
    then show ?thesis unfolding c using assms by (simp only: character_form_def nest digit) simp
  qed
qed

lemma three_byte_scalar:
  assumes "x \<noteq> 237 \<or> y < 160" "224 \<le> x" "x < 240" "128 \<le> y" "y < 192" "128 \<le> z" "z < 192"
  shows "scalar_value ((x - 224) * 4096 + (y - 128) * 64 + (z - 128))"
proof -
  consider "x \<le> 236" | "x = 237" | "238 \<le> x" by linarith
  then show ?thesis using assms by cases (auto simp: scalar_value_def)
qed

lemma four_byte_scalar:
  assumes "u \<noteq> 240 \<or> 144 \<le> x" "u \<noteq> 244 \<or> x < 144" "240 \<le> u" "u \<le> 244" "128 \<le> x" "x < 192"
    "128 \<le> y" "y < 192" "128 \<le> z" "z < 192"
  shows "scalar_value ((u - 240) * 262144 + (x - 128) * 4096 + (y - 128) * 64 + (z - 128))"
proof -
  consider "u = 240" | "241 \<le> u" "u \<le> 243" | "u = 244" using assms(3,4) by linarith
  then show ?thesis using assms by cases (auto simp: scalar_value_def)
qed

lemma if_chain:
  assumes "(if a then s else if p1 then Inr x1 else if p2 then Inr x2 else if p3 then Inr x3
      else if p4 then Inr x4 else s') = Inr z" "s \<noteq> Inr z" "s' \<noteq> Inr z"
  shows "\<not> a \<and> p1 \<and> z = x1 \<or> p2 \<and> z = x2 \<or> p3 \<and> z = x3 \<or> p4 \<and> z = x4"
  using assms by (auto split: if_splits)

lemma encode_character_decoded:
  assumes "decode_character bytes = Inr (c, w)"
  shows "encode_character c = Inr (take w bytes) \<and> w \<le> length bytes \<and> 1 \<le> w \<and> w \<le> 4"
proof -
  have byte: "word_of_int (byte_at bytes i) = bytes ! i" for i by (simp add: byte_at_def)
  have taken: "w \<le> length bytes \<Longrightarrow> take w bytes = map (\<lambda>i. bytes ! i) [0..<w]" for w
    by (rule nth_equalityI) simp_all
  have four: "[0..<1] = [0::nat]" "[0..<2] = [0, 1::nat]" "[0..<3] = [0, 1, 2::nat]" "[0..<4] = [0, 1, 2, 3::nat]"
    by (simp_all add: upt_rec)
  let ?b = "byte_at bytes"
  consider "bytes \<noteq> []" "?b 0 < 128" "c = ?b 0" "w = 1"
    | "194 \<le> ?b 0" "?b 0 \<le> 223" "2 \<le> length bytes" "128 \<le> ?b 1" "?b 1 < 192"
      "c = (?b 0 - 192) * 64 + (?b 1 - 128)" "w = 2"
    | "224 \<le> ?b 0" "?b 0 < 240" "3 \<le> length bytes" "128 \<le> ?b 1" "?b 1 < 192" "128 \<le> ?b 2" "?b 2 < 192"
      "?b 0 \<noteq> 224 \<or> ?b 1 \<ge> 160" "?b 0 \<noteq> 237 \<or> ?b 1 < 160"
      "c = (?b 0 - 224) * 4096 + (?b 1 - 128) * 64 + (?b 2 - 128)" "w = 3"
    | "240 \<le> ?b 0" "?b 0 \<le> 244" "4 \<le> length bytes" "128 \<le> ?b 1" "?b 1 < 192" "128 \<le> ?b 2" "?b 2 < 192"
      "128 \<le> ?b 3" "?b 3 < 192" "?b 0 \<noteq> 240 \<or> ?b 1 \<ge> 144" "?b 0 \<noteq> 244 \<or> ?b 1 < 144"
      "c = (?b 0 - 240) * 262144 + (?b 1 - 128) * 4096 + (?b 2 - 128) * 64 + (?b 3 - 128)" "w = 4"
    using if_chain [OF assms [unfolded decode_character_form Let_def] stops_not_Inr(2) stops_not_Inr(1)]
    by (elim disjE conjE Pair_inject) blast+
  then show ?thesis
  proof cases
    case 1
    then have "1 \<le> length bytes" by (cases bytes) simp_all
    with 1 show ?thesis
      by (simp add: encode_character_form scalar_value_def character_form_def taken four byte)
  next
    case 2
    then have "scalar_value c" "character_form c = [?b 0, ?b 1]"
      using character_form_digits(1) [of "?b 1 - 128" 0 0 "?b 0 - 192"] by (simp_all add: scalar_value_def)
    with 2 show ?thesis by (simp add: encode_character_form taken four byte [simplified])
  next
    case 3
    then have "scalar_value c" using three_byte_scalar [of "?b 0" "?b 1" "?b 2"] by simp
    moreover have "character_form c = [?b 0, ?b 1, ?b 2]"
      using character_form_digits(2) [of "?b 1 - 128" "?b 2 - 128" 0 "?b 0 - 224"] 3 by auto
    ultimately show ?thesis using 3 by (simp add: encode_character_form taken four byte [simplified])
  next
    case 4
    then have "scalar_value c" using four_byte_scalar [of "?b 0" "?b 1" "?b 2" "?b 3"] by simp
    moreover have "character_form c = [?b 0, ?b 1, ?b 2, ?b 3]"
      using character_form_digits(3) [of "?b 1 - 128" "?b 2 - 128" "?b 3 - 128" "?b 0 - 240"] 4 by auto
    ultimately show ?thesis using 4 by (simp add: encode_character_form taken four byte [simplified])
  qed
qed

section \<open>Properties\<close>

text \<open>
  C12. The decoder accepts exactly what the encoder produces: decoding a byte sequence yields the
  character \<open>c\<close> and the width \<open>w\<close> if and only if the first \<open>w\<close> bytes are the encoding of \<open>c\<close>.
  In particular the pair is a round trip in both directions, and overlong forms, surrogates
  and values above U+10FFFF are never decoded.
\<close>

theorem decode_accepts_encodings:
  "decode_character bytes = Inr (c, w) \<longleftrightarrow>
     (\<exists>form rest. encode_character c = Inr form \<and> bytes = form @ rest \<and> w = length form)"
proof
  assume "decode_character bytes = Inr (c, w)"
  from encode_character_decoded [OF this]
  have "encode_character c = Inr (take w bytes) \<and> bytes = take w bytes @ drop w bytes \<and> w = length (take w bytes)"
    by simp
  then show "\<exists>form rest. encode_character c = Inr form \<and> bytes = form @ rest \<and> w = length form" by blast
qed (auto intro: decode_character_encoded)

end
