(* ===== verification/Bytes.thy ===== *)
theory Bytes
  imports Utf8
begin

text \<open>
  The byte-level helpers of the runtime (\<open>runtime/minyar_runtime.c\<close>: \<open>copy_bytes\<close> and
  \<open>bytes_are_equal\<close>). Short pieces are copied and compared through fixed-width loads that
  overlap in the middle; the model keeps those loads as words, so that the proofs show the
  overlapping accesses cover the piece exactly, stay inside it, and leave the rest of the
  target alone. A pointer is a list with an offset.
\<close>

section \<open>Fixed-width loads and stores\<close>

text \<open>\<open>memcpy\<close> of a byte range into an integer variable (little-endian hosts) and back.\<close>

fun load_bytes :: "byte list \<Rightarrow> 'w::len word" where
  "load_bytes [] = 0"
| "load_bytes (b # bs) = ucast b OR push_bit 8 (load_bytes bs)"

definition store_bytes :: "nat \<Rightarrow> 'w::len word \<Rightarrow> byte list" where
  "store_bytes n w = map (\<lambda>i. ucast (drop_bit (8 * i) w)) [0..<n]"

definition bytes_from :: "byte list \<Rightarrow> nat \<Rightarrow> nat \<Rightarrow> byte list" where
  "bytes_from memory offset n = take n (drop offset memory)"

definition write_at :: "byte list \<Rightarrow> nat \<Rightarrow> byte list \<Rightarrow> byte list" where
  "write_at memory offset bs = take offset memory @ bs @ drop (offset + length bs) memory"

lemma length_bytes_from [simp]: "length (bytes_from m k n) = min n (length m - k)"
  by (simp add: bytes_from_def)

lemma length_store_bytes [simp]: "length (store_bytes n w) = n"
  by (simp add: store_bytes_def)

lemma length_write_at [simp]: "k + length bs \<le> length m \<Longrightarrow> length (write_at m k bs) = length m"
  by (simp add: write_at_def)

lemma nth_write_at:
  assumes "k + length bs \<le> length m" "i < length m"
  shows "write_at m k bs ! i = (if k \<le> i \<and> i < k + length bs then bs ! (i - k) else m ! i)"
  using assms by (auto simp: write_at_def nth_append min_def)

lemma length_bytes_from_fits: "k + n \<le> length m \<Longrightarrow> length (bytes_from m k n) = n"
  by simp

lemma nth_bytes_from: "k + n \<le> length m \<Longrightarrow> i < n \<Longrightarrow> bytes_from m k n ! i = m ! (k + i)"
  by (simp add: bytes_from_def)

lemma bit_load_bytes:
  "bit (load_bytes bs :: 'w::len word) k \<longleftrightarrow>
     k < LENGTH('w) \<and> k div 8 < length bs \<and> bit (bs ! (k div 8)) (k mod 8)"
proof (induction bs arbitrary: k)
  case (Cons b bs)
  show ?case
  proof (cases "k < 8")
    case True
    then show ?thesis by (auto simp: bit_simps)
  next
    case False
    then have "k div 8 = Suc ((k - 8) div 8)" "k mod 8 = (k - 8) mod 8"
      by (simp_all add: div_if mod_if)
    moreover have "\<not> bit b k" using False bit_imp_le_length [of b k] by auto
    ultimately show ?thesis using False Cons.IH [of "k - 8"] by (auto simp: bit_simps)
  qed
qed simp

lemma store_load:
  assumes "8 * length bs \<le> LENGTH('w::len)"
  shows "store_bytes (length bs) (load_bytes bs :: 'w word) = bs"
proof (rule nth_equalityI)
  fix i assume "i < length (store_bytes (length bs) (load_bytes bs :: 'w word))"
  then have i: "i < length bs" by simp
  have "bit (ucast (drop_bit (8 * i) (load_bytes bs :: 'w word)) :: byte) k = bit (bs ! i) k" if "k < 8" for k
  proof -
    have "(8 * i + k) div 8 = i" "(8 * i + k) mod 8 = k" "8 * i + k < LENGTH('w)"
      using that i assms by auto
    then show ?thesis using i that by (simp add: bit_simps bit_load_bytes)
  qed
  then have "(ucast (drop_bit (8 * i) (load_bytes bs :: 'w word)) :: byte) = bs ! i"
    by (intro bit_word_eqI) simp
  then show "store_bytes (length bs) (load_bytes bs :: 'w word) ! i = bs ! i"
    using i by (simp add: store_bytes_def)
qed simp

lemma load_inject:
  assumes "length bs = length bs'" "8 * length bs \<le> LENGTH('w::len)"
  shows "(load_bytes bs :: 'w word) = load_bytes bs' \<longleftrightarrow> bs = bs'"
  using store_load [where 'w='w, of bs] store_load [where 'w='w, of bs'] assms by metis

section \<open>Copying\<close>

text \<open>\<open>copy_bytes(target, source, length)\<close>; the target pointer is \<open>offset\<close> bytes into \<open>memory\<close>.\<close>

definition copy_bytes :: "byte list \<Rightarrow> nat \<Rightarrow> byte list \<Rightarrow> nat \<Rightarrow> byte list" where
  "copy_bytes memory offset source n =
     (if n > 16 then write_at memory offset (bytes_from source 0 n)
      else if n \<ge> 8 then
        (let head = load_bytes (bytes_from source 0 8) :: 64 word;
             tail = load_bytes (bytes_from source (n - 8) 8) :: 64 word in
         write_at (write_at memory offset (store_bytes 8 head)) (offset + (n - 8)) (store_bytes 8 tail))
      else if n \<ge> 4 then
        (let head = load_bytes (bytes_from source 0 4) :: 32 word;
             tail = load_bytes (bytes_from source (n - 4) 4) :: 32 word in
         write_at (write_at memory offset (store_bytes 4 head)) (offset + (n - 4)) (store_bytes 4 tail))
      else if n \<ge> 2 then
        (let head = load_bytes (bytes_from source 0 2) :: 16 word;
             tail = load_bytes (bytes_from source (n - 2) 2) :: 16 word in
         write_at (write_at memory offset (store_bytes 2 head)) (offset + (n - 2)) (store_bytes 2 tail))
      else if n = 1 then memory[offset := source ! 0]
      else memory)"

lemma overlapping_writes:
  assumes "d \<le> k" "d + k \<le> length source" "offset + (d + k) \<le> length memory"
  shows "write_at (write_at memory offset (bytes_from source 0 k)) (offset + d) (bytes_from source d k) =
    write_at memory offset (take (d + k) source)"
  (is "?left = ?right")
proof (rule nth_equalityI)
  have head: "length (bytes_from source 0 k) = k" and tail: "length (bytes_from source d k) = k"
    using assms by simp_all
  then have len: "length ?left = length memory" "length ?right = length memory" using assms by simp_all
  then show "length ?left = length ?right" by simp
  fix i assume "i < length ?left"
  then have i: "i < length memory" by (simp add: len)
  consider "i < offset" | "offset \<le> i" "i < offset + d" | "offset + d \<le> i" "i < offset + (d + k)"
    | "offset + (d + k) \<le> i" by linarith
  then show "?left ! i = ?right ! i"
    using i assms head tail by cases (simp_all add: nth_write_at nth_bytes_from)
qed

lemma copied_through:
  assumes "8 * k = LENGTH('w::len)" "k \<le> n" "n \<le> 2 * k" "n \<le> length source" "offset + n \<le> length memory"
  shows "write_at (write_at memory offset (store_bytes k (load_bytes (bytes_from source 0 k) :: 'w word)))
      (offset + (n - k)) (store_bytes k (load_bytes (bytes_from source (n - k) k) :: 'w word)) =
    write_at memory offset (take n source)"
proof -
  have "store_bytes k (load_bytes (bytes_from source j k) :: 'w word) = bytes_from source j k"
    if "j + k \<le> length source" for j
    using store_load [where 'w='w, of "bytes_from source j k"] length_bytes_from_fits [OF that] assms(1) by simp
  then show ?thesis using overlapping_writes [of "n - k" k source offset memory] assms by simp
qed

lemma copy_bytes_plain:
  assumes "n \<le> length source" "offset + n \<le> length memory"
  shows "copy_bytes memory offset source n = write_at memory offset (take n source)"
proof -
  consider "n > 16" | "n \<le> 16" "n \<ge> 8" | "n < 8" "n \<ge> 4" | "n < 4" "n \<ge> 2" | "n = 1" | "n = 0" by linarith
  then show ?thesis
  proof cases
    case 5
    then show ?thesis using assms
      by (cases source) (auto simp: copy_bytes_def write_at_def upd_conv_take_nth_drop)
  qed (use assms copied_through [where 'w=64, of 8 n source offset memory]
      copied_through [where 'w=32, of 4 n source offset memory]
      copied_through [where 'w=16, of 2 n source offset memory]
      in \<open>auto simp: copy_bytes_def bytes_from_def Let_def write_at_def\<close>)
qed

text \<open>
  C13. Copying through overlapping fixed-width loads is a plain copy: whenever source and target
  hold \<open>n\<close> bytes, \<open>copy_bytes\<close> replaces exactly the \<open>n\<close> target bytes by the first \<open>n\<close> source
  bytes, for every \<open>n\<close>, and no byte outside them changes.
\<close>

theorem copy_bytes_exact:
  assumes "n \<le> length source" "offset + n \<le> length memory"
  shows "copy_bytes memory offset source n = take offset memory @ take n source @ drop (offset + n) memory"
  using copy_bytes_plain [OF assms] assms(1) by (simp add: write_at_def)

theorem copy_bytes_exact_witness:
  "copy_bytes [9, 9, 9, 9, 9, 9, 9] 1 [1, 2, 3, 4, 5] 5 = [9, 1, 2, 3, 4, 5, 9]"
  using copy_bytes_exact [of 5 "[1, 2, 3, 4, 5]" 1 "[9, 9, 9, 9, 9, 9, 9]"] by simp

section \<open>Comparing\<close>

text \<open>\<open>memcmp\<close> on more than sixteen bytes; shorter pieces as two overlapping words.\<close>

definition bytes_are_equal :: "byte list \<Rightarrow> byte list \<Rightarrow> nat \<Rightarrow> bool" where
  "bytes_are_equal left right n =
     (if n > 16 then bytes_from left 0 n = bytes_from right 0 n
      else if n \<ge> 8 then
        (let a = load_bytes (bytes_from left 0 8) :: 64 word; b = load_bytes (bytes_from right 0 8) :: 64 word;
             c = load_bytes (bytes_from left (n - 8) 8) :: 64 word;
             d = load_bytes (bytes_from right (n - 8) 8) :: 64 word in a = b \<and> c = d)
      else if n \<ge> 4 then
        (let a = load_bytes (bytes_from left 0 4) :: 32 word; b = load_bytes (bytes_from right 0 4) :: 32 word;
             c = load_bytes (bytes_from left (n - 4) 4) :: 32 word;
             d = load_bytes (bytes_from right (n - 4) 4) :: 32 word in a = b \<and> c = d)
      else if n \<ge> 2 then
        (let a = load_bytes (bytes_from left 0 2) :: 16 word; b = load_bytes (bytes_from right 0 2) :: 16 word;
             c = load_bytes (bytes_from left (n - 2) 2) :: 16 word;
             d = load_bytes (bytes_from right (n - 2) 2) :: 16 word in a = b \<and> c = d)
      else n = 0 \<or> left ! 0 = right ! 0)"

lemma overlapping_equal:
  assumes "d \<le> k" "d + k \<le> length left" "d + k \<le> length right"
  shows "bytes_from left 0 k = bytes_from right 0 k \<and> bytes_from left d k = bytes_from right d k \<longleftrightarrow>
    take (d + k) left = take (d + k) right"
proof -
  have "take (d + k) xs = take d (bytes_from xs 0 k) @ bytes_from xs d k" for xs :: "byte list"
    using assms(1) by (simp add: bytes_from_def take_add min_def)
  moreover have "bytes_from xs 0 k = take k (take (d + k) xs)" "bytes_from xs d k = drop d (take (d + k) xs)"
    for xs :: "byte list"
    by (simp_all add: bytes_from_def drop_take)
  ultimately show ?thesis by metis
qed

lemma compared_through:
  assumes "8 * k = LENGTH('w::len)" "k \<le> n" "n \<le> 2 * k" "n \<le> length left" "n \<le> length right"
  shows "(load_bytes (bytes_from left 0 k) :: 'w word) = load_bytes (bytes_from right 0 k) \<and>
      (load_bytes (bytes_from left (n - k) k) :: 'w word) = load_bytes (bytes_from right (n - k) k) \<longleftrightarrow>
    take n left = take n right"
proof -
  have "(load_bytes (bytes_from left j k) :: 'w word) = load_bytes (bytes_from right j k) \<longleftrightarrow>
      bytes_from left j k = bytes_from right j k" if "j + k \<le> n" for j
    using that assms by (intro load_inject) auto
  then show ?thesis using overlapping_equal [of "n - k" k left right] assms by simp
qed

lemma bytes_are_equal_plain:
  assumes "n \<le> length left" "n \<le> length right"
  shows "bytes_are_equal left right n \<longleftrightarrow> take n left = take n right"
proof -
  consider "n > 16" | "n \<le> 16" "n \<ge> 8" | "n < 8" "n \<ge> 4" | "n < 4" "n \<ge> 2" | "n = 1" | "n = 0" by linarith
  then show ?thesis
  proof cases
    case 5
    then show ?thesis using assms by (cases left; cases right) (auto simp: bytes_are_equal_def)
  qed (use assms compared_through [where 'w=64, of 8 n left right]
      compared_through [where 'w=32, of 4 n left right] compared_through [where 'w=16, of 2 n left right]
      in \<open>auto simp: bytes_are_equal_def bytes_from_def Let_def\<close>)
qed

text \<open>
  Comparing through overlapping fixed-width loads decides equality of the two byte ranges,
  whatever their length.
\<close>

theorem bytes_are_equal_exact:
  assumes "n \<le> length left" "n \<le> length right"
  shows "bytes_are_equal left right n \<longleftrightarrow> (\<forall>i<n. left ! i = right ! i)"
  unfolding bytes_are_equal_plain [OF assms] using assms by (auto simp: list_eq_iff_nth_eq)

theorem bytes_are_equal_exact_witness:
  "bytes_are_equal [1, 2, 3, 4, 5, 6] [1, 2, 3, 4, 5, 7] 5 \<and> \<not> bytes_are_equal [1, 2, 3, 4, 5, 6] [1, 2, 3, 4, 5, 7] 6"
proof -
  have "bytes_are_equal [1, 2, 3, 4, 5, 6] [1, 2, 3, 4, 5, 7] 5"
    using bytes_are_equal_exact [of 5 "[1, 2, 3, 4, 5, 6]" "[1, 2, 3, 4, 5, 7]"]
    by (auto simp: less_Suc_eq numeral_eq_Suc)
  moreover have "\<not> (\<forall>i<6. [1, 2, 3, 4, 5, 6 :: byte] ! i = [1, 2, 3, 4, 5, 7] ! i)"
    by (auto intro!: exI [of _ 5])
  then have "\<not> bytes_are_equal [1, 2, 3, 4, 5, 6] [1, 2, 3, 4, 5, 7] 6"
    using bytes_are_equal_exact [of 6 "[1, 2, 3, 4, 5, 6]" "[1, 2, 3, 4, 5, 7]"] by simp
  ultimately show ?thesis by blast
qed

end
