(* ===== verification/Text.thy ===== *)
theory Text
  imports Bytes
begin

text \<open>
  The \<open>Text\<close> values of the runtime (\<open>runtime/minyar_runtime.c\<close>, the reference-counted
  configuration): UTF-8 bytes with a lazily built index. The index keeps the byte position of
  every 64th character and a one-entry cursor; a \<open>Text\<close> whose characters are all ASCII needs
  none. Operations that may build the index or move the cursor return the updated \<open>Text\<close>.

  The reference is the list of characters the bytes spell. The theorems show that length,
  character access and slicing give the answers of that list on every state the index can be
  in, and stop with the documented message otherwise.

  An allocation is taken to succeed (\<open>out_of_memory\<close> is a property of the host, not of the
  arguments); memory it returns is overwritten before it is read, and the model starts it at zero.
\<close>

section \<open>Representation\<close>

text \<open>\<open>backing_length\<close> is the byte length of the \<open>Text\<close> a view shares its bytes with.\<close>

record minyar_text =
  bytes :: "byte list"
  character_length :: int
  character_offsets :: "nat list option"
  backing_length :: "nat option"

definition new_text :: "byte list \<Rightarrow> int \<Rightarrow> minyar_text" where
  "new_text bs n = \<lparr>bytes = bs, character_length = n, character_offsets = None, backing_length = None\<rparr>"

definition byte_length :: "minyar_text \<Rightarrow> nat" where
  "byte_length text = length (bytes text)"

abbreviation TEXT_INDEX_STRIDE :: nat where "TEXT_INDEX_STRIDE \<equiv> 64"
abbreviation UINT32_MAX :: nat where "UINT32_MAX \<equiv> 0xffffffff"
abbreviation SIZE_MAX :: nat where "SIZE_MAX \<equiv> 0xffffffffffffffff"

section \<open>The index\<close>

definition text_index_load :: "minyar_text \<Rightarrow> nat \<Rightarrow> nat" where
  "text_index_load text entry = the (character_offsets text) ! entry"

text \<open>Entries are \<open>uint32_t\<close> when the byte length fits, \<open>long long\<close> otherwise.\<close>

definition index_entry :: "minyar_text \<Rightarrow> nat \<Rightarrow> nat" where
  "index_entry text v = (if byte_length text \<le> UINT32_MAX then v mod 2 ^ 32 else v)"

definition text_index_store :: "minyar_text \<Rightarrow> nat \<Rightarrow> nat \<Rightarrow> minyar_text" where
  "text_index_store text entry v =
     text\<lparr>character_offsets := Some ((the (character_offsets text))[entry := index_entry text v])\<rparr>"

definition text_index_breadcrumbs :: "minyar_text \<Rightarrow> nat" where
  "text_index_breadcrumbs text = nat (character_length text) div TEXT_INDEX_STRIDE + 1"

text \<open>The three loops that count characters: eight ASCII bytes at a time, one ASCII byte, one character.\<close>

definition high_bits :: "64 word" where
  "high_bits = (0xffffffffffffffff div 255) * 128"

function count_words :: "byte list \<Rightarrow> nat \<Rightarrow> nat \<Rightarrow> nat \<times> nat" where
  "count_words bs byte characters =
     (if 8 \<le> length bs - byte then
        if (load_bytes (bytes_from bs byte 8) :: 64 word) AND high_bits \<noteq> 0 then (byte, characters)
        else count_words bs (byte + 8) (characters + 8)
      else (byte, characters))"
  by pat_completeness auto
termination by (relation "measure (\<lambda>(bs, byte, _). length bs - byte)") auto

function count_ascii :: "byte list \<Rightarrow> nat \<Rightarrow> nat \<Rightarrow> nat \<times> nat" where
  "count_ascii bs byte characters =
     (if byte < length bs \<and> byte_at bs byte < 0x80 then count_ascii bs (byte + 1) (characters + 1)
      else (byte, characters))"
  by pat_completeness auto
termination by (relation "measure (\<lambda>(bs, byte, _). length bs - byte)") auto

function count_characters :: "byte list \<Rightarrow> nat \<Rightarrow> nat \<Rightarrow> string + nat \<times> nat" where
  "count_characters bs byte characters =
     (if byte < length bs then
        rbind (decode_character (drop byte bs)) (\<lambda>(_, width).
        count_characters bs (byte + width) (characters + 1))
      else Inr (byte, characters))"
  by pat_completeness auto
termination
  by (relation "measure (\<lambda>(bs, byte, _). length bs - byte)")
    (auto dest!: encode_character_decoded)

text \<open>The second pass, which drops a breadcrumb before every 64th character.\<close>

definition drop_breadcrumb :: "minyar_text \<Rightarrow> nat list \<Rightarrow> nat \<Rightarrow> nat \<Rightarrow> nat list" where
  "drop_breadcrumb text offsets byte characters =
     (if characters mod TEXT_INDEX_STRIDE = 0
      then offsets[characters div TEXT_INDEX_STRIDE := index_entry text byte] else offsets)"

function drop_breadcrumbs :: "minyar_text \<Rightarrow> nat list \<Rightarrow> nat \<Rightarrow> nat \<Rightarrow> string + nat list \<times> nat \<times> nat" where
  "drop_breadcrumbs text offsets byte characters =
     (if byte < byte_length text then
        rbind (decode_character (drop byte (bytes text))) (\<lambda>(_, width).
        drop_breadcrumbs text (drop_breadcrumb text offsets byte characters) (byte + width) (characters + 1))
      else Inr (drop_breadcrumb text offsets byte characters, byte, characters))"
  by pat_completeness auto
termination
  by (relation "measure (\<lambda>(text, _, byte, _). byte_length text - byte)")
    (auto simp: byte_length_def dest!: encode_character_decoded)

definition build_text_index :: "minyar_text \<Rightarrow> string + minyar_text" where
  "build_text_index text =
     (let (byte0, characters0) = count_words (bytes text) 0 0;
          (byte1, characters1) = count_ascii (bytes text) byte0 characters0 in
      rbind (count_characters (bytes text) byte1 characters1) (\<lambda>(_, characters).
      if characters = byte_length text then Inr (text\<lparr>character_length := int characters\<rparr>)
      else
        let offset_size = (if byte_length text \<le> UINT32_MAX then 4 else 8) in
        if characters div TEXT_INDEX_STRIDE + 1 > SIZE_MAX div offset_size - 2
        then minyar_stop ''this Text is too large to index.''
        else
          rbind (drop_breadcrumbs text (replicate (characters div TEXT_INDEX_STRIDE + 3) 0) 0 0)
            (\<lambda>(offsets, _, characters).
          let text = text\<lparr>character_offsets := Some offsets, character_length := int characters\<rparr>;
              text = text_index_store text (text_index_breadcrumbs text) 0;
              text = text_index_store text (text_index_breadcrumbs text + 1) 0 in
          Inr text)))"

definition ensure_text_index :: "minyar_text \<Rightarrow> string + minyar_text" where
  "ensure_text_index text = (if character_length text < 0 then build_text_index text else Inr text)"

section \<open>Operations on the index\<close>

definition minyar_text_length :: "minyar_text \<Rightarrow> string + int \<times> minyar_text" where
  "minyar_text_length text =
     rbind (ensure_text_index text) (\<lambda>text. Inr (character_length text, text))"

definition minyar_text_byte_length :: "minyar_text \<Rightarrow> int" where
  "minyar_text_byte_length text = int (byte_length text)"

function walk_characters :: "minyar_text \<Rightarrow> nat \<Rightarrow> nat \<Rightarrow> nat \<Rightarrow> string + nat" where
  "walk_characters text start byte position =
     (if start < position then
        rbind (decode_character (drop byte (bytes text))) (\<lambda>(_, width).
        walk_characters text (start + 1) (byte + width) position)
      else Inr byte)"
  by pat_completeness auto
termination by (relation "measure (\<lambda>(_, start, _, position). position - start)") auto

definition indexed_byte_offset :: "minyar_text \<Rightarrow> nat \<Rightarrow> string + nat \<times> minyar_text" where
  "indexed_byte_offset text position =
     (let entry = position div TEXT_INDEX_STRIDE; start = entry * TEXT_INDEX_STRIDE;
          byte = text_index_load text entry; cursor = text_index_breadcrumbs text;
          cached_position = text_index_load text cursor;
          cached_byte = text_index_load text (cursor + 1);
          (start, byte) = (if cached_position \<ge> start \<and> cached_position \<le> position
            then (cached_position, cached_byte) else (start, byte)) in
      rbind (walk_characters text start byte position) (\<lambda>byte.
      Inr (byte, text_index_store (text_index_store text cursor position) (cursor + 1) byte)))"

definition indexed_character_at :: "minyar_text \<Rightarrow> nat \<Rightarrow> string + int \<times> minyar_text" where
  "indexed_character_at text position =
     rbind (indexed_byte_offset text position) (\<lambda>(byte, text).
     rbind (decode_character (drop byte (bytes text))) (\<lambda>(character, width).
     let text = text_index_store text (text_index_breadcrumbs text) (position + 1) in
     Inr (character, text_index_store text (text_index_breadcrumbs text + 1) (byte + width))))"

definition character_at_slowly :: "minyar_text \<Rightarrow> int \<Rightarrow> string + int \<times> minyar_text" where
  "character_at_slowly text position =
     (if position < 0 then minyar_stop ''a Text position cannot be negative.''
      else
        rbind (ensure_text_index text) (\<lambda>text.
        if position \<ge> character_length text then position_outside_text
        else if character_offsets text = None then Inr (byte_at (bytes text) (nat position), text)
        else indexed_character_at text (nat position)))"

text \<open>The casts to \<open>unsigned long long\<close> wrap a negative position past every length.\<close>

definition minyar_text_character_at :: "minyar_text \<Rightarrow> int \<Rightarrow> string + int \<times> minyar_text" where
  "minyar_text_character_at text position =
     (if character_length text < 0 \<or> position mod 2 ^ 64 \<ge> character_length text mod 2 ^ 64
      then character_at_slowly text position
      else if character_offsets text \<noteq> None then indexed_character_at text (nat position)
      else Inr (byte_at (bytes text) (nat position), text))"

text \<open>
  A slice is the \<open>Text\<close> itself (retained once more), a copy of a small part of a large
  allocation, or a view that shares the bytes and retains their owner.
\<close>

datatype text_slice = Whole | Copy minyar_text | View minyar_text

text \<open>The byte range of a slice.\<close>

definition slice_bytes :: "minyar_text \<Rightarrow> nat \<Rightarrow> nat \<Rightarrow> string + nat \<times> nat \<times> minyar_text" where
  "slice_bytes text start stop =
     (if character_offsets text \<noteq> None then
        rbind (indexed_byte_offset text start) (\<lambda>(first_byte, text).
        rbind (indexed_byte_offset text stop) (\<lambda>(last_byte, text).
        Inr (first_byte, last_byte, text)))
      else Inr (start, stop, text))"

text \<open>
  The \<open>Text\<close> that is returned for it: a full slice is the same value; a small portion of a large
  allocation is copied so that it does not retain the whole of it.
\<close>

definition share_slice :: "minyar_text \<Rightarrow> nat \<Rightarrow> nat \<Rightarrow> nat \<Rightarrow> text_slice" where
  "share_slice text first_byte last_byte characters =
     (let n = last_byte - first_byte;
          root_length = (case backing_length text of Some r \<Rightarrow> r | None \<Rightarrow> byte_length text);
          piece = new_text (bytes_from (bytes text) first_byte n) (if n = characters then int characters else -1) in
      if first_byte = 0 \<and> n = byte_length text then Whole
      else if root_length > 4096 \<and> (n * 8) mod 2 ^ 64 < root_length then Copy piece
      else View (piece\<lparr>backing_length := Some root_length\<rparr>))"

definition minyar_text_slice :: "minyar_text \<Rightarrow> int \<Rightarrow> int \<Rightarrow> string + text_slice \<times> minyar_text" where
  "minyar_text_slice text start stop =
     rbind (ensure_text_index text) (\<lambda>text.
     if start < 0 \<or> stop < start \<or> stop > character_length text
     then minyar_stop ''a Text slice must stay within the Text and end after it starts.''
     else
       rbind (slice_bytes text (nat start) (nat stop)) (\<lambda>(first_byte, last_byte, text).
       Inr (share_slice text first_byte last_byte (nat stop - nat start), text)))"

end
