(* ===== verification/Text_Index.thy ===== *)
theory Text_Index
  imports Text
begin

text \<open>
  The reference for \<open>Text\<close>: the list of characters that the bytes spell, and the byte offset of
  each character in it. The first part relates the decoder and the counting loops to it, the
  second states what a correct index is and shows that building it and moving its cursor
  produce one, the third draws the conclusions for the operations a program calls.
\<close>

declare count_words.simps [simp del] count_ascii.simps [simp del] count_characters.simps [simp del]
  drop_breadcrumbs.simps [simp del] walk_characters.simps [simp del]

section \<open>Spelling\<close>

definition form_of :: "int \<Rightarrow> byte list" where
  "form_of c = map word_of_int (character_form c)"

definition spelling :: "int list \<Rightarrow> byte list" where
  "spelling cs = concat (map form_of cs)"

definition spells :: "int list \<Rightarrow> byte list \<Rightarrow> bool" where
  "spells cs bs \<longleftrightarrow> list_all scalar_value cs \<and> bs = spelling cs"

definition offset :: "int list \<Rightarrow> nat \<Rightarrow> nat" where
  "offset cs k = length (spelling (take k cs))"

lemma spelling_simps [simp]:
  "spelling [] = []" "spelling (c # cs) = form_of c @ spelling cs" "spelling (cs @ ds) = spelling cs @ spelling ds"
  by (simp_all add: spelling_def)

lemma encode_form_of: "scalar_value c \<Longrightarrow> encode_character c = Inr (form_of c)"
  by (simp add: encode_character_form form_of_def)

lemma decode_form_of: "scalar_value c \<Longrightarrow> decode_character (form_of c @ rest) = Inr (c, length (form_of c))"
  by (rule decode_character_encoded) (rule encode_form_of)

lemma form_of_nonempty [simp]: "form_of c \<noteq> []" "0 < length (form_of c)" "Suc 0 \<le> length (form_of c)"
  by (auto simp: form_of_def character_form_def)

lemma decode_Inr:
  assumes "decode_character bs = Inr (c, w)"
  shows "scalar_value c \<and> bs = form_of c @ drop w bs \<and> w = length (form_of c)"
proof -
  have e: "encode_character c = Inr (take w bs)" and w: "w \<le> length bs"
    using encode_character_decoded [OF assms] by auto
  have c: "scalar_value c" using e by (auto simp: encode_character_form split: if_splits)
  then have "form_of c = take w bs" using e encode_form_of by simp
  with c w show ?thesis by simp
qed

lemma decode_stop: "bs \<noteq> [] \<Longrightarrow> decode_character bs = Inl e \<Longrightarrow> decode_character bs = invalid_utf8"
  by (auto simp: decode_character_def Let_def split: if_splits)

lemma spells_simps:
  "spells [] bs \<longleftrightarrow> bs = []"
  "spells (c # cs) bs \<longleftrightarrow> scalar_value c \<and> (\<exists>rest. bs = form_of c @ rest \<and> spells cs rest)"
  by (auto simp: spells_def)

lemma spells_decode_step:
  assumes "bs \<noteq> []"
  shows "spells cs bs \<longleftrightarrow>
    (\<exists>c w. decode_character bs = Inr (c, w) \<and> (\<exists>cs'. cs = c # cs' \<and> spells cs' (drop w bs)))"
proof
  assume "spells cs bs"
  with assms obtain c cs' rest where "cs = c # cs'" "scalar_value c" "bs = form_of c @ rest" "spells cs' rest"
    by (cases cs) (auto simp: spells_simps)
  then show "\<exists>c w. decode_character bs = Inr (c, w) \<and> (\<exists>cs'. cs = c # cs' \<and> spells cs' (drop w bs))"
    using decode_form_of by auto
qed (auto simp: spells_simps dest!: decode_Inr)

lemma spells_unique: "spells cs bs \<Longrightarrow> spells cs' bs \<Longrightarrow> cs = cs'"
proof (induction cs arbitrary: bs cs')
  case (Cons c cs)
  then have "bs \<noteq> []" by (auto simp: spells_simps)
  with Cons show ?case by (fastforce simp: spells_decode_step)
qed (auto simp: spells_def spelling_def)

subsection \<open>Offsets\<close>

lemma offset_0 [simp]: "offset cs 0 = 0" by (simp add: offset_def)

lemma offset_Suc: "k < length cs \<Longrightarrow> offset cs (Suc k) = offset cs k + length (form_of (cs ! k))"
  by (simp add: offset_def take_Suc_conv_app_nth)

lemma offset_end: "spells cs bs \<Longrightarrow> offset cs (length cs) = length bs"
  by (simp add: offset_def spells_def)

lemma spells_split:
  assumes "spells cs bs"
  shows "bs = spelling (take k cs) @ spelling (drop k cs)"
proof -
  have "bs = spelling (take k cs @ drop k cs)" using assms by (simp add: spells_def)
  then show ?thesis by (simp only: spelling_simps)
qed

lemma spells_drop:
  assumes "spells cs bs" shows "spells (drop k cs) (drop (offset cs k) bs)"
proof -
  have "drop (offset cs k) bs = spelling (drop k cs)"
    by (subst spells_split [OF assms, of k]) (simp add: offset_def)
  moreover have "list_all scalar_value (drop k cs)"
    using assms by (auto simp: spells_def list_all_iff dest: in_set_dropD)
  ultimately show ?thesis by (simp add: spells_def)
qed

lemma spells_take:
  assumes "spells cs bs" shows "spells (take k cs) (take (offset cs k) bs)"
proof -
  have "take (offset cs k) bs = spelling (take k cs)"
    by (subst spells_split [OF assms, of k]) (simp add: offset_def)
  moreover have "list_all scalar_value (take k cs)"
    using assms by (auto simp: spells_def list_all_iff dest: in_set_takeD)
  ultimately show ?thesis by (simp add: spells_def)
qed

lemma offset_mono: "i \<le> j \<Longrightarrow> offset cs i \<le> offset cs j"
proof -
  assume "i \<le> j"
  then have "take j cs = take i cs @ take (j - i) (drop i cs)" by (metis take_add le_add_diff_inverse)
  then show ?thesis by (simp add: offset_def)
qed

lemma offset_bounds:
  assumes "spells cs bs" "k \<le> length cs"
  shows "k \<le> offset cs k" "offset cs k \<le> length bs"
proof -
  have "k \<le> length cs \<Longrightarrow> k \<le> offset cs k"
  proof (induction k)
    case (Suc k)
    then show ?case using form_of_nonempty(3) [of "cs ! k"] by (simp add: offset_Suc del: form_of_nonempty)
  qed simp
  then show "k \<le> offset cs k" using assms(2) by blast
  show "offset cs k \<le> length bs" using offset_mono [OF assms(2), of cs] offset_end [OF assms(1)] by simp
qed

lemma offset_strict:
  assumes "spells cs bs" "k < length cs" shows "offset cs k < length bs"
  using offset_bounds(2) [OF assms(1), of "Suc k"] assms(2) form_of_nonempty(3) [of "cs ! k"]
  by (simp add: offset_Suc del: form_of_nonempty)

lemma decode_at:
  assumes "spells cs bs" "k < length cs"
  shows "decode_character (drop (offset cs k) bs) = Inr (cs ! k, length (form_of (cs ! k)))"
proof -
  have "spells (cs ! k # drop (Suc k) cs) (drop (offset cs k) bs)"
    using spells_drop [OF assms(1), of k] assms(2) by (simp add: Cons_nth_drop_Suc)
  then show ?thesis by (auto simp: spells_simps decode_form_of)
qed

section \<open>The counting loops\<close>

definition ascii :: "byte list \<Rightarrow> bool" where
  "ascii bs \<longleftrightarrow> (\<forall>b \<in> set bs. uint b < 128)"

lemma ascii_simps [simp]: "ascii []" "ascii (b # bs) \<longleftrightarrow> uint b < 128 \<and> ascii bs" "ascii (bs @ bs') \<longleftrightarrow> ascii bs \<and> ascii bs'"
  by (auto simp: ascii_def)

lemma spells_ascii_prefix:
  "ascii a \<Longrightarrow> spells cs (a @ b) \<longleftrightarrow> (\<exists>cs'. cs = map uint a @ cs' \<and> spells cs' b)"
proof (induction a arbitrary: cs)
  case (Cons x a)
  then have "decode_character (x # a @ b) = Inr (uint x, 1)"
    by (simp add: decode_character_def byte_at_def Let_def)
  with Cons show ?case by (simp add: spells_decode_step) blast
qed simp

lemma high_bit_byte: "bit (b :: byte) 7 \<longleftrightarrow> 128 \<le> uint b"
proof -
  have "bit b 7 \<longleftrightarrow> bit (uint b) 7" by (simp add: bit_uint_iff)
  then have "bit b 7 \<longleftrightarrow> odd (uint b div 128)" by (simp only: bit_iff_odd) simp
  moreover have "uint b < 256" "0 \<le> uint b" using uint_lt2p [of b] by simp_all
  moreover have "x div 128 = (if 128 \<le> x then 1 else 0)" if "0 \<le> x" "x < 256" for x :: int
    using that by presburger
  ultimately show ?thesis by simp
qed

lemma bit_high_bits: "bit high_bits k \<longleftrightarrow> k < 64 \<and> k mod 8 = 7"
proof -
  have "list_all (\<lambda>k. bit high_bits k \<longleftrightarrow> k mod 8 = 7) [0..<64]" by code_simp
  then have "k < 64 \<Longrightarrow> bit high_bits k \<longleftrightarrow> k mod 8 = 7" by (simp only: list_all_iff set_upt) auto
  then show ?thesis using bit_imp_le_length [of high_bits k] by auto
qed

lemma high_bits_ascii:
  assumes "length bs = 8"
  shows "(load_bytes bs :: 64 word) AND high_bits = 0 \<longleftrightarrow> ascii bs"
proof
  assume zero: "(load_bytes bs :: 64 word) AND high_bits = 0"
  have "\<not> bit (bs ! i) 7" if "i < 8" for i
  proof -
    have "\<not> bit ((load_bytes bs :: 64 word) AND high_bits) (8 * i + 7)" by (simp add: zero)
    moreover have "(8 * i + 7) div 8 = i" "(8 * i + 7) mod 8 = 7" by presburger+
    ultimately show ?thesis using that assms by (simp add: bit_simps bit_load_bytes bit_high_bits)
  qed
  then show "ascii bs" using assms by (auto simp: ascii_def high_bit_byte in_set_conv_nth not_le)
next
  assume "ascii bs"
  then have "\<not> bit (bs ! i) 7" if "i < 8" for i
    using that assms by (auto simp: ascii_def high_bit_byte not_le)
  then show "(load_bytes bs :: 64 word) AND high_bits = 0"
    using assms by (intro bit_word_eqI) (auto simp: bit_simps bit_load_bytes bit_high_bits)
qed

lemma bytes_from_split:
  assumes "i \<le> j" "j \<le> k"
  shows "bytes_from bs i (k - i) = bytes_from bs i (j - i) @ bytes_from bs j (k - j)"
proof -
  have "k - i = (j - i) + (k - j)" "(j - i) + i = j" using assms by simp_all
  then show ?thesis by (simp only: bytes_from_def take_add drop_drop)
qed

lemma drop_plus: "drop (i + j) xs = drop j (drop i xs)"
  by (simp add: add.commute)

lemma count_words_ascii:
  assumes "count_words bs byte n = (byte', n')" "byte \<le> length bs"
  shows "byte \<le> byte' \<and> byte' \<le> length bs \<and> n' = n + (byte' - byte) \<and> ascii (bytes_from bs byte (byte' - byte))"
  using assms
proof (induction bs byte n rule: count_words.induct)
  case (1 bs byte n)
  show ?case
  proof (cases "8 \<le> length bs - byte \<and> (load_bytes (bytes_from bs byte 8) :: 64 word) AND high_bits = 0")
    case True
    then have "count_words bs (byte + 8) (n + 8) = (byte', n')" using 1(2) by (simp add: count_words.simps [of bs byte])
    moreover have fits: "byte + 8 \<le> length bs" using True 1(3) by linarith
    ultimately have IH: "byte + 8 \<le> byte'" "byte' \<le> length bs" "n' = n + 8 + (byte' - (byte + 8))"
      "ascii (bytes_from bs (byte + 8) (byte' - (byte + 8)))" using 1(1) True by auto
    have "ascii (bytes_from bs byte 8)"
      using True fits high_bits_ascii [of "bytes_from bs byte 8"] by simp
    then show ?thesis using IH bytes_from_split [of byte "byte + 8" byte' bs] by auto
  next
    case False
    then show ?thesis using 1(2,3) by (auto simp: count_words.simps [of bs byte] bytes_from_def split: if_splits)
  qed
qed

lemma count_ascii_ascii:
  assumes "count_ascii bs byte n = (byte', n')" "byte \<le> length bs"
  shows "byte \<le> byte' \<and> byte' \<le> length bs \<and> n' = n + (byte' - byte) \<and> ascii (bytes_from bs byte (byte' - byte))"
  using assms
proof (induction bs byte n rule: count_ascii.induct)
  case (1 bs byte n)
  show ?case
  proof (cases "byte < length bs \<and> byte_at bs byte < 0x80")
    case True
    then have "count_ascii bs (byte + 1) (n + 1) = (byte', n')" using 1(2) by (simp add: count_ascii.simps [of bs byte])
    with 1(1) True have IH: "byte + 1 \<le> byte'" "byte' \<le> length bs" "n' = n + 1 + (byte' - (byte + 1))"
      "ascii (bytes_from bs (byte + 1) (byte' - (byte + 1)))" by auto
    moreover have "ascii (bytes_from bs byte 1)"
      using True by (simp add: bytes_from_def byte_at_def take_Suc_conv_app_nth Cons_nth_drop_Suc [symmetric])
    ultimately show ?thesis using bytes_from_split [of byte "byte + 1" byte' bs] by auto
  next
    case False
    then show ?thesis using 1(2,3) by (auto simp: count_ascii.simps [of bs byte] bytes_from_def split: if_splits)
  qed
qed

lemma count_characters_spells:
  "spells cs (drop byte bs) \<Longrightarrow> byte \<le> length bs \<Longrightarrow> count_characters bs byte n = Inr (length bs, n + length cs)"
proof (induction cs arbitrary: byte n)
  case Nil
  then show ?case by (simp add: spells_simps count_characters.simps)
next
  case (Cons c cs)
  then have "byte < length bs" by (auto simp: spells_simps not_le [symmetric])
  with Cons.prems(1) have d: "decode_character (drop byte bs) = Inr (c, length (form_of c))"
    "spells cs (drop (byte + length (form_of c)) bs)"
    by (auto simp: spells_simps decode_form_of drop_plus simp del: drop_drop)
  moreover have "byte + length (form_of c) \<le> length bs"
    using encode_character_decoded [OF d(1)] \<open>byte < length bs\<close> by auto
  ultimately show ?case using Cons.IH \<open>byte < length bs\<close> by (simp add: count_characters.simps [of bs byte])
qed

lemma count_characters_invalid:
  "\<nexists>cs. spells cs (drop byte bs) \<Longrightarrow> count_characters bs byte n = invalid_utf8"
proof (induction bs byte n rule: count_characters.induct)
  case (1 bs byte n)
  from 1(2) have byte: "byte < length bs" by (auto simp: spells_simps not_less dest: spec [of _ "[]"])
  show ?case
  proof (cases "decode_character (drop byte bs)")
    case (Inl e)
    then show ?thesis using byte decode_stop [OF _ Inl]
      by (simp add: count_characters.simps [of bs byte] invalid_utf8_def minyar_stop_def)
  next
    case (Inr cw)
    obtain c w where cw: "cw = (c, w)" by force
    have "\<nexists>cs. spells cs (drop (byte + w) bs)"
      using 1(2) byte Inr cw by (auto simp: spells_decode_step drop_plus simp del: drop_drop)
    with 1(1) [OF byte Inr] byte Inr cw show ?thesis by (simp add: count_characters.simps [of bs byte])
  qed
qed

text \<open>The three loops together count the characters, or find that the bytes are not UTF-8.\<close>

definition count_all :: "byte list \<Rightarrow> string + nat \<times> nat" where
  "count_all bs =
     (let (byte0, n0) = count_words bs 0 0; (byte1, n1) = count_ascii bs byte0 n0 in count_characters bs byte1 n1)"

lemma count_all_correct:
  "spells cs bs \<Longrightarrow> count_all bs = Inr (length bs, length cs)"
  "\<nexists>cs. spells cs bs \<Longrightarrow> count_all bs = invalid_utf8"
proof -
  obtain byte0 n0 byte1 n1 where w: "count_words bs 0 0 = (byte0, n0)" and a: "count_ascii bs byte0 n0 = (byte1, n1)"
    by (metis prod.exhaust)
  have 0: "byte0 \<le> length bs" "n0 = byte0" "ascii (bytes_from bs 0 byte0)" using count_words_ascii [OF w] by auto
  have 1: "byte0 \<le> byte1" "byte1 \<le> length bs" "n1 = byte1" "ascii (bytes_from bs byte0 (byte1 - byte0))"
    using count_ascii_ascii [OF a] 0 by auto
  with 0 bytes_from_split [of 0 byte0 byte1 bs] have asc: "ascii (take byte1 bs)" by (simp add: bytes_from_def)
  have split: "spells cs bs \<longleftrightarrow> (\<exists>cs'. cs = map uint (take byte1 bs) @ cs' \<and> spells cs' (drop byte1 bs))" for cs
    using spells_ascii_prefix [OF asc, of cs "drop byte1 bs"] by simp
  have all: "count_all bs = count_characters bs byte1 byte1" by (simp add: count_all_def w a 1(3))
  show "spells cs bs \<Longrightarrow> count_all bs = Inr (length bs, length cs)"
    using 1(2) by (auto simp: split all count_characters_spells)
  show "\<nexists>cs. spells cs bs \<Longrightarrow> count_all bs = invalid_utf8"
    unfolding all by (rule count_characters_invalid) (auto simp: split)
qed

section \<open>Correct indexes\<close>

definition index_correct :: "int list \<Rightarrow> nat list \<Rightarrow> bool" where
  "index_correct cs os \<longleftrightarrow>
     (let n = length cs div TEXT_INDEX_STRIDE in
      length os = n + 3 \<and> (\<forall>e \<le> n. os ! e = offset cs (TEXT_INDEX_STRIDE * e)) \<and>
      os ! (n + 1) \<le> length cs \<and> os ! (n + 2) = offset cs (os ! (n + 1)))"

definition indexed :: "int list \<Rightarrow> minyar_text \<Rightarrow> bool" where
  "indexed cs text \<longleftrightarrow>
     spells cs (bytes text) \<and> int (byte_length text) \<le> LLONG_MAX \<and> character_length text = int (length cs) \<and>
     (case character_offsets text of None \<Rightarrow> length cs = byte_length text | Some os \<Rightarrow> index_correct cs os)"

text \<open>A \<open>Text\<close> holds a list of characters, with or without its index.\<close>

definition holds :: "int list \<Rightarrow> minyar_text \<Rightarrow> bool" where
  "holds cs text \<longleftrightarrow>
     indexed cs text \<or>
     spells cs (bytes text) \<and> int (byte_length text) \<le> LLONG_MAX \<and> character_length text < 0 \<and>
       character_offsets text = None"

lemma index_entry_fits: "v \<le> byte_length text \<Longrightarrow> index_entry text v = v"
  by (simp add: index_entry_def)

lemma text_index_store_simps [simp]:
  "bytes (text_index_store text e v) = bytes text"
  "character_length (text_index_store text e v) = character_length text"
  "byte_length (text_index_store text e v) = byte_length text"
  "backing_length (text_index_store text e v) = backing_length text"
  "text_index_breadcrumbs (text_index_store text e v) = text_index_breadcrumbs text"
  by (simp_all add: text_index_store_def byte_length_def text_index_breadcrumbs_def)

lemma breadcrumbs_indexed:
  "character_length text = int (length cs) \<Longrightarrow> text_index_breadcrumbs text = length cs div TEXT_INDEX_STRIDE + 1"
  by (simp add: text_index_breadcrumbs_def)

text \<open>Moving the cursor to the start of any character keeps the index correct.\<close>

lemma move_cursor:
  assumes "indexed cs text" "character_offsets text = Some os" "p \<le> length cs" "c = text_index_breadcrumbs text"
  shows "indexed cs (text_index_store (text_index_store text c p) (c + 1) (offset cs p))"
    "character_offsets (text_index_store (text_index_store text c p) (c + 1) (offset cs p)) \<noteq> None"
proof -
  have s: "spells cs (bytes text)" using assms(1) by (simp add: indexed_def)
  have "index_entry (text_index_store text c p) (offset cs p) = offset cs p" "index_entry text p = p"
    using offset_bounds [OF s assms(3)] by (simp_all add: index_entry_fits byte_length_def)
  then have os: "character_offsets (text_index_store (text_index_store text c p) (c + 1) (offset cs p)) =
      Some (os[c := p, c + 1 := offset cs p])"
    using assms(2) by (simp add: text_index_store_def)
  moreover have "index_correct cs (os[c := p, c + 1 := offset cs p])"
    using assms breadcrumbs_indexed [of "text" cs]
    by (simp add: indexed_def index_correct_def Let_def nth_list_update)
  ultimately show "indexed cs (text_index_store (text_index_store text c p) (c + 1) (offset cs p))"
    using assms(1) by (simp add: indexed_def)
  show "character_offsets (text_index_store (text_index_store text c p) (c + 1) (offset cs p)) \<noteq> None"
    using os by simp
qed

subsection \<open>Building\<close>

lemma drop_breadcrumb_nth:
  assumes "length os = length cs div TEXT_INDEX_STRIDE + 3" "k \<le> length cs" "spells cs (bytes text)"
  shows "length (drop_breadcrumb text os (offset cs k) k) = length os"
    "e \<le> length cs div TEXT_INDEX_STRIDE \<Longrightarrow> drop_breadcrumb text os (offset cs k) k ! e =
      (if TEXT_INDEX_STRIDE * e = k then offset cs k else os ! e)"
proof -
  have "index_entry text (offset cs k) = offset cs k"
    using offset_bounds [OF assms(3,2)] by (simp add: index_entry_fits byte_length_def)
  moreover have "k div TEXT_INDEX_STRIDE \<le> length cs div TEXT_INDEX_STRIDE" using assms(2) by (rule div_le_mono)
  moreover have "TEXT_INDEX_STRIDE * e = k \<longleftrightarrow> k mod TEXT_INDEX_STRIDE = 0 \<and> e = k div TEXT_INDEX_STRIDE" for e
    by auto
  ultimately show "e \<le> length cs div TEXT_INDEX_STRIDE \<Longrightarrow> drop_breadcrumb text os (offset cs k) k ! e =
      (if TEXT_INDEX_STRIDE * e = k then offset cs k else os ! e)"
    using assms(1) by (auto simp: drop_breadcrumb_def nth_list_update)
qed (simp add: drop_breadcrumb_def)

lemma drop_breadcrumbs_correct:
  assumes "spells cs (bytes text)" "k \<le> length cs" "length os = length cs div TEXT_INDEX_STRIDE + 3"
  shows "\<exists>os'. drop_breadcrumbs text os (offset cs k) k = Inr (os', byte_length text, length cs) \<and>
    length os' = length os \<and>
    (\<forall>e \<le> length cs div TEXT_INDEX_STRIDE.
       os' ! e = (if TEXT_INDEX_STRIDE * e < k then os ! e else offset cs (TEXT_INDEX_STRIDE * e)))"
  using assms(2,3)
proof (induction "length cs - k" arbitrary: k os)
  case 0
  then have k: "k = length cs" by simp
  let ?os = "drop_breadcrumb text os (offset cs k) k"
  have "drop_breadcrumbs text os (offset cs k) k = Inr (?os, byte_length text, length cs)"
    using offset_end [OF assms(1)] k by (simp add: drop_breadcrumbs.simps [of "text"] byte_length_def)
  moreover have "?os ! e = (if TEXT_INDEX_STRIDE * e < k then os ! e else offset cs (TEXT_INDEX_STRIDE * e))"
    if "e \<le> length cs div TEXT_INDEX_STRIDE" for e
    using that drop_breadcrumb_nth(2) [OF 0(3,2) assms(1) that] k by auto
  ultimately show ?case using drop_breadcrumb_nth(1) [OF 0(3,2) assms(1)] by blast
next
  case (Suc m)
  then have k: "k < length cs" by simp
  let ?os = "drop_breadcrumb text os (offset cs k) k"
  have len: "length ?os = length cs div TEXT_INDEX_STRIDE + 3"
    using drop_breadcrumb_nth(1) [OF Suc.prems(2,1) assms(1)] Suc.prems(2) by simp
  have step: "drop_breadcrumbs text os (offset cs k) k = drop_breadcrumbs text ?os (offset cs (Suc k)) (Suc k)"
    using offset_strict [OF assms(1) k] decode_at [OF assms(1) k] offset_Suc [OF k]
    by (simp add: drop_breadcrumbs.simps [of "text" os] byte_length_def)
  from Suc(2) k have "m = length cs - Suc k" by simp
  from Suc(1) [OF this _ len] k obtain os' where os':
    "drop_breadcrumbs text ?os (offset cs (Suc k)) (Suc k) = Inr (os', byte_length text, length cs)"
    "length os' = length ?os"
    "\<forall>e \<le> length cs div TEXT_INDEX_STRIDE.
       os' ! e = (if TEXT_INDEX_STRIDE * e < Suc k then ?os ! e else offset cs (TEXT_INDEX_STRIDE * e))" by auto
  have "os' ! e = (if TEXT_INDEX_STRIDE * e < k then os ! e else offset cs (TEXT_INDEX_STRIDE * e))"
    if "e \<le> length cs div TEXT_INDEX_STRIDE" for e
    using os'(3) [rule_format, OF that] drop_breadcrumb_nth(2) [OF Suc.prems(2,1) assms(1) that]
    by (cases "TEXT_INDEX_STRIDE * e" k rule: linorder_cases) simp_all
  then show ?case unfolding step using os'(1,2) len Suc.prems(2) by auto
qed

lemma build_text_index_correct:
  assumes "spells cs (bytes text)" "int (byte_length text) \<le> LLONG_MAX" "character_offsets text = None"
  shows "\<exists>text'. build_text_index text = Inr text' \<and> indexed cs text' \<and> bytes text' = bytes text \<and>
    backing_length text' = backing_length text"
proof -
  have build: "build_text_index text = rbind (count_all (bytes text)) (\<lambda>(_, characters).
      if characters = byte_length text then Inr (text\<lparr>character_length := int characters\<rparr>)
      else
        let offset_size = (if byte_length text \<le> UINT32_MAX then 4 else 8) in
        if characters div TEXT_INDEX_STRIDE + 1 > SIZE_MAX div offset_size - 2
        then minyar_stop ''this Text is too large to index.''
        else
          rbind (drop_breadcrumbs text (replicate (characters div TEXT_INDEX_STRIDE + 3) 0) 0 0)
            (\<lambda>(offsets, _, characters).
          let text = text\<lparr>character_offsets := Some offsets, character_length := int characters\<rparr>;
              text = text_index_store text (text_index_breadcrumbs text) 0;
              text = text_index_store text (text_index_breadcrumbs text + 1) 0 in
          Inr text))"
    by (simp add: build_text_index_def count_all_def Let_def split: prod.splits)
  note count = count_all_correct(1) [OF assms(1)]
  show ?thesis
  proof (cases "length cs = byte_length text")
    case True
    then show ?thesis using assms by (simp add: build count indexed_def byte_length_def)
  next
    case False
    have "length cs \<le> byte_length text" using offset_bounds [OF assms(1) order_refl] by (simp add: byte_length_def)
    then have "length cs div TEXT_INDEX_STRIDE \<le> 9223372036854775807 div TEXT_INDEX_STRIDE"
      using assms(2) by (intro div_le_mono) (simp add: LLONG_MAX_def)
    then have small: "\<not> length cs div TEXT_INDEX_STRIDE + 1 > SIZE_MAX div (if byte_length text \<le> UINT32_MAX then 4 else 8) - 2"
      by simp
    obtain os where os: "drop_breadcrumbs text (replicate (length cs div TEXT_INDEX_STRIDE + 3) 0) 0 0 =
        Inr (os, byte_length text, length cs)" "length os = length cs div TEXT_INDEX_STRIDE + 3"
      "\<forall>e \<le> length cs div TEXT_INDEX_STRIDE. os ! e = offset cs (TEXT_INDEX_STRIDE * e)"
      using drop_breadcrumbs_correct [OF assms(1), of 0 "replicate (length cs div TEXT_INDEX_STRIDE + 3) 0"] by auto
    let ?t = "text\<lparr>character_offsets := Some os, character_length := int (length cs)\<rparr>"
    let ?t' = "text_index_store (text_index_store ?t (length cs div TEXT_INDEX_STRIDE + 1) 0) (length cs div TEXT_INDEX_STRIDE + 2) 0"
    have crumbs: "text_index_breadcrumbs ?t = length cs div TEXT_INDEX_STRIDE + 1" by (simp add: text_index_breadcrumbs_def)
    have "build_text_index text = Inr ?t'"
      using False small by (simp add: build count os(1) crumbs Let_def del: replicate.simps)
    moreover have "character_offsets ?t' = Some (os[length cs div TEXT_INDEX_STRIDE + 1 := 0, length cs div TEXT_INDEX_STRIDE + 2 := 0])"
      by (simp add: text_index_store_def index_entry_def)
    moreover have "index_correct cs (os[length cs div TEXT_INDEX_STRIDE + 1 := 0, length cs div TEXT_INDEX_STRIDE + 2 := 0])"
      using os(2,3) by (simp add: index_correct_def Let_def nth_list_update)
    ultimately show ?thesis using assms by (simp add: indexed_def byte_length_def)
  qed
qed

lemma ensure_text_index_correct:
  assumes "holds cs text"
  shows "\<exists>text'. ensure_text_index text = Inr text' \<and> indexed cs text' \<and> bytes text' = bytes text \<and>
    backing_length text' = backing_length text"
  using assms build_text_index_correct [of cs "text"] by (auto simp: holds_def ensure_text_index_def indexed_def)

lemma ensure_text_index_invalid:
  assumes "character_length text < 0" "\<nexists>cs. spells cs (bytes text)"
  shows "ensure_text_index text = invalid_utf8"
  using count_all_correct(2) [OF assms(2)] assms(1)
  by (auto simp: ensure_text_index_def build_text_index_def count_all_def Let_def invalid_utf8_def minyar_stop_def
      split: prod.splits)

subsection \<open>Seeking\<close>

lemma walk_characters_correct:
  assumes "spells cs (bytes text)" "k \<le> p" "p \<le> length cs"
  shows "walk_characters text k (offset cs k) p = Inr (offset cs p)"
  using assms(2)
proof (induction "p - k" arbitrary: k)
  case 0
  then show ?case by (simp add: walk_characters.simps)
next
  case (Suc m)
  then have k: "k < p" "k < length cs" using assms(3) by auto
  have "m = p - Suc k" "Suc k \<le> p" using Suc(2) k by auto
  from Suc(1) [OF this] show ?case
    using k decode_at [OF assms(1) k(2)] offset_Suc [OF k(2)] by (simp add: walk_characters.simps [of "text" k])
qed

lemma indexed_byte_offset_correct:
  assumes "indexed cs text" "character_offsets text \<noteq> None" "p \<le> length cs"
  shows "\<exists>text'. indexed_byte_offset text p = Inr (offset cs p, text') \<and> indexed cs text' \<and>
    character_offsets text' \<noteq> None \<and> bytes text' = bytes text \<and> backing_length text' = backing_length text"
proof -
  obtain os where os: "character_offsets text = Some os" using assms(2) by blast
  define n where "n = length cs div TEXT_INDEX_STRIDE"
  have idx: "index_correct cs os" and s: "spells cs (bytes text)" and c: "text_index_breadcrumbs text = n + 1"
    using assms(1) os breadcrumbs_indexed [of "text" cs] by (simp_all add: indexed_def n_def)
  have e: "p div TEXT_INDEX_STRIDE \<le> n" unfolding n_def using assms(3) by (rule div_le_mono)
  have crumb: "os ! (p div TEXT_INDEX_STRIDE) = offset cs (p div TEXT_INDEX_STRIDE * TEXT_INDEX_STRIDE)"
    using idx e by (simp add: index_correct_def Let_def n_def mult.commute)
  have cursor: "os ! (n + 1) \<le> length cs" "os ! (n + 2) = offset cs (os ! (n + 1))"
    using idx by (simp_all add: index_correct_def Let_def n_def)
  have "walk_characters text (p div TEXT_INDEX_STRIDE * TEXT_INDEX_STRIDE)
      (offset cs (p div TEXT_INDEX_STRIDE * TEXT_INDEX_STRIDE)) p = Inr (offset cs p)"
    by (rule walk_characters_correct [OF s _ assms(3)]) simp
  moreover have "os ! (n + 1) \<le> p \<Longrightarrow> walk_characters text (os ! (n + 1)) (offset cs (os ! (n + 1))) p = Inr (offset cs p)"
    by (rule walk_characters_correct [OF s _ assms(3)])
  ultimately have "indexed_byte_offset text p =
      Inr (offset cs p, text_index_store (text_index_store text (n + 1) p) (n + 2) (offset cs p))"
    using crumb cursor by (simp add: indexed_byte_offset_def Let_def text_index_load_def os c)
  then show ?thesis using move_cursor [OF assms(1) os assms(3) refl] c by simp
qed

lemma indexed_character_at_correct:
  assumes "indexed cs text" "character_offsets text \<noteq> None" "p < length cs"
  shows "\<exists>text'. indexed_character_at text p = Inr (cs ! p, text') \<and> indexed cs text' \<and> bytes text' = bytes text"
proof -
  obtain t1 where t1: "indexed_byte_offset text p = Inr (offset cs p, t1)" "indexed cs t1"
    "character_offsets t1 \<noteq> None" "bytes t1 = bytes text"
    using indexed_byte_offset_correct [OF assms(1,2), of p] assms(3) by auto
  then obtain os where os: "character_offsets t1 = Some os" by blast
  have s: "spells cs (bytes t1)" using t1(2) by (simp add: indexed_def)
  have "indexed_character_at text p = Inr (cs ! p,
      text_index_store (text_index_store t1 (text_index_breadcrumbs t1) (Suc p)) (text_index_breadcrumbs t1 + 1) (offset cs (Suc p)))"
    using decode_at [OF s assms(3)] offset_Suc [OF assms(3)] by (simp add: indexed_character_at_def t1(1) Let_def)
  then show ?thesis using move_cursor(1) [OF t1(2) os _ refl, of "Suc p"] assms(3) t1(4) by simp
qed

lemma indexed_ascii:
  assumes "indexed cs text" "character_offsets text = None"
  shows "bytes text = map word_of_int cs" "p \<le> length cs \<Longrightarrow> offset cs p = p"
    "p < length cs \<Longrightarrow> byte_at (bytes text) p = cs ! p"
proof -
  have s: "spells cs (bytes text)" and n: "length cs = length (bytes text)"
    using assms by (simp_all add: indexed_def byte_length_def)
  have exact: "offset cs p = p" if "p \<le> length cs" for p
    using that
  proof (induction "length cs - p" arbitrary: p)
    case 0
    then show ?case using offset_end [OF s] n by simp
  next
    case (Suc m)
    then have "offset cs (Suc p) = Suc p" by simp
    moreover have "p \<le> offset cs p" using offset_bounds(1) [OF s] Suc by simp
    moreover have "p < length cs" using Suc(2) by simp
    ultimately show ?case using offset_Suc [of p cs] form_of_nonempty(3) [of "cs ! p"]
      by (simp del: form_of_nonempty)
  qed
  then show "p \<le> length cs \<Longrightarrow> offset cs p = p" by blast
  have at: "byte_at (bytes text) p = cs ! p" if "p < length cs" for p
  proof -
    have "length (form_of (cs ! p)) = 1" using exact [of p] exact [of "Suc p"] offset_Suc [OF that] that by simp
    then have "decode_character (drop p (bytes text)) = Inr (cs ! p, 1)" using decode_at [OF s that] exact that by simp
    then show ?thesis
      by (auto simp: decode_character_form Let_def byte_at_def that n split: if_splits)
  qed
  then show "p < length cs \<Longrightarrow> byte_at (bytes text) p = cs ! p" by blast
  show "bytes text = map word_of_int cs"
    by (rule nth_equalityI) (use n at in \<open>auto simp: byte_at_def simp flip: at\<close>)
qed

section \<open>The operations\<close>

text \<open>
  C15. The length of a \<open>Text\<close> is the number of characters its bytes spell, whether or not its
  index was built before; afterwards it still holds the same characters in the same bytes.
\<close>

theorem text_length_correct:
  assumes "holds cs text"
  shows "\<exists>text'. minyar_text_length text = Inr (int (length cs), text') \<and> holds cs text' \<and> bytes text' = bytes text"
  using ensure_text_index_correct [OF assms] by (auto simp: minyar_text_length_def holds_def indexed_def)

definition sample_text :: minyar_text where
  "sample_text = new_text [0x68, 0xc3, 0xa9, 0xe2, 0x82, 0xac] (-1)"

lemma sample_text_holds: "holds [0x68, 0xe9, 0x20ac] sample_text"
proof -
  have "scalar_value 0x68" "scalar_value 0xe9" "scalar_value 0x20ac" by (simp_all add: scalar_value_def)
  then show ?thesis
    by (simp add: holds_def sample_text_def new_text_def spells_def spelling_def form_of_def character_form_def
      byte_length_def LLONG_MAX_def)
qed

theorem text_length_correct_witness:
  "\<exists>text'. minyar_text_length sample_text = Inr (3, text') \<and> holds [0x68, 0xe9, 0x20ac] text' \<and> bytes text' = bytes sample_text"
  using text_length_correct [OF sample_text_holds] by simp

lemma read_indexed:
  assumes "indexed cs text" "p < length cs"
  shows "\<exists>text'. (if character_offsets text = None then Inr (byte_at (bytes text) p, text)
      else indexed_character_at text p) = Inr (cs ! p, text') \<and> holds cs text' \<and> bytes text' = bytes text"
proof (cases "character_offsets text")
  case None
  then show ?thesis using indexed_ascii(3) [OF assms(1) None assms(2)] assms(1) by (simp add: holds_def)
next
  case (Some os)
  then show ?thesis using indexed_character_at_correct [OF assms(1) _ assms(2)] by (auto simp: holds_def)
qed

lemma character_at_slowly_correct:
  assumes "holds cs text"
  shows "if p < 0 then character_at_slowly text p = minyar_stop ''a Text position cannot be negative.''
    else if p \<ge> int (length cs) then character_at_slowly text p = minyar_stop ''a Text position was outside the Text.''
    else \<exists>text'. character_at_slowly text p = Inr (cs ! nat p, text') \<and> holds cs text' \<and> bytes text' = bytes text"
proof -
  obtain t1 where t1: "ensure_text_index text = Inr t1" "indexed cs t1" "bytes t1 = bytes text"
    using ensure_text_index_correct [OF assms] by blast
  have "character_length t1 = int (length cs)" using t1(2) by (simp add: indexed_def)
  then show ?thesis using read_indexed [OF t1(2), of "nat p"] t1(3)
    by (simp add: character_at_slowly_def t1(1) position_outside_text_def)
qed

text \<open>The unsigned comparison that screens positions is the signed range check.\<close>

lemma unsigned_position:
  assumes "representable p" "int n \<le> LLONG_MAX"
  shows "p mod 2 ^ 64 \<ge> int n mod 2 ^ 64 \<longleftrightarrow> p < 0 \<or> p \<ge> int n"
proof -
  have "int n mod 2 ^ 64 = int n" using assms(2) by (simp add: LLONG_MAX_def)
  moreover have "p mod 2 ^ 64 = (if p < 0 then p + 2 ^ 64 else p)"
  proof (cases "p < 0")
    case True
    then have "(p + 2 ^ 64) mod 2 ^ 64 = p + 2 ^ 64"
      using assms(1) by (intro mod_pos_pos_trivial) (simp_all add: representable_def LLONG_MIN_def LLONG_MAX_def)
    with True show ?thesis by simp
  next
    case False
    then show ?thesis using assms(1) by (simp add: representable_def LLONG_MAX_def)
  qed
  ultimately show ?thesis using assms by (auto simp: representable_def LLONG_MIN_def LLONG_MAX_def)
qed

text \<open>
  C16. Reading a character by position gives the element of the character list at that position,
  from every state of the index and its cursor, and leaves a correct index; a negative
  position and one at or past the length stop with their messages.
\<close>

theorem text_character_at_correct:
  assumes "holds cs text" "representable p"
  shows "if p < 0 then minyar_text_character_at text p = minyar_stop ''a Text position cannot be negative.''
    else if p \<ge> int (length cs) then minyar_text_character_at text p = minyar_stop ''a Text position was outside the Text.''
    else \<exists>text'. minyar_text_character_at text p = Inr (cs ! nat p, text') \<and> holds cs text' \<and> bytes text' = bytes text"
proof (cases "character_length text < 0 \<or> p mod 2 ^ 64 \<ge> character_length text mod 2 ^ 64")
  case True
  then show ?thesis using character_at_slowly_correct [OF assms(1), of p] by (simp add: minyar_text_character_at_def)
next
  case False
  then have idx: "indexed cs text" using assms(1) by (auto simp: holds_def)
  then have "int (length cs) \<le> LLONG_MAX" "character_length text = int (length cs)"
    using offset_bounds(1,2) [of cs "bytes text" "length cs"] by (auto simp: indexed_def byte_length_def)
  then have p: "0 \<le> p" "p < int (length cs)" using unsigned_position [OF assms(2), of "length cs"] False by auto
  then show ?thesis using read_indexed [OF idx, of "nat p"] False by (auto simp: minyar_text_character_at_def)
qed

theorem text_character_at_correct_witness:
  "\<exists>text'. minyar_text_character_at sample_text 2 = Inr (0x20ac, text') \<and> holds [0x68, 0xe9, 0x20ac] text'"
  using text_character_at_correct [OF sample_text_holds, of 2]
  by (auto simp: representable_def LLONG_MIN_def LLONG_MAX_def)

subsection \<open>Slices\<close>

fun slice_text :: "text_slice \<Rightarrow> minyar_text \<Rightarrow> minyar_text" where
  "slice_text Whole text = text"
| "slice_text (Copy piece) text = piece"
| "slice_text (View piece) text = piece"

lemma offset_drop: "a \<le> b \<Longrightarrow> offset (drop a cs) (b - a) = offset cs b - offset cs a"
proof -
  assume "a \<le> b"
  then have "take b cs = take a cs @ take (b - a) (drop a cs)" by (metis take_add le_add_diff_inverse)
  then show ?thesis by (simp add: offset_def)
qed

lemma spells_slice:
  assumes "spells cs bs" "a \<le> b"
  shows "spells (take (b - a) (drop a cs)) (bytes_from bs (offset cs a) (offset cs b - offset cs a))"
  using spells_take [OF spells_drop [OF assms(1), of a], of "b - a"] assms(2) by (simp add: offset_drop bytes_from_def)

lemma holds_piece:
  assumes "spells cs bs" "int (length bs) \<le> LLONG_MAX" "n = length bs" "m = length cs"
  shows "holds cs (new_text bs (if n = m then int m else -1))"
    "holds cs ((new_text bs (if n = m then int m else -1))\<lparr>backing_length := r\<rparr>)"
  using assms by (simp_all add: holds_def indexed_def new_text_def byte_length_def)

lemma whole_slice:
  assumes "spells cs bs" "a \<le> b" "b \<le> length cs" "offset cs a = 0" "offset cs b = length bs"
  shows "take (b - a) (drop a cs) = cs"
proof -
  have "a = 0" using offset_bounds(1) [OF assms(1), of a] assms by simp
  moreover have "b = length cs" using offset_strict [OF assms(1), of b] assms by (cases "b < length cs") auto
  ultimately show ?thesis by simp
qed

text \<open>The byte range of a slice, with the index or without it.\<close>

lemma slice_bytes_correct:
  assumes "indexed cs text" "a \<le> b" "b \<le> length cs"
  shows "\<exists>text'. slice_bytes text a b = Inr (offset cs a, offset cs b, text') \<and> indexed cs text' \<and> bytes text' = bytes text"
proof (cases "character_offsets text")
  case None
  then show ?thesis using indexed_ascii(2) [OF assms(1) None] assms by (simp add: slice_bytes_def)
next
  case (Some os)
  obtain t1 where t1: "indexed_byte_offset text a = Inr (offset cs a, t1)" "indexed cs t1" "character_offsets t1 \<noteq> None"
    "bytes t1 = bytes text"
    using indexed_byte_offset_correct [OF assms(1), of a] Some assms by auto
  obtain t2 where "indexed_byte_offset t1 b = Inr (offset cs b, t2)" "indexed cs t2" "bytes t2 = bytes t1"
    using indexed_byte_offset_correct [OF t1(2,3), of b] assms by auto
  with t1 Some show ?thesis by (simp add: slice_bytes_def)
qed

lemma share_slice_holds:
  assumes "indexed cs text" "a \<le> b" "b \<le> length cs"
  shows "holds (take (b - a) (drop a cs)) (slice_text (share_slice text (offset cs a) (offset cs b) (b - a)) text)"
proof -
  define sub where "sub = take (b - a) (drop a cs)"
  define piece where "piece = bytes_from (bytes text) (offset cs a) (offset cs b - offset cs a)"
  have s: "spells cs (bytes text)" using assms(1) by (simp add: indexed_def)
  have sp: "spells sub piece" unfolding sub_def piece_def by (rule spells_slice [OF s assms(2)])
  have n: "offset cs b - offset cs a = length piece"
    using offset_bounds(2) [OF s assms(3)] offset_mono [OF assms(2), of cs] by (simp add: piece_def)
  have m: "b - a = length sub" using assms by (simp add: sub_def)
  have "length piece \<le> length (bytes text)" by (simp add: piece_def)
  then have small: "int (length piece) \<le> LLONG_MAX" using assms(1) by (simp add: indexed_def byte_length_def)
  note piece = holds_piece [OF sp small n m]
  have whole: "holds sub text" if "offset cs a = 0" "offset cs b - offset cs a = byte_length text"
    unfolding sub_def using that whole_slice [OF s assms(2,3)] assms(1) by (simp add: byte_length_def holds_def)
  have pick: "holds sub (if p then t1 else if q then t2 else t3)"
    if "p \<Longrightarrow> holds sub t1" "holds sub t2" "holds sub t3" for p q t1 t2 t3
    using that by simp
  show ?thesis
    unfolding sub_def [symmetric] share_slice_def Let_def piece_def [symmetric]
      if_distrib [of "\<lambda>slice. slice_text slice text"] slice_text.simps
    by (rule pick) (use whole piece in blast)+
qed

text \<open>
  C17. Slicing a \<open>Text\<close> yields a \<open>Text\<close> that holds exactly the characters from the start position up
  to the end position, whether it is returned whole, copied or as a view of the same bytes; a
  start below zero, an end before the start or past the length stops with the slice message.
\<close>

theorem text_slice_correct:
  assumes "holds cs text"
  shows "if 0 \<le> start \<and> start \<le> stop \<and> stop \<le> int (length cs)
    then \<exists>slice text'. minyar_text_slice text start stop = Inr (slice, text') \<and> holds cs text' \<and> bytes text' = bytes text \<and>
      holds (take (nat stop - nat start) (drop (nat start) cs)) (slice_text slice text')
    else minyar_text_slice text start stop =
      minyar_stop ''a Text slice must stay within the Text and end after it starts.''"
proof -
  obtain t1 where t1: "ensure_text_index text = Inr t1" "indexed cs t1" "bytes t1 = bytes text"
    using ensure_text_index_correct [OF assms] by blast
  have len: "character_length t1 = int (length cs)" using t1(2) by (simp add: indexed_def)
  show ?thesis
  proof (cases "0 \<le> start \<and> start \<le> stop \<and> stop \<le> int (length cs)")
    case True
    then have ab: "nat start \<le> nat stop" "nat stop \<le> length cs" by auto
    obtain t2 where t2: "slice_bytes t1 (nat start) (nat stop) = Inr (offset cs (nat start), offset cs (nat stop), t2)"
      "indexed cs t2" "bytes t2 = bytes t1"
      using slice_bytes_correct [OF t1(2) ab] by blast
    then show ?thesis using True len t1 share_slice_holds [OF t2(2) ab]
      by (simp add: minyar_text_slice_def) (simp add: holds_def)
  next
    case False
    then show ?thesis using len by (auto simp: minyar_text_slice_def t1(1))
  qed
qed

theorem text_slice_correct_witness:
  "\<exists>slice text'. minyar_text_slice sample_text 1 3 = Inr (slice, text') \<and>
     holds [0xe9, 0x20ac] (slice_text slice text')"
  using text_slice_correct [OF sample_text_holds, of 1 3] by (auto simp: nat_numeral)

text \<open>
  C18. Bytes that are not UTF-8 never yield a character: the first operation on such a \<open>Text\<close> that
  needs its characters stops with the UTF-8 message (a negative position is reported first).
\<close>

theorem text_invalid_stops:
  assumes "\<nexists>cs. spells cs (bytes text)" "character_length text = -1"
  shows "minyar_text_length text = invalid_utf8 \<and>
    (0 \<le> p \<longrightarrow> minyar_text_character_at text p = invalid_utf8) \<and> minyar_text_slice text start stop = invalid_utf8"
  using ensure_text_index_invalid [OF _ assms(1)] assms(2)
  by (simp add: minyar_text_length_def minyar_text_character_at_def character_at_slowly_def minyar_text_slice_def
      invalid_utf8_def)

theorem text_invalid_stops_witness:
  "minyar_text_length (new_text [0xc0, 0x80] (-1)) = invalid_utf8"
proof -
  have "decode_character [0xc0, 0x80] = invalid_utf8" by (simp add: decode_character_def byte_at_def Let_def)
  then have "\<nexists>cs. spells cs (bytes (new_text [0xc0, 0x80] (-1)))"
    by (simp add: new_text_def spells_decode_step)
  then show ?thesis using text_invalid_stops [of "new_text [0xc0, 0x80] (-1)"] by (simp add: new_text_def)
qed

end
