(* ===== verification/Text_Build.thy ===== *)
theory Text_Build
  imports Text_Index
begin

text \<open>
  Making \<open>Text\<close> values (\<open>runtime/minyar_runtime.c\<close>): copies of C strings, joins, the decimal text
  of an \<open>Integer\<close> with its cache, the text of a \<open>Character\<close> and of a \<open>Boolean\<close>, program arguments,
  and what the print functions write. Each operation fills a buffer the way the source does,
  through \<open>copy_bytes\<close> or by storing bytes at a moving position; the lemmas show which characters
  the resulting \<open>Text\<close> holds.
\<close>

section \<open>Buffers\<close>

definition new_bytes :: "nat \<Rightarrow> byte list" where
  "new_bytes n = replicate (n + 1) 0"

definition ascii_bytes :: "string \<Rightarrow> byte list" where
  "ascii_bytes s = map of_char s"

text \<open>A C string is the list of bytes before its terminating zero.\<close>

definition copy_c_text :: "byte list \<Rightarrow> minyar_text" where
  "copy_c_text source =
     (let n = length source; memory = write_at (new_bytes n) 0 (source @ [0]) in
      new_text (take n memory) (-1))"

definition text_as_path :: "minyar_text \<Rightarrow> string + byte list" where
  "text_as_path text =
     (if 0 \<in> set (bytes text) then minyar_stop ''a file path cannot contain a zero byte.''
      else Inr (bytes text))"

section \<open>Equality\<close>

text \<open>\<open>same\<close> is the pointer comparison \<open>left == right\<close>.\<close>

definition minyar_texts_are_equal :: "bool \<Rightarrow> minyar_text \<Rightarrow> minyar_text \<Rightarrow> bool" where
  "minyar_texts_are_equal same left right =
     (same \<or> byte_length left = byte_length right \<and> bytes_are_equal (bytes left) (bytes right) (byte_length left))"

section \<open>Joins\<close>

definition join_too_large :: "string + 'a" where
  "join_too_large = minyar_stop ''the joined Text would be too large.''"

definition join_by_copying :: "minyar_text \<Rightarrow> minyar_text \<Rightarrow> minyar_text" where
  "join_by_copying left right =
     (let n = byte_length left + byte_length right;
          memory = copy_bytes (new_bytes n) 0 (bytes left) (byte_length left);
          memory = copy_bytes memory (byte_length left) (bytes right) (byte_length right);
          memory = memory[n := 0] in
      new_text (take n memory) (-1))"

definition minyar_join_text :: "minyar_text \<Rightarrow> minyar_text \<Rightarrow> string + minyar_text" where
  "minyar_join_text left right =
     (if int (byte_length left) > LLONG_MAX - int (byte_length right) then join_too_large
      else Inr (join_by_copying left right))"

text \<open>
  \<open>rc_reallocate_data\<close> on a data allocation of the given contents; \<open>data->size\<close> is its length.
  The eight bytes are the allocation's own header.
\<close>

definition rc_reallocate_data :: "byte list \<Rightarrow> nat \<Rightarrow> string + byte list" where
  "rc_reallocate_data data new_size =
     (if new_size > SIZE_MAX - 8 then minyar_stop ''the computer ran out of memory.''
      else Inr (take new_size data @ replicate (new_size - length data) 0))"

text \<open>
  \<open>unique\<close> is the test of the ownership word, \<open>aliased\<close> the test \<open>right == left\<close>, \<open>data\<close> the data
  allocation that holds the bytes of \<open>left\<close>. The result is the joined \<open>Text\<close> and the allocation
  its bytes are in; the fallback also gives up one count of \<open>left\<close>.
\<close>

definition minyar_join_text_take_left ::
  "bool \<Rightarrow> bool \<Rightarrow> byte list \<Rightarrow> minyar_text \<Rightarrow> minyar_text \<Rightarrow> string + minyar_text \<times> byte list" where
  "minyar_join_text_take_left unique aliased data left right =
     (if int (byte_length left) > LLONG_MAX - int (byte_length right) then join_too_large
      else
        let left_length = byte_length left; right_length = byte_length right; n = left_length + right_length in
        if unique \<and> backing_length left = None then
          let required = n + 1; capacity = length data;
              grown = (if capacity > SIZE_MAX div 2 then SIZE_MAX else capacity * 2);
              grown = (if grown < required then required else grown) in
          rbind (if required > capacity then rc_reallocate_data data grown else Inr data) (\<lambda>data.
          let right_bytes = (if aliased then data else bytes right);
              data = copy_bytes data left_length right_bytes right_length;
              data = data[n := 0] in
          Inr (left\<lparr>bytes := take n data,
            character_length := (if character_length left \<ge> 0 \<and> character_length right \<ge> 0
              then character_length left + character_length right else -1),
            character_offsets := None\<rparr>, data))
        else
          let result = join_by_copying left right in Inr (result, bytes result @ [0]))"

definition joined_length :: "minyar_text list \<Rightarrow> string + nat" where
  "joined_length parts =
     rfold (\<lambda>n part. if int (byte_length part) > LLONG_MAX - int n then join_too_large
       else Inr (n + byte_length part)) 0 parts"

definition minyar_join_texts :: "minyar_text list \<Rightarrow> string + minyar_text" where
  "minyar_join_texts parts =
     rbind (joined_length parts) (\<lambda>n.
     let (memory, _) = foldl (\<lambda>(memory, place) part.
           (copy_bytes memory place (bytes part) (byte_length part), place + byte_length part))
           (new_bytes n, 0) parts;
         memory = memory[n := 0] in
     Inr (new_text (take n memory) (-1)))"

section \<open>Text of an \<open>Integer\<close>\<close>

text \<open>Digits are stored from the end of a 32-byte buffer towards its start.\<close>

function store_digits :: "nat \<Rightarrow> byte list \<Rightarrow> nat \<Rightarrow> byte list \<times> nat" where
  "store_digits magnitude buffer cursor =
     (let cursor = cursor - 1; buffer = buffer[cursor := of_nat (48 + magnitude mod 10)];
          magnitude = magnitude div 10 in
      if magnitude \<noteq> 0 then store_digits magnitude buffer cursor else (buffer, cursor))"
  by pat_completeness auto
termination by (relation "measure (\<lambda>(magnitude, _, _). magnitude)") auto

definition unsigned_magnitude :: "int \<Rightarrow> nat" where
  "unsigned_magnitude integer =
     nat (if integer < 0 then (0 - integer mod 2 ^ 64) mod 2 ^ 64 else integer mod 2 ^ 64)"

definition format_integer_text :: "int \<Rightarrow> minyar_text" where
  "format_integer_text integer =
     (let (buffer, cursor) = store_digits (unsigned_magnitude integer) (replicate 32 0) 32;
          (buffer, cursor) = (if integer < 0 then (buffer[cursor - 1 := 45], cursor - 1) else (buffer, cursor));
          n = 32 - cursor; memory = write_at (new_bytes n) 0 (bytes_from buffer cursor n);
          memory = memory[n := 0] in
      new_text (take n memory) (int n))"

definition CACHE_LIMIT :: int where
  "CACHE_LIMIT = 32768"

definition minyar_integer_text :: "(nat \<rightharpoonup> minyar_text) \<Rightarrow> int \<Rightarrow> minyar_text \<times> (nat \<rightharpoonup> minyar_text)" where
  "minyar_integer_text integer_cache integer =
     (if integer mod 2 ^ 64 < CACHE_LIMIT then
        let integer_cache = (if integer_cache (nat integer) = None
              then integer_cache(nat integer \<mapsto> format_integer_text integer) else integer_cache) in
        (the (integer_cache (nat integer)), integer_cache)
      else (format_integer_text integer, integer_cache))"

section \<open>Text of a \<open>Character\<close> and of a \<open>Boolean\<close>\<close>

definition encode_character_text :: "int \<Rightarrow> string + minyar_text" where
  "encode_character_text character =
     rbind (encode_character character) (\<lambda>encoded.
     let n = length encoded; memory = write_at (new_bytes n) 0 encoded; memory = memory[n := 0] in
     Inr (new_text (take n memory) (-1)))"

definition minyar_character_text :: "(nat \<rightharpoonup> minyar_text) \<Rightarrow> int \<Rightarrow> string + minyar_text \<times> (nat \<rightharpoonup> minyar_text)" where
  "minyar_character_text ascii_texts character =
     (if character mod 2 ^ 32 < 128 then
        let ascii_texts = (if ascii_texts (nat character) = None
              then ascii_texts(nat character \<mapsto> new_text [word_of_int character] 1) else ascii_texts) in
        Inr (the (ascii_texts (nat character)), ascii_texts)
      else rbind (encode_character_text character) (\<lambda>text. Inr (text, ascii_texts)))"

definition minyar_boolean_text :: "bool \<Rightarrow> minyar_text" where
  "minyar_boolean_text boolean = copy_c_text (ascii_bytes (if boolean then ''true'' else ''false''))"

section \<open>Program arguments\<close>

definition minyar_argument_count :: "byte list list \<Rightarrow> int" where
  "minyar_argument_count saved =
     (let saved_argument_count = int (length saved) in
      if saved_argument_count > 0 then saved_argument_count - 1 else 0)"

definition minyar_argument :: "byte list list \<Rightarrow> int \<Rightarrow> string + minyar_text" where
  "minyar_argument saved position =
     (if position < 0 \<or> position \<ge> minyar_argument_count saved
      then minyar_stop ''a program argument position was outside the argument list.''
      else Inr (copy_c_text (saved ! (nat position + 1))))"

section \<open>Printing\<close>

text \<open>
  Standard output as the bytes written so far; \<open>accepts\<close> is the host's answer to the \<open>fwrite\<close>, \<open>putchar\<close>
  and \<open>fflush\<close> of one line.
\<close>

definition print_line :: "(byte list \<Rightarrow> bool) \<Rightarrow> byte list \<Rightarrow> byte list \<Rightarrow> string + byte list" where
  "print_line accepts out line =
     (if accepts (line @ [10]) then Inr (out @ line @ [10])
      else minyar_stop ''standard output could not be written.'')"

definition minyar_print_text :: "(byte list \<Rightarrow> bool) \<Rightarrow> byte list \<Rightarrow> minyar_text \<Rightarrow> string + byte list" where
  "minyar_print_text accepts out text = print_line accepts out (bytes text)"

definition minyar_print_integer :: "(byte list \<Rightarrow> bool) \<Rightarrow> byte list \<Rightarrow> int \<Rightarrow> string + byte list" where
  "minyar_print_integer accepts out integer = print_line accepts out (ascii_bytes (decimal_int integer))"

definition minyar_print_character :: "(byte list \<Rightarrow> bool) \<Rightarrow> byte list \<Rightarrow> int \<Rightarrow> string + byte list" where
  "minyar_print_character accepts out character = rbind (encode_character character) (print_line accepts out)"

definition minyar_print_boolean :: "(byte list \<Rightarrow> bool) \<Rightarrow> byte list \<Rightarrow> bool \<Rightarrow> string + byte list" where
  "minyar_print_boolean accepts out boolean = print_line accepts out (ascii_bytes (if boolean then ''true'' else ''false''))"

section \<open>What the buffers hold\<close>

declare store_digits.simps [simp del]

lemma length_new_bytes [simp]: "length (new_bytes n) = n + 1"
  by (simp add: new_bytes_def)

lemma bytes_copy_c_text [simp]: "bytes (copy_c_text source) = source"
  by (simp add: copy_c_text_def new_text_def write_at_def Let_def)

lemma filled_buffer: "take (length bs) ((write_at (new_bytes (length bs)) 0 bs)[length bs := x]) = bs"
  by (simp add: write_at_def take_update_swap [symmetric] list_update_append)

lemma holds_new: "spells cs bs \<Longrightarrow> int (length bs) \<le> LLONG_MAX \<Longrightarrow> holds cs (new_text bs (-1))"
  by (simp add: holds_def new_text_def byte_length_def)

lemma holds_spells: "holds cs text \<Longrightarrow> spells cs (bytes text)"
  by (auto simp: holds_def indexed_def)

lemma spells_append: "spells cs bs \<Longrightarrow> spells ds bs' \<Longrightarrow> spells (cs @ ds) (bs @ bs')"
  by (simp add: spells_def)

lemma spells_ascii: "ascii bs \<Longrightarrow> spells (map uint bs) bs"
  using spells_ascii_prefix [of bs "map uint bs" "[]"] by (simp add: spells_simps)

text \<open>
  Two \<open>Text\<close> values compare equal exactly when they hold the same characters (the shortcut for
  identical pointers included).
\<close>

theorem texts_are_equal_correct:
  assumes "holds cs left" "holds ds right" "same \<longrightarrow> left = right"
  shows "minyar_texts_are_equal same left right \<longleftrightarrow> cs = ds"
proof -
  have "minyar_texts_are_equal same left right \<longleftrightarrow> bytes left = bytes right"
    using assms(3) bytes_are_equal_plain [of "length (bytes left)" "bytes left" "bytes right"]
    by (auto simp: minyar_texts_are_equal_def byte_length_def)
  also have "\<dots> \<longleftrightarrow> cs = ds"
    using holds_spells [OF assms(1)] holds_spells [OF assms(2)] spells_unique by (auto simp: spells_def)
  finally show ?thesis .
qed

theorem texts_are_equal_correct_witness:
  "minyar_texts_are_equal False sample_text sample_text"
  using texts_are_equal_correct [OF sample_text_holds sample_text_holds, of False] by simp

subsection \<open>Joins\<close>

lemma joined_bytes:
  assumes "length memory = length bs + length bs' + k" "0 < k"
  shows "take (length bs + length bs') ((write_at (write_at memory 0 bs) (length bs) bs')[length bs + length bs' := x]) = bs @ bs'"
  using assms by (simp add: write_at_def take_update_swap [symmetric] list_update_append)

lemma join_by_copying_text: "join_by_copying left right = new_text (bytes left @ bytes right) (-1)"
proof -
  have "copy_bytes (new_bytes (byte_length left + byte_length right)) 0 (bytes left) (byte_length left) =
      write_at (new_bytes (byte_length left + byte_length right)) 0 (bytes left)" (is "_ = ?first")
    by (subst copy_bytes_plain) (simp_all add: byte_length_def)
  moreover have "copy_bytes ?first (byte_length left) (bytes right) (byte_length right) =
      write_at ?first (byte_length left) (bytes right)"
    by (subst copy_bytes_plain) (simp_all add: byte_length_def)
  ultimately show ?thesis
    using joined_bytes [of "new_bytes (byte_length left + byte_length right)" "bytes left" "bytes right" 1]
    by (simp add: join_by_copying_def new_text_def Let_def byte_length_def)
qed

text \<open>
  C20. Joining two \<open>Text\<close> values gives a \<open>Text\<close> that holds the characters of the first followed by those
  of the second, and stops with the size message exactly when the byte lengths do not sum to
  a \<open>long long\<close>.
\<close>

theorem join_text_correct:
  assumes "holds cs left" "holds ds right"
  shows "if int (byte_length left + byte_length right) \<le> LLONG_MAX
    then \<exists>text. minyar_join_text left right = Inr text \<and> holds (cs @ ds) text
    else minyar_join_text left right = minyar_stop ''the joined Text would be too large.''"
  using holds_new [OF spells_append [OF holds_spells [OF assms(1)] holds_spells [OF assms(2)]]]
  by (auto simp: minyar_join_text_def join_too_large_def join_by_copying_text byte_length_def)

theorem join_text_correct_witness:
  "\<exists>text. minyar_join_text sample_text sample_text = Inr text \<and> holds [0x68, 0xe9, 0x20ac, 0x68, 0xe9, 0x20ac] text"
  using join_text_correct [OF sample_text_holds sample_text_holds]
  by (simp add: sample_text_def new_text_def byte_length_def LLONG_MAX_def)

text \<open>The data allocation of a \<open>Text\<close>: its bytes, room for the terminator, and perhaps spare capacity.\<close>

definition backs :: "byte list \<Rightarrow> minyar_text \<Rightarrow> bool" where
  "backs data text \<longleftrightarrow> take (byte_length text) data = bytes text \<and> byte_length text < length data"

lemma backs_length: "backs data text \<Longrightarrow> byte_length text \<le> length data"
  by (simp add: backs_def)

lemma grown_backs:
  assumes "backs data text" "n \<ge> length data" "n \<le> SIZE_MAX - 8"
  shows "\<exists>data'. rc_reallocate_data data n = Inr data' \<and> backs data' text \<and> length data' = n"
  using assms by (auto simp: rc_reallocate_data_def backs_def)

lemma appended_in_place:
  assumes "backs data left" "byte_length left + k < length data" "k \<le> length source"
  shows "take (byte_length left + k) ((copy_bytes data (byte_length left) source k)[byte_length left + k := x]) =
      bytes left @ take k source"
    "length ((copy_bytes data (byte_length left) source k)[byte_length left + k := x]) = length data"
proof -
  have copy: "copy_bytes data (byte_length left) source k = write_at data (byte_length left) (take k source)"
    using assms by (intro copy_bytes_plain) auto
  show "take (byte_length left + k) ((copy_bytes data (byte_length left) source k)[byte_length left + k := x]) =
      bytes left @ take k source"
    using assms unfolding copy by (simp add: write_at_def backs_def byte_length_def take_update_swap [symmetric] list_update_append)
  show "length ((copy_bytes data (byte_length left) source k)[byte_length left + k := x]) = length data"
    using assms unfolding copy by simp
qed

lemma take_left_bytes:
  assumes "backs data left" "aliased \<longrightarrow> right = left" "length data \<le> 2 ^ 62"
    and n: "n = byte_length left + byte_length right" and small: "int n \<le> LLONG_MAX"
    and owned: "unique" "backing_length left = None"
  shows "\<exists>data'. minyar_join_text_take_left unique aliased data left right =
      Inr (left\<lparr>bytes := bytes left @ bytes right,
        character_length := (if character_length left \<ge> 0 \<and> character_length right \<ge> 0
          then character_length left + character_length right else -1), character_offsets := None\<rparr>, data') \<and>
      take n data' = bytes left @ bytes right \<and> n < length data'"
proof -
  let ?double = "if length data > SIZE_MAX div 2 then SIZE_MAX else length data * 2"
  define grown where "grown = (if ?double < n + 1 then n + 1 else ?double)"
  have "grown \<le> SIZE_MAX - 8" "length data \<le> grown" "n < grown"
    using assms(3) small by (auto simp: grown_def LLONG_MAX_def)
  then obtain data1 where data1: "(if n + 1 > length data then rc_reallocate_data data grown else Inr data) = Inr data1"
    "backs data1 left" "n < length data1"
    using grown_backs [OF assms(1), of grown] assms(1) by (cases "n + 1 > length data") auto
  define source where "source = (if aliased then data1 else bytes right)"
  have source: "byte_length right \<le> length source" "take (byte_length right) source = bytes right"
    using data1(2,3) assms(2) n by (auto simp: source_def backs_def byte_length_def)
  define data2 where "data2 = (copy_bytes data1 (byte_length left) source (byte_length right))[n := 0]"
  have data2: "take n data2 = bytes left @ bytes right" "length data2 = length data1"
    using appended_in_place [OF data1(2), of "byte_length right" source 0] data1(3) source n by (simp_all add: data2_def)
  have guard: "\<not> int (byte_length left) > LLONG_MAX - int (byte_length right)" using small n by simp
  have "minyar_join_text_take_left unique aliased data left right =
      Inr (left\<lparr>bytes := take n data2,
        character_length := (if character_length left \<ge> 0 \<and> character_length right \<ge> 0
          then character_length left + character_length right else -1), character_offsets := None\<rparr>, data2)"
    unfolding minyar_join_text_take_left_def Let_def n [symmetric] grown_def [symmetric] data1(1)
    by (simp only: guard owned simp_thms if_True if_False rbind_simps source_def [symmetric] data2_def [symmetric])
  then show ?thesis using data2 data1(3) by simp
qed

lemma holds_ascii_length:
  "holds cs text \<Longrightarrow> character_offsets text = None \<Longrightarrow> character_length text \<ge> 0 \<Longrightarrow>
    character_length text = int (byte_length text) \<and> length cs = byte_length text"
  by (auto simp: holds_def indexed_def)

text \<open>
  C21. Consuming an owned left operand gives the same characters as copying, also when both operands
  are the same \<open>Text\<close>, provided that neither operand has an index (which only a \<open>Text\<close> that is not ASCII and whose
  length was asked for has).
\<close>

theorem join_take_left_correct:
  assumes "holds cs left" "holds ds right" "backs data left" "length data \<le> 2 ^ 62" "aliased \<longrightarrow> right = left"
    and "int (byte_length left + byte_length right) \<le> LLONG_MAX"
    and "character_offsets left = None" "character_offsets right = None"
  shows "\<exists>text data'. minyar_join_text_take_left unique aliased data left right = Inr (text, data') \<and>
    holds (cs @ ds) text \<and> backs data' text"
proof -
  have s: "spells (cs @ ds) (bytes left @ bytes right)"
    by (rule spells_append) (rule holds_spells [OF assms(1)], rule holds_spells [OF assms(2)])
  show ?thesis
  proof (cases "unique \<and> backing_length left = None")
    case True
    let ?text = "left\<lparr>bytes := bytes left @ bytes right,
        character_length := (if character_length left \<ge> 0 \<and> character_length right \<ge> 0
          then character_length left + character_length right else -1), character_offsets := None\<rparr>"
    obtain data' where data': "minyar_join_text_take_left unique aliased data left right = Inr (?text, data')"
      "take (byte_length left + byte_length right) data' = bytes left @ bytes right"
      "byte_length left + byte_length right < length data'"
      using take_left_bytes [OF assms(3,5,4) refl assms(6)] True by blast
    have "holds (cs @ ds) ?text"
      using s assms(6) holds_ascii_length [OF assms(1,7)] holds_ascii_length [OF assms(2,8)]
      by (simp add: holds_def indexed_def byte_length_def)
    moreover have "backs data' ?text" using data'(2,3) by (simp add: backs_def byte_length_def)
    ultimately show ?thesis using data'(1) by blast
  next
    case False
    then have "minyar_join_text_take_left unique aliased data left right =
        Inr (join_by_copying left right, bytes (join_by_copying left right) @ [0])"
      using assms(6) by (auto simp: minyar_join_text_take_left_def Let_def)
    moreover have "holds (cs @ ds) (join_by_copying left right)"
      unfolding join_by_copying_text using s assms(6) by (intro holds_new) (simp_all add: byte_length_def)
    ultimately show ?thesis by (simp add: backs_def byte_length_def)
  qed
qed

theorem join_take_left_correct_witness:
  "\<exists>text data'. minyar_join_text_take_left True False (bytes sample_text @ [0]) sample_text sample_text = Inr (text, data') \<and>
    holds [0x68, 0xe9, 0x20ac, 0x68, 0xe9, 0x20ac] text \<and> backs data' text"
  using join_take_left_correct [OF sample_text_holds sample_text_holds, of "bytes sample_text @ [0]" False True]
  by (simp add: sample_text_def new_text_def byte_length_def LLONG_MAX_def backs_def)

text \<open>
  Without that proviso the operation is wrong. The sum of two known lengths is kept while the index
  of a non-ASCII left operand is discarded, and a \<open>Text\<close> with a known length and no index is
  read as ASCII: joining an indexed \<open>Text\<close> of the one character U+00E9 with \<open>5\<close> gives a \<open>Text\<close> whose
  first character reads as U+00C3, the first byte of its encoding.
\<close>

definition indexed_left :: minyar_text where
  "indexed_left = \<lparr>bytes = [0xc3, 0xa9], character_length = 1, character_offsets = Some [0, 0, 0], backing_length = None\<rparr>"


subsection \<open>Joining a list\<close>

lemma joined_length_total:
  assumes "int n \<le> LLONG_MAX"
  shows "rfold (\<lambda>n part. if int (byte_length part) > LLONG_MAX - int n then join_too_large
      else Inr (n + byte_length part)) n parts =
    (if int (n + length (concat (map bytes parts))) \<le> LLONG_MAX then Inr (n + length (concat (map bytes parts)))
     else join_too_large)"
  using assms
proof (induction parts arbitrary: n)
  case (Cons part parts)
  show ?case
  proof (cases "int (byte_length part) > LLONG_MAX - int n")
    case True
    then show ?thesis by (simp add: join_too_large_def byte_length_def)
  next
    case False
    then show ?thesis using Cons.IH [of "n + byte_length part"] by (simp add: byte_length_def add.assoc)
  qed
qed simp

lemma write_at_write_at:
  assumes "place + length bs + length bs' \<le> length memory"
  shows "write_at (write_at memory place bs) (place + length bs) bs' = write_at memory place (bs @ bs')"
  using assms by (simp add: write_at_def ac_simps)

lemma copied_parts:
  assumes "place + length (concat (map bytes parts)) \<le> length memory"
  shows "foldl (\<lambda>(memory, place) part. (copy_bytes memory place (bytes part) (byte_length part), place + byte_length part))
      (memory, place) parts =
    (write_at memory place (concat (map bytes parts)), place + length (concat (map bytes parts)))"
  using assms
proof (induction parts arbitrary: memory place)
  case Nil
  then show ?case by (simp add: write_at_def)
next
  case (Cons part parts)
  let ?memory = "write_at memory place (bytes part)"
  have "copy_bytes memory place (bytes part) (byte_length part) = ?memory"
    using Cons.prems by (subst copy_bytes_plain) (auto simp: byte_length_def)
  moreover have "write_at ?memory (place + length (bytes part)) (concat (map bytes parts)) =
      write_at memory place (concat (map bytes (part # parts)))"
    using Cons.prems by (subst write_at_write_at) simp_all
  ultimately show ?case using Cons.IH [of "place + length (bytes part)" ?memory] Cons.prems
    by (simp add: byte_length_def add.assoc)
qed

lemma spells_concat: "list_all2 holds css parts \<Longrightarrow> spells (concat css) (concat (map bytes parts))"
proof (induction rule: list_all2_induct)
  case (Cons cs css part parts)
  then show ?case using spells_append [OF holds_spells] by simp
qed (simp add: spells_simps)

text \<open>
  Joining a list of \<open>Text\<close> values gives the concatenation of their characters in order, in one
  buffer of exactly the total size, and stops with the size message exactly when the total
  is not a \<open>long long\<close>.
\<close>

theorem join_texts_correct:
  assumes "list_all2 holds css parts"
  shows "if int (length (concat (map bytes parts))) \<le> LLONG_MAX
    then \<exists>text. minyar_join_texts parts = Inr text \<and> holds (concat css) text
    else minyar_join_texts parts = minyar_stop ''the joined Text would be too large.''"
proof (cases "int (length (concat (map bytes parts))) \<le> LLONG_MAX")
  case True
  let ?all = "concat (map bytes parts)"
  have "joined_length parts = Inr (length ?all)"
    using joined_length_total [of 0 parts] True by (simp add: joined_length_def LLONG_MAX_def)
  then have "minyar_join_texts parts = Inr (new_text ?all (-1))"
    using copied_parts [of 0 parts "new_bytes (length ?all)"] filled_buffer [of ?all 0]
    by (simp add: minyar_join_texts_def Let_def)
  moreover have "holds (concat css) (new_text ?all (-1))"
    by (rule holds_new [OF spells_concat [OF assms] True])
  ultimately show ?thesis using True by simp
next
  case False
  then show ?thesis using joined_length_total [of 0 parts]
    by (simp add: minyar_join_texts_def joined_length_def join_too_large_def LLONG_MAX_def)
qed

theorem join_texts_correct_witness:
  "\<exists>text. minyar_join_texts [sample_text, sample_text] = Inr text \<and> holds [0x68, 0xe9, 0x20ac, 0x68, 0xe9, 0x20ac] text"
  using join_texts_correct [of "[[0x68, 0xe9, 0x20ac], [0x68, 0xe9, 0x20ac]]" "[sample_text, sample_text]"] sample_text_holds
  by (simp add: sample_text_def new_text_def LLONG_MAX_def)

subsection \<open>Decimal text\<close>

lemma length_decimal_nat: "m < 10 ^ Suc k \<Longrightarrow> length (decimal_nat m) \<le> Suc k"
proof (induction k arbitrary: m)
  case 0
  then show ?case by (simp add: decimal_nat.simps)
next
  case (Suc k)
  then have "m div 10 < 10 ^ Suc k" by (simp add: less_mult_imp_div_less mult.commute)
  with Suc.IH show ?case by (simp add: decimal_nat.simps [of m])
qed

lemma decimal_nat_nonempty [simp]: "decimal_nat m \<noteq> []"
  by (simp add: decimal_nat.simps [of m])

lemma of_char_digit: "d < 10 \<Longrightarrow> (of_char (digit_char d) :: byte) = of_nat (48 + d)"
proof -
  assume "d < 10"
  then have "of_char (digit_char d) = 48 + d" by (simp add: digit_char_def)
  then show ?thesis by (metis of_nat_of_char)
qed

lemma store_digits_correct:
  "length (decimal_nat m) \<le> cursor \<Longrightarrow> cursor \<le> length buffer \<Longrightarrow>
    store_digits m buffer cursor =
      (write_at buffer (cursor - length (decimal_nat m)) (ascii_bytes (decimal_nat m)), cursor - length (decimal_nat m))"
proof (induction m buffer cursor rule: store_digits.induct)
  case (1 m buffer cursor)
  have stored: "buffer[cursor - 1 := of_nat (48 + m mod 10)] = write_at buffer (cursor - 1) (ascii_bytes [digit_char (m mod 10)])"
    if "0 < cursor"
    using that 1(3) by (simp add: ascii_bytes_def of_char_digit write_at_def upd_conv_take_nth_drop)
  show ?case
  proof (cases "m < 10")
    case True
    then show ?thesis using 1(2) stored by (simp add: store_digits.simps [of m] decimal_nat.simps [of m] Let_def)
  next
    case False
    define d where "d = length (decimal_nat (m div 10))"
    have split: "decimal_nat m = decimal_nat (m div 10) @ [digit_char (m mod 10)]" using False by (simp add: decimal_nat.simps [of m])
    have c: "d \<le> cursor - 1" "cursor - 1 \<le> length buffer" "0 < cursor" using 1(2,3) by (simp_all add: split d_def)
    let ?buffer = "write_at buffer (cursor - 1) (ascii_bytes [digit_char (m mod 10)])"
    have "store_digits m buffer cursor = store_digits (m div 10) ?buffer (cursor - 1)"
      unfolding store_digits.simps [of m buffer] Let_def using False stored [OF c(3)] by (simp add: div_eq_0_iff)
    also have "\<dots> = (write_at ?buffer (cursor - 1 - d) (ascii_bytes (decimal_nat (m div 10))), cursor - 1 - d)"
      using 1(1) [OF refl refl refl] False c stored [OF c(3)] 1(3) by (simp add: d_def ascii_bytes_def)
    also have "write_at ?buffer (cursor - 1 - d) (ascii_bytes (decimal_nat (m div 10))) =
        write_at buffer (cursor - 1 - d) (ascii_bytes (decimal_nat m))"
      using c 1(3) by (simp add: write_at_def split ascii_bytes_def d_def)
    finally show ?thesis by (simp add: split d_def)
  qed
qed

lemma unsigned_magnitude_abs: "representable i \<Longrightarrow> unsigned_magnitude i = nat \<bar>i\<bar>"
proof -
  assume r: "representable i"
  show ?thesis
  proof (cases "i < 0")
    case True
    then have "(0 - i mod 2 ^ 64) mod 2 ^ 64 = (- i) mod 2 ^ 64" by (simp add: mod_minus_eq)
    also have "\<dots> = - i" using True r by (simp add: representable_def LLONG_MIN_def LLONG_MAX_def)
    finally show ?thesis using True by (simp add: unsigned_magnitude_def)
  next
    case False
    then show ?thesis using r by (simp add: unsigned_magnitude_def representable_def LLONG_MAX_def)
  qed
qed

lemma written_back: "k + length bs \<le> length m \<Longrightarrow> bytes_from (write_at m k bs) k (length bs) = bs"
  by (simp add: bytes_from_def write_at_def)

lemma digits_fit: "representable i \<Longrightarrow> length (decimal_nat (nat \<bar>i\<bar>)) \<le> 19"
  using length_decimal_nat [of "nat \<bar>i\<bar>" 18]
  by (auto simp: representable_def LLONG_MIN_def LLONG_MAX_def nat_less_iff abs_if)

lemma format_integer_text_eq:
  assumes "representable i"
  shows "format_integer_text i = new_text (ascii_bytes (decimal_int i)) (int (length (decimal_int i)))"
    "length (decimal_int i) \<le> 20"
proof -
  define ds where "ds = ascii_bytes (decimal_nat (nat \<bar>i\<bar>))"
  define cursor where "cursor = 32 - length ds"
  define buffer where "buffer = write_at (replicate 32 (0 :: byte)) cursor ds"
  have ds: "length ds \<le> 19" using digits_fit [OF assms] by (simp add: ds_def ascii_bytes_def)
  have store: "store_digits (unsigned_magnitude i) (replicate 32 0) 32 = (buffer, cursor)"
    using store_digits_correct [of "nat \<bar>i\<bar>" 32 "replicate 32 0"] ds
    by (simp add: unsigned_magnitude_abs [OF assms] ds_def ascii_bytes_def cursor_def buffer_def)
  show "length (decimal_int i) \<le> 20" using digits_fit [OF assms] by (auto simp: decimal_int_def abs_if)
  show "format_integer_text i = new_text (ascii_bytes (decimal_int i)) (int (length (decimal_int i)))"
  proof (cases "i < 0")
    case True
    let ?signed = "45 # ds"
    have signed: "ascii_bytes (decimal_int i) = ?signed" using True by (simp add: decimal_int_def ds_def ascii_bytes_def)
    have "31 - length ds < 32 - length ds" using ds by simp
    then have "buffer[cursor - 1 := 45] = write_at (replicate 32 0) (cursor - 1) ?signed"
      using ds by (simp add: buffer_def cursor_def write_at_def list_update_append take_replicate drop_replicate
          upd_conv_take_nth_drop)
    moreover have "32 - (cursor - 1) = length ?signed" using ds by (simp add: cursor_def)
    moreover have "bytes_from (write_at (replicate 32 0) (cursor - 1) ?signed) (cursor - 1) (length ?signed) = ?signed"
      using ds by (intro written_back) (simp add: cursor_def)
    ultimately have "format_integer_text i = new_text ?signed (int (length ?signed))"
      using True store filled_buffer [of ?signed 0] by (simp add: format_integer_text_def Let_def)
    then show ?thesis using signed by (metis ascii_bytes_def length_map)
  next
    case False
    have signed: "ascii_bytes (decimal_int i) = ds" using False by (simp add: decimal_int_def ds_def)
    have "bytes_from buffer cursor (length ds) = ds" unfolding buffer_def
      using ds by (intro written_back) (simp add: cursor_def)
    moreover have "32 - cursor = length ds" using ds by (simp add: cursor_def)
    ultimately have "format_integer_text i = new_text ds (int (length ds))"
      using False store filled_buffer [of ds 0] by (simp add: format_integer_text_def Let_def)
    then show ?thesis using signed by (metis ascii_bytes_def length_map)
  qed
qed

lemma ascii_digit: "d < 10 \<Longrightarrow> uint (of_char (digit_char d) :: byte) < 128"
  unfolding of_char_digit by (subst unsigned_of_nat) (simp add: take_bit_nat_eq_self)

lemma ascii_decimal_nat: "ascii (ascii_bytes (decimal_nat m))"
proof (induction m rule: decimal_nat.induct)
  case (1 m)
  then show ?case by (subst decimal_nat.simps) (auto simp: ascii_bytes_def ascii_digit)
qed

lemma ascii_decimal_int: "ascii (ascii_bytes (decimal_int i))"
  using ascii_decimal_nat by (auto simp: decimal_int_def ascii_bytes_def)

definition characters_of :: "string \<Rightarrow> int list" where
  "characters_of s = map (\<lambda>c. uint (of_char c :: byte)) s"

lemma holds_ascii_known:
  assumes "ascii bs" "int (length bs) \<le> LLONG_MAX"
  shows "holds (map uint bs) (new_text bs (int (length bs)))"
  using spells_ascii [OF assms(1)] assms(2) by (simp add: holds_def indexed_def new_text_def byte_length_def)

lemma format_integer_text_holds:
  assumes "representable i"
  shows "holds (characters_of (decimal_int i)) (format_integer_text i)"
proof -
  have "int (length (ascii_bytes (decimal_int i))) \<le> LLONG_MAX"
    using format_integer_text_eq(2) [OF assms] by (simp add: ascii_bytes_def LLONG_MAX_def)
  then show ?thesis
    using holds_ascii_known [OF ascii_decimal_int, of i] format_integer_text_eq(1) [OF assms]
    by (simp add: ascii_bytes_def characters_of_def comp_def)
qed

text \<open>The cache holds, at each index, the text of that \<open>Integer\<close>.\<close>

definition cache_ok :: "(nat \<rightharpoonup> minyar_text) \<Rightarrow> bool" where
  "cache_ok cache \<longleftrightarrow> (\<forall>k text. cache k = Some text \<longrightarrow> int k < CACHE_LIMIT \<and> text = format_integer_text (int k))"

lemma cache_okD: "cache_ok cache \<Longrightarrow> cache (nat i) = Some text \<Longrightarrow> 0 \<le> i \<Longrightarrow> text = format_integer_text i"
  unfolding cache_ok_def by (metis int_nat_eq)

lemma unsigned_below:
  assumes "representable i" "0 \<le> n" "n \<le> 2 ^ 62"
  shows "i mod 2 ^ 64 < n \<longleftrightarrow> 0 \<le> i \<and> i < n"
  using unsigned_position [OF assms(1), of "nat n"] assms by (auto simp: LLONG_MAX_def not_le)

text \<open>
  C23. The text of an \<open>Integer\<close> is its decimal numeral, at most twenty characters and so within the
  32-byte buffer, for every \<open>Integer\<close> including the smallest; the cache never changes the answer and
  stays correct.
\<close>

theorem integer_text_correct:
  assumes "representable i" "cache_ok cache"
  shows "\<exists>text cache'. minyar_integer_text cache i = (text, cache') \<and> cache_ok cache' \<and>
    bytes text = ascii_bytes (decimal_int i) \<and> length (bytes text) \<le> 20 \<and> holds (characters_of (decimal_int i)) text"
proof -
  have made: "bytes (format_integer_text i) = ascii_bytes (decimal_int i)" "length (bytes (format_integer_text i)) \<le> 20"
    using format_integer_text_eq [OF assms(1)] by (simp_all add: new_text_def ascii_bytes_def)
  show ?thesis
  proof (cases "i mod 2 ^ 64 < CACHE_LIMIT")
    case True
    then have i: "0 \<le> i" "i < CACHE_LIMIT" using unsigned_below [OF assms(1), of CACHE_LIMIT] by (simp_all add: CACHE_LIMIT_def)
    define cache' where "cache' = (if cache (nat i) = None then cache(nat i \<mapsto> format_integer_text i) else cache)"
    have "cache_ok cache'" "cache' (nat i) = Some (format_integer_text i)"
      using assms(2) i cache_okD [OF assms(2)] by (auto simp: cache_ok_def cache'_def)
    moreover have "minyar_integer_text cache i = (the (cache' (nat i)), cache')"
      using True by (simp add: minyar_integer_text_def Let_def cache'_def)
    ultimately show ?thesis using made format_integer_text_holds [OF assms(1)] by simp
  next
    case False
    then show ?thesis using made format_integer_text_holds [OF assms(1)] assms(2) by (simp add: minyar_integer_text_def)
  qed
qed

theorem integer_text_correct_witness:
  "\<exists>text cache'. minyar_integer_text Map.empty (-42) = (text, cache') \<and> cache_ok cache' \<and> bytes text = ascii_bytes ''-42''"
proof -
  have "decimal_int (-42) = ''-42''" by code_simp
  moreover have "representable (-42)" by (simp add: representable_def LLONG_MIN_def LLONG_MAX_def)
  ultimately show ?thesis using integer_text_correct [of "-42" Map.empty] by (auto simp: cache_ok_def)
qed

subsection \<open>Characters\<close>

definition ascii_texts_ok :: "(nat \<rightharpoonup> minyar_text) \<Rightarrow> bool" where
  "ascii_texts_ok texts \<longleftrightarrow> (\<forall>k text. texts k = Some text \<longrightarrow> k < 128 \<and> text = new_text [of_nat k] 1)"

lemma ascii_texts_okD: "ascii_texts_ok texts \<Longrightarrow> texts (nat c) = Some text \<Longrightarrow> 0 \<le> c \<Longrightarrow> text = new_text [word_of_int c] 1"
  unfolding ascii_texts_ok_def by (metis int_nat_eq of_int_of_nat_eq)

lemma ascii_text_holds: "0 \<le> c \<Longrightarrow> c < 128 \<Longrightarrow> holds [c] (new_text [word_of_int c] 1)"
  by (simp add: holds_def indexed_def new_text_def byte_length_def spells_def form_of_def character_form_def
      scalar_value_def LLONG_MAX_def)

lemma encode_character_text_holds:
  "encode_character_text c =
     (if scalar_value c then Inr (new_text (form_of c) (-1)) else minyar_stop ''this Character is not valid Unicode.'')"
  using filled_buffer [of "form_of c" 0]
  by (simp add: encode_character_text_def encode_character_form form_of_def [symmetric] Let_def)

text \<open>
  The text of a \<open>Character\<close> holds exactly that character, from the shared ASCII table or encoded
  afresh; an \<open>int\<close> that is not a Unicode scalar value stops with the Unicode message.
\<close>

theorem character_text_correct:
  assumes "- (2 ^ 31) \<le> c" "c < 2 ^ 31" "ascii_texts_ok texts"
  shows "if scalar_value c
    then \<exists>text texts'. minyar_character_text texts c = Inr (text, texts') \<and> holds [c] text \<and> ascii_texts_ok texts'
    else minyar_character_text texts c = minyar_stop ''this Character is not valid Unicode.''"
proof (cases "0 \<le> c \<and> c < 128")
  case True
  define texts' where "texts' = (if texts (nat c) = None then texts(nat c \<mapsto> new_text [word_of_int c] 1) else texts)"
  have "ascii_texts_ok texts'" "texts' (nat c) = Some (new_text [word_of_int c] 1)"
    using assms(3) True ascii_texts_okD [OF assms(3)] by (auto simp: ascii_texts_ok_def texts'_def)
  moreover have "minyar_character_text texts c = Inr (the (texts' (nat c)), texts')"
    using True by (simp add: minyar_character_text_def Let_def texts'_def)
  moreover have "scalar_value c" using True by (simp add: scalar_value_def)
  ultimately show ?thesis using ascii_text_holds True by simp
next
  case False
  have "\<not> c mod 2 ^ 32 < 128"
  proof (cases "c < 0")
    case True
    have "(c + 2 ^ 32) mod 2 ^ 32 = c + 2 ^ 32" using assms True by (intro mod_pos_pos_trivial) simp_all
    with assms(1) show ?thesis by simp
  next
    case False
    with \<open>\<not> (0 \<le> c \<and> c < 128)\<close> assms(2) show ?thesis by simp
  qed
  moreover have "scalar_value c \<Longrightarrow> holds [c] (new_text (form_of c) (-1))"
    by (rule holds_new) (auto simp: spells_simps form_of_def character_form_def LLONG_MAX_def)
  ultimately show ?thesis using assms(3) by (simp add: minyar_character_text_def encode_character_text_holds)
qed

theorem character_text_correct_witness:
  "\<exists>text texts'. minyar_character_text Map.empty 0x20ac = Inr (text, texts') \<and> holds [0x20ac] text \<and> ascii_texts_ok texts'"
  using character_text_correct [of "0x20ac" Map.empty] by (simp add: scalar_value_def ascii_texts_ok_def)

subsection \<open>Arguments\<close>

lemma minyar_argument_bytes:
  "0 \<le> position \<Longrightarrow> position < minyar_argument_count saved \<Longrightarrow>
    \<exists>text. minyar_argument saved position = Inr text \<and> bytes text = saved ! (nat position + 1) \<and>
      nat position + 1 < length saved"
  by (auto simp: minyar_argument_def minyar_argument_count_def Let_def split: if_splits)

lemma boolean_text_bytes: "bytes (minyar_boolean_text b) = ascii_bytes (if b then ''true'' else ''false'')"
  by (simp add: minyar_boolean_text_def)

text \<open>
  What is printed for a value is the text of that value and a newline: printing an \<open>Integer\<close>, a
  \<open>Character\<close> or a \<open>Boolean\<close> writes exactly the bytes that printing its \<open>Text\<close> conversion writes, on
  every output, the failing ones included.
\<close>

theorem print_agrees_with_text:
  assumes "representable i" "scalar_value c"
  shows "minyar_print_integer accepts out i = minyar_print_text accepts out (format_integer_text i) \<and>
    minyar_print_character accepts out c = rbind (encode_character_text c) (minyar_print_text accepts out) \<and>
    minyar_print_boolean accepts out b = minyar_print_text accepts out (minyar_boolean_text b)"
  using format_integer_text_eq(1) [OF assms(1)] encode_character_text_holds [of c] encode_form_of [OF assms(2)] assms(2)
  by (simp add: minyar_print_integer_def minyar_print_text_def minyar_print_character_def minyar_print_boolean_def
      boolean_text_bytes new_text_def)

theorem print_agrees_with_text_witness:
  "minyar_print_integer (\<lambda>_. True) [] (-42) = minyar_print_text (\<lambda>_. True) [] (format_integer_text (-42))"
  using print_agrees_with_text [where i = "-42" and c = 65 and accepts = "\<lambda>_. True" and ?out = "[]"]
  by (simp add: representable_def LLONG_MIN_def LLONG_MAX_def scalar_value_def)

end
