(* ===== verification/Pool.thy ===== *)
theory Pool
  imports Guards
begin

unbundle bit_operations_syntax

text \<open>
  The finite heap profile (\<open>runtime/minyar_pool.h\<close>): a buddy allocator over one array. A pointer into
  the pool is its byte offset from \<open>minyar_pool\<close>. A free block holds a doubly linked list node in its
  first bytes; \<open>pool_links\<close> gives the node at an offset. \<open>pool_map\<close> has one byte for every 32 pool bytes:
  order + 1 at the start of a free block, with bit 7 set at the start of an allocated one, zero
  elsewhere. \<open>contents\<close> is what programs store in their blocks; it is moved by \<open>memcpy\<close> only.

  The sanitizer and testing configurations, which add poisoning and step counts, are left out.
\<close>

section \<open>State\<close>

record pool_link =
  previous :: "nat option"
  following :: "nat option"

record pool =
  pool_heap_bytes :: nat
  pool_map :: "nat \<Rightarrow> nat"
  pool_links :: "nat \<Rightarrow> pool_link"
  pool_free :: "nat \<Rightarrow> nat option"
  pool_mask :: "64 word"
  pool_used :: nat
  pool_high_water :: nat
  pool_max_order :: nat
  contents :: "nat \<Rightarrow> 8 word"

abbreviation MINIMUM :: nat where "MINIMUM \<equiv> 32"

definition pool_block_size :: "nat \<Rightarrow> nat" where
  "pool_block_size order = push_bit order MINIMUM"

definition set_map :: "nat \<Rightarrow> nat \<Rightarrow> pool \<Rightarrow> pool" where
  "set_map off v pool = pool\<lparr>pool_map := (pool_map pool)(off div MINIMUM := v)\<rparr>"

definition map_at :: "pool \<Rightarrow> nat \<Rightarrow> nat" where
  "map_at pool off = pool_map pool (off div MINIMUM)"

definition pool_write_link :: "nat \<Rightarrow> pool_link \<Rightarrow> pool \<Rightarrow> pool" where
  "pool_write_link link v pool = pool\<lparr>pool_links := (pool_links pool)(link := v)\<rparr>"

section \<open>Free lists\<close>

definition pool_insert :: "nat \<Rightarrow> nat \<Rightarrow> pool \<Rightarrow> pool" where
  "pool_insert link order pool =
     (let head = pool_free pool order;
          pool = pool_write_link link \<lparr>previous = None, following = head\<rparr> pool;
          pool = (case head of None \<Rightarrow> pool
            | Some h \<Rightarrow> pool_write_link h ((pool_links pool h)\<lparr>previous := Some link\<rparr>) pool);
          pool = pool\<lparr>pool_free := (pool_free pool)(order := Some link)\<rparr>;
          pool = pool\<lparr>pool_mask := pool_mask pool OR push_bit order 1\<rparr> in
      set_map link (order + 1) pool)"

definition pool_remove :: "nat \<Rightarrow> nat \<Rightarrow> pool \<Rightarrow> pool" where
  "pool_remove link order pool =
     (let v = pool_links pool link;
          pool = (case previous v of
              Some p \<Rightarrow> pool_write_link p ((pool_links pool p)\<lparr>following := following v\<rparr>) pool
            | None \<Rightarrow> pool\<lparr>pool_free := (pool_free pool)(order := following v)\<rparr>);
          pool = (case following v of
              Some n \<Rightarrow> pool_write_link n ((pool_links pool n)\<lparr>previous := previous v\<rparr>) pool
            | None \<Rightarrow> pool);
          pool = (if pool_free pool order = None
            then pool\<lparr>pool_mask := pool_mask pool AND NOT (push_bit order 1)\<rparr> else pool) in
      set_map link 0 pool)"

text \<open>The order of the whole heap.\<close>

function grow_order :: "nat \<Rightarrow> nat \<Rightarrow> nat \<Rightarrow> nat \<times> nat" where
  "grow_order limit block_size order =
     (if 0 < block_size \<and> block_size < limit then grow_order limit (2 * block_size) (order + 1)
      else (block_size, order))"
  by pat_completeness auto
termination by (relation "measure (\<lambda>(limit, block_size, _). limit - block_size)") auto

definition minyar_pool_initialize :: "nat \<Rightarrow> pool" where
  "minyar_pool_initialize heap_bytes =
     (let (_, max_order) = grow_order heap_bytes MINIMUM 0 in
      pool_insert 0 max_order
        \<lparr>pool_heap_bytes = heap_bytes, pool_map = (\<lambda>_. 0), pool_links = (\<lambda>_. \<lparr>previous = None, following = None\<rparr>),
         pool_free = (\<lambda>_. None), pool_mask = 0, pool_used = 0, pool_high_water = 0, pool_max_order = max_order,
         contents = (\<lambda>_. 0)\<rparr>)"

section \<open>Allocation\<close>

text \<open>\<open>__builtin_ctzll\<close> of a nonzero word.\<close>

definition ctzll :: "64 word \<Rightarrow> nat" where
  "ctzll w = length (takeWhile (\<lambda>k. \<not> bit w k) [0..<64])"

fun split_block :: "nat \<Rightarrow> nat \<Rightarrow> nat \<Rightarrow> pool \<Rightarrow> pool" where
  "split_block off 0 order pool = pool"
| "split_block off (Suc found) order pool =
     (if Suc found > order
      then split_block off found order (pool_insert (off + pool_block_size found) found pool)
      else pool)"

definition raise_used :: "nat \<Rightarrow> pool \<Rightarrow> pool" where
  "raise_used n pool =
     (let used = pool_used pool + n in
      pool\<lparr>pool_used := used,
        pool_high_water := (if used > pool_high_water pool then used else pool_high_water pool)\<rparr>)"

definition minyar_pool_try_allocate :: "nat \<Rightarrow> pool \<Rightarrow> (nat \<times> pool) option" where
  "minyar_pool_try_allocate n pool =
     (if n > pool_heap_bytes pool then None
      else
        let (block_size, order) = grow_order n MINIMUM 0;
            available = pool_mask pool AND push_bit order (NOT 0) in
        if available = 0 then None
        else
          let found = ctzll available; result = the (pool_free pool found);
              pool = pool_remove result found pool;
              pool = split_block result found order pool;
              pool = set_map result (0x80 OR (order + 1)) pool in
          Some (result, raise_used block_size pool))"

definition exhausted :: "string + 'a" where
  "exhausted = minyar_stop ''the bounded heap is exhausted (including pending cleanup and fragmentation).''"

definition minyar_pool_allocate :: "nat \<Rightarrow> pool \<Rightarrow> string + nat \<times> pool" where
  "minyar_pool_allocate n pool =
     (case minyar_pool_try_allocate n pool of None \<Rightarrow> exhausted | Some r \<Rightarrow> Inr r)"

section \<open>Release\<close>

text \<open>The pointer is an offset from \<open>minyar_pool\<close> that may lie outside the pool.\<close>

definition pool_allocated_order :: "int \<Rightarrow> pool \<Rightarrow> string + nat" where
  "pool_allocated_order pointer pool =
     (if pointer < 0 \<or> pointer \<ge> int (pool_heap_bytes pool) \<or> pointer mod int MINIMUM \<noteq> 0
      then minyar_stop ''an invalid bounded-heap allocation was released.''
      else
        let state = map_at pool (nat pointer) in
        if state AND 0x80 = 0 then minyar_stop ''a bounded-heap allocation was released twice.''
        else Inr ((state AND 0x7f) - 1))"

lemma pool_remove_max_order [simp]: "pool_max_order (pool_remove link order pool) = pool_max_order pool"
  by (simp add: pool_remove_def pool_write_link_def set_map_def Let_def split: option.splits)

function merge_buddies :: "nat \<Rightarrow> nat \<Rightarrow> pool \<Rightarrow> nat \<times> nat \<times> pool" where
  "merge_buddies off order pool =
     (if order < pool_max_order pool then
        let buddy = off XOR pool_block_size order in
        if map_at pool buddy \<noteq> order + 1 then (off, order, pool)
        else merge_buddies (if buddy < off then buddy else off) (order + 1) (pool_remove buddy order pool)
      else (off, order, pool))"
  by pat_completeness auto

termination
  by (relation "measure (\<lambda>(_, order, pool). pool_max_order pool - order)") auto

definition minyar_pool_deallocate :: "int option \<Rightarrow> pool \<Rightarrow> string + pool" where
  "minyar_pool_deallocate pointer pool =
     (case pointer of None \<Rightarrow> Inr pool
      | Some pointer \<Rightarrow>
          rbind (pool_allocated_order pointer pool) (\<lambda>order.
          let pool = pool\<lparr>pool_used := pool_used pool - pool_block_size order\<rparr>;
              pool = set_map (nat pointer) 0 pool;
              (off, order, pool) = merge_buddies (nat pointer) order pool in
          Inr (pool_insert off order pool)))"

section \<open>Resizing\<close>

record pool_resize_plan =
  plan_order :: nat
  plan_wanted :: nat
  plan_capacity :: nat
  plan_target :: nat
  plan_offset :: nat

definition pool_plan_resize :: "int \<Rightarrow> nat \<Rightarrow> pool \<Rightarrow> string + pool_resize_plan" where
  "pool_plan_resize pointer n pool =
     rbind (pool_allocated_order pointer pool) (\<lambda>order.
     if n > pool_heap_bytes pool then exhausted
     else
       let (target, wanted) = grow_order n MINIMUM 0 in
       Inr \<lparr>plan_order = order, plan_wanted = wanted, plan_capacity = pool_block_size order,
         plan_target = target, plan_offset = nat pointer\<rparr>)"

definition upper_buddies_free :: "nat \<Rightarrow> nat \<Rightarrow> nat \<Rightarrow> pool \<Rightarrow> bool" where
  "upper_buddies_free off order wanted pool =
     list_all (\<lambda>k. map_at pool (off + pool_block_size k) = k + 1) [order..<wanted]"

definition remove_upper :: "nat \<Rightarrow> nat \<Rightarrow> nat \<Rightarrow> pool \<Rightarrow> pool" where
  "remove_upper off order wanted pool =
     foldl (\<lambda>pool k. pool_remove (off + pool_block_size k) k pool) pool [order..<wanted]"

definition pool_try_resize_same_base :: "pool_resize_plan \<Rightarrow> pool \<Rightarrow> pool option" where
  "pool_try_resize_same_base plan pool =
     (if plan_wanted plan \<le> plan_order plan then
        let pool = pool\<lparr>pool_used := pool_used pool - (plan_capacity plan - plan_target plan)\<rparr>;
            pool = split_block (plan_offset plan) (plan_order plan) (plan_wanted plan) pool in
        Some (set_map (plan_offset plan) (0x80 OR (plan_wanted plan + 1)) pool)
      else if plan_offset plan AND (plan_target plan - 1) = 0 \<and>
          upper_buddies_free (plan_offset plan) (plan_order plan) (plan_wanted plan) pool then
        let pool = remove_upper (plan_offset plan) (plan_order plan) (plan_wanted plan) pool;
            pool = set_map (plan_offset plan) (0x80 OR (plan_wanted plan + 1)) pool in
        Some (raise_used (plan_target plan - plan_capacity plan) pool)
      else None)"

definition move_contents :: "nat \<Rightarrow> nat \<Rightarrow> nat \<Rightarrow> pool \<Rightarrow> pool" where
  "move_contents target source n pool =
     pool\<lparr>contents := (\<lambda>i. if target \<le> i \<and> i < target + n then contents pool (source + (i - target)) else contents pool i)\<rparr>"

definition minyar_pool_resize :: "int option \<Rightarrow> nat \<Rightarrow> nat \<Rightarrow> pool \<Rightarrow> string + nat \<times> pool" where
  "minyar_pool_resize pointer old_size n pool =
     (case pointer of None \<Rightarrow> minyar_pool_allocate n pool
      | Some pointer \<Rightarrow>
          rbind (pool_plan_resize pointer n pool) (\<lambda>plan.
          case pool_try_resize_same_base plan pool of
            Some pool \<Rightarrow> Inr (nat pointer, pool)
          | None \<Rightarrow>
              rbind (minyar_pool_allocate n pool) (\<lambda>(result, pool).
              let pool = move_contents result (nat pointer) (if old_size < n then old_size else n) pool in
              rbind (minyar_pool_deallocate (Some pointer) pool) (\<lambda>pool. Inr (result, pool)))))"

fun lower_buddies_free :: "nat \<Rightarrow> nat list \<Rightarrow> pool \<Rightarrow> bool" where
  "lower_buddies_free merged [] pool = True"
| "lower_buddies_free merged (k # ks) pool =
     (let buddy = merged XOR pool_block_size k in
      map_at pool buddy = k + 1 \<and> lower_buddies_free (if buddy < merged then buddy else merged) ks pool)"

fun remove_lower :: "nat \<Rightarrow> nat list \<Rightarrow> pool \<Rightarrow> nat \<times> pool" where
  "remove_lower base [] pool = (base, pool)"
| "remove_lower base (k # ks) pool =
     (let buddy = base XOR pool_block_size k in
      remove_lower (if buddy < base then buddy else base) ks (pool_remove buddy k pool))"

definition minyar_pool_try_grow_lower :: "pool_resize_plan \<Rightarrow> pool \<Rightarrow> (nat \<times> pool) option" where
  "minyar_pool_try_grow_lower plan pool =
     (let orders = [plan_order plan..<plan_wanted plan] in
      if lower_buddies_free (plan_offset plan) orders pool then
        let (base, pool) = remove_lower (plan_offset plan) orders pool;
            pool = set_map (plan_offset plan) 0 pool;
            pool = set_map base (0x80 OR (plan_wanted plan + 1)) pool in
        Some (base, raise_used (plan_target plan - plan_capacity plan) pool)
      else None)"

definition minyar_pool_resize_discard :: "int option \<Rightarrow> nat \<Rightarrow> pool \<Rightarrow> string + nat \<times> pool" where
  "minyar_pool_resize_discard pointer n pool =
     (case pointer of None \<Rightarrow> minyar_pool_allocate n pool
      | Some pointer \<Rightarrow>
          rbind (pool_plan_resize pointer n pool) (\<lambda>plan.
          case pool_try_resize_same_base plan pool of
            Some pool \<Rightarrow> Inr (nat pointer, pool)
          | None \<Rightarrow>
              (case (if plan_offset plan AND (plan_target plan - 1) \<noteq> 0
                     then minyar_pool_try_grow_lower plan pool else None) of
                 Some (merged, pool) \<Rightarrow> Inr (merged, pool)
               | None \<Rightarrow>
                   rbind (minyar_pool_allocate n pool) (\<lambda>(result, pool).
                   rbind (minyar_pool_deallocate (Some pointer) pool) (\<lambda>pool. Inr (result, pool))))))"

end
