(* ===== verification/Pool_Invariant.thy ===== *)
theory Pool_Invariant
  imports Pool
begin

text \<open>
  What holds of the bounded heap between operations, and the steps every operation is made of. The
  pool is tiled by blocks; each is free (on the list of its order), allocated, or held by the
  operation in progress. The invariant ties the doubly linked lists, the mask, the map and the
  byte count to that tiling. Six lemmas show that linking, unlinking, claiming, releasing, splitting
  and merging a block keep it.
\<close>

section \<open>Blocks\<close>

lemma block_size: "pool_block_size k = 32 * 2 ^ k"
  by (simp add: pool_block_size_def push_bit_eq_mult)

lemma block_size_pos [simp]: "0 < pool_block_size k"
  by (simp add: block_size)

lemma block_size_Suc: "pool_block_size (Suc k) = 2 * pool_block_size k"
  by (simp add: block_size)

lemma minimum_dvd_size [simp]: "MINIMUM dvd pool_block_size k"
  by (simp add: block_size)

datatype owner = Free | Taken | Held

type_synonym block = "owner \<times> nat \<times> nat"

definition span :: "block \<Rightarrow> nat set" where
  "span b = (case b of (_, off, k) \<Rightarrow> {off..<off + pool_block_size k})"

definition fits :: "nat \<Rightarrow> block \<Rightarrow> bool" where
  "fits M b = (case b of (_, off, k) \<Rightarrow> k \<le> M \<and> pool_block_size k dvd off \<and> off + pool_block_size k \<le> pool_block_size M)"

definition apart :: "block \<Rightarrow> block \<Rightarrow> bool" where
  "apart b b' \<longleftrightarrow> span b \<inter> span b' = {}"

definition tiled :: "nat \<Rightarrow> block set \<Rightarrow> bool" where
  "tiled M B \<longleftrightarrow> (\<forall>b \<in> B. fits M b) \<and> pairwise apart B \<and> (\<Union>b \<in> B. span b) = {0..<pool_block_size M}"

lemma start_in_span [simp]: "off \<in> span (w, off, k)"
  by (simp add: span_def)

lemma apart_sym: "apart b b' \<longleftrightarrow> apart b' b"
  by (simp add: apart_def Int_commute)

lemma pairwise_apart_insert:
  "b \<notin> B \<Longrightarrow> pairwise apart (insert b B) \<longleftrightarrow> (\<forall>b' \<in> B. apart b b') \<and> pairwise apart B"
  unfolding pairwise_insert using apart_sym by blast

lemma tiled_insert:
  assumes "b \<notin> B"
  shows "tiled M (insert b B) \<longleftrightarrow>
    fits M b \<and> (\<forall>b' \<in> B. fits M b') \<and> (\<forall>b' \<in> B. apart b b') \<and> pairwise apart B \<and>
    span b \<union> (\<Union>b \<in> B. span b) = {0..<pool_block_size M}"
  using assms by (auto simp: tiled_def pairwise_apart_insert)

lemma tiled_start:
  assumes "tiled M B" "(w, off, k) \<in> B" "(w', off, k') \<in> B"
  shows "w = w' \<and> k = k'"
proof (rule ccontr)
  assume "\<not> (w = w' \<and> k = k')"
  then have "apart (w, off, k) (w', off, k')" using assms by (auto simp: tiled_def pairwise_def)
  then show False using start_in_span [of off w k] start_in_span [of off w' k'] unfolding apart_def by blast
qed

lemma tiled_fits:
  assumes "tiled M B" "(w, off, k) \<in> B"
  shows "k \<le> M" "pool_block_size k dvd off" "off + pool_block_size k \<le> pool_block_size M" "MINIMUM dvd off"
proof -
  have "fits M (w, off, k)" using assms unfolding tiled_def by blast
  then show "k \<le> M" "pool_block_size k dvd off" "off + pool_block_size k \<le> pool_block_size M" "MINIMUM dvd off"
    using dvd_trans [OF minimum_dvd_size] by (auto simp: fits_def)
qed

lemma retag: "span (w, off, k) = span (w', off, k)" "apart (w, off, k) = apart (w', off, k)"
  "fits M (w, off, k) = fits M (w', off, k)"
  by (auto simp: span_def apart_def fits_def fun_eq_iff)

lemma tiled_retag:
  assumes "tiled M (insert (w, off, k) B)" "(w, off, k) \<notin> B"
  shows "tiled M (insert (w', off, k) B)" "(w', off, k) \<notin> B"
proof -
  show new: "(w', off, k) \<notin> B" using tiled_start [OF assms(1), of w off k w' k] assms(2) by auto
  show "tiled M (insert (w', off, k) B)"
    using assms(1) unfolding tiled_insert [OF assms(2)] tiled_insert [OF new] retag [where w = w and w' = w'] .
qed

subsection \<open>Splitting and merging\<close>

lemma span_halves: "span (w, off, Suc k) = span (w, off, k) \<union> span (w, off + pool_block_size k, k)"
  by (auto simp: span_def block_size_Suc)

lemma apart_halves:
  "apart (w, off, Suc k) b \<longleftrightarrow> apart (w, off, k) b \<and> apart (w, off + pool_block_size k, k) b"
  "apart (w, off, k) (w, off + pool_block_size k, k)"
  by (auto simp: apart_def span_halves) (auto simp: span_def)

lemma not_in_apart: "\<forall>b \<in> B. apart (w, off, k) b \<Longrightarrow> (w, off, k) \<notin> B"
  using start_in_span [of off w k] unfolding apart_def by blast

lemma fits_halves:
  assumes "pool_block_size (Suc k) dvd off"
  shows "fits M (w, off, Suc k) \<longleftrightarrow> fits M (w, off, k) \<and> fits M (w, off + pool_block_size k, k)"
proof -
  have "pool_block_size k dvd off" using assms dvd_mult_right [of 2 "pool_block_size k" off] by (simp add: block_size_Suc)
  moreover have "k < M" if "k \<le> M" "off + pool_block_size k + pool_block_size k \<le> pool_block_size M"
    using that block_size_pos [of M] by (cases "k = M") auto
  ultimately show ?thesis using assms by (auto simp: fits_def block_size_Suc)
qed

lemma tiled_split:
  assumes "tiled M (insert (w, off, Suc k) B)" "(w, off, Suc k) \<notin> B"
  shows "tiled M (insert (w, off, k) (insert (w, off + pool_block_size k, k) B))"
    "(w, off, k) \<notin> insert (w, off + pool_block_size k, k) B" "(w, off + pool_block_size k, k) \<notin> B"
proof -
  note whole = assms(1) [unfolded tiled_insert [OF assms(2)] apart_halves(1) span_halves]
  then have lower_apart: "\<forall>b \<in> B. apart (w, off, k) b" and upper_apart: "\<forall>b \<in> B. apart (w, off + pool_block_size k, k) b"
    by simp_all
  have "pool_block_size (Suc k) dvd off" using whole by (simp add: fits_def)
  note fits = fits_halves [OF this, of M w]
  show upper: "(w, off + pool_block_size k, k) \<notin> B" using upper_apart by (rule not_in_apart)
  show lower: "(w, off, k) \<notin> insert (w, off + pool_block_size k, k) B"
    by (rule not_in_apart) (simp add: lower_apart apart_halves(2))
  show "tiled M (insert (w, off, k) (insert (w, off + pool_block_size k, k) B))"
    unfolding tiled_insert [OF lower]
    using whole fits apart_halves(2) by (simp add: pairwise_apart_insert [OF upper] Un_assoc)
qed

lemma tiled_merge:
  assumes "tiled M (insert (w, off, k) (insert (w, off + pool_block_size k, k) B))"
    "(w, off, k) \<notin> B" "(w, off + pool_block_size k, k) \<notin> B" "pool_block_size (Suc k) dvd off"
  shows "tiled M (insert (w, off, Suc k) B)" "(w, off, Suc k) \<notin> B"
proof -
  have lower: "(w, off, k) \<notin> insert (w, off + pool_block_size k, k) B" using assms(2) by simp
  note whole = assms(1) [unfolded tiled_insert [OF lower]]
  have sep: "\<forall>b \<in> B. apart (w, off, Suc k) b"
    using whole by (simp add: apart_halves(1) pairwise_apart_insert [OF assms(3)])
  then show new: "(w, off, Suc k) \<notin> B" by (rule not_in_apart)
  show "tiled M (insert (w, off, Suc k) B)"
    unfolding tiled_insert [OF new] using whole sep fits_halves [OF assms(4), of M w]
    by (simp add: span_halves pairwise_apart_insert [OF assms(3)] Un_assoc)
qed

section \<open>Doubly linked lists\<close>

text \<open>
  \<open>seg L p h xs q n\<close>: the nodes \<open>xs\<close> are linked in order; the first is \<open>h\<close> and points back to \<open>p\<close>, the last
  is \<open>q\<close> and points on to \<open>n\<close>. An empty segment passes its ends through.
\<close>

fun seg :: "(nat \<Rightarrow> pool_link) \<Rightarrow> nat option \<Rightarrow> nat option \<Rightarrow> nat list \<Rightarrow> nat option \<Rightarrow> nat option \<Rightarrow> bool" where
  "seg L p h [] q n \<longleftrightarrow> p = q \<and> h = n"
| "seg L p h (x # xs) q n \<longleftrightarrow> h = Some x \<and> previous (L x) = p \<and> seg L (Some x) (following (L x)) xs q n"

definition dll :: "(nat \<Rightarrow> pool_link) \<Rightarrow> nat option \<Rightarrow> nat list \<Rightarrow> bool" where
  "dll L h xs \<longleftrightarrow> (\<exists>q. seg L None h xs q None)"

lemma seg_append: "seg L p h (xs @ ys) q n \<longleftrightarrow> (\<exists>q' m. seg L p h xs q' m \<and> seg L q' m ys q n)"
  by (induction xs arbitrary: p h) auto

lemma seg_cong: "(\<And>x. x \<in> set xs \<Longrightarrow> L x = L' x) \<Longrightarrow> seg L p h xs q n = seg L' p h xs q n"
  by (induction xs arbitrary: p h) auto

lemma seg_update [simp]: "x \<notin> set xs \<Longrightarrow> seg (L(x := v)) p h xs q n = seg L p h xs q n"
  by (rule seg_cong) auto

lemma dll_cong: "(\<And>x. x \<in> set xs \<Longrightarrow> L x = L' x) \<Longrightarrow> dll L h xs = dll L' h xs"
  unfolding dll_def using seg_cong [of xs L L'] by simp

lemma dll_head: "dll L h xs \<Longrightarrow> h = (case xs of [] \<Rightarrow> None | x # _ \<Rightarrow> Some x)"
  by (cases xs) (auto simp: dll_def)

text \<open>Redirecting the back pointer of the first node, and the forward pointer of the last.\<close>

definition set_previous :: "nat option \<Rightarrow> nat option \<Rightarrow> (nat \<Rightarrow> pool_link) \<Rightarrow> nat \<Rightarrow> pool_link" where
  "set_previous h v L = (case h of Some x \<Rightarrow> L(x := (L x)\<lparr>previous := v\<rparr>) | None \<Rightarrow> L)"

definition set_following :: "nat option \<Rightarrow> nat option \<Rightarrow> (nat \<Rightarrow> pool_link) \<Rightarrow> nat \<Rightarrow> pool_link" where
  "set_following q v L = (case q of Some x \<Rightarrow> L(x := (L x)\<lparr>following := v\<rparr>) | None \<Rightarrow> L)"

lemma seg_outside:
  "(\<And>x. h' = Some x \<Longrightarrow> x \<notin> set xs) \<Longrightarrow> seg (set_previous h' v L) p h xs q n = seg L p h xs q n"
  "(\<And>x. h' = Some x \<Longrightarrow> x \<notin> set xs) \<Longrightarrow> seg (set_following h' v L) p h xs q n = seg L p h xs q n"
  by (auto intro!: seg_cong simp: set_previous_def set_following_def split: option.splits)

lemma seg_set_previous:
  assumes "seg L p h xs q None" "distinct xs"
  shows "\<exists>q. seg (set_previous h v L) v h xs q None"
proof (cases xs)
  case (Cons x ys)
  then have h: "h = Some x" "seg L (Some x) (following (L x)) ys q None" using assms(1) by auto
  have "seg (set_previous h v L) (Some x) (following (L x)) ys q None"
    using h assms(2) Cons by (subst seg_outside) auto
  then have "seg (set_previous h v L) v h xs q None" using h Cons by (simp add: set_previous_def)
  then show ?thesis by blast
qed (use assms in \<open>auto simp: set_previous_def\<close>)

lemma seg_set_following:
  assumes "seg L None h xs q m" "distinct xs"
  shows "seg (set_following q m' L) None (if xs = [] then m' else h) xs q m'"
proof (cases xs rule: rev_cases)
  case (snoc ys y)
  then have "\<exists>q' m'. seg L None h ys q' m' \<and> seg L q' m' [y] q m" using assms(1) by (simp only: seg_append)
  then obtain q' n where front: "seg L None h ys q' n" and node: "seg L q' n [y] q m" by blast
  then have q: "seg L None h ys q' (Some y)" "previous (L y) = q'" "q = Some y" by simp_all
  have "seg (L(y := (L y)\<lparr>following := m'\<rparr>)) None h ys q' (Some y)" using q assms(2) snoc by simp
  then have "seg (L(y := (L y)\<lparr>following := m'\<rparr>)) None h (ys @ [y]) (Some y) m'"
    unfolding seg_append using q(2) by fastforce
  then show ?thesis using q(3) snoc by (simp add: set_following_def)
qed (use assms in \<open>auto simp: set_following_def\<close>)

text \<open>Linking a new first element, and unlinking an element anywhere in a list.\<close>

lemma dll_insert:
  assumes "dll L h xs" "x \<notin> set xs" "distinct xs"
  shows "dll (set_previous h (Some x) (L(x := \<lparr>previous = None, following = h\<rparr>))) (Some x) (x # xs)"
proof -
  let ?L = "L(x := \<lparr>previous = None, following = h\<rparr>)"
  obtain q where "seg L None h xs q None" using assms(1) by (auto simp: dll_def)
  then have "seg ?L None h xs q None" using assms(2) by simp
  then obtain q' where q': "seg (set_previous h (Some x) ?L) (Some x) h xs q' None"
    using seg_set_previous assms(3) by blast
  have "h \<noteq> Some x" using dll_head [OF assms(1)] assms(2) by (cases xs) auto
  then have "set_previous h (Some x) ?L x = \<lparr>previous = None, following = h\<rparr>"
    by (auto simp: set_previous_def split: option.splits)
  then show ?thesis using q' by (auto simp: dll_def)
qed

lemma dll_unlink:
  assumes "dll L h (xs @ x # ys)" "distinct (xs @ x # ys)"
  shows "dll (set_previous (following (L x)) (previous (L x)) (set_following (previous (L x)) (following (L x)) L))
    (if previous (L x) = None then following (L x) else h) (xs @ ys)"
proof -
  let ?p = "previous (L x)" and ?n = "following (L x)"
  let ?L1 = "set_following ?p ?n L"
  obtain q where front: "seg L None h xs ?p (Some x)" and tail: "seg L (Some x) ?n ys q None"
    using assms(1) by (auto simp: dll_def seg_append)
  have p: "?p = (if xs = [] then None else Some (last xs))"
    using front by (cases xs rule: rev_cases) (auto simp: seg_append)
  have n: "?n = (case ys of [] \<Rightarrow> None | y # _ \<Rightarrow> Some y)" using tail by (cases ys) auto
  have front1: "seg ?L1 None (if xs = [] then ?n else h) xs ?p ?n"
    using seg_set_following [OF front] assms(2) by auto
  have "\<And>y. ?p = Some y \<Longrightarrow> y \<notin> set ys" using p assms(2) by (cases "xs = []") (auto simp: disjoint_iff)
  then have "seg ?L1 (Some x) ?n ys q None" using tail by (subst seg_outside) auto
  then obtain q' where tail2: "seg (set_previous ?n ?p ?L1) ?p ?n ys q' None"
    using seg_set_previous assms(2) by fastforce
  have "seg (set_previous ?n ?p ?L1) None (if xs = [] then ?n else h) xs ?p ?n"
    using front1 n assms(2) by (subst seg_outside) (auto split: list.splits)
  then have "dll (set_previous ?n ?p ?L1) (if xs = [] then ?n else h) (xs @ ys)"
    using tail2 unfolding dll_def seg_append by blast
  moreover have "?p = None \<longleftrightarrow> xs = []" using p by simp
  ultimately show ?thesis by simp
qed

lemma dll_neighbours:
  assumes "dll L h xs" "x \<in> set xs"
  shows "previous (L x) = Some p \<Longrightarrow> p \<in> set xs" "following (L x) = Some n \<Longrightarrow> n \<in> set xs"
proof -
  obtain ys zs where xs: "xs = ys @ x # zs" using split_list [OF assms(2)] by blast
  then obtain q where front: "seg L None h ys (previous (L x)) (Some x)" and tail: "seg L (Some x) (following (L x)) zs q None"
    using assms(1) by (auto simp: dll_def seg_append)
  have "previous (L x) = (if ys = [] then None else Some (last ys))"
    using front by (cases ys rule: rev_cases) (auto simp: seg_append)
  then show "previous (L x) = Some p \<Longrightarrow> p \<in> set xs" using xs by (auto split: if_splits)
  show "following (L x) = Some n \<Longrightarrow> n \<in> set xs" using tail xs by (cases zs) auto
qed

section \<open>The invariant\<close>

definition blocks :: "(nat \<Rightarrow> nat list) \<Rightarrow> (nat \<rightharpoonup> nat) \<Rightarrow> (nat \<times> nat) set \<Rightarrow> block set" where
  "blocks F A H = {(Free, off, k) | off k. off \<in> set (F k)} \<union> {(Taken, off, k) | off k. A off = Some k} \<union>
     {(Held, off, k) | off k. (off, k) \<in> H}"

text \<open>The map byte at an aligned offset.\<close>

definition entry :: "(nat \<Rightarrow> nat list) \<Rightarrow> (nat \<rightharpoonup> nat) \<Rightarrow> nat \<Rightarrow> nat \<Rightarrow> bool" where
  "entry F A off v \<longleftrightarrow>
     (case A off of Some k \<Rightarrow> v = 129 + k
      | None \<Rightarrow> (\<forall>k. off \<in> set (F k) \<longrightarrow> v = k + 1) \<and> ((\<forall>k. off \<notin> set (F k)) \<longrightarrow> v = 0))"

definition lists_ok :: "pool \<Rightarrow> (nat \<Rightarrow> nat list) \<Rightarrow> bool" where
  "lists_ok s F \<longleftrightarrow> (\<forall>k. distinct (F k) \<and> dll (pool_links s) (pool_free s k) (F k)) \<and>
     (\<forall>k < 64. bit (pool_mask s) k \<longleftrightarrow> F k \<noteq> [])"

definition pool_inv :: "pool \<Rightarrow> (nat \<Rightarrow> nat list) \<Rightarrow> (nat \<rightharpoonup> nat) \<Rightarrow> (nat \<times> nat) set \<Rightarrow> bool" where
  "pool_inv s F A H \<longleftrightarrow>
     pool_heap_bytes s = pool_block_size (pool_max_order s) \<and> pool_max_order s \<le> 57 \<and>
     tiled (pool_max_order s) (blocks F A H) \<and> lists_ok s F \<and>
     (\<forall>off. MINIMUM dvd off \<longrightarrow> entry F A off (map_at s off)) \<and>
     pool_used s = (\<Sum>off \<in> dom A. pool_block_size (the (A off)))"

lemma blocks_simps:
  "blocks (F(k := off # F k)) A H = insert (Free, off, k) (blocks F A H)"
  "blocks F A (insert (off, k) H) = insert (Held, off, k) (blocks F A H)"
  "A off = None \<Longrightarrow> blocks F (A(off \<mapsto> k)) H = insert (Taken, off, k) (blocks F A H)"
  by (auto simp: blocks_def)

lemma in_blocks [simp]:
  "(Free, off, k) \<in> blocks F A H \<longleftrightarrow> off \<in> set (F k)"
  "(Taken, off, k) \<in> blocks F A H \<longleftrightarrow> A off = Some k"
  "(Held, off, k) \<in> blocks F A H \<longleftrightarrow> (off, k) \<in> H"
  by (auto simp: blocks_def)

lemma blocks_remove: "off \<in> set (F k) \<Longrightarrow> distinct (F k) \<Longrightarrow>
    blocks F A H = insert (Free, off, k) (blocks (F(k := remove1 off (F k))) A H)"
  by (auto simp: blocks_def)

lemma blocks_release: "A off = Some k \<Longrightarrow> blocks F A H = insert (Taken, off, k) (blocks F (A(off := None)) H)"
  using blocks_simps(3) [of "A(off := None)" off F k H] by (simp add: fun_upd_idem)

subsection \<open>Projections of linking and unlinking\<close>

lemma pool_insert_simps [simp]:
  "pool_links (pool_insert x k s) =
     set_previous (pool_free s k) (Some x) ((pool_links s)(x := \<lparr>previous = None, following = pool_free s k\<rparr>))"
  "pool_free (pool_insert x k s) = (pool_free s)(k := Some x)"
  "pool_mask (pool_insert x k s) = pool_mask s OR push_bit k 1"
  "pool_map (pool_insert x k s) = (pool_map s)(x div MINIMUM := k + 1)"
  "pool_used (pool_insert x k s) = pool_used s"
  "pool_heap_bytes (pool_insert x k s) = pool_heap_bytes s"
  "pool_max_order (pool_insert x k s) = pool_max_order s"
  "contents (pool_insert x k s) = contents s"
  by (simp_all add: pool_insert_def pool_write_link_def set_map_def set_previous_def Let_def split: option.splits)

lemma pool_remove_simps [simp]:
  "pool_links (pool_remove x k s) =
     set_previous (following (pool_links s x)) (previous (pool_links s x))
       (set_following (previous (pool_links s x)) (following (pool_links s x)) (pool_links s))"
  "pool_free (pool_remove x k s) =
     (if previous (pool_links s x) = None then (pool_free s)(k := following (pool_links s x)) else pool_free s)"
  "pool_mask (pool_remove x k s) =
     (if pool_free (pool_remove x k s) k = None then pool_mask s AND NOT (push_bit k 1) else pool_mask s)"
  "pool_map (pool_remove x k s) = (pool_map s)(x div MINIMUM := 0)"
  "pool_used (pool_remove x k s) = pool_used s"
  "pool_heap_bytes (pool_remove x k s) = pool_heap_bytes s"
  "contents (pool_remove x k s) = contents s"
  by (auto simp: pool_remove_def pool_write_link_def set_map_def set_previous_def set_following_def Let_def
      split: option.splits)

lemma aligned_same: "MINIMUM dvd off \<Longrightarrow> MINIMUM dvd off' \<Longrightarrow> off div MINIMUM = off' div MINIMUM \<longleftrightarrow> off = off'"
  by auto

lemma map_at_write:
  assumes "MINIMUM dvd off" "MINIMUM dvd x" "pool_map s' = (pool_map s)(x div MINIMUM := v)"
  shows "map_at s' off = (if off = x then v else map_at s off)"
  using assms aligned_same by (auto simp: map_at_def)

subsection \<open>Steps\<close>

text \<open>A held block is the only one at its start.\<close>

lemma held_alone:
  assumes "pool_inv s F A (insert (off, k) H)"
  shows "A off = None" "off \<notin> set (F k')" "MINIMUM dvd off" "k \<le> pool_max_order s" "map_at s off = 0"
proof -
  have t: "tiled (pool_max_order s) (blocks F A (insert (off, k) H))" using assms by (simp add: pool_inv_def)
  have held: "(Held, off, k) \<in> blocks F A (insert (off, k) H)" by simp
  show a: "A off = None"
  proof (cases "A off")
    case (Some j)
    then show ?thesis using tiled_start [OF t held, of Taken j] by simp
  qed
  show f: "off \<notin> set (F k')" for k' using tiled_start [OF t held, of Free k'] by auto
  show "MINIMUM dvd off" "k \<le> pool_max_order s" using tiled_fits [OF t held] by blast+
  then show "map_at s off = 0" using assms a f by (auto simp: pool_inv_def entry_def)
qed

lemma entry_other:
  "off' \<noteq> off \<Longrightarrow> entry (F(k := off # F k)) A off' v = entry F A off' v"
  "off' \<noteq> off \<Longrightarrow> entry (F(k := remove1 off (F k))) A off' v = entry F A off' v"
  "off' \<noteq> off \<Longrightarrow> entry F (A(off := w)) off' v = entry F A off' v"
  by (auto simp: entry_def in_set_remove1 split: option.splits if_splits)

lemma lists_insert:
  assumes "lists_ok s F" "\<And>k'. off \<notin> set (F k')" "\<And>j j' x. x \<in> set (F j) \<Longrightarrow> x \<in> set (F j') \<Longrightarrow> j = j'" "k < 64"
  shows "lists_ok (pool_insert off k s) (F(k := off # F k))"
proof -
  have d: "distinct (F j)" "dll (pool_links s) (pool_free s j) (F j)" for j using assms(1) by (simp_all add: lists_ok_def)
  have head: "h \<in> set (F k)" if "pool_free s k = Some h" for h using dll_head [OF d(2), of k] that by (cases "F k") auto
  have other: "dll (pool_links (pool_insert off k s)) (pool_free s j) (F j)" if "j \<noteq> k" for j
  proof -
    have same: "pool_links s x = pool_links (pool_insert off k s) x" if "x \<in> set (F j)" for x
    proof -
      have "x \<noteq> off" using that assms(2) by blast
      moreover have "pool_free s k \<noteq> Some x" using that head assms(3) \<open>j \<noteq> k\<close> by blast
      ultimately show ?thesis by (cases "pool_free s k") (simp_all add: set_previous_def)
    qed
    have "dll (pool_links s) (pool_free s j) (F j) = dll (pool_links (pool_insert off k s)) (pool_free s j) (F j)"
      by (rule dll_cong) (rule same)
    then show ?thesis using d(2) [of j] by simp
  qed
  have "dll (pool_links (pool_insert off k s)) (Some off) (off # F k)"
    using dll_insert [OF d(2) assms(2) d(1)] by simp
  moreover have "bit (pool_mask s OR push_bit k 1) j \<longleftrightarrow> bit (pool_mask s) j \<or> j = k" if "j < 64" for j
    using that assms(4) by (auto simp: bit_simps)
  ultimately show ?thesis using assms(1,2) other by (auto simp: lists_ok_def)
qed

lemma inv_lists:
  assumes "pool_inv s F A H"
  shows "lists_ok s F" "x \<in> set (F j) \<Longrightarrow> x \<in> set (F j') \<Longrightarrow> j = j'" "distinct (F j)"
proof -
  have t: "tiled (pool_max_order s) (blocks F A H)" using assms by (simp add: pool_inv_def)
  show "lists_ok s F" using assms by (simp add: pool_inv_def)
  then show "distinct (F j)" by (simp add: lists_ok_def)
  show "x \<in> set (F j) \<Longrightarrow> x \<in> set (F j') \<Longrightarrow> j = j'"
    using tiled_start [OF t, of Free x j Free j'] by simp
qed

lemma inv_insert:
  assumes "pool_inv s F A (insert (off, k) H)" "(off, k) \<notin> H"
  shows "pool_inv (pool_insert off k s) (F(k := off # F k)) A H"
proof -
  note held = held_alone [OF assms(1)]
  have k: "k < 64" using held(4) assms(1) by (simp add: pool_inv_def)
  have "tiled (pool_max_order s) (insert (Free, off, k) (blocks F A H))"
    using assms tiled_retag(1) [of "pool_max_order s" Held off k "blocks F A H" Free]
    by (simp add: pool_inv_def blocks_simps)
  moreover have "lists_ok (pool_insert off k s) (F(k := off # F k))"
    by (rule lists_insert [OF inv_lists(1) [OF assms(1)] held(2) _ k]) (rule inv_lists(2) [OF assms(1)])
  moreover have "entry (F(k := off # F k)) A o' (map_at (pool_insert off k s) o')" if "MINIMUM dvd o'" for o'
  proof (cases "o' = off")
    case True
    then show ?thesis using held map_at_write [OF that held(3), of "pool_insert off k s" s] by (auto simp: entry_def)
  next
    case False
    then show ?thesis using assms(1) that map_at_write [OF that held(3), of "pool_insert off k s" s]
      by (simp add: entry_other pool_inv_def)
  qed
  ultimately show ?thesis using assms(1) by (simp add: pool_inv_def blocks_simps)
qed

lemma lists_remove:
  assumes "lists_ok s F" "off \<in> set (F k)" "\<And>j j' x. x \<in> set (F j) \<Longrightarrow> x \<in> set (F j') \<Longrightarrow> j = j'" "k < 64"
  shows "lists_ok (pool_remove off k s) (F(k := remove1 off (F k)))"
proof -
  have d: "distinct (F j)" "dll (pool_links s) (pool_free s j) (F j)" for j using assms(1) by (simp_all add: lists_ok_def)
  obtain xs ys where split: "F k = xs @ off # ys" using split_list [OF assms(2)] by blast
  have "off \<notin> set xs" using d(1) [of k] split by simp
  then have removed: "remove1 off (F k) = xs @ ys" by (simp add: split remove1_append)
  let ?L = "pool_links (pool_remove off k s)" and ?h = "pool_free (pool_remove off k s) k"
  have main: "dll ?L ?h (xs @ ys)"
    using dll_unlink [of "pool_links s" "pool_free s k" xs off ys] d [of k]
    by (cases "previous (pool_links s off)") (simp_all add: split)
  have same: "pool_links s x = ?L x" if "x \<in> set (F j)" "j \<noteq> k" for j x
  proof -
    have "x \<notin> set (F k)" using that assms(3) by blast
    then have "previous (pool_links s off) \<noteq> Some x" "following (pool_links s off) \<noteq> Some x"
      using dll_neighbours [OF d(2) assms(2)] by blast+
    then show ?thesis by (auto simp: set_previous_def set_following_def split: option.splits)
  qed
  have other: "dll ?L (pool_free s j) (F j)" if "j \<noteq> k" for j
  proof -
    have "dll (pool_links s) (pool_free s j) (F j) = dll ?L (pool_free s j) (F j)"
      by (rule dll_cong) (rule same [OF _ that])
    then show ?thesis using d(2) [of j] by simp
  qed
  have empty: "?h = None \<longleftrightarrow> xs @ ys = []" using dll_head [OF main] by (auto split: list.splits)
  have "bit (pool_mask s AND NOT (push_bit k 1)) j \<longleftrightarrow> bit (pool_mask s) j \<and> j \<noteq> k" if "j < 64" for j
    using that by (auto simp: bit_simps)
  then have mask: "bit (pool_mask (pool_remove off k s)) j \<longleftrightarrow> (F(k := xs @ ys)) j \<noteq> []" if "j < 64" for j
    using that assms(1) empty split by (simp add: lists_ok_def)
  have "pool_free (pool_remove off k s) j = pool_free s j" if "j \<noteq> k" for j using that by simp
  then have "dll ?L (pool_free (pool_remove off k s) j) ((F(k := xs @ ys)) j)" for j
    using main other [of j] by (cases "j = k") (simp_all del: pool_remove_simps)
  moreover have "distinct ((F(k := xs @ ys)) j)" for j using d(1) [of j] d(1) [of k] split by (cases "j = k") simp_all
  ultimately show ?thesis unfolding lists_ok_def removed using mask by blast
qed

lemma inv_remove:
  assumes "pool_inv s F A H" "off \<in> set (F k)"
  shows "pool_inv (pool_remove off k s) (F(k := remove1 off (F k))) A (insert (off, k) H)" "(off, k) \<notin> H"
proof -
  let ?F = "F(k := remove1 off (F k))"
  have t: "tiled (pool_max_order s) (blocks F A H)" using assms(1) by (simp add: pool_inv_def)
  have b: "blocks F A H = insert (Free, off, k) (blocks ?F A H)" using assms inv_lists(3) by (intro blocks_remove) auto
  have al: "MINIMUM dvd off" "k \<le> pool_max_order s" using tiled_fits [OF t, of Free off k] assms(2) by simp_all
  have k: "k < 64" using al(2) assms(1) by (simp add: pool_inv_def)
  have gone: "off \<notin> set (?F k')" for k'
    using inv_lists(2) [OF assms(1,2)] inv_lists(3) [OF assms(1), of k] by (auto simp: in_set_remove1)
  then have "(Free, off, k) \<notin> blocks ?F A H" using in_blocks(1) by blast
  from tiled_retag [OF t [unfolded b] this, of Held]
  have "tiled (pool_max_order s) (blocks ?F A (insert (off, k) H))" and fresh: "(off, k) \<notin> H"
    by (simp_all only: blocks_simps in_blocks not_False_eq_True)
  moreover have "lists_ok (pool_remove off k s) ?F"
    by (rule lists_remove [OF inv_lists(1) [OF assms(1)] assms(2) _ k]) (rule inv_lists(2) [OF assms(1)])
  moreover have "A off = None" using tiled_start [OF t, of Free off k Taken] assms(2) by (cases "A off") auto
  then have "entry ?F A o' (map_at (pool_remove off k s) o')" if "MINIMUM dvd o'" for o'
    using that gone assms(1) map_at_write [OF that al(1), of "pool_remove off k s" s 0]
    by (cases "o' = off") (simp_all add: entry_other pool_inv_def, auto simp: entry_def)
  ultimately show "pool_inv (pool_remove off k s) ?F A (insert (off, k) H)" using assms(1) by (simp add: pool_inv_def)
  show "(off, k) \<notin> H" by (rule fresh)
qed

lemma inv_finite: "pool_inv s F A H \<Longrightarrow> finite (dom A)"
proof -
  assume inv: "pool_inv s F A H"
  then have t: "tiled (pool_max_order s) (blocks F A H)" by (simp add: pool_inv_def)
  have "dom A \<subseteq> {0..<pool_block_size (pool_max_order s)}"
  proof
    fix off assume "off \<in> dom A"
    then obtain k where "(Taken, off, k) \<in> blocks F A H" by auto
    from tiled_fits(3) [OF t this] show "off \<in> {0..<pool_block_size (pool_max_order s)}"
      using block_size_pos [of k] by (simp del: block_size_pos)
  qed
  then show ?thesis by (rule finite_subset) simp
qed

text \<open>Claiming a held block for the program, and taking an allocated one back.\<close>

lemma inv_take:
  assumes "pool_inv s F A (insert (off, k) H)" "(off, k) \<notin> H"
  shows "pool_inv (set_map off (129 + k) (s\<lparr>pool_used := pool_used s + pool_block_size k\<rparr>)) F (A(off \<mapsto> k)) H"
    (is "pool_inv ?s F _ H")
proof -
  note held = held_alone [OF assms(1)]
  have "tiled (pool_max_order s) (insert (Taken, off, k) (blocks F A H))"
    using assms tiled_retag(1) [of "pool_max_order s" Held off k "blocks F A H" Taken]
    by (simp add: pool_inv_def blocks_simps)
  moreover have "entry F (A(off \<mapsto> k)) o' (map_at ?s o')" if "MINIMUM dvd o'" for o'
    using that assms(1) map_at_write [OF that held(3), of ?s s "129 + k"]
    by (cases "o' = off") (simp_all add: entry_other pool_inv_def set_map_def, simp add: entry_def)
  moreover have "(\<Sum>o' \<in> dom (A(off \<mapsto> k)). pool_block_size (the ((A(off \<mapsto> k)) o'))) =
      pool_block_size k + (\<Sum>o' \<in> dom A. pool_block_size (the (A o')))"
  proof -
    have "off \<notin> dom A" using held(1) by auto
    moreover from this have "(\<Sum>o' \<in> dom A. pool_block_size (the ((A(off \<mapsto> k)) o'))) = (\<Sum>o' \<in> dom A. pool_block_size (the (A o')))"
      by (intro sum.cong) auto
    ultimately show ?thesis using inv_finite [OF assms(1)] by simp
  qed
  ultimately show ?thesis using assms(1) held(1) by (simp add: pool_inv_def blocks_simps lists_ok_def set_map_def)
qed

lemma inv_taken:
  assumes "pool_inv s F A H" "A off = Some k"
  shows "MINIMUM dvd off" "k \<le> pool_max_order s" "map_at s off = 129 + k" "off \<notin> set (F k')"
    "off + pool_block_size k \<le> pool_heap_bytes s" "pool_block_size k dvd off"
proof -
  have t: "tiled (pool_max_order s) (blocks F A H)" using assms(1) by (simp add: pool_inv_def)
  have b: "(Taken, off, k) \<in> blocks F A H" using assms(2) by simp
  show al: "MINIMUM dvd off" "k \<le> pool_max_order s" "pool_block_size k dvd off" using tiled_fits [OF t b] by blast+
  have "entry F A off (map_at s off)" using assms(1) al(1) by (simp add: pool_inv_def)
  then show "map_at s off = 129 + k" using assms(2) by (simp add: entry_def)
  show "off + pool_block_size k \<le> pool_heap_bytes s" using tiled_fits(3) [OF t b] assms(1) by (simp add: pool_inv_def)
  show "off \<notin> set (F k')" using tiled_start [OF t b, of Free k'] by auto
qed

lemma inv_release:
  assumes "pool_inv s F A H" "A off = Some k"
  shows "pool_inv (set_map off 0 (s\<lparr>pool_used := pool_used s - pool_block_size k\<rparr>)) F (A(off := None)) (insert (off, k) H)"
    (is "pool_inv ?s F ?A _") and "(off, k) \<notin> H"
proof -
  have t: "tiled (pool_max_order s) (blocks F A H)" using assms(1) by (simp add: pool_inv_def)
  note taken = inv_taken [OF assms]
  have "(Taken, off, k) \<notin> blocks F ?A H" by simp
  from tiled_retag [OF t [unfolded blocks_release [of A, OF assms(2)]] this, of Held]
  have "tiled (pool_max_order s) (blocks F ?A (insert (off, k) H))" and fresh: "(off, k) \<notin> H"
    by (simp_all only: blocks_simps in_blocks not_False_eq_True)
  moreover have "entry F ?A o' (map_at ?s o')" if "MINIMUM dvd o'" for o'
    using that assms(1) taken(4) map_at_write [OF that taken(1), of ?s s 0]
    by (cases "o' = off") (simp_all add: entry_other pool_inv_def set_map_def, simp add: entry_def)
  moreover have "(\<Sum>o' \<in> dom A. pool_block_size (the (A o'))) =
      pool_block_size k + (\<Sum>o' \<in> dom ?A. pool_block_size (the (?A o')))"
  proof -
    have "(\<Sum>o' \<in> dom A. pool_block_size (the (A o'))) = pool_block_size k + (\<Sum>o' \<in> dom A - {off}. pool_block_size (the (A o')))"
      using inv_finite [OF assms(1)] assms(2) by (subst sum.remove [of _ off]) auto
    also have "(\<Sum>o' \<in> dom A - {off}. pool_block_size (the (A o'))) = (\<Sum>o' \<in> dom ?A. pool_block_size (the (?A o')))"
      by (intro sum.cong) auto
    finally show ?thesis .
  qed
  ultimately show "pool_inv ?s F ?A (insert (off, k) H)"
    using assms(1) by (simp add: pool_inv_def lists_ok_def set_map_def)
  show "(off, k) \<notin> H" by (rule fresh)
qed

text \<open>Splitting and merging held blocks changes no state.\<close>

lemma inv_split:
  assumes "pool_inv s F A (insert (off, Suc k) H)" "(off, Suc k) \<notin> H"
  shows "pool_inv s F A (insert (off + pool_block_size k, k) (insert (off, k) H))"
    "(off + pool_block_size k, k) \<notin> insert (off, k) H" "(off, k) \<notin> H"
proof -
  have t: "tiled (pool_max_order s) (insert (Held, off, Suc k) (blocks F A H))"
    using assms(1) by (simp add: pool_inv_def blocks_simps)
  have "(Held, off, Suc k) \<notin> blocks F A H" using assms(2) by simp
  note split = tiled_split [OF t this]
  then show "(off + pool_block_size k, k) \<notin> insert (off, k) H" "(off, k) \<notin> H" by auto
  show "pool_inv s F A (insert (off + pool_block_size k, k) (insert (off, k) H))"
    using split(1) assms(1) by (simp add: pool_inv_def blocks_simps insert_commute)
qed

lemma inv_merge:
  assumes "pool_inv s F A (insert (off, k) (insert (off + pool_block_size k, k) H))"
    "(off, k) \<notin> H" "(off + pool_block_size k, k) \<notin> H" "pool_block_size (Suc k) dvd off"
  shows "pool_inv s F A (insert (off, Suc k) H)" "(off, Suc k) \<notin> H"
proof -
  have t: "tiled (pool_max_order s) (insert (Held, off, k) (insert (Held, off + pool_block_size k, k) (blocks F A H)))"
    using assms(1) by (simp add: pool_inv_def blocks_simps)
  have "(Held, off, k) \<notin> blocks F A H" "(Held, off + pool_block_size k, k) \<notin> blocks F A H" using assms(2,3) by simp_all
  note merge = tiled_merge [OF t this assms(4)]
  then show "(off, Suc k) \<notin> H" by simp
  show "pool_inv s F A (insert (off, Suc k) H)" using merge(1) assms(1) by (simp add: pool_inv_def blocks_simps)
qed

end
