(* ===== verification/Pool_Safe.thy ===== *)
theory Pool_Safe
  imports Pool_Invariant
begin

text \<open>
  Correctness of the bounded heap's operations. What a program holds is read off the map: the allocated
  blocks with their orders. Every operation of \<open>runtime/minyar_pool.h\<close> keeps the heap
  consistent and changes that holding exactly as its name says; the error messages appear exactly on
  the pointers and sizes they are for.
\<close>

declare grow_order.simps [simp del] merge_buddies.simps [simp del]

definition pool_allocation :: "pool \<Rightarrow> nat \<rightharpoonup> nat" where
  "pool_allocation s off =
     (if MINIMUM dvd off \<and> off < pool_heap_bytes s \<and> 128 \<le> map_at s off then Some (map_at s off - 129) else None)"

definition pool_ok :: "pool \<Rightarrow> bool" where
  "pool_ok s \<longleftrightarrow> (\<exists>F A. pool_inv s F A {})"

text \<open>The map byte of a free block of some order.\<close>

definition pool_free_block :: "pool \<Rightarrow> nat \<Rightarrow> nat \<Rightarrow> bool" where
  "pool_free_block s off k \<longleftrightarrow> MINIMUM dvd off \<and> map_at s off = k + 1 \<and> k \<le> pool_max_order s"

lemma inv_order: "pool_inv s F A H \<Longrightarrow> pool_max_order s \<le> 57"
  by (simp add: pool_inv_def)

lemma inv_free_order: "pool_inv s F A H \<Longrightarrow> off \<in> set (F k) \<Longrightarrow> k \<le> pool_max_order s \<and> MINIMUM dvd off"
  using tiled_fits [of "pool_max_order s" "blocks F A H" Free off k] by (simp add: pool_inv_def)

lemma free_map:
  assumes "pool_inv s F A H" "MINIMUM dvd off" "k \<le> 57"
  shows "map_at s off = k + 1 \<longleftrightarrow> off \<in> set (F k)"
proof -
  have e: "entry F A off (map_at s off)" using assms by (simp add: pool_inv_def)
  show ?thesis
  proof (cases "A off")
    case None
    then show ?thesis using e inv_lists(2) [OF assms(1)] by (cases "\<forall>j. off \<notin> set (F j)") (auto simp: entry_def)
  next
    case (Some j)
    then show ?thesis using e assms(3) inv_taken(4) [OF assms(1) Some] by (auto simp: entry_def)
  qed
qed

lemma allocation_eq:
  assumes "pool_inv s F A {}" shows "pool_allocation s = A"
proof
  fix off
  show "pool_allocation s off = A off"
  proof (cases "A off")
    case None
    have "\<not> (MINIMUM dvd off \<and> 128 \<le> map_at s off)"
    proof
      assume a: "MINIMUM dvd off \<and> 128 \<le> map_at s off"
      then have "entry F A off (map_at s off)" using assms by (simp add: pool_inv_def)
      then obtain k where "off \<in> set (F k)" "map_at s off = k + 1" using None a by (cases "\<forall>k. off \<notin> set (F k)") (auto simp: entry_def)
      then show False using inv_free_order [OF assms] inv_order [OF assms] a by fastforce
    qed
    then show ?thesis using None by (auto simp: pool_allocation_def)
  next
    case (Some k)
    note t = inv_taken [OF assms Some]
    have "off < pool_heap_bytes s" using t(5) block_size_pos [of k] by (simp del: block_size_pos)
    then show ?thesis using t Some by (simp add: pool_allocation_def)
  qed
qed

section \<open>Sizes and orders\<close>

lemma grow_order_from:
  assumes "n \<le> pool_block_size M" "j \<le> M"
  shows "\<exists>k. j \<le> k \<and> k \<le> M \<and> grow_order n (pool_block_size j) j = (pool_block_size k, k) \<and> n \<le> pool_block_size k \<and>
    (j < k \<longrightarrow> pool_block_size (k - 1) < n)"
  using assms(2)
proof (induction "M - j" arbitrary: j)
  case 0
  then have "j = M" by simp
  then show ?case using assms(1) by (intro exI [of _ M]) (simp add: grow_order.simps)
next
  case (Suc d)
  show ?case
  proof (cases "pool_block_size j < n")
    case True
    have "d = M - Suc j" "Suc j \<le> M" using Suc(2) by simp_all
    from Suc(1) [OF this] obtain k where k: "Suc j \<le> k" "k \<le> M"
      "grow_order n (pool_block_size (Suc j)) (Suc j) = (pool_block_size k, k)" "n \<le> pool_block_size k"
      "Suc j < k \<longrightarrow> pool_block_size (k - 1) < n" by blast
    have "grow_order n (pool_block_size j) j = (pool_block_size k, k)"
      using True k(3) by (simp add: grow_order.simps [of n "pool_block_size j"] block_size_Suc)
    moreover have "pool_block_size (k - 1) < n" using k(1,5) True by (cases "k = Suc j") auto
    ultimately show ?thesis using k by (intro exI [of _ k]) auto
  next
    case False
    then show ?thesis using Suc(3) by (intro exI [of _ j]) (simp add: grow_order.simps [of n "pool_block_size j"])
  qed
qed

text \<open>The order of a request: the smallest whose block holds it.\<close>

lemma grow_order_least:
  assumes "n \<le> pool_block_size M"
  obtains k where "grow_order n MINIMUM 0 = (pool_block_size k, k)" "k \<le> M" "n \<le> pool_block_size k"
    "0 < k \<longrightarrow> pool_block_size (k - 1) < n"
  using grow_order_from [OF assms, of 0] by (auto simp: block_size)

lemma shifted_and_low:
  fixes x :: nat
  assumes "x < 2 ^ n" shows "push_bit n y AND x = 0"
proof -
  have "x = take_bit n x" using assms by (simp add: take_bit_nat_eq_self)
  then have "push_bit n y AND x = push_bit n y AND take_bit n x" by simp
  also have "\<dots> = 0" by (rule bit_eqI) (auto simp: bit_simps)
  finally show ?thesis .
qed

lemma allocated_byte: "k \<le> 57 \<Longrightarrow> (0x80 :: nat) OR (k + 1) = 129 + k"
  using shifted_and_low [of "k + 1" 7 1] by (simp add: disjunctive_add_eq_or [symmetric])

lemma allocated_order_bits:
  fixes k v :: nat
  shows "k \<le> 57 \<Longrightarrow> (129 + k) AND 0x80 \<noteq> 0" "k \<le> 57 \<Longrightarrow> ((129 + k) AND 0x7f) - 1 = k"
  "v < 128 \<Longrightarrow> v AND 0x80 = (0 :: nat)"
proof -
  show "v < 128 \<Longrightarrow> v AND 0x80 = (0 :: nat)" using shifted_and_low [of v 7 1] by (simp add: and.commute)
  assume k: "k \<le> 57"
  have "(129 + k) div 128 = 1" using k by (intro div_nat_eqI) simp_all
  then have "bit (129 + k) 7" by (simp add: bit_iff_odd)
  then have b: "bit ((129 + k) AND 0x80) 7" by (simp add: bit_simps)
  show "(129 + k) AND 0x80 \<noteq> 0"
  proof
    assume "(129 + k) AND 0x80 = 0"
    with b show False by (simp only: bit_0_eq bot_apply bot_bool_def)
  qed
  have "(129 + k) AND 0x7f = take_bit 7 (129 + k)" by (simp add: take_bit_eq_mask mask_eq_exp_minus_1)
  moreover have "(129 + k) mod 128 = k + 1" using k mod_add_self2 [of "k + 1" 128] by (simp add: add.commute)
  ultimately show "((129 + k) AND 0x7f) - 1 = k" by (simp add: take_bit_eq_mod)
qed

section \<open>Buddies\<close>

lemma buddy_cases:
  assumes "pool_block_size k dvd off"
  shows "pool_block_size (Suc k) dvd off \<and> off XOR pool_block_size k = off + pool_block_size k \<or>
    pool_block_size k \<le> off \<and> pool_block_size (Suc k) dvd off - pool_block_size k \<and>
      off XOR pool_block_size k = off - pool_block_size k"
proof -
  obtain q where q: "off = pool_block_size k * q" using assms by (auto elim: dvdE)
  have shifted: "pool_block_size k * x = push_bit (k + 5) x" for x by (simp add: block_size push_bit_eq_mult power_add)
  have x: "off XOR pool_block_size k = pool_block_size k * (q XOR 1)"
  proof -
    have "off XOR pool_block_size k = push_bit (k + 5) q XOR push_bit (k + 5) 1"
      using shifted [of q] shifted [of 1] q by simp
    also have "\<dots> = push_bit (k + 5) (q XOR 1)" by (rule push_bit_xor [symmetric])
    finally show ?thesis using shifted [of "q XOR 1"] by simp
  qed
  show ?thesis
  proof (cases "even q")
    case True
    then obtain m where "q = 2 * m" by (auto elim: evenE)
    moreover from this have "q XOR 1 = q + 1" unfolding xor_one_eq by simp
    ultimately show ?thesis using x q by (simp add: block_size_Suc)
  next
    case False
    then obtain m where "q = 2 * m + 1" by (auto elim: oddE)
    moreover from this have "q XOR 1 = q - 1" unfolding xor_one_eq by simp
    ultimately show ?thesis using x q by (simp add: block_size_Suc algebra_simps)
  qed
qed

text \<open>Absorbing a free buddy into a held block.\<close>

lemma absorb_buddy:
  assumes "pool_inv s F A {(off, k)}" "k < pool_max_order s" "b = off XOR pool_block_size k" "map_at s b = k + 1"
  shows "\<exists>F'. pool_inv (pool_remove b k s) F' A {(if b < off then b else off, Suc k)}"
proof -
  have t: "tiled (pool_max_order s) (blocks F A {(off, k)})" using assms(1) by (simp add: pool_inv_def)
  have al: "pool_block_size k dvd off" using tiled_fits(2) [OF t, of Held off k] by simp
  have bd: "MINIMUM dvd b" using buddy_cases [OF al] al minimum_dvd_size [of k] assms(3)
    by (metis dvd_add dvd_diff_nat dvd_trans)
  have "b \<in> set (F k)" using free_map [OF assms(1) bd, of k] inv_order [OF assms(1)] assms(2,4) by simp
  note removed = inv_remove [OF assms(1) this]
  let ?F = "F(k := remove1 b (F k))"
  from buddy_cases [OF al] have "pool_inv (pool_remove b k s) ?F A {(if b < off then b else off, Suc k)}"
  proof
    assume c: "pool_block_size (Suc k) dvd off \<and> off XOR pool_block_size k = off + pool_block_size k"
    then have "pool_inv (pool_remove b k s) ?F A (insert (off, k) (insert (off + pool_block_size k, k) {}))"
      using removed(1) assms(3) by (simp add: insert_commute)
    from inv_merge(1) [OF this] c show ?thesis using assms(3) by simp
  next
    assume c: "pool_block_size k \<le> off \<and> pool_block_size (Suc k) dvd off - pool_block_size k \<and>
      off XOR pool_block_size k = off - pool_block_size k"
    then have "pool_inv (pool_remove b k s) ?F A (insert (b, k) (insert (b + pool_block_size k, k) {}))"
      using removed(1) assms(3) by simp
    moreover have "b < off" using c assms(3) block_size_pos [of k] by linarith
    ultimately show ?thesis using inv_merge(1) [of _ _ _ b k "{}"] c assms(3) by simp
  qed
  then show ?thesis by blast
qed

lemma merge_buddies_inv:
  "pool_inv s F A {(off, k)} \<Longrightarrow>
    \<exists>off' k' s' F'. merge_buddies off k s = (off', k', s') \<and> pool_inv s' F' A {(off', k')} \<and> contents s' = contents s"
proof (induction off k s arbitrary: F rule: merge_buddies.induct)
  case (1 off k s)
  let ?b = "off XOR pool_block_size k"
  show ?case
  proof (cases "k < pool_max_order s \<and> map_at s ?b = k + 1")
    case True
    then obtain F' where "pool_inv (pool_remove ?b k s) F' A {(if ?b < off then ?b else off, k + 1)}"
      using absorb_buddy [OF 1(2) _ refl] by auto
    from 1(1) [OF _ refl _ this] True show ?thesis by (simp add: merge_buddies.simps [of off k s] Let_def)
  next
    case False
    then show ?thesis using 1(2) by (auto simp: merge_buddies.simps [of off k s] Let_def)
  qed
qed

lemma split_block_inv:
  "pool_inv s F A {(off, found)} \<Longrightarrow> order \<le> found \<Longrightarrow>
    \<exists>F'. pool_inv (split_block off found order s) F' A {(off, order)} \<and> contents (split_block off found order s) = contents s"
proof (induction found arbitrary: s F)
  case (Suc found)
  show ?case
  proof (cases "Suc found > order")
    case True
    have "pool_inv s F A (insert (off, Suc found) {})" using Suc.prems(1) by simp
    note split = inv_split [OF this]
    have "pool_inv (pool_insert (off + pool_block_size found) found s)
        (F(found := (off + pool_block_size found) # F found)) A {(off, found)}"
      using inv_insert [OF split(1) split(2)] by simp
    from Suc.IH [OF this] True show ?thesis by auto
  next
    case False
    then show ?thesis using Suc.prems by (auto simp: le_antisym)
  qed
qed auto

section \<open>Allocation\<close>

lemma ctzll_bit:
  assumes "w \<noteq> 0" shows "bit w (ctzll w)" "ctzll w < 64"
proof -
  obtain n where "bit w n" using assms by (auto simp: bit_eq_iff)
  then have n: "bit w n" "n < 64" using bit_imp_le_length [of w n] by simp_all
  let ?front = "takeWhile (\<lambda>k. \<not> bit w k) [0..<64]"
  have "?front \<noteq> [0..<64]" using n by (auto simp: takeWhile_eq_all_conv)
  moreover have "?front = take (length ?front) [0..<64]" by (rule takeWhile_eq_take)
  ultimately have "length ?front \<noteq> 64" by (metis length_upt diff_zero take_all order_refl)
  then show small: "ctzll w < 64" using length_takeWhile_le [of "\<lambda>k. \<not> bit w k" "[0..<64]"] by (simp add: ctzll_def)
  have "\<not> \<not> bit w ([0..<64] ! length (takeWhile (\<lambda>k. \<not> bit w k) [0..<64]))"
    using nth_length_takeWhile [of "\<lambda>k. \<not> bit w k" "[0..<64]"] small by (simp add: ctzll_def)
  then show "bit w (ctzll w)" using small by (simp add: ctzll_def)
qed

lemma available_bit:
  "k < 64 \<Longrightarrow> bit (m AND push_bit order (NOT 0) :: 64 word) k \<longleftrightarrow> bit m k \<and> order \<le> k"
  by (auto simp: bit_simps)

text \<open>Writing the allocated byte and raising the counters claims a held block.\<close>

lemma inv_claim:
  assumes "pool_inv s F A {(off, k)}" "v = 0x80 OR (k + 1)"
  shows "pool_inv (raise_used (pool_block_size k) (set_map off v s)) F (A(off \<mapsto> k)) {}"
proof -
  have "k \<le> 57" using held_alone(4) [of s F A off k "{}"] assms(1) inv_order [OF assms(1)] by simp
  then have v: "v = 129 + k" using assms(2) allocated_byte by simp
  have "pool_inv (set_map off v (s\<lparr>pool_used := pool_used s + pool_block_size k\<rparr>)) F (A(off \<mapsto> k)) {}"
    using inv_take [of s F A off k "{}"] assms(1) v by simp
  then show ?thesis
    by (simp add: pool_inv_def raise_used_def set_map_def Let_def lists_ok_def map_at_def)
qed

lemma raise_used_contents [simp]: "contents (raise_used n s) = contents s" "contents (set_map off v s) = contents s"
  by (simp_all add: raise_used_def set_map_def Let_def)

lemma try_allocate_cases:
  assumes "pool_inv s F A {}"
  shows "(\<exists>p k s' F'. minyar_pool_try_allocate n s = Some (p, s') \<and> pool_inv s' F' (A(p \<mapsto> k)) {} \<and> A p = None \<and>
      n \<le> pool_block_size k \<and> (0 < k \<longrightarrow> pool_block_size (k - 1) < n) \<and> contents s' = contents s) \<or>
    minyar_pool_try_allocate n s = None \<and>
      (n > pool_heap_bytes s \<or> (\<forall>k. n \<le> pool_block_size k \<longrightarrow> F k = []))"
proof (cases "n > pool_heap_bytes s")
  case True
  then show ?thesis by (simp add: minyar_pool_try_allocate_def)
next
  case False
  then obtain k where k: "grow_order n MINIMUM 0 = (pool_block_size k, k)" "k \<le> pool_max_order s" "n \<le> pool_block_size k"
    "0 < k \<longrightarrow> pool_block_size (k - 1) < n"
    using grow_order_least [of n "pool_max_order s"] assms by (auto simp: pool_inv_def)
  define available where "available = pool_mask s AND push_bit k (NOT 0)"
  have l: "lists_ok s F" by (rule inv_lists(1) [OF assms])
  show ?thesis
  proof (cases "available = 0")
    case True
    have "F j = []" if "n \<le> pool_block_size j" for j
    proof (rule ccontr)
      assume f: "F j \<noteq> []"
      then obtain off where "off \<in> set (F j)" by (cases "F j") auto
      then have "j \<le> pool_max_order s" using inv_free_order [OF assms] by blast
      then have j: "j < 64" using inv_order [OF assms] by simp
      have "k \<le> j"
      proof (rule ccontr)
        assume "\<not> k \<le> j"
        then have "pool_block_size j \<le> pool_block_size (k - 1)" "0 < k" by (simp_all add: block_size)
        then show False using k(4) that by simp
      qed
      then have "bit available j" unfolding available_def available_bit [OF j] using f j l by (simp add: lists_ok_def)
      then show False using True by simp
    qed
    then show ?thesis using False True k(1) by (auto simp: minyar_pool_try_allocate_def available_def)
  next
    case avail: False
    define found where "found = ctzll available"
    have found: "bit available found" "found < 64" using ctzll_bit [OF avail] by (simp_all add: found_def)
    then have f: "F found \<noteq> []" "k \<le> found" using l unfolding available_def available_bit [OF found(2)] by (simp_all add: lists_ok_def)
    then obtain p rest where p: "F found = p # rest" by (cases "F found") auto
    have "dll (pool_links s) (pool_free s found) (F found)" using l by (simp add: lists_ok_def)
    then have head: "pool_free s found = Some p" using dll_head p by fastforce
    have "p \<in> set (F found)" using p by simp
    note removed = inv_remove(1) [OF assms this]
    obtain F' where F': "pool_inv (split_block p found k (pool_remove p found s)) F' A {(p, k)}"
      "contents (split_block p found k (pool_remove p found s)) = contents s"
      using split_block_inv [OF removed f(2)] by auto
    let ?s = "raise_used (pool_block_size k) (set_map p (0x80 OR (k + 1)) (split_block p found k (pool_remove p found s)))"
    have "minyar_pool_try_allocate n s = Some (p, ?s)"
      unfolding minyar_pool_try_allocate_def k(1) Let_def prod.case available_def [symmetric] found_def [symmetric] head option.sel
      using False avail by (simp only: if_False)
    moreover have "pool_inv ?s F' (A(p \<mapsto> k)) {}" by (rule inv_claim [OF F'(1) refl])
    moreover have "A p = None" using held_alone(1) [of _ F' A p k "{}"] F'(1) by simp
    ultimately show ?thesis using k(3,4) F'(2) by auto
  qed
qed

text \<open>
  C26. Allocation on a consistent heap either returns a block that was not allocated, of the smallest
  order that holds the request, and changes nothing else of what is allocated; or it fails,
  and then the request exceeds the heap or no free block is large enough.
\<close>

theorem pool_allocate_correct:
  assumes "pool_ok s"
  shows "case minyar_pool_try_allocate n s of
      Some (p, s') \<Rightarrow> pool_ok s' \<and> pool_allocation s p = None \<and>
        (\<exists>k. pool_allocation s' = (pool_allocation s)(p \<mapsto> k) \<and> n \<le> pool_block_size k \<and>
          (0 < k \<longrightarrow> pool_block_size (k - 1) < n))
    | None \<Rightarrow> n > pool_heap_bytes s \<or> (\<forall>off k. pool_free_block s off k \<longrightarrow> pool_block_size k < n)"
proof -
  obtain F A where inv: "pool_inv s F A {}" using assms by (auto simp: pool_ok_def)
  note A = allocation_eq [OF inv]
  from try_allocate_cases [OF inv, of n] show ?thesis
  proof
    assume "\<exists>p k s' F'. minyar_pool_try_allocate n s = Some (p, s') \<and> pool_inv s' F' (A(p \<mapsto> k)) {} \<and> A p = None \<and>
      n \<le> pool_block_size k \<and> (0 < k \<longrightarrow> pool_block_size (k - 1) < n) \<and> contents s' = contents s"
    then obtain p k s' F' where r: "minyar_pool_try_allocate n s = Some (p, s')" "pool_inv s' F' (A(p \<mapsto> k)) {}" "A p = None"
      "n \<le> pool_block_size k" "0 < k \<longrightarrow> pool_block_size (k - 1) < n" by blast
    then show ?thesis using A allocation_eq [OF r(2)] by (auto simp: pool_ok_def)
  next
    assume r: "minyar_pool_try_allocate n s = None \<and>
      (n > pool_heap_bytes s \<or> (\<forall>k. n \<le> pool_block_size k \<longrightarrow> F k = []))"
    moreover have "off \<in> set (F k)" if "pool_free_block s off k" for off k
      using that free_map [OF inv, of off k] inv_order [OF inv] by (simp add: pool_free_block_def)
    ultimately show ?thesis by (fastforce simp: not_le)
  qed
qed

section \<open>Initialization\<close>

lemma grow_order_whole: "grow_order (pool_block_size M) MINIMUM 0 = (pool_block_size M, M)"
proof -
  obtain k where k: "grow_order (pool_block_size M) MINIMUM 0 = (pool_block_size k, k)" "k \<le> M"
    "pool_block_size M \<le> pool_block_size k"
    using grow_order_least [of "pool_block_size M" M] by auto
  then have "k = M" by (simp add: block_size)
  with k(1) show ?thesis by simp
qed

lemma initialize_inv:
  assumes "M \<le> 57"
  shows "pool_inv (minyar_pool_initialize (pool_block_size M)) ((\<lambda>_. [])(M := [0])) Map.empty {}"
proof -
  let ?s = "\<lparr>pool_heap_bytes = pool_block_size M, pool_map = (\<lambda>_. 0), pool_links = (\<lambda>_. \<lparr>previous = None, following = None\<rparr>),
    pool_free = (\<lambda>_. None), pool_mask = 0, pool_used = 0, pool_high_water = 0, pool_max_order = M, contents = (\<lambda>_. 0)\<rparr>"
  have "blocks (\<lambda>_. []) Map.empty {(0, M)} = {(Held, 0, M)}" by (auto simp: blocks_def)
  then have "tiled M (blocks (\<lambda>_. []) Map.empty {(0, M)})" by (simp add: tiled_def fits_def span_def)
  then have "pool_inv ?s (\<lambda>_. []) Map.empty {(0, M)}"
    using assms by (simp add: pool_inv_def lists_ok_def dll_def entry_def map_at_def)
  from inv_insert [OF this] show ?thesis by (simp add: minyar_pool_initialize_def grow_order_whole)
qed

lemma inv_disjoint:
  assumes "pool_inv s F A {}" "A p = Some j" "A q = Some k" "p \<noteq> q"
  shows "{p..<p + pool_block_size j} \<inter> {q..<q + pool_block_size k} = {}"
proof -
  have "tiled (pool_max_order s) (blocks F A {})" using assms(1) by (simp add: pool_inv_def)
  then have "apart (Taken, p, j) (Taken, q, k)" using assms(2-) by (auto simp: tiled_def pairwise_def)
  then show ?thesis by (simp add: apart_def span_def)
qed

section \<open>Release\<close>

lemma allocated_order_eq:
  assumes "pool_inv s F A {}"
  shows "pool_allocated_order p s =
    (if p < 0 \<or> p \<ge> int (pool_heap_bytes s) \<or> p mod int MINIMUM \<noteq> 0
     then minyar_stop ''an invalid bounded-heap allocation was released.''
     else case A (nat p) of None \<Rightarrow> minyar_stop ''a bounded-heap allocation was released twice.'' | Some k \<Rightarrow> Inr k)"
proof (cases "p < 0 \<or> p \<ge> int (pool_heap_bytes s) \<or> p mod int MINIMUM \<noteq> 0")
  case False
  then have p: "MINIMUM dvd nat p" "nat p < pool_heap_bytes s" using int_dvd_int_iff [of MINIMUM "nat p"] by auto
  show ?thesis
  proof (cases "A (nat p)")
    case None
    then have "map_at s (nat p) < 128"
      using allocation_eq [OF assms] p by (metis pool_allocation_def option.discI not_le)
    then show ?thesis using False None allocated_order_bits(3) by (simp add: pool_allocated_order_def Let_def)
  next
    case (Some k)
    note t = inv_taken [OF assms Some]
    have "k \<le> 57" using t(2) inv_order [OF assms] by simp
    then show ?thesis using False Some t(3) allocated_order_bits(1,2) [of k]
      by (simp add: pool_allocated_order_def Let_def)
  qed
qed (auto simp: pool_allocated_order_def)

lemma taken_pointer:
  assumes "pool_inv s F A {}" "A p = Some k"
  shows "pool_allocated_order (int p) s = Inr k"
  using allocated_order_eq [OF assms(1), of "int p"] inv_taken [OF assms] assms(2) block_size_pos [of k]
  by (auto simp: zmod_int [symmetric] simp del: block_size_pos)

lemma deallocate_inv:
  assumes "pool_inv s F A {}" "A p = Some k"
  shows "\<exists>s' F'. minyar_pool_deallocate (Some (int p)) s = Inr s' \<and> pool_inv s' F' (A(p := None)) {} \<and> contents s' = contents s"
proof -
  let ?s = "set_map p 0 (s\<lparr>pool_used := pool_used s - pool_block_size k\<rparr>)"
  have "pool_inv ?s F (A(p := None)) {(p, k)}" using inv_release(1) [OF assms] by simp
  from merge_buddies_inv [OF this] obtain off' k' s' F' where m: "merge_buddies p k ?s = (off', k', s')"
    "pool_inv s' F' (A(p := None)) {(off', k')}" "contents s' = contents ?s" by blast
  have "pool_inv (pool_insert off' k' s') (F'(k' := off' # F' k')) (A(p := None)) {}"
    using inv_insert [of s' F' "A(p := None)" off' k' "{}"] m(2) by simp
  moreover have "minyar_pool_deallocate (Some (int p)) s = Inr (pool_insert off' k' s')"
    using taken_pointer [OF assms] m(1) by (simp add: minyar_pool_deallocate_def Let_def)
  ultimately show ?thesis using m(3) by (auto simp: set_map_def)
qed

text \<open>
  C28. Releasing a pointer: on a consistent heap an allocated block is taken back and nothing else
  changes hands; any other pointer into the heap is reported as released twice, and one outside the heap
  or not on a block boundary as invalid.
\<close>

theorem pool_deallocate_correct:
  assumes "pool_ok s"
  shows "if p < 0 \<or> p \<ge> int (pool_heap_bytes s) \<or> p mod 32 \<noteq> 0
    then minyar_pool_deallocate (Some p) s = minyar_stop ''an invalid bounded-heap allocation was released.''
    else if pool_allocation s (nat p) = None
    then minyar_pool_deallocate (Some p) s = minyar_stop ''a bounded-heap allocation was released twice.''
    else \<exists>s'. minyar_pool_deallocate (Some p) s = Inr s' \<and> pool_ok s' \<and>
      pool_allocation s' = (pool_allocation s)(nat p := None)"
proof -
  obtain F A where inv: "pool_inv s F A {}" using assms by (auto simp: pool_ok_def)
  note A = allocation_eq [OF inv]
  show ?thesis
  proof (cases "p < 0 \<or> p \<ge> int (pool_heap_bytes s) \<or> p mod 32 \<noteq> 0")
    case True
    then show ?thesis using allocated_order_eq [OF inv, of p] by (simp add: minyar_pool_deallocate_def)
  next
    case valid: False
    show ?thesis
    proof (cases "A (nat p)")
      case None
      then show ?thesis using valid allocated_order_eq [OF inv, of p] A by (simp add: minyar_pool_deallocate_def)
    next
      case (Some k)
      then obtain s' F' where "minyar_pool_deallocate (Some p) s = Inr s'" "pool_inv s' F' (A(nat p := None)) {}"
        using deallocate_inv [OF inv Some] valid by auto
      then show ?thesis using valid Some A allocation_eq [of s' F'] by (auto simp: pool_ok_def)
    qed
  qed
qed

lemma small_heap_ok: "pool_ok (minyar_pool_initialize 4096)" "pool_allocation (minyar_pool_initialize 4096) = Map.empty"
  using initialize_inv [of 7] allocation_eq [OF initialize_inv [of 7]] by (auto simp: pool_ok_def block_size)

theorem pool_allocate_correct_witness:
  "case minyar_pool_try_allocate 100 (minyar_pool_initialize 4096) of
      Some (p, s') \<Rightarrow> pool_ok s' \<and> (\<exists>k. pool_allocation s' = [p \<mapsto> k] \<and> 100 \<le> pool_block_size k)
    | None \<Rightarrow> \<forall>off k. pool_free_block (minyar_pool_initialize 4096) off k \<longrightarrow> pool_block_size k < 100"
proof -
  have "pool_heap_bytes (minyar_pool_initialize 4096) = 4096" by (simp add: minyar_pool_initialize_def split: prod.splits)
  then show ?thesis
    using pool_allocate_correct [OF small_heap_ok(1), of 100] by (auto simp: small_heap_ok(2) split: option.splits prod.splits)
qed

theorem pool_deallocate_correct_witness:
  "minyar_pool_deallocate (Some 5) (minyar_pool_initialize 4096) =
     minyar_stop ''an invalid bounded-heap allocation was released.'' \<and>
   minyar_pool_deallocate (Some 0) (minyar_pool_initialize 4096) =
     minyar_stop ''a bounded-heap allocation was released twice.''"
proof -
  have "pool_heap_bytes (minyar_pool_initialize 4096) = 4096" by (simp add: minyar_pool_initialize_def split: prod.splits)
  then show ?thesis
    using pool_deallocate_correct [OF small_heap_ok(1), of 5] pool_deallocate_correct [OF small_heap_ok(1), of 0]
    by (simp add: small_heap_ok(2))
qed

end
