(* ===== verification/Pool_Resize.thy ===== *)
theory Pool_Resize
  imports Pool_Safe
begin

text \<open>
  Resizing in the bounded heap. Shrinking splits in place, growing absorbs free buddies above or, when the
  contents need not survive, below; otherwise a new block is allocated and the old one released.
  While such an operation runs, the map byte of the block being resized is stale: the proofs compare
  each run with one that releases the block first, from which it differs in that byte and in the
  byte count only, both overwritten at the end.
\<close>

definition release_first :: "nat \<Rightarrow> nat \<Rightarrow> pool \<Rightarrow> pool" where
  "release_first off u s = set_map off 0 (s\<lparr>pool_used := u\<rparr>)"

lemma release_first_map: "map_at (release_first off u s) x = (if x div MINIMUM = off div MINIMUM then 0 else map_at s x)"
  by (simp add: release_first_def set_map_def map_at_def)

lemma insert_used: "pool_insert x k (s\<lparr>pool_used := u\<rparr>) = (pool_insert x k s)\<lparr>pool_used := u\<rparr>"
  by (simp add: pool_insert_def pool_write_link_def set_map_def Let_def split: option.splits)

lemma insert_release_first:
  "x div MINIMUM \<noteq> off div MINIMUM \<Longrightarrow> pool_insert x k (release_first off u s) = release_first off u (pool_insert x k s)"
  by (simp add: release_first_def pool_insert_def pool_write_link_def set_map_def Let_def fun_upd_twist split: option.splits)

lemma remove_release_first:
  "pool_remove x k (release_first off u s) = release_first off u (pool_remove x k s)"
  by (cases "x div MINIMUM = off div MINIMUM"; cases "previous (pool_links s x)"; cases "following (pool_links s x)";
      cases "pool_free s k")
    (simp_all add: release_first_def pool_remove_def pool_write_link_def set_map_def Let_def fun_upd_twist)

lemma upper_half_granule: "(off + pool_block_size k) div MINIMUM \<noteq> off div MINIMUM"
  by (simp add: block_size)

lemma split_release_first:
  "split_block off found order (release_first off u s) = release_first off u (split_block off found order s)"
  by (induction found arbitrary: s) (simp_all add: insert_release_first upper_half_granule)

lemma split_used: "split_block off found order (s\<lparr>pool_used := u\<rparr>) = (split_block off found order s)\<lparr>pool_used := u\<rparr>"
  by (induction found arbitrary: s) (simp_all add: insert_used)

lemma remove_upper_release_first:
  "remove_upper off j w (release_first off u s) = release_first off u (remove_upper off j w s)"
proof -
  have "foldl (\<lambda>s k. pool_remove (off + pool_block_size k) k s) (release_first off u s) ks =
      release_first off u (foldl (\<lambda>s k. pool_remove (off + pool_block_size k) k s) s ks)" for ks
    by (induction ks arbitrary: s) (simp_all add: remove_release_first)
  then show ?thesis by (simp add: remove_upper_def)
qed

lemma remove_lower_release_first:
  "remove_lower base ks (release_first off u s) =
     (case remove_lower base ks s of (base', s') \<Rightarrow> (base', release_first off u s'))"
  by (induction ks arbitrary: base s) (simp_all add: remove_release_first Let_def)

text \<open>Writing the new byte and the new count over the stale ones.\<close>

lemma inv_reclaim:
  assumes "pool_inv (release_first off u s) F A {(base, k)}" "v = 0x80 OR (k + 1)"
  shows "pool_inv (set_map base v (set_map off 0 (s\<lparr>pool_used := u + pool_block_size k\<rparr>))) F (A(base \<mapsto> k)) {}"
proof -
  have "k \<le> 57" using held_alone(4) [of _ F A base k "{}"] assms(1) inv_order [OF assms(1)] by force
  then have "v = 129 + k" using assms(2) allocated_byte by simp
  moreover have "(release_first off u s)\<lparr>pool_used := pool_used (release_first off u s) + pool_block_size k\<rparr> =
      set_map off 0 (s\<lparr>pool_used := u + pool_block_size k\<rparr>)"
    by (simp add: release_first_def set_map_def)
  ultimately show ?thesis using inv_take [of "release_first off u s" F A base k "{}"] assms(1) by simp
qed

lemma inv_release_first:
  assumes "pool_inv s F A {}" "A off = Some k"
  shows "pool_inv (release_first off (pool_used s - pool_block_size k) s) F (A(off := None)) {(off, k)}"
    "pool_block_size k \<le> pool_used s"
proof -
  show "pool_inv (release_first off (pool_used s - pool_block_size k) s) F (A(off := None)) {(off, k)}"
    using inv_release(1) [OF assms] by (simp add: release_first_def)
  have "pool_block_size (the (A off)) \<le> (\<Sum>o' \<in> dom A. pool_block_size (the (A o')))"
    using inv_finite [OF assms(1)] assms(2) by (intro member_le_sum) auto
  then show "pool_block_size k \<le> pool_used s" using assms by (simp add: pool_inv_def)
qed

section \<open>Shrinking and growing in place\<close>

lemma shrink_inv:
  assumes "pool_inv s F A {}" "A off = Some k" "w \<le> k"
  shows "\<exists>F'. pool_inv (set_map off (0x80 OR (w + 1)) (split_block off k w
      (s\<lparr>pool_used := pool_used s - (pool_block_size k - pool_block_size w)\<rparr>))) F' (A(off \<mapsto> w)) {}"
proof -
  let ?u = "pool_used s - pool_block_size k"
  note r = inv_release_first [OF assms(1,2)]
  obtain F' where F': "pool_inv (split_block off k w (release_first off ?u s)) F' (A(off := None)) {(off, w)}"
    using split_block_inv [OF r(1) assms(3)] by blast
  have "pool_block_size w \<le> pool_block_size k" using assms(3) by (simp add: block_size)
  then have u: "?u + pool_block_size w = pool_used s - (pool_block_size k - pool_block_size w)" using r(2) by simp
  have "set_map off v (set_map off 0 t) = set_map off v t" for v t by (simp add: set_map_def)
  then have "pool_inv (set_map off (0x80 OR (w + 1)) ((split_block off k w s)\<lparr>pool_used := ?u + pool_block_size w\<rparr>)) F' (A(off \<mapsto> w)) {}"
    using inv_reclaim [OF F' [unfolded split_release_first] refl] by simp
  then show ?thesis by (auto simp: u split_used)
qed

lemma buddy_upper:
  assumes "pool_block_size (Suc k) dvd off" shows "off XOR pool_block_size k = off + pool_block_size k"
proof -
  have k: "pool_block_size k dvd off" using assms dvd_mult_right [of 2 "pool_block_size k" off] by (simp add: block_size_Suc)
  have "\<not> pool_block_size (Suc k) dvd pool_block_size k" by (simp add: block_size_Suc)
  then have "\<not> (pool_block_size k \<le> off \<and> pool_block_size (Suc k) dvd off - pool_block_size k)"
    using assms by (metis dvd_diffD1)
  then show ?thesis using buddy_cases [OF k] by blast
qed

lemma block_size_dvd: "j \<le> k \<Longrightarrow> pool_block_size j dvd pool_block_size k"
  by (simp add: block_size le_imp_power_dvd)

lemma remove_upper_inv:
  assumes "pool_inv s F A {(off, j)}" "j \<le> w" "w \<le> pool_max_order s" "pool_block_size w dvd off"
    "\<forall>k \<in> {j..<w}. map_at s (off + pool_block_size k) = k + 1"
  shows "\<exists>F'. pool_inv (remove_upper off j w s) F' A {(off, w)}"
  using assms
proof (induction "w - j" arbitrary: j s F)
  case 0
  then show ?case by (auto simp: remove_upper_def)
next
  case (Suc d)
  then have j: "j < w" by simp
  let ?b = "off + pool_block_size j"
  have "pool_block_size (Suc j) dvd off"
    using dvd_trans [OF block_size_dvd Suc.prems(4), of "Suc j"] j by simp
  then have b: "off XOR pool_block_size j = ?b" by (rule buddy_upper)
  obtain F' where F': "pool_inv (pool_remove ?b j s) F' A {(off, Suc j)}"
    using absorb_buddy [OF Suc.prems(1) _ b [symmetric]] Suc.prems(3,5) j by auto
  have "map_at (pool_remove ?b j s) (off + pool_block_size k) = k + 1" if "k \<in> {Suc j..<w}" for k
  proof -
    have "(off + pool_block_size k) div MINIMUM \<noteq> ?b div MINIMUM" using that by (auto simp: block_size)
    then show ?thesis using Suc.prems(5) that by (simp add: map_at_def)
  qed
  moreover have "d = w - Suc j" using Suc(2) by simp
  ultimately obtain F'' where "pool_inv (remove_upper off (Suc j) w (pool_remove ?b j s)) F'' A {(off, w)}"
    using Suc(1) [OF _ F' _ _ Suc.prems(4)] j Suc.prems(3) by auto
  moreover have "remove_upper off j w s = remove_upper off (Suc j) w (pool_remove ?b j s)"
    using j by (simp add: remove_upper_def upt_rec [of j w])
  ultimately show ?case by auto
qed

lemma grow_inv:
  assumes "pool_inv s F A {}" "A off = Some k" "k < w" "w \<le> pool_max_order s" "pool_block_size w dvd off"
    "upper_buddies_free off k w s"
  shows "\<exists>F'. pool_inv (raise_used (pool_block_size w - pool_block_size k)
      (set_map off (0x80 OR (w + 1)) (remove_upper off k w s))) F' (A(off \<mapsto> w)) {}"
proof -
  let ?u = "pool_used s - pool_block_size k"
  note r = inv_release_first [OF assms(1,2)]
  have "map_at (release_first off ?u s) (off + pool_block_size j) = j + 1" if "j \<in> {k..<w}" for j
    using that assms(6) upper_half_granule [of off j] by (auto simp: release_first_map upper_buddies_free_def list_all_iff)
  moreover have "pool_max_order (release_first off ?u s) = pool_max_order s" by (simp add: release_first_def set_map_def)
  ultimately obtain F' where F': "pool_inv (remove_upper off k w (release_first off ?u s)) F' (A(off := None)) {(off, w)}"
    using remove_upper_inv [OF r(1) _ _ assms(5)] assms(3,4) by auto
  have "set_map off v (set_map off 0 t) = set_map off v t" for v t by (simp add: set_map_def)
  then have inv: "pool_inv (set_map off (0x80 OR (w + 1)) ((remove_upper off k w s)\<lparr>pool_used := ?u + pool_block_size w\<rparr>)) F' (A(off \<mapsto> w)) {}"
    using inv_reclaim [OF F' [unfolded remove_upper_release_first] refl] by simp
  have used: "pool_used (remove_upper off k w s) = pool_used s"
  proof -
    have "pool_used (foldl (\<lambda>s k. pool_remove (off + pool_block_size k) k s) t ks) = pool_used t" for t ks
      by (induction ks arbitrary: t) simp_all
    then show ?thesis by (simp add: remove_upper_def)
  qed
  have "pool_block_size k \<le> pool_block_size w" using assms(3) by (simp add: block_size)
  then have "?u + pool_block_size w = pool_used s + (pool_block_size w - pool_block_size k)" using r(2) by simp
  then show ?thesis using inv used
    by (auto simp: pool_inv_def raise_used_def set_map_def Let_def lists_ok_def map_at_def intro!: exI [of _ F'])
qed

section \<open>Growing downwards\<close>

text \<open>The scan of the buddies reads no map byte inside the block that grows.\<close>

lemma buddy_merged:
  assumes "pool_block_size k dvd off" "b = off XOR pool_block_size k"
  obtains "b = off + pool_block_size k" "pool_block_size (Suc k) dvd off" "\<not> b < off"
    | "off = b + pool_block_size k" "pool_block_size (Suc k) dvd b" "b < off"
  using buddy_cases [OF assms(1)] block_size_pos [of k] assms(2) by (auto simp del: block_size_pos)

lemma buddy_outside:
  assumes b_def: "b = merged XOR pool_block_size k"
    and "pool_block_size k dvd merged" "merged \<le> x" "x < merged + pool_block_size k"
  shows "b div MINIMUM \<noteq> x div MINIMUM" "(if b < merged then b else merged) \<le> x"
    "x < (if b < merged then b else merged) + pool_block_size (Suc k)"
    "pool_block_size (Suc k) dvd (if b < merged then b else merged)"
proof -
  have half: "(y + pool_block_size k) div MINIMUM = y div MINIMUM + 2 ^ k" for y by (simp add: block_size)
  obtain q where q: "merged = MINIMUM * q" using dvd_trans [OF minimum_dvd_size assms(2)] by (auto elim: dvdE)
  have x: "merged div MINIMUM \<le> x div MINIMUM" using assms(3) by (rule div_le_mono)
  have "x < MINIMUM * (q + 2 ^ k)" using assms(4) q by (simp add: block_size algebra_simps)
  then have x': "x div MINIMUM < merged div MINIMUM + 2 ^ k" using q by (simp add: less_mult_imp_div_less mult.commute)
  show "b div MINIMUM \<noteq> x div MINIMUM"
    by (rule buddy_merged [OF assms(2) b_def]) (use x x' half [of b] half [of merged] in simp_all)
  show "(if b < merged then b else merged) \<le> x" "x < (if b < merged then b else merged) + pool_block_size (Suc k)"
    "pool_block_size (Suc k) dvd (if b < merged then b else merged)"
    by (rule buddy_merged [OF assms(2) b_def]; use assms(3,4) in \<open>simp add: block_size_Suc\<close>)+
qed

lemma lower_free_cong:
  assumes "\<And>y. y div MINIMUM \<noteq> x div MINIMUM \<Longrightarrow> map_at s y = map_at s' y"
    "pool_block_size k dvd merged" "merged \<le> x" "x < merged + pool_block_size k"
  shows "lower_buddies_free merged [k..<w] s = lower_buddies_free merged [k..<w] s'"
  using assms(2-)
proof (induction "w - k" arbitrary: k merged)
  case (Suc d)
  then have k: "k < w" "d = w - Suc k" by simp_all
  note outside = buddy_outside [OF refl Suc.prems]
  from Suc(1) [OF k(2) outside(4,2,3)] assms(1) [OF outside(1)] show ?case
    using k(1) by (simp add: upt_rec [of k w] Let_def)
qed simp

lemma remove_lower_inv:
  assumes "pool_inv s F A {(base, j)}" "j \<le> w" "w \<le> pool_max_order s" "lower_buddies_free base [j..<w] s"
  shows "\<exists>base' s' F'. remove_lower base [j..<w] s = (base', s') \<and> pool_inv s' F' A {(base', w)} \<and> pool_used s' = pool_used s"
  using assms
proof (induction "w - j" arbitrary: j base s F)
  case 0
  then show ?case by auto
next
  case (Suc d)
  then have j: "j < w" "d = w - Suc j" by simp_all
  let ?b = "base XOR pool_block_size j" and ?base = "if base XOR pool_block_size j < base then base XOR pool_block_size j else base"
  have free: "map_at s ?b = j + 1" "lower_buddies_free ?base [Suc j..<w] s"
    using Suc.prems(4) j(1) by (simp_all add: upt_rec [of j w] Let_def)
  have t: "tiled (pool_max_order s) (blocks F A {(base, j)})" using Suc.prems(1) by (simp add: pool_inv_def)
  have al: "pool_block_size j dvd base" using tiled_fits(2) [OF t, of Held base j] by simp
  obtain F' where F': "pool_inv (pool_remove ?b j s) F' A {(?base, Suc j)}"
    using absorb_buddy [OF Suc.prems(1) _ refl free(1)] Suc.prems(3) j(1) by auto
  have "?base \<le> ?b" "?b < ?base + pool_block_size (Suc j)" "pool_block_size (Suc j) dvd ?base"
    by (rule buddy_merged [OF al refl]; simp add: block_size_Suc)+
  then have "lower_buddies_free ?base [Suc j..<w] (pool_remove ?b j s)"
    using lower_free_cong [of ?b s "pool_remove ?b j s" "Suc j" ?base w] free(2) by (simp add: map_at_def)
  then obtain base' s' F'' where "remove_lower ?base [Suc j..<w] (pool_remove ?b j s) = (base', s')"
    "pool_inv s' F'' A {(base', w)}" "pool_used s' = pool_used (pool_remove ?b j s)"
    using Suc(1) [OF j(2) F'] j(1) Suc.prems(3) by auto
  then show ?case using j(1) by (auto simp: upt_rec [of j w] Let_def)
qed

lemma grow_lower_inv:
  assumes "pool_inv s F A {}" "A (plan_offset plan) = Some (plan_order plan)" "plan_order plan < plan_wanted plan"
    "plan_wanted plan \<le> pool_max_order s" "plan_capacity plan = pool_block_size (plan_order plan)"
    "plan_target plan = pool_block_size (plan_wanted plan)" "minyar_pool_try_grow_lower plan s = Some (p, s')"
  shows "\<exists>F'. pool_inv s' F' ((A(plan_offset plan := None))(p \<mapsto> plan_wanted plan)) {}"
    "(A(plan_offset plan := None)) p = None"
proof -
  let ?off = "plan_offset plan" and ?k = "plan_order plan" and ?w = "plan_wanted plan"
  let ?u = "pool_used s - pool_block_size ?k"
  note r = inv_release_first [OF assms(1,2)]
  have free: "lower_buddies_free ?off [?k..<?w] s"
    using assms(7) by (auto simp: minyar_pool_try_grow_lower_def Let_def split: if_splits)
  have "pool_block_size ?k dvd ?off" by (rule inv_taken(6) [OF assms(1,2)])
  then have "lower_buddies_free ?off [?k..<?w] (release_first ?off ?u s)"
    using lower_free_cong [of ?off s "release_first ?off ?u s" ?k ?off ?w] free by (simp add: release_first_map)
  moreover have "pool_max_order (release_first ?off ?u s) = pool_max_order s" by (simp add: release_first_def set_map_def)
  ultimately obtain base s1 F' where lower: "remove_lower ?off [?k..<?w] (release_first ?off ?u s) = (base, s1)"
    "pool_inv s1 F' (A(?off := None)) {(base, ?w)}"
    using remove_lower_inv [OF r(1)] assms(3,4) by (metis less_imp_le)
  obtain s2 where s2: "remove_lower ?off [?k..<?w] s = (base, s2)" "s1 = release_first ?off ?u s2"
    using lower(1) by (auto simp: remove_lower_release_first split: prod.splits)
  have used: "pool_used (snd (remove_lower b ks t)) = pool_used t" for b ks t
    by (induction ks arbitrary: b t) (simp_all add: Let_def)
  have "pool_used s2 = pool_used s" using used [of ?off "[?k..<?w]" s] s2(1) by simp
  moreover have "pool_block_size ?k \<le> pool_block_size ?w" using assms(3) by (simp add: block_size)
  ultimately have u: "?u + pool_block_size ?w = pool_used s2 + (pool_block_size ?w - pool_block_size ?k)" using r(2) by simp
  have inv: "pool_inv (set_map base (0x80 OR (?w + 1)) (set_map ?off 0 (s2\<lparr>pool_used := ?u + pool_block_size ?w\<rparr>)))
      F' ((A(?off := None))(base \<mapsto> ?w)) {}"
    using inv_reclaim [OF lower(2) [unfolded s2(2)] refl] .
  have "p = base" "s' = raise_used (pool_block_size ?w - pool_block_size ?k) (set_map base (0x80 OR (?w + 1)) (set_map ?off 0 s2))"
    using assms(5-7) free s2(1) by (auto simp: minyar_pool_try_grow_lower_def Let_def)
  then show "\<exists>F'. pool_inv s' F' ((A(plan_offset plan := None))(p \<mapsto> plan_wanted plan)) {}" using inv
    by (auto simp: u pool_inv_def raise_used_def set_map_def Let_def lists_ok_def map_at_def intro!: exI [of _ F'])
  show "(A(plan_offset plan := None)) p = None"
    using held_alone(1) [of s1 F' "A(?off := None)" base ?w "{}"] lower(2) \<open>p = base\<close> by blast
qed

section \<open>The resizing operations\<close>

lemma aligned_test: "off AND (pool_block_size w - 1) = 0 \<longleftrightarrow> pool_block_size w dvd off"
proof -
  have "pool_block_size w = 2 ^ (w + 5)" by (simp add: block_size power_add)
  moreover have "off AND (2 ^ (w + 5) - 1) = off mod 2 ^ (w + 5)"
    using take_bit_eq_mask [of "w + 5" off] by (simp add: take_bit_eq_mod mask_eq_exp_minus_1)
  ultimately show ?thesis by (simp add: dvd_eq_mod_eq_0)
qed

definition planned :: "pool \<Rightarrow> nat \<Rightarrow> nat \<Rightarrow> nat \<Rightarrow> nat \<Rightarrow> pool_resize_plan \<Rightarrow> bool" where
  "planned s p k n w plan \<longleftrightarrow>
     plan = \<lparr>plan_order = k, plan_wanted = w, plan_capacity = pool_block_size k, plan_target = pool_block_size w, plan_offset = p\<rparr> \<and>
     w \<le> pool_max_order s \<and> n \<le> pool_block_size w \<and> (0 < w \<longrightarrow> pool_block_size (w - 1) < n)"

lemma plan_resize_cases:
  assumes "pool_inv s F A {}" "A p = Some k"
  shows "pool_plan_resize (int p) n s = exhausted \<or>
    (\<exists>w plan. pool_plan_resize (int p) n s = Inr plan \<and> planned s p k n w plan)"
proof (cases "n > pool_heap_bytes s")
  case True
  then show ?thesis using taken_pointer [OF assms] by (simp add: pool_plan_resize_def)
next
  case False
  then obtain w where "grow_order n MINIMUM 0 = (pool_block_size w, w)" "w \<le> pool_max_order s" "n \<le> pool_block_size w"
    "0 < w \<longrightarrow> pool_block_size (w - 1) < n"
    using grow_order_least [of n "pool_max_order s"] assms(1) by (auto simp: pool_inv_def)
  then show ?thesis using False taken_pointer [OF assms] by (simp add: pool_plan_resize_def planned_def)
qed

lemma split_contents [simp]: "contents (split_block off found order s) = contents s"
  by (induction found arbitrary: s) simp_all

lemma remove_upper_contents [simp]: "contents (remove_upper off j w s) = contents s"
proof -
  have "contents (foldl (\<lambda>s k. pool_remove (off + pool_block_size k) k s) t ks) = contents t" for t ks
    by (induction ks arbitrary: t) simp_all
  then show ?thesis by (simp add: remove_upper_def)
qed

lemma same_base_inv:
  assumes "pool_inv s F A {}" "A p = Some k" "planned s p k n w plan" "pool_try_resize_same_base plan s = Some s'"
  shows "\<exists>F'. pool_inv s' F' (A(p \<mapsto> w)) {}" "contents s' = contents s"
proof -
  have plan: "plan = \<lparr>plan_order = k, plan_wanted = w, plan_capacity = pool_block_size k, plan_target = pool_block_size w, plan_offset = p\<rparr>"
    and w: "w \<le> pool_max_order s" using assms(3) by (simp_all add: planned_def)
  have "(\<exists>F'. pool_inv s' F' (A(p \<mapsto> w)) {}) \<and> contents s' = contents s"
  proof (cases "w \<le> k")
    case True
    then have "s' = set_map p (0x80 OR (w + 1)) (split_block p k w
        (s\<lparr>pool_used := pool_used s - (pool_block_size k - pool_block_size w)\<rparr>))"
      using assms(4) by (simp add: plan pool_try_resize_same_base_def Let_def)
    then show ?thesis using shrink_inv [OF assms(1,2) True] by simp
  next
    case False
    then have "pool_block_size w dvd p" "upper_buddies_free p k w s"
      "s' = raise_used (pool_block_size w - pool_block_size k) (set_map p (0x80 OR (w + 1)) (remove_upper p k w s))"
      using assms(4) aligned_test [of p w] by (auto simp: plan pool_try_resize_same_base_def Let_def split: if_splits)
    then show ?thesis using grow_inv [OF assms(1,2) _ w] False by simp
  qed
  then show "\<exists>F'. pool_inv s' F' (A(p \<mapsto> w)) {}" "contents s' = contents s" by blast+
qed

lemma exhausted_simps [simp]: "rbind exhausted f = exhausted" "exhausted \<noteq> Inr x" "Inr x \<noteq> exhausted"
  by (simp_all add: exhausted_def)

lemma allocate_cases:
  assumes "pool_inv s F A {}"
  shows "minyar_pool_allocate n s = exhausted \<or>
    (\<exists>q w s' F'. minyar_pool_allocate n s = Inr (q, s') \<and> pool_inv s' F' (A(q \<mapsto> w)) {} \<and> A q = None \<and>
      n \<le> pool_block_size w \<and> (0 < w \<longrightarrow> pool_block_size (w - 1) < n) \<and> contents s' = contents s)"
proof (cases "minyar_pool_try_allocate n s")
  case (Some r)
  then have r: "minyar_pool_allocate n s = Inr r" by (simp add: minyar_pool_allocate_def)
  from try_allocate_cases [OF assms, of n] Some show ?thesis unfolding r by fastforce
qed (simp add: minyar_pool_allocate_def)

lemma move_contents_inv [simp]: "pool_inv (move_contents a b m s) F A H = pool_inv s F A H"
  by (simp add: pool_inv_def move_contents_def lists_ok_def map_at_def)

text \<open>What a resize to \<open>n\<close> bytes must achieve for the block at \<open>p\<close>, of which the first \<open>m\<close> bytes survive.\<close>

definition resized :: "nat \<Rightarrow> nat \<Rightarrow> nat \<Rightarrow> nat \<Rightarrow> pool \<Rightarrow> pool \<Rightarrow> bool" where
  "resized p n m q s s' \<longleftrightarrow>
     pool_ok s' \<and> (q = p \<or> pool_allocation s q = None) \<and>
     (\<exists>w. pool_allocation s' = (pool_allocation s)(p := None, q \<mapsto> w) \<and> n \<le> pool_block_size w \<and>
       (0 < w \<longrightarrow> pool_block_size (w - 1) < n)) \<and>
     (\<forall>i < m. contents s' (q + i) = contents s (p + i)) \<and>
     (\<forall>r j i. r \<noteq> p \<and> pool_allocation s r = Some j \<and> i < pool_block_size j \<longrightarrow> contents s' (r + i) = contents s (r + i))"

lemma resized_in_place:
  assumes "pool_inv s F A {}" "A p = Some k" "planned s p k n w plan" "pool_inv s' F' ((A(p := None))(q \<mapsto> w)) {}"
    "contents s' = contents s" "q = p \<or> A q = None" "q = p \<or> m = 0"
  shows "resized p n m q s s'"
  unfolding resized_def
proof (intro conjI)
  show "pool_ok s'" using assms(4) by (auto simp: pool_ok_def)
  show "q = p \<or> pool_allocation s q = None" using assms(1,6) by (simp add: allocation_eq)
  have "pool_allocation s' = (pool_allocation s)(p := None, q \<mapsto> w)" using assms(1,4) by (simp add: allocation_eq)
  then show "\<exists>w. pool_allocation s' = (pool_allocation s)(p := None, q \<mapsto> w) \<and> n \<le> pool_block_size w \<and>
      (0 < w \<longrightarrow> pool_block_size (w - 1) < n)"
    using assms(3) unfolding planned_def by blast
qed (use assms(5,7) in auto)

lemma resized_moved:
  assumes "pool_inv s F A {}" "A p = Some k" "m \<le> n"
    "minyar_pool_allocate n s = Inr (q, s1)" "minyar_pool_deallocate (Some (int p)) (move_contents q p m s1) = Inr s'"
  shows "resized p n m q s s'"
proof -
  obtain w F1 where q: "pool_inv s1 F1 (A(q \<mapsto> w)) {}" "A q = None" "n \<le> pool_block_size w"
    "0 < w \<longrightarrow> pool_block_size (w - 1) < n" "contents s1 = contents s"
    using allocate_cases [OF assms(1), of n] assms(4) by (auto simp: exhausted_def)
  have "q \<noteq> p" using q(2) assms(2) by auto
  then obtain s'' F2 where "minyar_pool_deallocate (Some (int p)) (move_contents q p m s1) = Inr s''"
    "pool_inv s'' F2 ((A(q \<mapsto> w))(p := None)) {}" "contents s'' = contents (move_contents q p m s1)"
    using deallocate_inv [of "move_contents q p m s1" F1 "A(q \<mapsto> w)" p k] q(1) assms(2) by auto
  then have s': "pool_inv s' F2 ((A(q \<mapsto> w))(p := None)) {}" "contents s' = contents (move_contents q p m s1)"
    using assms(5) by auto
  have "contents s' (r + i) = contents s (r + i)" if "r \<noteq> p" "A r = Some j" "i < pool_block_size j" for r j i
  proof -
    have "r \<noteq> q" using q(2) that(2) by auto
    then have "{r..<r + pool_block_size j} \<inter> {q..<q + pool_block_size w} = {}"
      using inv_disjoint [OF q(1), of r j q w] that(2) by simp
    then have "\<not> (q \<le> r + i \<and> r + i < q + m)" using that(3) q(3) assms(3) by (force simp: disjoint_iff)
    then show ?thesis by (auto simp: s'(2) move_contents_def q(5))
  qed
  moreover have "(A(q \<mapsto> w))(p := None) = A(p := None, q \<mapsto> w)" using \<open>q \<noteq> p\<close> by (simp add: fun_upd_twist)
  ultimately show ?thesis
    unfolding resized_def using s' q allocation_eq [OF assms(1)] allocation_eq [OF s'(1)]
    by (auto simp: pool_ok_def move_contents_def)
qed

text \<open>Allocating anew, copying \<open>m\<close> bytes and releasing the old block.\<close>

definition relocate :: "nat \<Rightarrow> nat \<Rightarrow> nat \<Rightarrow> pool \<Rightarrow> string + nat \<times> pool" where
  "relocate p n m s =
     rbind (minyar_pool_allocate n s) (\<lambda>(q, s).
     rbind (minyar_pool_deallocate (Some (int p)) (move_contents q p m s)) (\<lambda>s. Inr (q, s)))"

lemma relocate_correct:
  assumes "pool_inv s F A {}" "A p = Some k" "m \<le> n"
  shows "relocate p n m s = exhausted \<or> (\<exists>q s'. relocate p n m s = Inr (q, s') \<and> resized p n m q s s')"
  using allocate_cases [OF assms(1), of n]
proof
  assume "\<exists>q w s' F'. minyar_pool_allocate n s = Inr (q, s') \<and> pool_inv s' F' (A(q \<mapsto> w)) {} \<and> A q = None \<and>
      n \<le> pool_block_size w \<and> (0 < w \<longrightarrow> pool_block_size (w - 1) < n) \<and> contents s' = contents s"
  then obtain q w s1 F1 where a: "minyar_pool_allocate n s = Inr (q, s1)" "pool_inv s1 F1 (A(q \<mapsto> w)) {}" "A q = None" by blast
  have "(A(q \<mapsto> w)) p = Some k" using a(3) assms(2) by auto
  then obtain s' where s': "minyar_pool_deallocate (Some (int p)) (move_contents q p m s1) = Inr s'"
    using deallocate_inv [of "move_contents q p m s1" F1 "A(q \<mapsto> w)" p k] a(2) by auto
  have "resized p n m q s s'" by (rule resized_moved [OF assms a(1) s'])
  then show ?thesis using a(1) s' by (simp add: relocate_def)
qed (simp add: relocate_def)

lemma resize_eq:
  "pool_plan_resize (int p) n s = Inr plan \<Longrightarrow> pool_try_resize_same_base plan s = None \<Longrightarrow>
    minyar_pool_resize (Some (int p)) old n s = relocate p n (min old n) s"
  by (simp add: minyar_pool_resize_def relocate_def min_def Let_def)

lemma move_nothing [simp]: "move_contents q p 0 s = s"
  by (rule pool.equality) (auto simp: move_contents_def fun_eq_iff)

lemma discard_eq:
  "pool_plan_resize (int p) n s = Inr plan \<Longrightarrow> pool_try_resize_same_base plan s = None \<Longrightarrow>
    minyar_pool_resize_discard (Some (int p)) n s =
      (case (if plan_offset plan AND (plan_target plan - 1) \<noteq> 0 then minyar_pool_try_grow_lower plan s else None) of
         Some r \<Rightarrow> Inr r | None \<Rightarrow> relocate p n 0 s)"
  by (simp add: minyar_pool_resize_discard_def relocate_def split: option.splits)

lemma resize_cases:
  assumes "pool_ok s" "pool_allocation s p = Some k"
  shows "minyar_pool_resize (Some (int p)) old n s = exhausted \<or>
    (\<exists>q s'. minyar_pool_resize (Some (int p)) old n s = Inr (q, s') \<and> resized p n (min old n) q s s')"
proof -
  obtain F A where inv: "pool_inv s F A {}" using assms(1) by (auto simp: pool_ok_def)
  have A: "A p = Some k" using assms(2) allocation_eq [OF inv] by simp
  from plan_resize_cases [OF inv A, of n] show ?thesis
  proof
    assume "\<exists>w plan. pool_plan_resize (int p) n s = Inr plan \<and> planned s p k n w plan"
    then obtain w plan where plan: "pool_plan_resize (int p) n s = Inr plan" "planned s p k n w plan" by blast
    show ?thesis
    proof (cases "pool_try_resize_same_base plan s")
      case (Some s')
      obtain F' where F': "pool_inv s' F' (A(p := None, p \<mapsto> w)) {}" "contents s' = contents s"
        using same_base_inv [OF inv A plan(2) Some] by auto
      then have "resized p n (min old n) p s s'" by (intro resized_in_place [OF inv A plan(2)]) simp_all
      then show ?thesis using plan(1) Some by (simp add: minyar_pool_resize_def)
    next
      case None
      then show ?thesis using resize_eq [OF plan(1), of old] relocate_correct [OF inv A, of "min old n" n] by simp
    qed
  qed (simp add: minyar_pool_resize_def)
qed

lemma grow_lower_moves:
  assumes "pool_inv s F A {}" "A p = Some k" "planned s p k n w plan" "k < w" "minyar_pool_try_grow_lower plan s = Some (q, s')"
  shows "resized p n 0 q s s'"
proof -
  have plan: "plan_order plan = k" "plan_wanted plan = w" "plan_capacity plan = pool_block_size k"
    "plan_target plan = pool_block_size w" "plan_offset plan = p" "w \<le> pool_max_order s"
    using assms(3) by (simp_all add: planned_def)
  obtain F' where inv': "pool_inv s' F' (A(p := None, q \<mapsto> w)) {}"
    using grow_lower_inv [OF assms(1), of plan q s'] assms(2,4,5) plan by auto
  have "contents (snd (remove_lower b ks t)) = contents t" for b ks t
    by (induction ks arbitrary: b t) (simp_all add: Let_def)
  then have "contents s' = contents s"
    using assms(5) by (auto simp: minyar_pool_try_grow_lower_def Let_def split: if_splits prod.splits) (metis snd_conv)
  moreover have "q = p \<or> A q = None"
    using grow_lower_inv(2) [OF assms(1), of plan q s'] assms(2,4,5) plan by (auto split: if_splits)
  ultimately show ?thesis using resized_in_place [OF assms(1-3) inv'] by simp
qed

lemma discard_cases:
  assumes "pool_ok s" "pool_allocation s p = Some k"
  shows "minyar_pool_resize_discard (Some (int p)) n s = exhausted \<or>
    (\<exists>q s'. minyar_pool_resize_discard (Some (int p)) n s = Inr (q, s') \<and> resized p n 0 q s s')"
proof -
  obtain F A where inv: "pool_inv s F A {}" using assms(1) by (auto simp: pool_ok_def)
  have A: "A p = Some k" using assms(2) allocation_eq [OF inv] by simp
  from plan_resize_cases [OF inv A, of n] show ?thesis
  proof
    assume "\<exists>w plan. pool_plan_resize (int p) n s = Inr plan \<and> planned s p k n w plan"
    then obtain w plan where plan: "pool_plan_resize (int p) n s = Inr plan" "planned s p k n w plan" by blast
    show ?thesis
    proof (cases "pool_try_resize_same_base plan s")
      case (Some s')
      obtain F' where F': "pool_inv s' F' (A(p := None, p \<mapsto> w)) {}" "contents s' = contents s"
        using same_base_inv [OF inv A plan(2) Some] by auto
      then have "resized p n 0 p s s'" by (intro resized_in_place [OF inv A plan(2)]) simp_all
      then show ?thesis using plan(1) Some by (simp add: minyar_pool_resize_discard_def)
    next
      case None
      then have "k < w" using plan(2) by (auto simp: planned_def pool_try_resize_same_base_def split: if_splits)
      note lower = grow_lower_moves [OF inv A plan(2) this]
      show ?thesis
      proof (cases "if plan_offset plan AND (plan_target plan - 1) \<noteq> 0 then minyar_pool_try_grow_lower plan s else None")
        case None
        then show ?thesis using discard_eq [OF plan(1) \<open>pool_try_resize_same_base plan s = None\<close>] relocate_correct [OF inv A, of 0 n]
          by simp
      next
        case (Some r)
        then have "resized p n 0 (fst r) s (snd r)" using lower [of "fst r" "snd r"] by (simp split: if_splits)
        then show ?thesis using discard_eq [OF plan(1) None] Some by (cases r) simp
      qed
    qed
  qed (simp add: minyar_pool_resize_discard_def)
qed

section \<open>Every run of the heap\<close>

text \<open>The heap as a state machine: any operation at any time, and the program writing to memory.\<close>

inductive pool_reaches :: "nat \<Rightarrow> pool \<Rightarrow> bool" for M where
  start: "pool_reaches M (minyar_pool_initialize (pool_block_size M))"
| allocate: "pool_reaches M s \<Longrightarrow> minyar_pool_allocate n s = Inr (p, s') \<Longrightarrow> pool_reaches M s'"
| deallocate: "pool_reaches M s \<Longrightarrow> minyar_pool_deallocate x s = Inr s' \<Longrightarrow> pool_reaches M s'"
| resize: "pool_reaches M s \<Longrightarrow> minyar_pool_resize x old n s = Inr (p, s') \<Longrightarrow> pool_reaches M s'"
| discard: "pool_reaches M s \<Longrightarrow> minyar_pool_resize_discard x n s = Inr (p, s') \<Longrightarrow> pool_reaches M s'"
| store: "pool_reaches M s \<Longrightarrow> pool_reaches M (s\<lparr>contents := c\<rparr>)"

lemma plan_valid:
  assumes "pool_ok s" "pool_plan_resize x n s = Inr plan"
  obtains p k where "x = int p" "pool_allocation s p = Some k"
proof -
  obtain F A where inv: "pool_inv s F A {}" using assms(1) by (auto simp: pool_ok_def)
  obtain k where "pool_allocated_order x s = Inr k" using assms(2) by (auto simp: pool_plan_resize_def rbind_eq_Inr)
  then have "x = int (nat x)" "A (nat x) = Some k"
    using allocated_order_eq [OF inv, of x] by (auto split: if_splits option.splits)
  then show ?thesis using that [of "nat x" k] allocation_eq [OF inv] by simp
qed

lemma allocate_ok: "pool_ok s \<Longrightarrow> minyar_pool_allocate n s = Inr (p, s') \<Longrightarrow> pool_ok s'"
  using allocate_cases [of s _ _ n] by (fastforce simp: pool_ok_def)

lemma deallocate_ok:
  assumes "pool_ok s" "minyar_pool_deallocate x s = Inr s'" shows "pool_ok s'"
proof (cases x)
  case (Some p)
  obtain F A where inv: "pool_inv s F A {}" using assms(1) by (auto simp: pool_ok_def)
  obtain k where "pool_allocated_order p s = Inr k" using assms(2) Some by (auto simp: minyar_pool_deallocate_def rbind_eq_Inr)
  then have p: "p = int (nat p)" "A (nat p) = Some k"
    using allocated_order_eq [OF inv, of p] by (auto split: if_splits option.splits)
  obtain s'' F' where "minyar_pool_deallocate (Some (int (nat p))) s = Inr s''" "pool_inv s'' F' (A(nat p := None)) {}"
    using deallocate_inv [OF inv p(2)] by blast
  then show ?thesis using assms(2) Some p(1) by (auto simp: pool_ok_def)
qed (use assms in \<open>simp add: minyar_pool_deallocate_def\<close>)

lemma resized_ok: "r = exhausted \<or> (\<exists>q s'. r = Inr (q, s') \<and> resized p n m q s s') \<Longrightarrow> r = Inr (q, s') \<Longrightarrow> pool_ok s'"
  by (auto simp: resized_def)

lemma resize_ok:
  assumes "pool_ok s" "minyar_pool_resize x old n s = Inr (q, s')" shows "pool_ok s'"
proof (cases x)
  case (Some y)
  then obtain plan where plan: "pool_plan_resize y n s = Inr plan"
    using assms(2) by (auto simp: minyar_pool_resize_def rbind_eq_Inr)
  obtain p k where p: "y = int p" "pool_allocation s p = Some k" by (rule plan_valid [OF assms(1) plan])
  show ?thesis using resized_ok [OF resize_cases [OF assms(1) p(2)]] assms(2) Some p(1) by blast
qed (use assms allocate_ok in \<open>auto simp: minyar_pool_resize_def\<close>)

lemma discard_ok:
  assumes "pool_ok s" "minyar_pool_resize_discard x n s = Inr (q, s')" shows "pool_ok s'"
proof (cases x)
  case (Some y)
  then obtain plan where plan: "pool_plan_resize y n s = Inr plan"
    using assms(2) by (auto simp: minyar_pool_resize_discard_def rbind_eq_Inr)
  obtain p k where p: "y = int p" "pool_allocation s p = Some k" by (rule plan_valid [OF assms(1) plan])
  show ?thesis using resized_ok [OF discard_cases [OF assms(1) p(2)]] assms(2) Some p(1) by blast
qed (use assms allocate_ok in \<open>auto simp: minyar_pool_resize_discard_def\<close>)

lemma reaches_ok: "pool_reaches M s \<Longrightarrow> M \<le> 57 \<Longrightarrow> pool_ok s"
proof (induction rule: pool_reaches.induct)
  case start
  then show ?case using initialize_inv by (auto simp: pool_ok_def)
next
  case (store s c)
  have "pool_inv (s\<lparr>contents := c\<rparr>) F A H = pool_inv s F A H" for F A H
    by (simp add: pool_inv_def lists_ok_def map_at_def)
  then show ?case using store by (simp add: pool_ok_def)
qed (auto intro: allocate_ok deallocate_ok resize_ok discard_ok)

text \<open>
  C27. In every state a bounded heap can reach, through any sequence of allocations, releases and
  resizes, the allocated blocks lie inside the heap, are aligned to their size and do not overlap,
  and the recorded use is the sum of their sizes.
\<close>

theorem pool_always_safe:
  assumes "pool_reaches M s" "M \<le> 57"
  shows "(\<forall>p j. pool_allocation s p = Some j \<longrightarrow> p + pool_block_size j \<le> pool_heap_bytes s \<and> pool_block_size j dvd p) \<and>
    (\<forall>p j q k. pool_allocation s p = Some j \<and> pool_allocation s q = Some k \<and> p \<noteq> q \<longrightarrow>
      {p..<p + pool_block_size j} \<inter> {q..<q + pool_block_size k} = {}) \<and>
    pool_used s = (\<Sum>p \<in> dom (pool_allocation s). pool_block_size (the (pool_allocation s p)))"
proof -
  obtain F A where inv: "pool_inv s F A {}" using reaches_ok [OF assms] by (auto simp: pool_ok_def)
  have "pool_used s = (\<Sum>p \<in> dom A. pool_block_size (the (A p)))" using inv by (simp add: pool_inv_def)
  then show ?thesis
    unfolding allocation_eq [OF inv] using inv_taken(5,6) [OF inv] inv_disjoint [OF inv] by blast
qed

theorem pool_always_safe_witness:
  "pool_used (minyar_pool_initialize 4096) = (\<Sum>p \<in> dom (pool_allocation (minyar_pool_initialize 4096)).
     pool_block_size (the (pool_allocation (minyar_pool_initialize 4096) p)))"
  using pool_always_safe [OF pool_reaches.start [of 7]] by (simp add: block_size)

definition sample_pool :: pool where
  "sample_pool = (case minyar_pool_try_allocate 100 (minyar_pool_initialize 4096) of
     Some (_, s) \<Rightarrow> s | None \<Rightarrow> minyar_pool_initialize 4096)"

lemma sample_pool_block: "pool_allocation sample_pool 0 = Some 2"
  by code_simp

lemma sample_pool_ok: "pool_ok sample_pool"
  using small_heap_ok(1) allocate_ok [OF small_heap_ok(1), of 100]
  by (auto simp: sample_pool_def minyar_pool_allocate_def split: option.splits)



text \<open>
  Resizing without preserving the contents obeys the same contract, including when the block
  grows downwards into its lower buddies and so changes its place without an allocation.
\<close>

theorem pool_resize_discard_correct:
  assumes "pool_ok s" "pool_allocation s p = Some k"
  shows "minyar_pool_resize_discard (Some (int p)) n s = exhausted \<or>
    (\<exists>q s'. minyar_pool_resize_discard (Some (int p)) n s = Inr (q, s') \<and> resized p n 0 q s s')"
  by (rule discard_cases [OF assms])

theorem pool_resize_discard_correct_witness:
  "minyar_pool_resize_discard (Some 0) 300 sample_pool = exhausted \<or>
    (\<exists>q s'. minyar_pool_resize_discard (Some 0) 300 sample_pool = Inr (q, s') \<and> resized 0 300 0 q sample_pool s')"
  using pool_resize_discard_correct [OF sample_pool_ok sample_pool_block, of 300] by simp

end
