(* ===== verification/Rc.thy ===== *)
theory Rc
  imports Guards "HOL-Library.Finite_Map" "HOL-Library.Multiset"
begin

text \<open>
  Compiler-inserted reference counting (\<open>runtime/minyar_rc.h\<close>), in the configuration that releases
  eagerly (neither \<open>MINYAR_COMPILER_ARENA\<close> nor \<open>MINYAR_BOUNDED_RC\<close>).

  A value is a 64-bit word; as a pointer, zero is \<open>NULL\<close>. The heap maps the address of each object to
  its header and contents. The header \<open>ownership\<close> packs a count above three bits of kind: the
  count is the field \<open>holders\<close> and the kind is the constructor of the contents. A count of zero marks an
  immortal literal or cache, and, for a moment, an object waiting to be destroyed. The data blocks of a
  \<open>Text\<close> or \<open>List\<close> belong to one object and are part of it.

  Reading or writing an object that is not there, or not of the kind the code takes it for, is undefined
  behaviour in C and has its own outcome. The address \<open>malloc\<close> returns is a parameter, a function of the
  objects in use; where it is \<open>None\<close> the host is out of memory. The arrays that only the runtime
  sees are taken to be available up to the sizes the code itself rejects.
\<close>

type_synonym ptr = "64 word"

abbreviation SIZE_LIMIT :: nat where "SIZE_LIMIT \<equiv> 0xffffffffffffffff"

section \<open>Outcomes\<close>

datatype fault = Stopped string | Undefined

definition rc_stop :: "string \<Rightarrow> fault + 'a" where
  "rc_stop message = Inl (Stopped message)"

definition out_of_memory :: "fault + 'a" where
  "out_of_memory = rc_stop ''the computer ran out of memory.''"

lemma rc_stop_simps [simp]:
  "rc_stop m \<noteq> Inr x" "Inr x \<noteq> rc_stop m" "rc_stop m \<noteq> Inl Undefined" "rbind (rc_stop m) f = rc_stop m"
  "rc_stop m = Inl e \<longleftrightarrow> e = Stopped m"
  by (auto simp: rc_stop_def)

lemma out_of_memory_simps [simp]:
  "out_of_memory \<noteq> Inr x" "Inr x \<noteq> out_of_memory" "out_of_memory \<noteq> Inl Undefined"
  "rbind out_of_memory f = out_of_memory"
  by (simp_all add: out_of_memory_def)

section \<open>Objects\<close>

record minyar_list =
  list_values :: "ptr list" \<comment> \<open>the first \<open>length\<close> entries of \<open>values\<close>\<close>
  list_capacity :: int

datatype content =
    RC_TEXT ptr \<comment> \<open>the backing of a view, or \<open>NULL\<close>\<close>
  | RC_LIST minyar_list
  | RC_REFERENCES minyar_list
  | RC_RECORD "bool list" "ptr list" \<comment> \<open>the reference map and the fields\<close>
  | RC_SCALAR_RECORD "ptr list"

record rc_object =
  holders :: nat
  content :: content

fun kind_code :: "content \<Rightarrow> nat" where
  "kind_code (RC_TEXT _) = 1"
| "kind_code (RC_LIST _) = 2"
| "kind_code (RC_REFERENCES _) = 3"
| "kind_code (RC_RECORD _ _) = 4"
| "kind_code (RC_SCALAR_RECORD _) = 5"

definition ownership :: "rc_object \<Rightarrow> nat" where
  "ownership object = 8 * holders object + kind_code (content object)"

record rc_heap =
  objects :: "(ptr, rc_object) fmap"
  rc_pending :: "ptr list" \<comment> \<open>a stack, its top first\<close>
  rc_pending_capacity :: nat

type_synonym host = "(ptr, rc_object) fmap \<Rightarrow> ptr option"

text \<open>\<open>free(object)\<close>.\<close>

definition rc_free :: "ptr \<Rightarrow> rc_heap \<Rightarrow> rc_heap" where
  "rc_free value h = h\<lparr>objects := fmdrop value (objects h)\<rparr>"

definition rc_allocate_object :: "host \<Rightarrow> nat \<Rightarrow> content \<Rightarrow> rc_heap \<Rightarrow> fault + ptr \<times> rc_heap" where
  "rc_allocate_object malloc bytes contents h =
     (if bytes > SIZE_LIMIT - 8 then out_of_memory
      else case malloc (objects h) of
        None \<Rightarrow> out_of_memory
      | Some a \<Rightarrow> Inr (a, h\<lparr>objects := fmupd a \<lparr>holders = 1, content = contents\<rparr> (objects h)\<rparr>))"

section \<open>Counting\<close>

definition minyar_rc_retain :: "ptr \<Rightarrow> rc_heap \<Rightarrow> fault + rc_heap" where
  "minyar_rc_retain value h =
     (if value = 0 then Inr h
      else case fmlookup (objects h) value of
        None \<Rightarrow> Inl Undefined
      | Some object \<Rightarrow>
          if holders object = 0 then Inr h
          else if ownership object > SIZE_LIMIT - 8 then rc_stop ''this value has too many references.''
          else Inr (h\<lparr>objects := fmupd value (object\<lparr>holders := holders object + 1\<rparr>) (objects h)\<rparr>))"

text \<open>The growth of \<open>rc_pending\<close> and the push.\<close>

definition push_pending :: "ptr \<Rightarrow> rc_heap \<Rightarrow> fault + rc_heap" where
  "push_pending value h =
     (let old = rc_pending_capacity h;
          grown = (if old \<noteq> 0 then old * 2 mod 2 ^ 64 else 64) in
      if length (rc_pending h) = old then
        (if grown < old \<or> grown > SIZE_LIMIT div 8 then out_of_memory
         else Inr (h\<lparr>rc_pending := value # rc_pending h, rc_pending_capacity := grown\<rparr>))
      else Inr (h\<lparr>rc_pending := value # rc_pending h\<rparr>))"

function rc_drop :: "ptr \<Rightarrow> rc_heap \<Rightarrow> fault + rc_heap" where
  "rc_drop value h =
     (if value = 0 then Inr h
      else case fmlookup (objects h) value of
        None \<Rightarrow> Inl Undefined
      | Some object \<Rightarrow>
          if holders object = 0 then Inr h
          else if holders object - 1 > 0 then
            Inr (h\<lparr>objects := fmupd value (object\<lparr>holders := holders object - 1\<rparr>) (objects h)\<rparr>)
          else
            case content object of
              RC_TEXT backing \<Rightarrow>
                if backing \<noteq> 0 then rc_drop backing (rc_free value h) else Inr (rc_free value h)
            | RC_LIST _ \<Rightarrow> Inr (rc_free value h)
            | RC_SCALAR_RECORD _ \<Rightarrow> Inr (rc_free value h)
            | _ \<Rightarrow> push_pending value (h\<lparr>objects := fmupd value (object\<lparr>holders := 0\<rparr>) (objects h)\<rparr>))"
  by pat_completeness auto
termination
proof (relation "measure (\<lambda>(_, h). card (fmdom' (objects h)))")
  fix v :: ptr and h :: rc_heap and object :: rc_object and backing :: ptr
  assume "fmlookup (objects h) v = Some object"
  then have "fmdom' (objects h) - {v} \<subset> fmdom' (objects h)" by (auto intro: fmdom'I)
  then show "((backing, rc_free v h), v, h) \<in> measure (\<lambda>(_, h). card (fmdom' (objects h)))"
    by (simp add: rc_free_def psubset_card_mono)
qed simp

declare rc_drop.simps [simp del]

lemma push_pending_Inr:
  assumes "push_pending value h = Inr h'"
  shows "objects h' = objects h" and "rc_pending h' = value # rc_pending h"
  using assms by (auto simp: push_pending_def Let_def split: if_splits)

lemma rc_drop_domain: "rc_drop v h = Inr h' \<Longrightarrow> fmdom' (objects h') \<subseteq> fmdom' (objects h)"
proof (induction v h arbitrary: h' rule: rc_drop.induct)
  case (1 v h)
  show ?case
  proof (cases "fmlookup (objects h) v")
    case None
    with "1.prems" show ?thesis by (simp add: rc_drop.simps [of v h] split: if_splits)
  next
    case (Some object)
    then have "v \<in> fmdom' (objects h)" by (rule fmdom'I)
    with Some "1.prems" "1.IH" [OF _ Some] show ?thesis
      by (auto simp: rc_drop.simps [of v h] rc_free_def split: if_splits content.splits
          dest!: push_pending_Inr(1))
  qed
qed

lemma rfold_drop_domain:
  "rfold (\<lambda>h v. rc_drop v h) h vs = Inr h' \<Longrightarrow> fmdom' (objects h') \<subseteq> fmdom' (objects h)"
proof (induction vs arbitrary: h)
  case (Cons v vs)
  then obtain h1 where "rc_drop v h = Inr h1" "rfold (\<lambda>h v. rc_drop v h) h1 vs = Inr h'"
    by (auto simp: rbind_eq_Inr)
  with Cons.IH rc_drop_domain show ?case by blast
qed simp

text \<open>The fields of a record that its map marks as references.\<close>

fun marked :: "bool list \<Rightarrow> ptr list \<Rightarrow> ptr list" where
  "marked (m # ms) (v # vs) = (if m then v # marked ms vs else marked ms vs)"
| "marked _ _ = []"

text \<open>\<open>minyar_rc_release\<close>'s loop: one dead container at a time gives up what it holds and is freed.\<close>

function rc_drain :: "rc_heap \<Rightarrow> fault + rc_heap" where
  "rc_drain h =
     (case rc_pending h of
        [] \<Rightarrow> Inr h
      | value # rest \<Rightarrow>
          (case fmlookup (objects h) value of
             None \<Rightarrow> Inl Undefined
           | Some object \<Rightarrow>
               rbind
                 (case content object of
                    RC_REFERENCES list \<Rightarrow>
                      rfold (\<lambda>h v. rc_drop v h) (h\<lparr>rc_pending := rest\<rparr>) (list_values list)
                  | RC_RECORD references slots \<Rightarrow>
                      rfold (\<lambda>h v. rc_drop v h) (h\<lparr>rc_pending := rest\<rparr>) (marked references slots)
                  | _ \<Rightarrow> Inl Undefined)
                 (\<lambda>h. rc_drain (rc_free value h))))"
  by pat_completeness auto
termination
proof (relation "measure (\<lambda>h. card (fmdom' (objects h)))")
  fix h h' :: rc_heap and v :: ptr and rest and object :: rc_object
  assume "fmlookup (objects h) v = Some object"
  then have "v \<in> fmdom' (objects h)" by (rule fmdom'I)
  moreover assume "(case content object of
      RC_REFERENCES list \<Rightarrow> rfold (\<lambda>h v. rc_drop v h) (h\<lparr>rc_pending := rest\<rparr>) (list_values list)
    | RC_RECORD references slots \<Rightarrow> rfold (\<lambda>h v. rc_drop v h) (h\<lparr>rc_pending := rest\<rparr>) (marked references slots)
    | _ \<Rightarrow> Inl Undefined) = Inr h'"
  then have "fmdom' (objects h') \<subseteq> fmdom' (objects h)"
    by (auto split: content.splits dest!: rfold_drop_domain)
  ultimately have "fmdom' (objects h') - {v} \<subset> fmdom' (objects h)" by blast
  then show "(rc_free v h', h) \<in> measure (\<lambda>h. card (fmdom' (objects h)))"
    by (simp add: rc_free_def psubset_card_mono)
qed simp

declare rc_drain.simps [simp del]

definition minyar_rc_release :: "ptr \<Rightarrow> rc_heap \<Rightarrow> fault + rc_heap" where
  "minyar_rc_release value h = rbind (rc_drop value h) rc_drain"

section \<open>Frames\<close>

text \<open>The locals and the temporaries a call of a Minyar function owns; the newest temporary first.\<close>

record rc_frame =
  frame_locals :: "ptr list"
  local_capacity :: nat
  frame_temporaries :: "ptr list"
  temporary_capacity :: nat

record rc_state =
  rc_heap :: rc_heap
  rc_frames :: "rc_frame list"
  rc_free_frames :: "rc_frame list"

text \<open>An operation on the objects, run in the whole state.\<close>

definition on_heap :: "(rc_heap \<Rightarrow> fault + rc_heap) \<Rightarrow> rc_state \<Rightarrow> fault + rc_state" where
  "on_heap f s = rbind (f (rc_heap s)) (\<lambda>h. Inr (s\<lparr>rc_heap := h\<rparr>))"

definition minyar_rc_enter :: "int \<Rightarrow> rc_state \<Rightarrow> fault + rc_state" where
  "minyar_rc_enter locals s =
     (let (frame, free) = (case rc_free_frames s of
            frame # free \<Rightarrow> (frame, free)
          | [] \<Rightarrow> (\<lparr>frame_locals = [], local_capacity = 0, frame_temporaries = [], temporary_capacity = 0\<rparr>, []));
          count = nat (locals mod 2 ^ 64) in
      if count > SIZE_LIMIT div 8 then out_of_memory
      else Inr (s\<lparr>rc_free_frames := free,
        rc_frames := frame\<lparr>frame_locals := replicate count 0,
          local_capacity := (if count > local_capacity frame then count else local_capacity frame),
          frame_temporaries := []\<rparr> # rc_frames s\<rparr>))"

text \<open>\<open>while (frame->temporary_count) minyar_rc_release(...)\<close>.\<close>

fun release_all :: "ptr list \<Rightarrow> rc_heap \<Rightarrow> fault + rc_heap" where
  "release_all [] h = Inr h"
| "release_all (v # vs) h = rbind (minyar_rc_release v h) (release_all vs)"

definition minyar_rc_step :: "rc_state \<Rightarrow> fault + rc_state" where
  "minyar_rc_step s =
     (case rc_frames s of
        [] \<Rightarrow> Inl Undefined
      | frame # callers \<Rightarrow>
          rbind (on_heap (release_all (frame_temporaries frame)) s) (\<lambda>s.
          Inr (s\<lparr>rc_frames := frame\<lparr>frame_temporaries := []\<rparr> # callers\<rparr>)))"

definition minyar_rc_leave :: "rc_state \<Rightarrow> fault + rc_state" where
  "minyar_rc_leave s =
     rbind (minyar_rc_step s) (\<lambda>s.
     case rc_frames s of
       [] \<Rightarrow> Inl Undefined
     | frame # callers \<Rightarrow>
         rbind (on_heap (release_all (frame_locals frame)) s) (\<lambda>s.
         Inr (s\<lparr>rc_frames := callers, rc_free_frames := frame # rc_free_frames s\<rparr>)))"

definition minyar_rc_keep :: "ptr \<Rightarrow> rc_state \<Rightarrow> fault + rc_state" where
  "minyar_rc_keep value s =
     (if value = 0 then Inr s
      else case fmlookup (objects (rc_heap s)) value of
        None \<Rightarrow> Inl Undefined
      | Some object \<Rightarrow>
          if holders object = 0 then Inr s
          else case rc_frames s of
            [] \<Rightarrow> Inl Undefined
          | frame # callers \<Rightarrow>
              let old = temporary_capacity frame;
                  grown = (if old \<noteq> 0 then old * 2 mod 2 ^ 64 else 8);
                  full = length (frame_temporaries frame) = old in
              if full \<and> grown > SIZE_LIMIT div 8 then out_of_memory
              else Inr (s\<lparr>rc_frames := frame\<lparr>frame_temporaries := value # frame_temporaries frame,
                temporary_capacity := (if full then grown else old)\<rparr> # callers\<rparr>))"

definition minyar_rc_local_take :: "nat \<Rightarrow> ptr \<Rightarrow> rc_state \<Rightarrow> fault + rc_state" where
  "minyar_rc_local_take index value s =
     (case rc_frames s of
        [] \<Rightarrow> Inl Undefined
      | frame # callers \<Rightarrow>
          if index \<ge> length (frame_locals frame) then Inl Undefined
          else
            let previous = frame_locals frame ! index in
            on_heap (minyar_rc_release previous)
              (s\<lparr>rc_frames := frame\<lparr>frame_locals := (frame_locals frame)[index := value]\<rparr> # callers\<rparr>))"

definition minyar_rc_local_move :: "nat \<Rightarrow> rc_state \<Rightarrow> fault + rc_state" where
  "minyar_rc_local_move index s =
     (case rc_frames s of
        [] \<Rightarrow> Inl Undefined
      | frame # callers \<Rightarrow>
          if index \<ge> length (frame_locals frame) then Inl Undefined
          else Inr (s\<lparr>rc_frames := frame\<lparr>frame_locals := (frame_locals frame)[index := 0]\<rparr> # callers\<rparr>))"

definition minyar_rc_local :: "nat \<Rightarrow> ptr \<Rightarrow> rc_state \<Rightarrow> fault + rc_state" where
  "minyar_rc_local index value s =
     rbind (on_heap (minyar_rc_retain value) s) (minyar_rc_local_take index value)"

definition minyar_rc_borrow :: "ptr \<Rightarrow> rc_state \<Rightarrow> fault + rc_state" where
  "minyar_rc_borrow value s = rbind (on_heap (minyar_rc_retain value) s) (minyar_rc_keep value)"

end
