(* ===== verification/Containers.thy ===== *)
theory Containers
  imports Rc
begin

text \<open>
  Lists, records and Text headers as objects of the reference-counted heap
  (\<open>runtime/minyar_runtime.c\<close>, \<open>minyar_list_new\<close> to \<open>minyar_record_set_reference\<close>). A list of
  references owns what its slots hold, a record owns the fields its map marks, and a Text view owns
  the Text whose bytes it shows.
\<close>

section \<open>Lists\<close>

definition LARGE_LIST_CAPACITY :: int where
  "LARGE_LIST_CAPACITY = 4096"

text \<open>The object a pointer leads to, and the list in it.\<close>

definition object_at :: "ptr \<Rightarrow> rc_heap \<Rightarrow> fault + rc_object" where
  "object_at p h = (case fmlookup (objects h) p of None \<Rightarrow> Inl Undefined | Some object \<Rightarrow> Inr object)"

fun list_of :: "content \<Rightarrow> fault + minyar_list" where
  "list_of (RC_LIST list) = Inr list"
| "list_of (RC_REFERENCES list) = Inr list"
| "list_of _ = Inl Undefined"

fun with_list :: "content \<Rightarrow> minyar_list \<Rightarrow> content" where
  "with_list (RC_LIST _) list = RC_LIST list"
| "with_list (RC_REFERENCES _) list = RC_REFERENCES list"
| "with_list c list = c"

fun counts_elements :: "content \<Rightarrow> bool" where
  "counts_elements (RC_REFERENCES _) = True"
| "counts_elements _ = False"

definition list_at :: "ptr \<Rightarrow> rc_heap \<Rightarrow> fault + minyar_list" where
  "list_at p h = rbind (object_at p h) (\<lambda>object. list_of (content object))"

definition is_references :: "ptr \<Rightarrow> rc_heap \<Rightarrow> bool" where
  "is_references p h \<longleftrightarrow> (case fmlookup (objects h) p of None \<Rightarrow> False | Some object \<Rightarrow> counts_elements (content object))"

definition put_content :: "ptr \<Rightarrow> content \<Rightarrow> rc_heap \<Rightarrow> fault + rc_heap" where
  "put_content p c h =
     rbind (object_at p h) (\<lambda>object. Inr (h\<lparr>objects := fmupd p (object\<lparr>content := c\<rparr>) (objects h)\<rparr>))"

definition put_list :: "ptr \<Rightarrow> minyar_list \<Rightarrow> rc_heap \<Rightarrow> fault + rc_heap" where
  "put_list p list h = rbind (object_at p h) (\<lambda>object. put_content p (with_list (content object) list) h)"

definition minyar_list_new :: "host \<Rightarrow> rc_heap \<Rightarrow> fault + ptr \<times> rc_heap" where
  "minyar_list_new malloc h = rc_allocate_object malloc 24 (RC_LIST \<lparr>list_values = [], list_capacity = 0\<rparr>) h"

definition minyar_list_references :: "ptr \<Rightarrow> rc_heap \<Rightarrow> fault + rc_heap" where
  "minyar_list_references p h = rbind (list_at p h) (\<lambda>list. put_content p (RC_REFERENCES list) h)"

text \<open>A product outside the signed range is undefined behaviour.\<close>

definition list_grow :: "minyar_list \<Rightarrow> fault + minyar_list" where
  "list_grow list =
     (let old = list_capacity list;
          grown = (if old = 0 then 2 else if old \<ge> LARGE_LIST_CAPACITY then old * 4 else old * 2) in
      if grown > LLONG_MAX then Inl Undefined
      else if grown < old \<or> nat grown > SIZE_LIMIT div 8 then rc_stop ''this List became too large.''
      else if nat grown * 8 > SIZE_LIMIT - 8 then out_of_memory
      else Inr (list\<lparr>list_capacity := grown\<rparr>))"

definition make_room :: "ptr \<Rightarrow> rc_heap \<Rightarrow> fault + rc_heap" where
  "make_room p h =
     rbind (list_at p h) (\<lambda>list.
     if int (length (list_values list)) = list_capacity list
     then rbind (list_grow list) (\<lambda>list. put_list p list h)
     else Inr h)"

text \<open>\<open>list->values[list->length++] = value\<close>.\<close>

definition append_value :: "ptr \<Rightarrow> ptr \<Rightarrow> rc_heap \<Rightarrow> fault + rc_heap" where
  "append_value p v h =
     rbind (list_at p h) (\<lambda>list. put_list p (list\<lparr>list_values := list_values list @ [v]\<rparr>) h)"

definition minyar_list_add :: "ptr \<Rightarrow> ptr \<Rightarrow> rc_heap \<Rightarrow> fault + rc_heap" where
  "minyar_list_add p v h =
     rbind (make_room p h) (\<lambda>h.
     rbind (if is_references p h then minyar_rc_retain v h else Inr h) (append_value p v))"

definition minyar_list_add_take :: "ptr \<Rightarrow> ptr \<Rightarrow> rc_heap \<Rightarrow> fault + rc_heap" where
  "minyar_list_add_take p v h = rbind (make_room p h) (append_value p v)"

definition minyar_list_length :: "ptr \<Rightarrow> rc_heap \<Rightarrow> fault + int" where
  "minyar_list_length p h = rbind (list_at p h) (\<lambda>list. Inr (int (length (list_values list))))"

definition list_position_stop :: "int \<Rightarrow> int \<Rightarrow> fault + 'a" where
  "list_position_stop position len =
     rc_stop (''List position '' @ decimal_int position @ '' is outside its length of '' @ decimal_int len @ ''.'')"

text \<open>\<open>(unsigned long long)position >= (unsigned long long)length\<close>.\<close>

definition outside :: "int \<Rightarrow> 'a list \<Rightarrow> bool" where
  "outside position xs \<longleftrightarrow> position mod 2 ^ 64 \<ge> int (length xs)"

definition minyar_list_get :: "ptr \<Rightarrow> int \<Rightarrow> rc_heap \<Rightarrow> fault + ptr" where
  "minyar_list_get p position h =
     rbind (list_at p h) (\<lambda>list.
     if outside position (list_values list) then list_position_stop position (int (length (list_values list)))
     else Inr (list_values list ! nat position))"

definition minyar_list_set_owned :: "ptr \<Rightarrow> int \<Rightarrow> ptr \<Rightarrow> bool \<Rightarrow> rc_heap \<Rightarrow> fault + rc_heap" where
  "minyar_list_set_owned p position v retain_value h =
     rbind (list_at p h) (\<lambda>list.
     let changed = list\<lparr>list_values := (list_values list)[nat position := v]\<rparr> in
     if outside position (list_values list) then list_position_stop position (int (length (list_values list)))
     else if is_references p h then
       rbind (if retain_value then minyar_rc_retain v h else Inr h) (\<lambda>h.
       rbind (put_list p changed h) (minyar_rc_release (list_values list ! nat position)))
     else put_list p changed h)"

definition minyar_list_set :: "ptr \<Rightarrow> int \<Rightarrow> ptr \<Rightarrow> rc_heap \<Rightarrow> fault + rc_heap" where
  "minyar_list_set p position v h = minyar_list_set_owned p position v True h"

definition minyar_list_set_take :: "ptr \<Rightarrow> int \<Rightarrow> ptr \<Rightarrow> rc_heap \<Rightarrow> fault + rc_heap" where
  "minyar_list_set_take p position v h = minyar_list_set_owned p position v False h"

lemma list_grow_increases: "list_grow list = Inr list' \<Longrightarrow> list_capacity list < list_capacity list'"
  by (auto simp: list_grow_def Let_def split: if_splits)

text \<open>\<open>while (result->capacity < list->length + 1) list_grow(result)\<close>.\<close>

function grow_to :: "int \<Rightarrow> minyar_list \<Rightarrow> fault + minyar_list" where
  "grow_to needed list =
     (if list_capacity list < needed then rbind (list_grow list) (grow_to needed) else Inr list)"
  by pat_completeness auto
termination
  by (relation "measure (\<lambda>(needed, list). nat (needed - list_capacity list))") (auto dest: list_grow_increases)

declare grow_to.simps [simp del]

definition fill_list :: "ptr \<Rightarrow> ptr list \<Rightarrow> ptr \<Rightarrow> bool \<Rightarrow> rc_heap \<Rightarrow> fault + rc_heap" where
  "fill_list r values v take_value h =
     rbind (list_at r h) (\<lambda>result.
     rbind (grow_to (int (length values) + 1) result) (\<lambda>result.
     rbind (put_list r result h) (\<lambda>h.
     rbind (rfold (\<lambda>h v. minyar_list_add r v h) h values) (\<lambda>h.
     if take_value then minyar_list_add_take r v h else minyar_list_add r v h))))"

definition minyar_list_appended ::
    "host \<Rightarrow> ptr \<Rightarrow> ptr \<Rightarrow> bool \<Rightarrow> bool \<Rightarrow> rc_heap \<Rightarrow> fault + ptr \<times> rc_heap" where
  "minyar_list_appended malloc p v references take_value h =
     rbind (minyar_list_new malloc h) (\<lambda>(r, h).
     rbind (if references then minyar_list_references r h else Inr h) (\<lambda>h.
     rbind (list_at p h) (\<lambda>list.
     if int (length (list_values list)) = LLONG_MAX then rc_stop ''this List became too large.''
     else rbind (fill_list r (list_values list) v take_value h) (\<lambda>h. Inr (r, h)))))"

section \<open>Records\<close>

definition record_allocate :: "host \<Rightarrow> int \<Rightarrow> bool \<Rightarrow> rc_heap \<Rightarrow> fault + ptr \<times> rc_heap" where
  "record_allocate malloc field_count references h =
     (let n = nat field_count; field_size = (if references then 9 else 8) in
      if field_count < 0 \<or> n > SIZE_LIMIT div 8 then rc_stop ''this record has too many fields.''
      else if n > (SIZE_LIMIT - 8 - 8) div field_size then out_of_memory
      else rc_allocate_object malloc (8 + n * field_size)
        (if references then RC_RECORD (replicate n False) (replicate n 0) else RC_SCALAR_RECORD (replicate n 0)) h)"

definition minyar_record_new :: "host \<Rightarrow> int \<Rightarrow> rc_heap \<Rightarrow> fault + ptr \<times> rc_heap" where
  "minyar_record_new malloc field_count h = record_allocate malloc field_count True h"

definition minyar_record_new_scalar :: "host \<Rightarrow> int \<Rightarrow> rc_heap \<Rightarrow> fault + ptr \<times> rc_heap" where
  "minyar_record_new_scalar malloc field_count h = record_allocate malloc field_count False h"

fun slots_of :: "content \<Rightarrow> fault + ptr list" where
  "slots_of (RC_RECORD _ slots) = Inr slots"
| "slots_of (RC_SCALAR_RECORD slots) = Inr slots"
| "slots_of _ = Inl Undefined"

fun with_slots :: "content \<Rightarrow> ptr list \<Rightarrow> content" where
  "with_slots (RC_RECORD references _) slots = RC_RECORD references slots"
| "with_slots (RC_SCALAR_RECORD _) slots = RC_SCALAR_RECORD slots"
| "with_slots c slots = c"

definition minyar_record_get :: "ptr \<Rightarrow> int \<Rightarrow> rc_heap \<Rightarrow> fault + ptr" where
  "minyar_record_get p field h =
     rbind (object_at p h) (\<lambda>object.
     rbind (slots_of (content object)) (\<lambda>slots.
     if outside field slots then list_position_stop field (int (length slots)) else Inr (slots ! nat field)))"

definition minyar_record_set_scalar :: "ptr \<Rightarrow> int \<Rightarrow> ptr \<Rightarrow> rc_heap \<Rightarrow> fault + rc_heap" where
  "minyar_record_set_scalar p field v h =
     rbind (object_at p h) (\<lambda>object.
     rbind (slots_of (content object)) (\<lambda>slots.
     if outside field slots then list_position_stop field (int (length slots))
     else put_content p (with_slots (content object) (slots[nat field := v])) h))"

definition minyar_record_set :: "ptr \<Rightarrow> int \<Rightarrow> ptr \<Rightarrow> rc_heap \<Rightarrow> fault + rc_heap" where
  "minyar_record_set p field v h =
     rbind (object_at p h) (\<lambda>object.
     rbind (slots_of (content object)) (\<lambda>slots.
     if outside field slots then list_position_stop field (int (length slots))
     else put_content p (with_slots (content object) (slots[nat field := v])) h))"

text \<open>The map is behind the fields of a record with references; a scalar record has none to write.\<close>

definition minyar_record_set_take :: "ptr \<Rightarrow> int \<Rightarrow> ptr \<Rightarrow> rc_heap \<Rightarrow> fault + rc_heap" where
  "minyar_record_set_take p field v h =
     rbind (object_at p h) (\<lambda>object.
     rbind (slots_of (content object)) (\<lambda>slots.
     if outside field slots then list_position_stop field (int (length slots))
     else case content object of
       RC_RECORD references slots \<Rightarrow>
         rbind (put_content p (RC_RECORD (references[nat field := True]) slots) h) (minyar_record_set p field v)
     | _ \<Rightarrow> Inl Undefined))"

definition minyar_record_set_reference :: "ptr \<Rightarrow> int \<Rightarrow> ptr \<Rightarrow> rc_heap \<Rightarrow> fault + rc_heap" where
  "minyar_record_set_reference p field v h = rbind (minyar_rc_retain v h) (minyar_record_set_take p field v)"

section \<open>Text headers\<close>

text \<open>The object of \<open>new_text\<close>, and that of a slice view, which shares the bytes of an owning root.\<close>

definition text_object :: "host \<Rightarrow> rc_heap \<Rightarrow> fault + ptr \<times> rc_heap" where
  "text_object malloc h = rc_allocate_object malloc 40 (RC_TEXT 0) h"

definition text_view :: "host \<Rightarrow> ptr \<Rightarrow> rc_heap \<Rightarrow> fault + ptr \<times> rc_heap" where
  "text_view malloc p h =
     rbind (object_at p h) (\<lambda>object.
     case content object of
       RC_TEXT backing \<Rightarrow>
         (let root = (if backing \<noteq> 0 then backing else p) in
          rbind (text_object malloc h) (\<lambda>(view, h).
          rbind (put_content view (RC_TEXT root) h) (\<lambda>h.
          rbind (minyar_rc_retain root h) (\<lambda>h. Inr (view, h)))))
     | _ \<Rightarrow> Inl Undefined)"

end
