(* ===== verification/Rc_Ownership.thy ===== *)
theory Rc_Ownership
  imports Rc
begin

text \<open>
  What the counts mean. A claim on an object is a pointer to it that will be released once: a slot of a
  list of references, a marked field of a record, the backing of a view, and those the rest of the
  program holds, which is a multiset given from outside. The invariant says that every count is
  the number of claims, that no claim leads to a freed object, that only containers without claims
  wait to be destroyed, and that the immortal objects are Text literals. Giving up a claim keeps the invariant and never touches a freed object.
\<close>

section \<open>Safe results\<close>

text \<open>A result is safe for a property when it is no undefined behaviour and its value, if any, has it.\<close>

definition safe :: "fault + 'a \<Rightarrow> ('a \<Rightarrow> bool) \<Rightarrow> bool" where
  "safe r P \<longleftrightarrow> (case r of Inl e \<Rightarrow> e \<noteq> Undefined | Inr x \<Rightarrow> P x)"

lemma safe_simps [simp]:
  "safe (Inr x) P \<longleftrightarrow> P x" "safe (Inl e) P \<longleftrightarrow> e \<noteq> Undefined" "safe (rc_stop m) P" "safe out_of_memory P"
  by (simp_all add: safe_def rc_stop_def out_of_memory_def)

lemma safe_mono: "safe r P \<Longrightarrow> (\<And>x. P x \<Longrightarrow> Q x) \<Longrightarrow> safe r Q"
  by (simp add: safe_def split: sum.splits)

lemma safe_rbind: "safe r P \<Longrightarrow> (\<And>x. P x \<Longrightarrow> safe (f x) Q) \<Longrightarrow> safe (rbind r f) Q"
  by (cases r) (simp_all add: safe_def)

lemma safe_rbind_eq: "safe r P \<Longrightarrow> (\<And>x. r = Inr x \<Longrightarrow> P x \<Longrightarrow> safe (f x) Q) \<Longrightarrow> safe (rbind r f) Q"
  by (cases r) (simp_all add: safe_def)

lemma safe_cases:
  assumes "safe r P"
  obtains x where "r = Inr x" and "P x" | m where "r = Inl (Stopped m)"
  using assms by (auto simp: safe_def split: sum.splits fault.splits) (metis fault.exhaust)

section \<open>Claims\<close>

fun held :: "content \<Rightarrow> ptr list" where
  "held (RC_TEXT backing) = [backing]"
| "held (RC_LIST _) = []"
| "held (RC_REFERENCES list) = list_values list"
| "held (RC_RECORD references slots) = marked references slots"
| "held (RC_SCALAR_RECORD _) = []"

fun well_formed :: "content \<Rightarrow> bool" where
  "well_formed (RC_LIST list) \<longleftrightarrow>
     int (length (list_values list)) \<le> list_capacity list \<and> list_capacity list \<le> int (SIZE_LIMIT div 8)"
| "well_formed (RC_REFERENCES list) \<longleftrightarrow>
     int (length (list_values list)) \<le> list_capacity list \<and> list_capacity list \<le> int (SIZE_LIMIT div 8)"
| "well_formed (RC_RECORD references slots) \<longleftrightarrow> length references = length slots \<and> length slots \<le> SIZE_LIMIT div 8"
| "well_formed (RC_SCALAR_RECORD slots) \<longleftrightarrow> length slots \<le> SIZE_LIMIT div 8"
| "well_formed (RC_TEXT _) \<longleftrightarrow> True"

fun waits :: "content \<Rightarrow> bool" where
  "waits (RC_REFERENCES _) = True"
| "waits (RC_RECORD _ _) = True"
| "waits _ = False"

text \<open>The claims of the objects outside \<open>D\<close>, whose claims have been handed on.\<close>

definition object_claims :: "ptr set \<Rightarrow> (ptr, rc_object) fmap \<Rightarrow> ptr multiset" where
  "object_claims D m = (\<Sum>a\<in>fmdom' m - D. mset (held (content (the (fmlookup m a)))))"

definition claims :: "ptr set \<Rightarrow> ptr multiset \<Rightarrow> rc_heap \<Rightarrow> ptr multiset" where
  "claims D ext h = ext + object_claims D (objects h)"

lemma object_claims_remove:
  assumes "fmlookup m a = Some object" "a \<notin> D"
  shows "object_claims D m = mset (held (content object)) + object_claims (insert a D) m"
proof -
  have "a \<in> fmdom' m - D" using assms by (simp add: fmdom'I)
  then have "object_claims D m = mset (held (content (the (fmlookup m a)))) +
      (\<Sum>b\<in>fmdom' m - D - {a}. mset (held (content (the (fmlookup m b)))))"
    unfolding object_claims_def by (simp add: sum.remove)
  moreover have "fmdom' m - D - {a} = fmdom' m - insert a D" by blast
  ultimately show ?thesis using assms by (simp add: object_claims_def)
qed

lemma object_claims_drop: "object_claims D (fmdrop a m) = object_claims (insert a D) m"
proof -
  have "fmdom' m - {a} - D = fmdom' m - insert a D" by blast
  then show ?thesis unfolding object_claims_def by (auto intro!: sum.cong)
qed

lemma object_claims_update_inside: "a \<in> D \<Longrightarrow> object_claims D (fmupd a object m) = object_claims D m"
  unfolding object_claims_def by (auto intro!: sum.cong)

lemma object_claims_update:
  assumes "a \<notin> D"
  shows "object_claims D (fmupd a object m) = mset (held (content object)) + object_claims (insert a D) m"
  using object_claims_remove [of "fmupd a object m" a object D] assms
  by (simp add: object_claims_update_inside)

lemma object_claims_count:
  assumes "fmlookup m a = Some object"
  shows "object_claims D (fmupd a (object\<lparr>holders := n\<rparr>) m) = object_claims D m"
proof (cases "a \<in> D")
  case True
  then show ?thesis by (rule object_claims_update_inside)
next
  case False
  with assms show ?thesis by (simp add: object_claims_update object_claims_remove)
qed

section \<open>The invariant\<close>

definition object_ok :: "ptr set \<Rightarrow> ptr multiset \<Rightarrow> ptr \<Rightarrow> rc_object \<Rightarrow> bool" where
  "object_ok dead all a object \<longleftrightarrow>
     a \<noteq> 0 \<and> well_formed (content object) \<and> ownership object \<le> SIZE_LIMIT \<and>
     (a \<in> dead \<longrightarrow> holders object = 0 \<and> count all a = 0) \<and>
     (holders object > 0 \<longrightarrow> holders object = count all a) \<and>
     (holders object = 0 \<longrightarrow> a \<in> dead \<or> content object = RC_TEXT 0)"

definition counted :: "ptr set \<Rightarrow> ptr multiset \<Rightarrow> (ptr, rc_object) fmap \<Rightarrow> bool" where
  "counted dead all m \<longleftrightarrow> (\<forall>a object. fmlookup m a = Some object \<longrightarrow> object_ok dead all a object)"

definition within :: "ptr multiset \<Rightarrow> (ptr, rc_object) fmap \<Rightarrow> bool" where
  "within all m \<longleftrightarrow> (\<forall>x. count all x > 0 \<longrightarrow> x = 0 \<or> x \<in> fmdom' m)"

definition queued :: "ptr set \<Rightarrow> rc_heap \<Rightarrow> bool" where
  "queued D h \<longleftrightarrow> distinct (rc_pending h) \<and> D \<inter> set (rc_pending h) = {} \<and>
     (\<forall>a\<in>set (rc_pending h). \<exists>object. fmlookup (objects h) a = Some object \<and> waits (content object))"

definition rc_inv :: "ptr set \<Rightarrow> ptr multiset \<Rightarrow> rc_heap \<Rightarrow> bool" where
  "rc_inv D ext h \<longleftrightarrow> within (claims D ext h) (objects h) \<and>
     counted (D \<union> set (rc_pending h)) (claims D ext h) (objects h) \<and> queued D h"

text \<open>A change at one address leaves the others as they were.\<close>

lemma object_ok_cong:
  "object_ok dead all a object \<Longrightarrow> count all' a = count all a \<Longrightarrow> a \<in> dead' \<longleftrightarrow> a \<in> dead \<Longrightarrow>
   object_ok dead' all' a object"
  by (simp add: object_ok_def)

lemma counted_update:
  assumes "counted dead all m" "\<And>b. b \<noteq> v \<Longrightarrow> count all' b = count all b" "\<And>b. b \<noteq> v \<Longrightarrow> b \<in> dead' \<longleftrightarrow> b \<in> dead"
    and "object_ok dead' all' v object"
  shows "counted dead' all' (fmupd v object m)"
  using assms object_ok_cong [of dead all _ _ all' dead'] unfolding counted_def
  by (simp split: if_splits)

lemma counted_remove:
  assumes "counted dead all m" "\<And>b. b \<noteq> v \<Longrightarrow> count all' b = count all b" "\<And>b. b \<noteq> v \<Longrightarrow> b \<in> dead' \<longleftrightarrow> b \<in> dead"
  shows "counted dead' all' (fmdrop v m)"
  using assms object_ok_cong [of dead all _ _ all' dead'] unfolding counted_def
  by (simp split: if_splits)

lemma counted_same:
  assumes "counted dead all m" "\<And>b object. fmlookup m b = Some object \<Longrightarrow> holders object > 0 \<or> b \<in> dead \<Longrightarrow> count all' b = count all b"
  shows "counted dead all' m"
  using assms unfolding counted_def object_ok_def by (metis not_gr_zero)

lemma invD:
  assumes "rc_inv D ext h" "fmlookup (objects h) a = Some object"
  shows "object_ok (D \<union> set (rc_pending h)) (claims D ext h) a object"
  using assms by (simp add: rc_inv_def counted_def)

text \<open>
  What releasing leaves alone: objects may go, those that stay have their contents, and the immortal
  ones all stay.
\<close>

definition immortal :: "ptr set \<Rightarrow> rc_heap \<Rightarrow> ptr set" where
  "immortal D h = {a. \<exists>object. fmlookup (objects h) a = Some object \<and> holders object = 0 \<and>
     a \<notin> D \<union> set (rc_pending h)}"

definition kept :: "ptr set \<Rightarrow> rc_heap \<Rightarrow> rc_heap \<Rightarrow> bool" where
  "kept D h h' \<longleftrightarrow> immortal D h' = immortal D h \<and>
     (\<forall>a object'. fmlookup (objects h') a = Some object' \<longrightarrow>
        (\<exists>object. fmlookup (objects h) a = Some object \<and> content object' = content object))"

lemma kept_refl [simp, intro]: "kept D h h"
  by (simp add: kept_def)

lemma kept_trans [trans]: "kept D h1 h2 \<Longrightarrow> kept D h2 h3 \<Longrightarrow> kept D h1 h3"
  unfolding kept_def by metis

section \<open>One claim given up\<close>

lemma claims_simps:
  "claims D (add_mset v ext) h = add_mset v (claims D ext h)"
  "claims D (M + ext) h = M + claims D ext h"
  by (simp_all add: claims_def)

lemma inv_claimed:
  assumes "rc_inv D (add_mset v ext) h" "v \<noteq> 0"
  obtains object where "fmlookup (objects h) v = Some object" "v \<notin> D \<union> set (rc_pending h)"
    "holders object > 0 \<Longrightarrow> holders object = Suc (count (claims D ext h) v)"
proof -
  have claim: "count (claims D (add_mset v ext) h) v = Suc (count (claims D ext h) v)" by (simp add: claims_simps)
  then obtain object where object: "fmlookup (objects h) v = Some object"
    using assms unfolding rc_inv_def within_def by (metis fmlookup_dom'_iff zero_less_Suc)
  with claim invD [OF assms(1) object] show ?thesis by (intro that) (auto simp: object_ok_def)
qed

text \<open>A claim on nothing, or on an immortal object, is not counted.\<close>

lemma inv_uncounted:
  assumes inv: "rc_inv D (add_mset v ext) h"
    and "v = 0 \<or> (\<exists>object. fmlookup (objects h) v = Some object \<and> holders object = 0)"
  shows "rc_inv D ext h"
proof -
  let ?dead = "D \<union> set (rc_pending h)"
  have "counted ?dead (claims D ext h) (objects h)"
  proof (rule counted_same)
    show "counted ?dead (claims D (add_mset v ext) h) (objects h)" using inv by (simp add: rc_inv_def)
    fix b object
    assume b: "fmlookup (objects h) b = Some object" "holders object > 0 \<or> b \<in> ?dead"
    with invD [OF inv b(1)] assms(2) have "b \<noteq> v" by (auto simp: object_ok_def claims_simps)
    then show "count (claims D ext h) b = count (claims D (add_mset v ext) h) b" by (simp add: claims_simps)
  qed
  then show ?thesis using inv by (auto simp: rc_inv_def within_def claims_simps split: if_splits)
qed

lemma inv_decrement:
  assumes inv: "rc_inv D (add_mset v ext) h" and object: "fmlookup (objects h) v = Some object"
    and more: "holders object > 1"
  defines "h' \<equiv> h\<lparr>objects := fmupd v (object\<lparr>holders := holders object - 1\<rparr>) (objects h)\<rparr>"
  shows "rc_inv D ext h'" and "kept D h h'"
proof -
  have same: "claims D ext h' = claims D ext h"
    using object by (simp add: claims_def h'_def object_claims_count)
  have ok: "object_ok (D \<union> set (rc_pending h)) (add_mset v (claims D ext h)) v object"
    using invD [OF inv object] by (simp add: claims_simps)
  have "counted (D \<union> set (rc_pending h')) (claims D ext h') (objects h')"
    unfolding same unfolding h'_def using inv ok more
    by (auto simp: rc_inv_def claims_simps object_ok_def ownership_def count_eq_zero_iff intro!: counted_update
        [of _ "add_mset v (claims D ext h)"])
  moreover have "within (claims D ext h') (objects h')"
    unfolding same using inv by (auto simp: rc_inv_def within_def claims_simps h'_def split: if_splits)
  moreover have "queued D h'"
    using inv object by (auto simp: rc_inv_def queued_def h'_def)
  ultimately show "rc_inv D ext h'" by (simp add: rc_inv_def)
  show "kept D h h'"
    using object more by (auto simp: kept_def immortal_def h'_def split: if_splits)
qed

lemma last_claim:
  assumes "rc_inv D (add_mset v ext) h" "fmlookup (objects h) v = Some object" "holders object = 1"
  shows "count (claims D ext h) v = 0" and "v \<notin> D" and "v \<notin> set (rc_pending h)" and "v \<noteq> 0"
  using invD [OF assms(1,2)] assms(3) by (auto simp: object_ok_def claims_simps)

text \<open>The last claim on an object frees it, and what the object held is then to be given up.\<close>

lemma inv_free:
  assumes inv: "rc_inv D (add_mset v ext) h" and object: "fmlookup (objects h) v = Some object"
    and last: "holders object = 1"
  shows "rc_inv D (mset (held (content object)) + ext) (rc_free v h)" and "kept D h (rc_free v h)"
proof -
  note alone = last_claim [OF inv object last]
  have same: "claims D (mset (held (content object)) + ext) (rc_free v h) = claims D ext h"
    using object alone(2) by (simp add: claims_def rc_free_def object_claims_drop object_claims_remove)
  have "counted (D \<union> set (rc_pending h)) (claims D ext h) (fmdrop v (objects h))"
    using inv by (auto simp: rc_inv_def claims_simps intro!: counted_remove [of _ "add_mset v (claims D ext h)"])
  moreover have "within (claims D ext h) (fmdrop v (objects h))"
    using inv alone(1) by (auto simp: rc_inv_def within_def claims_simps count_eq_zero_iff split: if_splits)
  moreover have "queued D (rc_free v h)"
    using inv alone(3) by (auto simp: rc_inv_def queued_def rc_free_def)
  ultimately show "rc_inv D (mset (held (content object)) + ext) (rc_free v h)"
    unfolding rc_inv_def same by (simp add: rc_free_def)
  show "kept D h (rc_free v h)"
    using object last by (auto simp: kept_def immortal_def rc_free_def)
qed

text \<open>A container is set aside instead, still holding what it holds.\<close>

lemma inv_queue:
  assumes inv: "rc_inv D (add_mset v ext) h" and object: "fmlookup (objects h) v = Some object"
    and last: "holders object = 1" and container: "waits (content object)"
    and h': "objects h' = fmupd v (object\<lparr>holders := 0\<rparr>) (objects h)" "rc_pending h' = v # rc_pending h"
  shows "rc_inv D ext h'" and "kept D h h'"
proof -
  note alone = last_claim [OF inv object last]
  have same: "claims D ext h' = claims D ext h"
    using object by (simp add: claims_def h' object_claims_count)
  have "counted (D \<union> set (rc_pending h')) (claims D ext h) (objects h')"
    unfolding h' using inv alone invD [OF inv object]
    by (auto simp: rc_inv_def claims_simps object_ok_def ownership_def
        intro!: counted_update [of _ "add_mset v (claims D ext h)"])
  moreover have "within (claims D ext h) (objects h')"
    using inv by (auto simp: rc_inv_def within_def claims_simps h' split: if_splits)
  moreover have "queued D h'"
    using inv alone container object by (auto simp: rc_inv_def queued_def h')
  ultimately show "rc_inv D ext h'" unfolding rc_inv_def same by simp
  show "kept D h h'"
    using object last by (auto simp: kept_def immortal_def h' split: if_splits)
qed

theorem rc_drop_safe:
  "rc_inv D (add_mset v ext) h \<Longrightarrow> safe (rc_drop v h) (\<lambda>h'. rc_inv D ext h' \<and> kept D h h')"
proof (induction v h arbitrary: ext rule: rc_drop.induct)
  case (1 v h)
  show ?case
  proof (cases "v = 0")
    case True
    with "1.prems" show ?thesis by (auto simp: rc_drop.simps [of 0 h] intro: inv_uncounted)
  next
    case False
    with "1.prems" obtain object where object: "fmlookup (objects h) v = Some object"
      by (auto elim: inv_claimed)
    consider "holders object = 0" | "holders object > 1" | "holders object = 1" by linarith
    then show ?thesis
    proof cases
      case 1
      with False object "1.prems" show ?thesis by (auto simp: rc_drop.simps [of v h] intro: inv_uncounted)
    next
      case 2
      with False object inv_decrement [OF "1.prems" object] show ?thesis by (simp add: rc_drop.simps [of v h])
    next
      case last: 3
      note freed = inv_free [OF "1.prems" object last]
      show ?thesis
      proof (cases "content object")
        case (RC_TEXT backing)
        show ?thesis
        proof (cases "backing = 0")
          case True
          with False object last RC_TEXT freed show ?thesis
            by (auto simp: rc_drop.simps [of v h] intro: inv_uncounted)
        next
          case backed: False
          have "safe (rc_drop backing (rc_free v h)) (\<lambda>h'. rc_inv D ext h' \<and> kept D (rc_free v h) h')"
            using False object last RC_TEXT backed freed by (intro "1.IH") auto
          then have "safe (rc_drop backing (rc_free v h)) (\<lambda>h'. rc_inv D ext h' \<and> kept D h h')"
            by (rule safe_mono) (blast intro: kept_trans [OF freed(2)])
          with False object last RC_TEXT backed show ?thesis by (simp add: rc_drop.simps [of v h])
        qed
      next
        case (RC_REFERENCES list)
        with False object last inv_queue [OF "1.prems" object last] show ?thesis
          by (auto simp: rc_drop.simps [of v h] push_pending_def Let_def)
      next
        case (RC_RECORD references slots)
        with False object last inv_queue [OF "1.prems" object last] show ?thesis
          by (auto simp: rc_drop.simps [of v h] push_pending_def Let_def)
      qed (use False object last freed in \<open>simp_all add: rc_drop.simps [of v h]\<close>)
    qed
  qed
qed

section \<open>All claims of a list given up\<close>

text \<open>
  The two operations that give up a claim, \<open>rc_drop\<close> and \<open>minyar_rc_release\<close>, have one contract; whoever
  gives up several claims in turn relies on nothing else. \<open>steady\<close> is what the operation needs of the heap.
\<close>

locale claim_consumer =
  fixes consume :: "ptr \<Rightarrow> rc_heap \<Rightarrow> fault + rc_heap"
    and D :: "ptr set"
    and steady :: "rc_heap \<Rightarrow> bool"
  assumes consume_safe: "rc_inv D (add_mset v ext) h \<Longrightarrow> steady h \<Longrightarrow>
    safe (consume v h) (\<lambda>h'. rc_inv D ext h' \<and> kept D h h' \<and> steady h')"
begin

lemma consume_all_safe:
  "rc_inv D (mset vs + ext) h \<Longrightarrow> steady h \<Longrightarrow>
   safe (rfold (\<lambda>h v. consume v h) h vs) (\<lambda>h'. rc_inv D ext h' \<and> kept D h h' \<and> steady h')"
proof (induction vs arbitrary: h)
  case Nil
  then show ?case by simp
next
  case (Cons v vs)
  from Cons.prems have "safe (consume v h) (\<lambda>h'. rc_inv D (mset vs + ext) h' \<and> kept D h h' \<and> steady h')"
    by (intro consume_safe) simp_all
  then have "safe (rbind (consume v h) (\<lambda>h'. rfold (\<lambda>h v. consume v h) h' vs))
      (\<lambda>h'. rc_inv D ext h' \<and> kept D h h' \<and> steady h')"
  proof (rule safe_rbind)
    fix h1 assume h1: "rc_inv D (mset vs + ext) h1 \<and> kept D h h1 \<and> steady h1"
    then show "safe (rfold (\<lambda>h v. consume v h) h1 vs) (\<lambda>h'. rc_inv D ext h' \<and> kept D h h' \<and> steady h')"
      by (intro safe_mono [OF Cons.IH]) (auto intro: kept_trans)
  qed
  then show ?case by simp
qed

end

interpretation drop: claim_consumer rc_drop D "\<lambda>_. True"
  by unfold_locales (auto intro: rc_drop_safe)

section \<open>Destroying the containers set aside\<close>

lemma inv_dying:
  assumes inv: "rc_inv D ext h" and pending: "rc_pending h = a # rest"
    and object: "fmlookup (objects h) a = Some object"
  shows "rc_inv (insert a D) (mset (held (content object)) + ext) (h\<lparr>rc_pending := rest\<rparr>)"
proof -
  have "a \<notin> D" using inv pending by (simp add: rc_inv_def queued_def)
  then have "claims (insert a D) (mset (held (content object)) + ext) (h\<lparr>rc_pending := rest\<rparr>) = claims D ext h"
    using object by (simp add: claims_def object_claims_remove)
  moreover have "insert a D \<union> set rest = D \<union> set (rc_pending h)" using pending by auto
  ultimately show ?thesis using inv pending by (auto simp: rc_inv_def queued_def)
qed

lemma inv_finish:
  assumes inv: "rc_inv (insert a D) ext h" and "a \<notin> D"
  shows "rc_inv D ext (rc_free a h)"
proof -
  have same: "claims D ext (rc_free a h) = claims (insert a D) ext h"
    by (simp add: claims_def rc_free_def object_claims_drop)
  have none: "a \<in> fmdom' (objects h) \<Longrightarrow> count (claims (insert a D) ext h) a = 0"
    using invD [OF inv] by (auto simp: object_ok_def fmlookup_dom'_iff)
  show ?thesis unfolding rc_inv_def same
  proof (intro conjI)
    show "within (claims (insert a D) ext h) (objects (rc_free a h))"
      using inv none by (auto simp: rc_inv_def within_def rc_free_def count_eq_zero_iff)
    show "counted (D \<union> set (rc_pending (rc_free a h))) (claims (insert a D) ext h) (objects (rc_free a h))"
      using inv by (auto simp: rc_inv_def rc_free_def intro!: counted_remove
          [of "insert a D \<union> set (rc_pending h)" "claims (insert a D) ext h"])
    show "queued D (rc_free a h)"
      using inv by (auto simp: rc_inv_def queued_def rc_free_def)
  qed
qed

lemma kept_container:
  assumes "kept (insert a D) (h\<lparr>rc_pending := rest\<rparr>) h'" "rc_pending h = a # rest"
  shows "kept D h (rc_free a h')"
proof -
  have "immortal D (rc_free a h') = immortal (insert a D) h'"
    by (auto simp: immortal_def rc_free_def)
  moreover have "immortal (insert a D) (h\<lparr>rc_pending := rest\<rparr>) = immortal D h"
    using assms(2) by (auto simp: immortal_def)
  ultimately show ?thesis using assms(1) by (auto simp: kept_def rc_free_def)
qed

lemma rc_drain_step:
  assumes "rc_pending h = a # rest" "fmlookup (objects h) a = Some object" "waits (content object)"
  shows "rc_drain h = rbind (rfold (\<lambda>h v. rc_drop v h) (h\<lparr>rc_pending := rest\<rparr>) (held (content object)))
      (\<lambda>h. rc_drain (rc_free a h))"
  using assms by (cases "content object") (simp_all add: rc_drain.simps [of h])

theorem rc_drain_safe:
  "rc_inv D ext h \<Longrightarrow> safe (rc_drain h) (\<lambda>h'. rc_inv D ext h' \<and> kept D h h' \<and> rc_pending h' = [])"
proof (induction h rule: rc_drain.induct)
  case (1 h)
  show ?case
  proof (cases "rc_pending h")
    case Nil
    with "1.prems" show ?thesis by (simp add: rc_drain.simps [of h])
  next
    case (Cons a rest)
    with "1.prems" obtain object where object: "fmlookup (objects h) a = Some object" "waits (content object)" "a \<notin> D"
      by (auto simp: rc_inv_def queued_def)
    let ?h = "h\<lparr>rc_pending := rest\<rparr>"
    have taken: "safe (rfold (\<lambda>h v. rc_drop v h) ?h (held (content object)))
        (\<lambda>h'. rc_inv (insert a D) ext h' \<and> kept (insert a D) ?h h' \<and> True)"
      by (rule drop.consume_all_safe [OF inv_dying [OF "1.prems" Cons object(1)] TrueI])
    have "safe (rc_drain (rc_free a h')) (\<lambda>h''. rc_inv D ext h'' \<and> kept D h h'' \<and> rc_pending h'' = [])"
      if h': "rfold (\<lambda>h v. rc_drop v h) ?h (held (content object)) = Inr h'"
        "rc_inv (insert a D) ext h'" "kept (insert a D) ?h h'" for h'
    proof (rule safe_mono)
      show "safe (rc_drain (rc_free a h')) (\<lambda>h''. rc_inv D ext h'' \<and> kept D (rc_free a h') h'' \<and> rc_pending h'' = [])"
        using Cons object h'(1) inv_finish [OF h'(2) object(3)]
        by (intro "1.IH" [OF Cons object(1)]) (cases "content object"; simp)+
    qed (use kept_container [OF h'(3) Cons] in \<open>blast intro: kept_trans\<close>)
    with taken show ?thesis
      unfolding rc_drain_step [OF Cons object(1,2)] by (auto elim!: safe_cases)
  qed
qed

theorem release_safe:
  assumes "rc_inv {} (add_mset v ext) h"
  shows "safe (minyar_rc_release v h) (\<lambda>h'. rc_inv {} ext h' \<and> kept {} h h' \<and> rc_pending h' = [])"
  unfolding minyar_rc_release_def
proof (rule safe_rbind [OF rc_drop_safe [OF assms]])
  fix h1 assume h1: "rc_inv {} ext h1 \<and> kept {} h h1"
  then show "safe (rc_drain h1) (\<lambda>h'. rc_inv {} ext h' \<and> kept {} h h' \<and> rc_pending h' = [])"
    by (intro safe_mono [OF rc_drain_safe [of "{}" ext h1]]) (auto intro: kept_trans)
qed

interpretation release: claim_consumer minyar_rc_release "{}" "\<lambda>h. rc_pending h = []"
  by unfold_locales (rule release_safe)

end
