(* ===== verification/Rc_Release.thy ===== *)
theory Rc_Release
  imports Rc_Ownership
begin

text \<open>
  What \<open>minyar_rc_release\<close> destroys: where the objects hold each other without a cycle, exactly those that
  no remaining claim and no immortal object reaches.
\<close>

section \<open>Reachability\<close>

definition holds_ref :: "rc_heap \<Rightarrow> (ptr \<times> ptr) set" where
  "holds_ref h = {(a, b). \<exists>object. fmlookup (objects h) a = Some object \<and> b \<in> set (held (content object)) \<and> b \<noteq> 0}"

definition reachable :: "ptr multiset \<Rightarrow> rc_heap \<Rightarrow> ptr set" where
  "reachable ext h = {a. \<exists>r. (r \<in># ext \<or> r \<in> immortal {} h) \<and> (r, a) \<in> (holds_ref h)\<^sup>*} - {0}"

lemma keptE:
  assumes "kept D h h'" "fmlookup (objects h') a = Some object'"
  obtains object where "fmlookup (objects h) a = Some object" "content object' = content object"
  using assms unfolding kept_def by blast

lemma inv_null: "rc_inv D ext h \<Longrightarrow> fmlookup (objects h) 0 = None"
  using invD [of D ext h 0] by (cases "fmlookup (objects h) 0") (auto simp: object_ok_def)

lemma in_object_claims:
  "x \<in># object_claims D m \<longleftrightarrow> (\<exists>a object. a \<notin> D \<and> fmlookup m a = Some object \<and> x \<in> set (held (content object)))"
proof -
  have "x \<in># object_claims D m \<longleftrightarrow> (\<exists>a\<in>fmdom' m - D. x \<in> set (held (content (the (fmlookup m a)))))"
    unfolding object_claims_def by (simp add: set_mset_sum)
  also have "\<dots> \<longleftrightarrow> (\<exists>a object. a \<notin> D \<and> fmlookup m a = Some object \<and> x \<in> set (held (content object)))"
    by (metis (no_types, lifting) DiffD1 DiffD2 DiffI fmdom'I fmlookup_dom'_iff option.sel)
  finally show ?thesis .
qed

lemma finite_holds_ref: "finite (holds_ref h)"
proof (rule finite_subset)
  show "holds_ref h \<subseteq> fmdom' (objects h) \<times> set_mset (object_claims {} (objects h))"
    using in_object_claims [of _ "{}" "objects h"] by (fastforce simp: holds_ref_def intro: fmdom'I)
qed simp

lemma claimed_live:
  assumes "rc_inv D ext h" "x \<in># claims D ext h" "x \<noteq> 0"
  shows "x \<in> fmdom' (objects h)"
  using assms by (auto simp: rc_inv_def within_def)

lemma held_live:
  assumes "rc_inv {} ext h" "fmlookup (objects h) a = Some object" "b \<in> set (held (content object))" "b \<noteq> 0"
  shows "b \<in> fmdom' (objects h)"
proof (rule claimed_live [OF assms(1) _ assms(4)])
  show "b \<in># claims {} ext h" using assms(2,3) by (auto simp: claims_def in_object_claims)
qed

text \<open>A reachable object survives, whatever the holding relation looks like.\<close>

lemma reachable_survives:
  assumes inv: "rc_inv {} ext h'" and kept: "kept {} h h'" and live: "a \<in> fmdom' (objects h)"
    and reach: "(r, a) \<in> (holds_ref h)\<^sup>*" and root: "r \<in># ext \<or> r \<in> immortal {} h" and "a \<noteq> 0"
    and null: "0 \<notin> fmdom' (objects h)"
  shows "a \<in> fmdom' (objects h')"
  using reach \<open>a \<noteq> 0\<close>
proof (induction rule: rtrancl_induct)
  case base
  show ?case
  proof (cases "r \<in># ext")
    case True
    with base show ?thesis by (auto intro: claimed_live [OF inv] simp: claims_def)
  next
    case False
    with root kept have "r \<in> immortal {} h'" by (simp add: kept_def)
    then show ?thesis by (auto simp: immortal_def intro: fmdom'I)
  qed
next
  case (step b c)
  then obtain object where object: "fmlookup (objects h) b = Some object" "c \<in> set (held (content object))" "c \<noteq> 0"
    by (auto simp: holds_ref_def)
  have "b \<noteq> 0" using object(1) null by (auto intro: fmdom'I)
  then have "b \<in> fmdom' (objects h')" by (rule step.IH)
  then obtain object' where "fmlookup (objects h') b = Some object'" by (auto simp: fmlookup_dom'_iff)
  moreover from keptE [OF kept this] object(1) have "content object' = content object" by force
  ultimately show ?case using object by (auto intro: held_live [OF inv])
qed

text \<open>A survivor is reachable: following the holders back from it ends, when there is no cycle.\<close>

lemma survivor_reachable:
  assumes inv: "rc_inv {} ext h'" and kept: "kept {} h h'" and settled: "rc_pending h' = []"
    and acyclic: "acyclic (holds_ref h)" and "a \<in> fmdom' (objects h')"
  shows "\<exists>r. (r \<in># ext \<or> r \<in> immortal {} h) \<and> (r, a) \<in> (holds_ref h)\<^sup>*"
proof -
  have "wf (holds_ref h)" by (rule finite_acyclic_wf [OF finite_holds_ref acyclic])
  then show ?thesis using \<open>a \<in> fmdom' (objects h')\<close>
  proof (induction a rule: wf_induct_rule)
    case (less a)
    then obtain object where object: "fmlookup (objects h') a = Some object" by (auto simp: fmlookup_dom'_iff)
    show ?case
    proof (cases "holders object = 0")
      case True
      with object settled kept have "a \<in> immortal {} h" by (auto simp: kept_def immortal_def)
      then show ?thesis by blast
    next
      case False
      with invD [OF inv object] have "count (claims {} ext h') a > 0" and "a \<noteq> 0" by (auto simp: object_ok_def)
      then consider "a \<in># ext" | b object' where "fmlookup (objects h') b = Some object'" "a \<in> set (held (content object'))"
        by (auto simp: claims_def in_object_claims)
      then show ?thesis
      proof cases
        case 1
        then show ?thesis by blast
      next
        case 2
        with \<open>a \<noteq> 0\<close> have "(b, a) \<in> holds_ref h" by (auto simp: holds_ref_def elim!: keptE [OF kept])
        moreover from this less 2 obtain r where "(r \<in># ext \<or> r \<in> immortal {} h)" "(r, b) \<in> (holds_ref h)\<^sup>*"
          by (meson fmdom'I)
        ultimately show ?thesis by (meson rtrancl.rtrancl_into_rtrancl)
      qed
    qed
  qed
qed

theorem release_exact:
  assumes inv: "rc_inv {} (add_mset v ext) h" and acyclic: "acyclic (holds_ref h)"
  shows "safe (minyar_rc_release v h) (\<lambda>h'. rc_inv {} ext h' \<and> rc_pending h' = [] \<and>
     fmdom' (objects h') = fmdom' (objects h) \<inter> reachable ext h \<and>
     (\<forall>a\<in>fmdom' (objects h'). map_option content (fmlookup (objects h') a) = map_option content (fmlookup (objects h) a)))"
proof (rule safe_mono [OF release_safe [OF inv]], elim conjE, intro conjI ballI)
  fix h' assume h': "rc_inv {} ext h'" "kept {} h h'" "rc_pending h' = []"
  have null: "0 \<notin> fmdom' (objects h)" "0 \<notin> fmdom' (objects h')"
    using inv_null [OF inv] inv_null [OF h'(1)] by (simp_all add: fmdom'_notI)
  have "fmdom' (objects h') \<subseteq> fmdom' (objects h)"
    by (auto simp: fmlookup_dom'_iff elim!: keptE [OF h'(2)])
  then show "fmdom' (objects h') = fmdom' (objects h) \<inter> reachable ext h"
    using survivor_reachable [OF h' acyclic] reachable_survives [OF h'(1,2) _ _ _ _ null(1)] null
    by (auto simp: reachable_def)
  fix a assume "a \<in> fmdom' (objects h')"
  then obtain object' where object': "fmlookup (objects h') a = Some object'" by (auto simp: fmlookup_dom'_iff)
  with keptE [OF h'(2) object'] 
  show "map_option content (fmlookup (objects h') a) = map_option content (fmlookup (objects h) a)"
    by (metis option.map(2))
qed

end
