(* ===== verification/Container_Safe.thy ===== *)
theory Container_Safe
  imports Containers Rc_Release
begin

text \<open>
  Every operation on lists, records and Text headers keeps the counts exact, and does to the contents what
  its name says. \<open>calm\<close> is the state between two operations: the invariant, and nothing waiting.
\<close>

definition calm :: "ptr multiset \<Rightarrow> rc_heap \<Rightarrow> bool" where
  "calm ext h \<longleftrightarrow> rc_inv {} ext h \<and> rc_pending h = []"

definition contents :: "rc_heap \<Rightarrow> ptr \<Rightarrow> content option" where
  "contents h a = map_option content (fmlookup (objects h) a)"

text \<open>The object a claim or a borrowed pointer may name.\<close>

definition live :: "ptr \<Rightarrow> rc_heap \<Rightarrow> bool" where
  "live a h \<longleftrightarrow> a = 0 \<or> contents h a \<noteq> None"

text \<open>What \<open>malloc\<close> promises: an address that is in use for nothing else, and is not \<open>NULL\<close>.\<close>

definition fresh :: "host \<Rightarrow> bool" where
  "fresh malloc \<longleftrightarrow> (\<forall>m a. malloc m = Some a \<longrightarrow> a \<noteq> 0 \<and> fmlookup m a = None)"

lemma live_iff: "live a h \<longleftrightarrow> a = 0 \<or> a \<in> fmdom' (objects h)"
  by (auto simp: live_def contents_def fmlookup_dom'_iff)

lemma contents_Some: "contents h a = Some c \<longleftrightarrow> (\<exists>object. fmlookup (objects h) a = Some object \<and> content object = c)"
  by (auto simp: contents_def)

lemma contents_update: "fmlookup (objects h) a = Some object \<Longrightarrow> content object = content object' \<Longrightarrow>
   contents (h\<lparr>objects := fmupd a object' (objects h)\<rparr>) = contents h"
  by (auto simp: contents_def fun_eq_iff)

lemma calm_live: "calm ext h \<Longrightarrow> a \<in># ext \<Longrightarrow> live a h"
  by (auto simp: calm_def live_iff claims_def dest: claimed_live)

lemma calm_held_live:
  assumes "calm ext h" "contents h a = Some c" "b \<in> set (held c)"
  shows "live b h"
  using assms by (auto simp: calm_def live_iff contents_Some intro: held_live)

lemma calm_well_formed: "calm ext h \<Longrightarrow> contents h a = Some c \<Longrightarrow> well_formed c"
  by (auto simp: calm_def contents_Some object_ok_def dest: invD)

section \<open>The three basic moves\<close>

lemma ownership_limit: "ownership object \<le> SIZE_LIMIT \<longleftrightarrow> holders object \<le> SIZE_LIMIT div 8"
  by (cases "content object") (auto simp: ownership_def)

lemma calm_change:
  assumes calm: "calm ext h" and object: "fmlookup (objects h) p = Some object" and wf: "well_formed c"
    and claims: "mset (held c) + ext' = mset (held (content object)) + ext" and mortal: "holders object > 0"
  shows "calm ext' (h\<lparr>objects := fmupd p (object\<lparr>content := c\<rparr>) (objects h)\<rparr>)"
    (is "calm _ ?h")
proof -
  have inv: "rc_inv {} ext h" and pending: "rc_pending h = []" using calm by (simp_all add: calm_def)
  have "ext' + mset (held c) = ext + mset (held (content object))" using claims by (simp add: ac_simps)
  then have same: "claims {} ext' ?h = claims {} ext h"
    using object by (simp add: claims_def object_claims_update object_claims_remove add.assoc [symmetric])
  have "counted {} (claims {} ext h) (objects ?h)"
    using inv pending wf mortal invD [OF inv object] ownership_limit [of object] ownership_limit [of "object\<lparr>content := c\<rparr>"]
    by (auto simp: rc_inv_def object_ok_def count_eq_zero_iff intro!: counted_update [of "{}" "claims {} ext h"])
  moreover have "within (claims {} ext h) (objects ?h)"
    using inv by (auto simp: rc_inv_def within_def)
  moreover have "queued {} ?h" using pending by (simp add: queued_def)
  ultimately show ?thesis unfolding calm_def rc_inv_def same by (simp add: pending)
qed

lemma calm_mortal: "calm ext h \<Longrightarrow> fmlookup (objects h) p = Some object \<Longrightarrow> content object \<noteq> RC_TEXT 0 \<Longrightarrow> holders object > 0"
  by (auto simp: calm_def object_ok_def dest: invD)

lemma put_content_mortal:
  assumes calm: "calm ext h" and object: "fmlookup (objects h) p = Some object" "holders object > 0"
    and c': "well_formed c'" "mset (held c') + ext' = mset (held (content object)) + ext"
  obtains h' where "put_content p c' h = Inr h'" "calm ext' h'" "contents h' = (contents h)(p \<mapsto> c')"
proof -
  have "contents (h\<lparr>objects := fmupd p (object\<lparr>content := c'\<rparr>) (objects h)\<rparr>) = (contents h)(p \<mapsto> c')"
    by (auto simp: contents_def)
  with calm_change [OF calm object(1) c' object(2)] object(1) show ?thesis
    by (intro that) (auto simp: put_content_def object_at_def)
qed

lemma put_content_calm:
  assumes "calm ext h" "contents h p = Some c" "c \<noteq> RC_TEXT 0"
    and "well_formed c'" "mset (held c') + ext' = mset (held c) + ext"
  obtains h' where "put_content p c' h = Inr h'" "calm ext' h'" "contents h' = (contents h)(p \<mapsto> c')"
proof -
  obtain object where object: "fmlookup (objects h) p = Some object" "content object = c"
    using assms(2) by (auto simp: contents_Some)
  with assms(3) have "holders object > 0" using calm_mortal [OF assms(1)] by simp
  with object assms that show ?thesis by (metis put_content_mortal)
qed

lemma retain_calm:
  assumes calm: "calm ext h" and live: "live v h"
  shows "safe (minyar_rc_retain v h) (\<lambda>h'. calm (add_mset v ext) h' \<and> contents h' = contents h)"
proof -
  have inv: "rc_inv {} ext h" and pending: "rc_pending h = []" using calm by (simp_all add: calm_def)
  have uncounted: "calm (add_mset v ext) h"
    if "v = 0 \<or> (\<exists>object. fmlookup (objects h) v = Some object \<and> holders object = 0)"
  proof -
    have "counted {} (claims {} (add_mset v ext) h) (objects h)"
    proof (rule counted_same)
      show "counted {} (claims {} ext h) (objects h)" using inv pending by (simp add: rc_inv_def)
      fix b object
      assume b: "fmlookup (objects h) b = Some object" "holders object > 0 \<or> b \<in> {}"
      with that invD [OF inv b(1)] have "b \<noteq> v" by (auto simp: object_ok_def count_eq_zero_iff)
      then show "count (claims {} (add_mset v ext) h) b = count (claims {} ext h) b" by (simp add: claims_simps)
    qed
    with that inv pending show ?thesis
      by (auto simp: calm_def rc_inv_def within_def claims_simps intro: fmdom'I)
  qed
  show ?thesis
  proof (cases "v = 0")
    case True
    with uncounted show ?thesis by (simp add: minyar_rc_retain_def)
  next
    case False
    with live obtain object where object: "fmlookup (objects h) v = Some object"
      by (auto simp: live_iff fmlookup_dom'_iff)
    let ?h = "h\<lparr>objects := fmupd v (object\<lparr>holders := holders object + 1\<rparr>) (objects h)\<rparr>"
    have same: "claims {} (add_mset v ext) ?h = add_mset v (claims {} ext h)"
      using object_claims_count [OF object, of "{}" "holders object + 1"] by (simp add: claims_def)
    have "calm (add_mset v ext) ?h" if "holders object > 0" "ownership object \<le> SIZE_LIMIT - 8"
    proof -
      have "counted {} (add_mset v (claims {} ext h)) (objects ?h)"
        using inv pending that invD [OF inv object]
        by (auto simp: rc_inv_def object_ok_def ownership_def intro!: counted_update [of "{}" "claims {} ext h"])
      moreover have "within (add_mset v (claims {} ext h)) (objects ?h)"
        using inv by (auto simp: rc_inv_def within_def)
      moreover have "queued {} ?h" using pending by (simp add: queued_def)
      ultimately show ?thesis unfolding calm_def rc_inv_def same by (simp add: pending)
    qed
    with False object uncounted contents_update [OF object, of "object\<lparr>holders := holders object + 1\<rparr>"]
    show ?thesis by (auto simp: minyar_rc_retain_def)
  qed
qed

lemma allocate_calm:
  assumes calm: "calm ext h" and fresh: "fresh malloc" and wf: "well_formed c" and none: "set (held c) \<subseteq> {0}"
  shows "safe (rc_allocate_object malloc n c h)
    (\<lambda>(a, h'). calm (add_mset a ext) h' \<and> contents h a = None \<and> a \<noteq> 0 \<and> contents h' = (contents h)(a \<mapsto> c))"
proof (cases "malloc (objects h)")
  case None
  then show ?thesis by (simp add: rc_allocate_object_def)
next
  case (Some a)
  have inv: "rc_inv {} ext h" and pending: "rc_pending h = []" using calm by (simp_all add: calm_def)
  have a: "a \<noteq> 0" "fmlookup (objects h) a = None" using fresh Some by (auto simp: fresh_def)
  then have unclaimed: "count (claims {} ext h) a = 0"
    using inv by (auto simp: rc_inv_def within_def fmlookup_dom'_iff count_eq_zero_iff)
  let ?h = "h\<lparr>objects := fmupd a \<lparr>holders = 1, content = c\<rparr> (objects h)\<rparr>"
  have "object_claims {a} (objects h) = object_claims {} (objects h)"
    using a unfolding object_claims_def by (auto intro!: sum.cong simp: fmlookup_dom'_iff)
  then have same: "claims {} (add_mset a ext) ?h = mset (held c) + add_mset a (claims {} ext h)"
    by (simp add: claims_def object_claims_update ac_simps)
  have nulls: "count (mset (held c)) b = 0" if "b \<noteq> 0" for b
    using none that by (auto simp: count_eq_zero_iff)
  have "counted {} (claims {} (add_mset a ext) ?h) (objects ?h)"
    unfolding counted_def
  proof (intro allI impI)
    fix b object assume b: "fmlookup (objects ?h) b = Some object"
    show "object_ok {} (claims {} (add_mset a ext) ?h) b object"
    proof (cases "b = a")
      case True
      with b wf a unclaimed nulls [OF a(1)] show ?thesis
        unfolding same by (cases c) (auto simp: object_ok_def ownership_def)
    next
      case False
      with b have "fmlookup (objects h) b = Some object" by simp
      with invD [OF inv this] False nulls pending show ?thesis
        unfolding same by (auto simp: object_ok_def)
    qed
  qed
  moreover have "within (claims {} (add_mset a ext) ?h) (objects ?h)"
    using inv none unfolding same by (auto simp: rc_inv_def within_def)
  moreover have "queued {} ?h" using pending by (simp add: queued_def)
  ultimately have "calm (add_mset a ext) ?h" unfolding calm_def rc_inv_def by (simp add: pending)
  moreover have "contents ?h = (contents h)(a \<mapsto> c)" by (auto simp: contents_def)
  ultimately show ?thesis using Some a by (simp add: rc_allocate_object_def contents_def)
qed

lemma release_calm:
  assumes "calm (add_mset v ext) h"
  shows "safe (minyar_rc_release v h) (\<lambda>h'. calm ext h' \<and> contents h' \<subseteq>\<^sub>m contents h)"
proof (rule safe_mono [OF release_safe])
  show "rc_inv {} (add_mset v ext) h" using assms by (simp add: calm_def)
  fix h' assume h': "rc_inv {} ext h' \<and> kept {} h h' \<and> rc_pending h' = []"
  then have "contents h' \<subseteq>\<^sub>m contents h"
    by (auto simp: map_le_def dom_def contents_def elim!: keptE)
  with h' show "calm ext h' \<and> contents h' \<subseteq>\<^sub>m contents h" by (simp add: calm_def)
qed

section \<open>Reading through contents\<close>

lemma object_at_contents:
  assumes "contents h p = Some c"
  obtains object where "object_at p h = Inr object" "content object = c"
  using assms by (auto simp: contents_Some object_at_def)

lemma list_at_contents: "contents h p = Some c \<Longrightarrow> list_at p h = list_of c"
  by (auto simp: list_at_def elim!: object_at_contents)

lemma is_references_contents: "contents h p = Some c \<Longrightarrow> is_references p h = counts_elements c"
  by (auto simp: is_references_def contents_Some)

lemma with_list_simps [simp]:
  "list_of c = Inr l \<Longrightarrow> list_of (with_list c l') = Inr l'"
  "counts_elements (with_list c l') = counts_elements c"
  "with_list (with_list c l') l'' = with_list c l''"
  by (cases c; simp)+

lemma list_not_text: "list_of c = Inr l \<Longrightarrow> c \<noteq> RC_TEXT b"
  by auto

lemma held_with_list: "list_of c = Inr l \<Longrightarrow>
   held (with_list c l') = (if counts_elements c then list_values l' else []) \<and>
   held c = (if counts_elements c then list_values l else [])"
  by (cases c) auto

lemma well_formed_with_list: "list_of c = Inr l \<Longrightarrow> well_formed (with_list c l') = well_formed (RC_LIST l')"
  by (cases c) auto

lemma well_formed_list: "list_of c = Inr l \<Longrightarrow> well_formed c \<Longrightarrow> well_formed (RC_LIST l)"
  by (cases c) auto

lemma put_list_calm:
  assumes "calm ext h" "contents h p = Some c" "list_of c = Inr l" "well_formed (RC_LIST l')"
    and "(counts_elements c \<longrightarrow> mset (list_values l') + ext' = mset (list_values l) + ext) \<and>
      (\<not> counts_elements c \<longrightarrow> ext' = ext)"
  shows "\<exists>h'. put_list p l' h = Inr h' \<and> calm ext' h' \<and> contents h' = (contents h)(p \<mapsto> with_list c l')"
proof -
  have "well_formed (with_list c l')" using assms(3,4) by (simp only: well_formed_with_list)
  moreover have "mset (held (with_list c l')) + ext' = mset (held c) + ext"
    using held_with_list [OF assms(3), of l'] assms(5) by (cases "counts_elements c") simp_all
  ultimately obtain h' where "put_content p (with_list c l') h = Inr h'" "calm ext' h'"
      "contents h' = (contents h)(p \<mapsto> with_list c l')"
    by (rule put_content_calm [OF assms(1,2) list_not_text [OF assms(3)]])
  with assms(2) show ?thesis by (auto simp: put_list_def elim!: object_at_contents)
qed

section \<open>Lists\<close>

text \<open>Growth never leaves the signed range: the largest capacity allowed, times four, is below 2^63.\<close>

lemma list_grow_safe:
  assumes "well_formed (RC_LIST l)"
  shows "safe (list_grow l) (\<lambda>l'. list_values l' = list_values l \<and> list_capacity l < list_capacity l' \<and>
    well_formed (RC_LIST l'))"
  using assms by (auto simp: list_grow_def Let_def LLONG_MAX_def LARGE_LIST_CAPACITY_def)

lemma make_room_calm:
  assumes calm: "calm ext h" and c: "contents h p = Some c" and l: "list_of c = Inr l"
  shows "safe (make_room p h) (\<lambda>h'. calm ext h' \<and> (\<exists>l'. contents h' = (contents h)(p \<mapsto> with_list c l') \<and>
     list_values l' = list_values l \<and> int (length (list_values l)) < list_capacity l' \<and> well_formed (RC_LIST l')))"
proof (cases "int (length (list_values l)) = list_capacity l")
  case True
  have wf: "well_formed (RC_LIST l)" using calm_well_formed [OF calm c] l by (rule well_formed_list [rotated])
  have "safe (rbind (list_grow l) (\<lambda>l'. put_list p l' h)) (\<lambda>h'. calm ext h' \<and>
     (\<exists>l'. contents h' = (contents h)(p \<mapsto> with_list c l') \<and>
       list_values l' = list_values l \<and> int (length (list_values l)) < list_capacity l' \<and> well_formed (RC_LIST l')))"
  proof (rule safe_rbind [OF list_grow_safe [OF wf]])
    fix l' assume l': "list_values l' = list_values l \<and> list_capacity l < list_capacity l' \<and> well_formed (RC_LIST l')"
    then obtain h' where "put_list p l' h = Inr h'" "calm ext h'" "contents h' = (contents h)(p \<mapsto> with_list c l')"
      using put_list_calm [OF calm c l, of l' ext] by auto
    with l' True show "safe (put_list p l' h) (\<lambda>h'. calm ext h' \<and>
     (\<exists>l'. contents h' = (contents h)(p \<mapsto> with_list c l') \<and>
       list_values l' = list_values l \<and> int (length (list_values l)) < list_capacity l' \<and> well_formed (RC_LIST l')))"
      by auto
  qed
  with True l show ?thesis by (simp add: make_room_def list_at_contents [OF c])
next
  case False
  moreover have "with_list c l = c" using l by (cases c) auto
  moreover have "well_formed (RC_LIST l)" using calm_well_formed [OF calm c] l by (rule well_formed_list [rotated])
  ultimately show ?thesis
    using calm c l by (auto simp: make_room_def list_at_contents [OF c] intro!: exI [of _ l])
qed

lemma append_value_calm:
  assumes "calm (if counts_elements c then add_mset v ext else ext) h" "contents h p = Some c" "list_of c = Inr l"
    and "int (length (list_values l)) < list_capacity l"
  shows "safe (append_value p v h) (\<lambda>h'. calm ext h' \<and>
    contents h' = (contents h)(p \<mapsto> with_list c (l\<lparr>list_values := list_values l @ [v]\<rparr>)))"
proof -
  have "well_formed (RC_LIST l)"
    using calm_well_formed [OF assms(1,2)] assms(3) by (rule well_formed_list [rotated])
  with assms(4) have "well_formed (RC_LIST (l\<lparr>list_values := list_values l @ [v]\<rparr>))" by simp
  then obtain h' where "put_list p (l\<lparr>list_values := list_values l @ [v]\<rparr>) h = Inr h'" "calm ext h'"
      "contents h' = (contents h)(p \<mapsto> with_list c (l\<lparr>list_values := list_values l @ [v]\<rparr>))"
    using put_list_calm [OF assms(1-3), of "l\<lparr>list_values := list_values l @ [v]\<rparr>" ext] by auto
  with assms(3) show ?thesis by (simp add: append_value_def list_at_contents [OF assms(2)])
qed

text \<open>The list \<open>p\<close> with new elements, and everything else as it was.\<close>

definition relisted :: "rc_heap \<Rightarrow> ptr \<Rightarrow> content \<Rightarrow> ptr list \<Rightarrow> rc_heap \<Rightarrow> bool" where
  "relisted h p c vs h' \<longleftrightarrow>
     (\<exists>l'. contents h' = (contents h)(p \<mapsto> with_list c l') \<and> list_values l' = vs)"

lemma live_update: "contents h' = (contents h)(p \<mapsto> c) \<Longrightarrow> live v h \<Longrightarrow> live v h'"
  by (auto simp: live_def)

lemma list_add_calm:
  assumes calm: "calm ext h" and c: "contents h p = Some c" and l: "list_of c = Inr l"
    and v: "counts_elements c \<Longrightarrow> live v h"
  shows "safe (minyar_list_add p v h) (\<lambda>h'. calm ext h' \<and> relisted h p c (list_values l @ [v]) h')"
  unfolding minyar_list_add_def
proof (rule safe_rbind [OF make_room_calm [OF calm c l]], elim conjE exE)
  fix h1 l1 assume h1: "calm ext h1" "contents h1 = (contents h)(p \<mapsto> with_list c l1)" "list_values l1 = list_values l"
    and room: "int (length (list_values l)) < list_capacity l1"
  have p1: "contents h1 p = Some (with_list c l1)" using h1 by simp
  have "safe (if is_references p h1 then minyar_rc_retain v h1 else Inr h1)
      (\<lambda>h2. calm (if counts_elements c then add_mset v ext else ext) h2 \<and> contents h2 = contents h1)"
    using retain_calm [OF h1(1) live_update [OF h1(2) v]] h1(1) by (simp add: is_references_contents [OF p1])
  then show "safe (rbind (if is_references p h1 then minyar_rc_retain v h1 else Inr h1) (append_value p v))
      (\<lambda>h'. calm ext h' \<and> relisted h p c (list_values l @ [v]) h')"
  proof (rule safe_rbind, elim conjE)
    fix h2 assume h2: "calm (if counts_elements c then add_mset v ext else ext) h2" "contents h2 = contents h1"
    show "safe (append_value p v h2) (\<lambda>h'. calm ext h' \<and> relisted h p c (list_values l @ [v]) h')"
    proof (rule safe_mono)
      show "safe (append_value p v h2) (\<lambda>h'. calm ext h' \<and>
          contents h' = (contents h2)(p \<mapsto> with_list (with_list c l1) (l1\<lparr>list_values := list_values l1 @ [v]\<rparr>)))"
        using h2 p1 l h1(3) room by (intro append_value_calm) simp_all
    qed (use h1 h2 in \<open>auto simp: relisted_def\<close>)
  qed
qed

lemma list_add_take_calm:
  assumes calm: "calm (if counts_elements c then add_mset v ext else ext) h"
    and c: "contents h p = Some c" and l: "list_of c = Inr l"
  shows "safe (minyar_list_add_take p v h) (\<lambda>h'. calm ext h' \<and> relisted h p c (list_values l @ [v]) h')"
  unfolding minyar_list_add_take_def
proof (rule safe_rbind [OF make_room_calm [OF calm c l]], elim conjE exE)
  fix h1 l1 assume h1: "calm (if counts_elements c then add_mset v ext else ext) h1"
      "contents h1 = (contents h)(p \<mapsto> with_list c l1)" "list_values l1 = list_values l"
    and room: "int (length (list_values l)) < list_capacity l1"
  show "safe (append_value p v h1) (\<lambda>h'. calm ext h' \<and> relisted h p c (list_values l @ [v]) h')"
  proof (rule safe_mono)
    show "safe (append_value p v h1) (\<lambda>h'. calm ext h' \<and>
        contents h' = (contents h1)(p \<mapsto> with_list (with_list c l1) (l1\<lparr>list_values := list_values l1 @ [v]\<rparr>)))"
      using h1 l room by (intro append_value_calm) simp_all
  qed (use h1 in \<open>auto simp: relisted_def\<close>)
qed

lemma relisted_contents:
  assumes "relisted h p c vs h'"
  obtains l' where "contents h' = (contents h)(p \<mapsto> with_list c l')" "list_values l' = vs"
  using assms by (auto simp: relisted_def)

lemma relisted_trans:
  assumes "relisted h p c us h1" "contents h1 p = Some c1" "relisted h1 p c1 vs h2"
  shows "relisted h p c vs h2"
  using assms unfolding relisted_def
  by (metis fun_upd_same fun_upd_upd option.inject with_list_simps(3))

lemma list_add_all_calm:
  "calm ext h \<Longrightarrow> contents h p = Some c \<Longrightarrow> list_of c = Inr l \<Longrightarrow>
   (counts_elements c \<Longrightarrow> \<forall>v\<in>set vs. live v h) \<Longrightarrow>
   safe (rfold (\<lambda>h v. minyar_list_add p v h) h vs) (\<lambda>h'. calm ext h' \<and>
     (vs = [] \<and> h' = h \<or> relisted h p c (list_values l @ vs) h'))"
proof (induction vs arbitrary: h c l)
  case Nil
  then show ?case by simp
next
  case (Cons v vs)
  have "safe (minyar_list_add p v h) (\<lambda>h'. calm ext h' \<and> relisted h p c (list_values l @ [v]) h')"
    using Cons.prems by (intro list_add_calm) simp_all
  then have "safe (rbind (minyar_list_add p v h) (\<lambda>h. rfold (\<lambda>h v. minyar_list_add p v h) h vs))
      (\<lambda>h'. calm ext h' \<and> relisted h p c (list_values l @ v # vs) h')"
  proof (rule safe_rbind, elim conjE)
    fix h1 assume h1: "calm ext h1" "relisted h p c (list_values l @ [v]) h1"
    then obtain l1 where l1: "contents h1 = (contents h)(p \<mapsto> with_list c l1)" "list_values l1 = list_values l @ [v]"
      by (elim relisted_contents)
    show "safe (rfold (\<lambda>h v. minyar_list_add p v h) h1 vs)
      (\<lambda>h'. calm ext h' \<and> relisted h p c (list_values l @ v # vs) h')"
    proof (rule safe_mono [OF Cons.IH [OF h1(1)]])
      show "contents h1 p = Some (with_list c l1)" "list_of (with_list c l1) = Inr l1"
        using l1 Cons.prems(3) by simp_all
      show "\<forall>v\<in>set vs. live v h1" if "counts_elements (with_list c l1)"
        using that Cons.prems(4) live_update [OF l1(1)] by simp
      fix h' assume "calm ext h' \<and> (vs = [] \<and> h' = h1 \<or> relisted h1 p (with_list c l1) (list_values l1 @ vs) h')"
      with h1 l1 show "calm ext h' \<and> relisted h p c (list_values l @ v # vs) h'"
        by (auto intro: relisted_trans)
    qed
  qed
  then show ?case by (simp add: safe_def split: sum.splits)
qed

lemma grow_to_safe:
  "well_formed (RC_LIST l) \<Longrightarrow>
   safe (grow_to n l) (\<lambda>l'. list_values l' = list_values l \<and> well_formed (RC_LIST l') \<and> n \<le> list_capacity l')"
proof (induction n l rule: grow_to.induct)
  case (1 n l)
  show ?case
  proof (cases "list_capacity l < n")
    case True
    have "safe (rbind (list_grow l) (grow_to n))
        (\<lambda>l'. list_values l' = list_values l \<and> well_formed (RC_LIST l') \<and> n \<le> list_capacity l')"
    proof (rule safe_rbind_eq [OF list_grow_safe [OF "1.prems"]], elim conjE)
      fix l1 assume l1: "list_grow l = Inr l1" "list_values l1 = list_values l" "well_formed (RC_LIST l1)"
      show "safe (grow_to n l1) (\<lambda>l'. list_values l' = list_values l \<and> well_formed (RC_LIST l') \<and> n \<le> list_capacity l')"
        using "1.IH" [OF True l1(1,3)] l1(2) by simp
    qed
    with True show ?thesis by (simp add: grow_to.simps [of n l])
  next
    case False
    with "1.prems" show ?thesis by (simp add: grow_to.simps [of n l])
  qed
qed

text \<open>\<open>(unsigned long long)position >= length\<close> is the test of both ends.\<close>

lemma outside_iff:
  assumes "- (2 ^ 63) \<le> position" "position < 2 ^ 63" "int (length xs) < 2 ^ 63"
  shows "outside position xs \<longleftrightarrow> position < 0 \<or> position \<ge> int (length xs)"
proof (cases "position < 0")
  case True
  then have "position mod 2 ^ 64 = position + 2 ^ 64"
    using assms by (simp add: mod_add_self2 [symmetric, of position] del: mod_add_self2)
  with True assms show ?thesis by (simp add: outside_def)
next
  case False
  with assms show ?thesis by (simp add: outside_def)
qed

lemma inside: "\<not> outside position xs \<Longrightarrow> int (length xs) < 2 ^ 63 \<Longrightarrow> - (2 ^ 63) \<le> position \<Longrightarrow> position < 2 ^ 63 \<Longrightarrow>
  nat position < length xs"
  by (auto simp: outside_iff)

lemma list_length_bound:
  "calm ext h \<Longrightarrow> contents h p = Some c \<Longrightarrow> list_of c = Inr l \<Longrightarrow> int (length (list_values l)) < 2 ^ 63"
  using calm_well_formed [of ext h p c] by (cases c) auto

lemma list_new_calm:
  assumes "calm ext h" "fresh malloc"
  shows "safe (minyar_list_new malloc h) (\<lambda>(a, h'). calm (add_mset a ext) h' \<and> contents h a = None \<and> a \<noteq> 0 \<and>
    contents h' = (contents h)(a \<mapsto> RC_LIST \<lparr>list_values = [], list_capacity = 0\<rparr>))"
  unfolding minyar_list_new_def using assms by (intro allocate_calm) simp_all

lemma list_references_calm:
  assumes "calm ext h" "contents h p = Some c" "list_of c = Inr l" "list_values l = []"
  shows "safe (minyar_list_references p h) (\<lambda>h'. calm ext h' \<and> contents h' = (contents h)(p \<mapsto> RC_REFERENCES l))"
proof -
  have "well_formed (RC_REFERENCES l)" using calm_well_formed [OF assms(1,2)] assms(3) by (cases c) auto
  moreover have "mset (held (RC_REFERENCES l)) + ext = mset (held c) + ext"
    using assms(3,4) by (cases c) auto
  ultimately obtain h' where "put_content p (RC_REFERENCES l) h = Inr h'" "calm ext h'"
      "contents h' = (contents h)(p \<mapsto> RC_REFERENCES l)"
    by (rule put_content_calm [OF assms(1,2) list_not_text [OF assms(3)]])
  with assms(3) show ?thesis by (simp add: minyar_list_references_def list_at_contents [OF assms(2)])
qed

lemma list_set_owned_calm:
  assumes calm: "calm (if counts_elements c \<and> \<not> retain_value then add_mset v ext else ext) h"
    and c: "contents h p = Some c" and l: "list_of c = Inr l"
    and v: "counts_elements c \<Longrightarrow> retain_value \<Longrightarrow> live v h"
    and position: "- (2 ^ 63) \<le> position" "position < 2 ^ 63"
  shows "safe (minyar_list_set_owned p position v retain_value h) (\<lambda>h'. calm ext h' \<and>
    (\<exists>h1. relisted h p c ((list_values l)[nat position := v]) h1 \<and> contents h' \<subseteq>\<^sub>m contents h1 \<and>
      (counts_elements c \<or> contents h' = contents h1)))"
    (is "safe ?set ?post")
proof (cases "outside position (list_values l)")
  case True
  with c l show ?thesis by (simp add: minyar_list_set_owned_def list_at_contents Let_def list_position_stop_def)
next
  case False
  let ?vs = "list_values l" and ?l = "l\<lparr>list_values := (list_values l)[nat position := v]\<rparr>"
  have within: "nat position < length ?vs"
    using False list_length_bound [OF calm c l] position by (rule inside)
  have wf: "well_formed (RC_LIST ?l)"
    using well_formed_list [OF l calm_well_formed [OF calm c]] by simp
  have relisted: "relisted h p c ((list_values l)[nat position := v]) h2"
    if "contents h2 = (contents h)(p \<mapsto> with_list c ?l)" for h2
    using that by (auto simp: relisted_def intro!: exI [of _ ?l])
  show ?thesis
  proof (cases "counts_elements c")
    case counts: True
    let ?old = "?vs ! nat position"
    have swap: "mset (?vs[nat position := v]) + add_mset ?old ext = mset ?vs + add_mset v ext"
      using within by (simp add: mset_update)
    have "safe (if retain_value then minyar_rc_retain v h else Inr h)
        (\<lambda>h1. calm (add_mset v ext) h1 \<and> contents h1 = contents h)"
      using calm counts v retain_calm [of ext h v] by auto
    then have "safe (rbind (if retain_value then minyar_rc_retain v h else Inr h)
        (\<lambda>h. rbind (put_list p ?l h) (minyar_rc_release ?old))) ?post"
    proof (rule safe_rbind, elim conjE)
      fix h1 assume h1: "calm (add_mset v ext) h1" "contents h1 = contents h"
      obtain h2 where h2: "put_list p ?l h1 = Inr h2" "calm (add_mset ?old ext) h2"
          "contents h2 = (contents h1)(p \<mapsto> with_list c ?l)"
        using put_list_calm [OF h1(1), of p c l ?l "add_mset ?old ext"] c h1 l wf swap counts by auto
      have "safe (minyar_rc_release ?old h2) ?post"
        by (rule safe_mono [OF release_calm [OF h2(2)]])
          (use relisted [of h2] h2(3) h1(2) counts in \<open>auto intro!: exI [of _ h2]\<close>)
      with h2(1) show "safe (rbind (put_list p ?l h1) (minyar_rc_release ?old)) ?post" by simp
    qed
    with False counts show ?thesis
      by (simp add: minyar_list_set_owned_def list_at_contents [OF c] l is_references_contents [OF c] Let_def)
  next
    case plain: False
    obtain h2 where h2: "put_list p ?l h = Inr h2" "calm ext h2" "contents h2 = (contents h)(p \<mapsto> with_list c ?l)"
      using put_list_calm [of ext h p c l ?l ext] calm c l wf plain by auto
    with False plain relisted [of h2] show ?thesis
      by (auto simp: minyar_list_set_owned_def list_at_contents [OF c] l is_references_contents [OF c] Let_def)
  qed
qed

text \<open>Filling the empty list \<open>r\<close> with copies of \<open>values\<close> and then \<open>v\<close>.\<close>

lemma fill_list_calm:
  assumes calm: "calm (if counts_elements c \<and> take_value then add_mset v ext else ext) h"
    and r: "contents h r = Some c" "list_of c = Inr l" "list_values l = []"
    and elements: "counts_elements c \<Longrightarrow> \<forall>x\<in>set values. live x h"
    and v: "counts_elements c \<Longrightarrow> \<not> take_value \<Longrightarrow> live v h"
  shows "safe (fill_list r values v take_value h) (\<lambda>h'. calm ext h' \<and> relisted h r c (values @ [v]) h')"
proof -
  let ?ext = "if counts_elements c \<and> take_value then add_mset v ext else ext"
  let ?post = "\<lambda>h'. calm ext h' \<and> relisted h r c (values @ [v]) h'"
  let ?last = "\<lambda>h. if take_value then minyar_list_add_take r v h else minyar_list_add r v h"
  have last: "safe (?last h4) ?post"
    if h4: "calm ?ext h4" "relisted h r c values h4" for h4
  proof -
    obtain l4 where l4: "contents h4 = (contents h)(r \<mapsto> with_list c l4)" "list_values l4 = values"
      using h4(2) by (rule relisted_contents)
    have r4: "contents h4 r = Some (with_list c l4)" "list_of (with_list c l4) = Inr l4" using l4 r by simp_all
    have "safe (?last h4) (\<lambda>h'. calm ext h' \<and> relisted h4 r (with_list c l4) (list_values l4 @ [v]) h')"
    proof (cases take_value)
      case True
      with h4 r4 show ?thesis by (auto intro!: list_add_take_calm)
    next
      case False
      with h4 r4 v live_update [OF l4(1)] show ?thesis by (auto intro!: list_add_calm)
    qed
    then show ?thesis using relisted_trans [OF h4(2) r4(1)] l4(2) by (auto elim!: safe_mono)
  qed
  have filled: "safe (rbind (rfold (\<lambda>h v. minyar_list_add r v h) h3 values) ?last) ?post"
    if h3: "calm ?ext h3" "relisted h r c [] h3" for h3
  proof -
    obtain l3 where l3: "contents h3 = (contents h)(r \<mapsto> with_list c l3)" "list_values l3 = []"
      using h3(2) by (rule relisted_contents)
    have r3: "contents h3 r = Some (with_list c l3)" "list_of (with_list c l3) = Inr l3" using l3 r by simp_all
    show ?thesis
    proof (rule safe_rbind [OF list_add_all_calm [OF h3(1) r3]])
      show "\<forall>x\<in>set values. live x h3" if "counts_elements (with_list c l3)"
        using that elements live_update [OF l3(1)] by simp
      fix h4 assume "calm ?ext h4 \<and>
        (values = [] \<and> h4 = h3 \<or> relisted h3 r (with_list c l3) (list_values l3 @ values) h4)"
      with relisted_trans [OF h3(2) r3(1)] h3(2) l3(2) have "calm ?ext h4" "relisted h r c values h4" by auto
      then show "safe (?last h4) ?post" by (rule last)
    qed
  qed
  have "safe (rbind (grow_to (int (length values) + 1) l) (\<lambda>result. rbind (put_list r result h) (\<lambda>h.
      rbind (rfold (\<lambda>h v. minyar_list_add r v h) h values) ?last))) ?post"
  proof (rule safe_rbind [OF grow_to_safe], goal_cases)
    case 1
    show ?case by (rule well_formed_list [OF r(2) calm_well_formed [OF calm r(1)]])
  next
    case (2 l2)
    with put_list_calm [OF calm r(1,2), of l2 ?ext] r(3)
    obtain h3 where h3: "put_list r l2 h = Inr h3" "calm ?ext h3" "contents h3 = (contents h)(r \<mapsto> with_list c l2)"
      by auto
    with 2 r(3) have "relisted h r c [] h3" by (auto simp: relisted_def)
    with h3 filled show ?case by simp
  qed
  then show ?thesis by (simp add: fill_list_def list_at_contents [OF r(1)] r(2))
qed

text \<open>The result of \<open>minyar_list_appended\<close> is a new list; the old one is not touched.\<close>

lemma list_appended_calm:
  assumes calm: "calm (if references \<and> take_value then add_mset v ext else ext) h"
    and malloc: "fresh malloc" and c: "contents h p = Some c" and l: "list_of c = Inr l"
    and elements: "references \<Longrightarrow> \<forall>x\<in>set (list_values l). live x h"
    and v: "references \<Longrightarrow> \<not> take_value \<Longrightarrow> live v h"
  shows "safe (minyar_list_appended malloc p v references take_value h) (\<lambda>(r, h'). calm (add_mset r ext) h' \<and>
    contents h r = None \<and> r \<noteq> 0 \<and>
    (\<exists>l'. contents h' = (contents h)(r \<mapsto> (if references then RC_REFERENCES l' else RC_LIST l')) \<and>
      list_values l' = list_values l @ [v]))"
    (is "safe _ ?post")
proof -
  let ?ext = "if references \<and> take_value then add_mset v ext else ext"
  let ?new = "\<lambda>l. if references then RC_REFERENCES l else RC_LIST l"
  let ?empty = "\<lparr>list_values = [], list_capacity = 0\<rparr> :: minyar_list"
  show ?thesis unfolding minyar_list_appended_def
  proof (rule safe_rbind [OF list_new_calm [OF calm malloc]], clarify)
    fix r h1 assume h1: "calm (add_mset r ?ext) h1" "contents h r = None" "r \<noteq> 0"
      "contents h1 = (contents h)(r \<mapsto> RC_LIST ?empty)"
    have "safe (if references then minyar_list_references r h1 else Inr h1)
        (\<lambda>h2. calm (add_mset r ?ext) h2 \<and> contents h2 = (contents h)(r \<mapsto> ?new ?empty))"
      using h1 list_references_calm [OF h1(1), of r "RC_LIST ?empty" ?empty] by (auto elim: safe_mono)
    then show "safe (rbind (if references then minyar_list_references r h1 else Inr h1) (\<lambda>h.
      rbind (list_at p h) (\<lambda>list.
      if int (length (list_values list)) = LLONG_MAX then rc_stop ''this List became too large.''
      else rbind (fill_list r (list_values list) v take_value h) (\<lambda>h. Inr (r, h))))) ?post"
    proof (rule safe_rbind, elim conjE)
      fix h2 assume h2: "calm (add_mset r ?ext) h2" "contents h2 = (contents h)(r \<mapsto> ?new ?empty)"
      have "p \<noteq> r" using c h1(2) by auto
      with c l h2 have p2: "list_at p h2 = Inr l" by (simp add: list_at_contents [of h2 p c])
      have "safe (fill_list r (list_values l) v take_value h2)
          (\<lambda>h'. calm (add_mset r ext) h' \<and> relisted h2 r (?new ?empty) (list_values l @ [v]) h')"
        using h2 elements v by (intro fill_list_calm [where l = ?empty])
          (auto simp: live_def add_mset_commute split: if_splits)
      then have "safe (rbind (fill_list r (list_values l) v take_value h2) (\<lambda>h. Inr (r, h))) ?post"
        by (rule safe_rbind) (use h1(2,3) h2(2) in \<open>auto elim!: relisted_contents\<close>)
      with p2 show "safe (rbind (list_at p h2) (\<lambda>list.
        if int (length (list_values list)) = LLONG_MAX then rc_stop ''this List became too large.''
        else rbind (fill_list r (list_values list) v take_value h2) (\<lambda>h. Inr (r, h)))) ?post"
        by simp
    qed
  qed
qed

section \<open>Records\<close>

lemma marked_none [simp]: "marked (replicate n False) slots = []"
proof (induction n arbitrary: slots)
  case (Suc n)
  then show ?case by (cases slots) simp_all
qed simp

lemma marked_unmarked: "length references = length slots \<Longrightarrow> \<not> references ! i \<Longrightarrow> i < length slots \<Longrightarrow>
   marked references (slots[i := v]) = marked references slots"
  by (induction references slots arbitrary: i rule: marked.induct) (auto simp: nth_Cons split: nat.splits)

lemma marked_mark: "length references = length slots \<Longrightarrow> \<not> references ! i \<Longrightarrow> i < length slots \<Longrightarrow>
   mset (marked (references[i := True]) (slots[i := v])) = add_mset v (mset (marked references slots))"
  by (induction references slots arbitrary: i rule: marked.induct) (auto simp: nth_Cons split: nat.splits)

lemma record_allocate_calm:
  assumes "calm ext h" "fresh malloc"
  shows "safe (record_allocate malloc n references h) (\<lambda>(a, h'). calm (add_mset a ext) h' \<and> contents h a = None \<and>
    a \<noteq> 0 \<and> contents h' = (contents h)(a \<mapsto> (if references then RC_RECORD (replicate (nat n) False) (replicate (nat n) 0)
      else RC_SCALAR_RECORD (replicate (nat n) 0))))"
proof (cases "n < 0 \<or> nat n > SIZE_LIMIT div 8 \<or> nat n > (SIZE_LIMIT - 8 - 8) div (if references then 9 else 8)")
  case True
  then show ?thesis by (auto simp: record_allocate_def Let_def)
next
  case False
  then have "nat n \<le> SIZE_LIMIT div 8" by simp
  then have "safe (rc_allocate_object malloc (8 + nat n * (if references then 9 else 8))
      (if references then RC_RECORD (replicate (nat n) False) (replicate (nat n) 0)
       else RC_SCALAR_RECORD (replicate (nat n) 0)) h)
    (\<lambda>(a, h'). calm (add_mset a ext) h' \<and> contents h a = None \<and> a \<noteq> 0 \<and>
      contents h' = (contents h)(a \<mapsto> (if references then RC_RECORD (replicate (nat n) False) (replicate (nat n) 0)
      else RC_SCALAR_RECORD (replicate (nat n) 0))))"
    using assms by (intro allocate_calm) auto
  with False show ?thesis by (simp add: record_allocate_def Let_def)
qed

lemma slots_not_text: "slots_of c = Inr slots \<Longrightarrow> c \<noteq> RC_TEXT b"
  by auto

lemma slots_bound: "well_formed c \<Longrightarrow> slots_of c = Inr slots \<Longrightarrow> int (length slots) < 2 ^ 63"
  by (cases c) auto

fun is_marked :: "content \<Rightarrow> nat \<Rightarrow> bool" where
  "is_marked (RC_RECORD references _) i = references ! i"
| "is_marked _ _ = False"

lemma record_set_calm:
  assumes calm: "calm ext h" and c: "contents h p = Some c" and slots: "slots_of c = Inr slots"
    and plain: "\<not> is_marked c (nat field)" and field: "- (2 ^ 63) \<le> field" "field < 2 ^ 63"
  shows "safe (minyar_record_set p field v h) (\<lambda>h'. calm ext h' \<and>
    contents h' = (contents h)(p \<mapsto> with_slots c (slots[nat field := v])))"
proof (cases "outside field slots")
  case True
  with c slots show ?thesis
    by (auto simp: minyar_record_set_def list_position_stop_def elim!: object_at_contents)
next
  case False
  have wf: "well_formed c" by (rule calm_well_formed [OF calm c])
  have "nat field < length slots" using False slots_bound [OF wf slots] field by (rule inside)
  with wf slots plain have "well_formed (with_slots c (slots[nat field := v]))"
      "mset (held (with_slots c (slots[nat field := v]))) + ext = mset (held c) + ext"
    by (cases c; auto simp: marked_unmarked)+
  then obtain h' where "put_content p (with_slots c (slots[nat field := v])) h = Inr h'" "calm ext h'"
      "contents h' = (contents h)(p \<mapsto> with_slots c (slots[nat field := v]))"
    by (rule put_content_calm [OF calm c slots_not_text [OF slots]])
  with False c slots show ?thesis by (auto simp: minyar_record_set_def elim!: object_at_contents)
qed

lemma record_set_scalar_eq: "minyar_record_set_scalar = minyar_record_set"
  by (intro ext) (simp add: minyar_record_set_scalar_def minyar_record_set_def)

lemma put_put: "rbind (put_content p c1 h) (put_content p c2) = put_content p c2 h"
  by (cases "fmlookup (objects h) p") (auto simp: put_content_def object_at_def)

text \<open>The map and then the field: between the two writes the field does not yet own what it shows.\<close>

lemma record_set_take_eq:
  assumes c: "contents h p = Some (RC_RECORD references slots)" and "\<not> outside field slots"
  shows "minyar_record_set_take p field v h =
    put_content p (RC_RECORD (references[nat field := True]) (slots[nat field := v])) h"
proof -
  obtain object where object: "fmlookup (objects h) p = Some object" "content object = RC_RECORD references slots"
    using c by (auto simp: contents_Some)
  with assms(2) show ?thesis
    by (simp add: minyar_record_set_take_def minyar_record_set_def put_content_def object_at_def)
qed

lemma record_set_take_calm:
  assumes calm: "calm (add_mset v ext) h" and c: "contents h p = Some (RC_RECORD references slots)"
    and plain: "\<not> references ! nat field" and field: "- (2 ^ 63) \<le> field" "field < 2 ^ 63"
  shows "safe (minyar_record_set_take p field v h) (\<lambda>h'. calm ext h' \<and>
    contents h' = (contents h)(p \<mapsto> RC_RECORD (references[nat field := True]) (slots[nat field := v])))"
proof (cases "outside field slots")
  case True
  with c show ?thesis
    by (auto simp: minyar_record_set_take_def list_position_stop_def elim!: object_at_contents)
next
  case False
  have wf: "well_formed (RC_RECORD references slots)" by (rule calm_well_formed [OF calm c])
  have "nat field < length slots"
    using False slots_bound [OF wf, of slots] field by (intro inside) simp_all
  with wf plain have "well_formed (RC_RECORD (references[nat field := True]) (slots[nat field := v]))"
      "mset (held (RC_RECORD (references[nat field := True]) (slots[nat field := v]))) + ext =
        mset (held (RC_RECORD references slots)) + add_mset v ext"
    by (simp_all add: marked_mark)
  then obtain h' where "put_content p (RC_RECORD (references[nat field := True]) (slots[nat field := v])) h = Inr h'"
      "calm ext h'" "contents h' = (contents h)(p \<mapsto> RC_RECORD (references[nat field := True]) (slots[nat field := v]))"
    by (rule put_content_calm [OF calm c slots_not_text [of _ slots, OF slots_of.simps(1)]])
  with record_set_take_eq [OF c False] show ?thesis by simp
qed

lemma record_set_reference_calm:
  assumes calm: "calm ext h" and c: "contents h p = Some (RC_RECORD references slots)"
    and plain: "\<not> references ! nat field" and field: "- (2 ^ 63) \<le> field" "field < 2 ^ 63" and v: "live v h"
  shows "safe (minyar_record_set_reference p field v h) (\<lambda>h'. calm ext h' \<and>
    contents h' = (contents h)(p \<mapsto> RC_RECORD (references[nat field := True]) (slots[nat field := v])))"
  unfolding minyar_record_set_reference_def
proof (rule safe_rbind [OF retain_calm [OF calm v]], elim conjE)
  fix h1 assume "calm (add_mset v ext) h1" "contents h1 = contents h"
  then show "safe (minyar_record_set_take p field v h1) (\<lambda>h'. calm ext h' \<and>
      contents h' = (contents h)(p \<mapsto> RC_RECORD (references[nat field := True]) (slots[nat field := v])))"
    using record_set_take_calm [of v ext h1 p references slots field] c plain field by simp
qed

section \<open>Text headers\<close>

lemma text_object_calm:
  assumes "calm ext h" "fresh malloc"
  shows "safe (text_object malloc h) (\<lambda>(a, h'). calm (add_mset a ext) h' \<and> contents h a = None \<and> a \<noteq> 0 \<and>
    contents h' = (contents h)(a \<mapsto> RC_TEXT 0))"
  unfolding text_object_def using assms by (intro allocate_calm) simp_all

text \<open>The view names its root before it retains it; the other order gives the same heap.\<close>

lemma put_retain_swap:
  assumes "a \<noteq> b" "contents h a = Some c"
  shows "rbind (put_content a c' h) (minyar_rc_retain b) = rbind (minyar_rc_retain b h) (put_content a c')"
proof -
  obtain object where object: "fmlookup (objects h) a = Some object"
    using assms(2) by (auto simp: contents_Some)
  show ?thesis
  proof (cases "fmlookup (objects h) b")
    case None
    with object assms(1) show ?thesis by (simp add: put_content_def object_at_def minyar_rc_retain_def)
  next
    case (Some other)
    with object assms(1) show ?thesis
      by (simp add: put_content_def object_at_def minyar_rc_retain_def fmupd_reorder_neq)
  qed
qed

lemma allocated: "rc_allocate_object malloc n c h = Inr (a, h') \<Longrightarrow> fmlookup (objects h') a = Some \<lparr>holders = 1, content = c\<rparr>"
  by (auto simp: rc_allocate_object_def split: if_splits option.splits)

lemma retain_other: "minyar_rc_retain b h = Inr h' \<Longrightarrow> a \<noteq> b \<Longrightarrow> fmlookup (objects h') a = fmlookup (objects h) a"
  by (auto simp: minyar_rc_retain_def split: if_splits option.splits)

lemma text_view_calm:
  assumes calm: "calm ext h" and malloc: "fresh malloc" and p: "contents h p = Some (RC_TEXT backing)"
  defines "root \<equiv> (if backing \<noteq> 0 then backing else p)"
  shows "safe (text_view malloc p h) (\<lambda>(a, h'). calm (add_mset a ext) h' \<and> contents h a = None \<and> a \<noteq> 0 \<and>
    contents h' = (contents h)(a \<mapsto> RC_TEXT root))"
    (is "safe _ ?post")
proof -
  have root: "live root h" "root \<noteq> 0 \<Longrightarrow> contents h root \<noteq> None"
    using p calm_held_live [OF calm p, of backing] by (auto simp: root_def live_def)
  have "safe (rbind (text_object malloc h) (\<lambda>(view, h). rbind (put_content view (RC_TEXT root) h) (\<lambda>h.
      rbind (minyar_rc_retain root h) (\<lambda>h. Inr (view, h))))) ?post"
  proof (rule safe_rbind_eq [OF text_object_calm [OF calm malloc]], clarify)
    fix a h1 assume made: "text_object malloc h = Inr (a, h1)" and h1: "calm (add_mset a ext) h1" "contents h a = None" "a \<noteq> 0"
      "contents h1 = (contents h)(a \<mapsto> RC_TEXT 0)"
    have differ: "a \<noteq> root" using root(2) h1(2,3) by auto
    have a1: "contents h1 a = Some (RC_TEXT 0)" using h1 by simp
    have "safe (rbind (minyar_rc_retain root h1) (put_content a (RC_TEXT root)))
        (\<lambda>h'. calm (add_mset a ext) h' \<and> contents h' = (contents h)(a \<mapsto> RC_TEXT root))"
    proof (rule safe_rbind_eq [OF retain_calm [OF h1(1)]], goal_cases)
      case 1
      show ?case using root(1) h1(4) by (auto simp: live_def)
    next
      case (2 h2)
      have a2: "fmlookup (objects h2) a = Some \<lparr>holders = 1, content = RC_TEXT 0\<rparr>"
        using retain_other [OF 2(1) differ] allocated [OF made [unfolded text_object_def]] by simp
      have "mset (held (RC_TEXT root)) + add_mset 0 (add_mset a ext) = mset (held (RC_TEXT 0)) + add_mset root (add_mset a ext)"
        by simp
      then obtain h3 where "put_content a (RC_TEXT root) h2 = Inr h3" "calm (add_mset 0 (add_mset a ext)) h3"
          "contents h3 = (contents h2)(a \<mapsto> RC_TEXT root)"
        using 2 by (elim put_content_mortal [OF _ a2, rotated -1]) (auto simp: add_mset_commute)
      then show ?case using 2 h1(4) by (auto simp: calm_def intro: inv_uncounted)
    qed
    then have "safe (rbind (put_content a (RC_TEXT root) h1) (minyar_rc_retain root))
        (\<lambda>h'. calm (add_mset a ext) h' \<and> contents h' = (contents h)(a \<mapsto> RC_TEXT root))"
      using put_retain_swap [OF differ a1] by simp
    with h1(2,3) show "safe (rbind (put_content a (RC_TEXT root) h1) (\<lambda>h.
        rbind (minyar_rc_retain root h) (\<lambda>h. Inr (a, h)))) ?post"
      by (cases "put_content a (RC_TEXT root) h1") (auto elim!: safe_cases)
  qed
  with p show ?thesis by (auto simp: text_view_def root_def Let_def elim!: object_at_contents)
qed

end
