(* ===== verification/Rc_Calls.thy ===== *)
theory Rc_Calls
  imports Container_Safe
begin

text \<open>
  The calls generated code makes into the runtime, in any order that respects ownership: a claim
  is given up only by who holds it, a borrowed pointer names a live object, and a record field becomes a
  reference once. The frames are claim holders like any other.
\<close>

section \<open>Frames as holders\<close>

definition frame_claims :: "rc_frame \<Rightarrow> ptr multiset" where
  "frame_claims frame = mset (frame_locals frame) + mset (frame_temporaries frame)"

definition frames_claims :: "rc_frame list \<Rightarrow> ptr multiset" where
  "frames_claims frames = sum_list (map frame_claims frames)"

definition ready :: "ptr multiset \<Rightarrow> rc_state \<Rightarrow> bool" where
  "ready ext s \<longleftrightarrow> calm (frames_claims (rc_frames s) + ext) (rc_heap s)"

lemma frames_claims_simps [simp]:
  "frames_claims [] = {#}"
  "frames_claims (frame # frames) = frame_claims frame + frames_claims frames"
  by (simp_all add: frames_claims_def)

text \<open>Claims on \<open>NULL\<close> and on immortal objects come and go freely.\<close>

definition uncounted :: "ptr \<Rightarrow> rc_heap \<Rightarrow> bool" where
  "uncounted v h \<longleftrightarrow> v = 0 \<or> (case fmlookup (objects h) v of None \<Rightarrow> False | Some object \<Rightarrow> holders object = 0)"

lemma uncounted_iff: "uncounted v h \<longleftrightarrow> v = 0 \<or> (\<exists>object. fmlookup (objects h) v = Some object \<and> holders object = 0)"
  by (auto simp: uncounted_def split: option.splits)

lemma calm_uncounted:
  assumes "uncounted v h"
  shows "calm (add_mset v ext) h \<longleftrightarrow> calm ext h"
proof
  assume "calm ext h"
  moreover have "live v h" using assms by (auto simp: uncounted_iff live_def contents_def)
  moreover have "minyar_rc_retain v h = Inr h" using assms by (auto simp: uncounted_iff minyar_rc_retain_def)
  ultimately show "calm (add_mset v ext) h" using retain_calm [of ext h v] by simp
next
  assume "calm (add_mset v ext) h"
  with assms show "calm ext h" by (auto simp: uncounted_iff calm_def intro: inv_uncounted)
qed

lemma calm_nulls: "calm (replicate_mset n 0 + ext) h \<longleftrightarrow> calm ext h"
  by (induction n) (simp_all add: calm_uncounted uncounted_def)

lemma on_heap_safe:
  assumes "safe (f (rc_heap s)) (\<lambda>h. calm (frames_claims (rc_frames s) + ext) h)"
  shows "safe (on_heap f s) (\<lambda>s'. ready ext s' \<and> rc_frames s' = rc_frames s)"
  using assms by (cases "f (rc_heap s)") (simp_all add: on_heap_def ready_def)

lemma release_all_eq: "release_all vs h = rfold (\<lambda>h v. minyar_rc_release v h) h vs"
proof (induction vs arbitrary: h)
  case (Cons v vs)
  then show ?case by (cases "minyar_rc_release v h") simp_all
qed simp

lemma release_all_calm: "calm (mset vs + ext) h \<Longrightarrow> safe (release_all vs h) (calm ext)"
  unfolding release_all_eq calm_def using release.consume_all_safe [of vs ext h] by (auto elim!: safe_mono)

section \<open>Entering and leaving\<close>

lemma enter_ready:
  assumes "ready ext s"
  shows "safe (minyar_rc_enter n s) (ready ext)"
proof -
  have "calm (replicate_mset k 0 + frames_claims (rc_frames s) + ext) (rc_heap s)" for k
    using assms calm_nulls [of k "frames_claims (rc_frames s) + ext"] by (simp add: ready_def add.assoc)
  then show ?thesis
    by (cases "rc_free_frames s") (simp_all add: minyar_rc_enter_def ready_def frame_claims_def Let_def)
qed

lemma step_ready:
  assumes "ready ext s" "rc_frames s \<noteq> []"
  shows "safe (minyar_rc_step s) (\<lambda>s'. ready ext s' \<and>
    rc_frames s' = hd (rc_frames s)\<lparr>frame_temporaries := []\<rparr> # tl (rc_frames s))"
proof -
  obtain frame callers where frames: "rc_frames s = frame # callers" using assms(2) by (cases "rc_frames s") auto
  have "calm (mset (frame_temporaries frame) + (mset (frame_locals frame) + frames_claims callers + ext)) (rc_heap s)"
    using assms(1) by (simp add: ready_def frames frame_claims_def ac_simps)
  then have "safe (release_all (frame_temporaries frame) (rc_heap s))
      (calm (mset (frame_locals frame) + frames_claims callers + ext))"
    by (rule release_all_calm)
  then show ?thesis
    by (auto simp: minyar_rc_step_def frames on_heap_def ready_def frame_claims_def elim!: safe_cases)
qed

lemma leave_ready:
  assumes "ready ext s" "rc_frames s \<noteq> []"
  shows "safe (minyar_rc_leave s) (\<lambda>s'. ready ext s' \<and> rc_frames s' = tl (rc_frames s))"
  unfolding minyar_rc_leave_def
proof (rule safe_rbind [OF step_ready [OF assms]], elim conjE)
  fix s1 assume s1: "ready ext s1" "rc_frames s1 = hd (rc_frames s)\<lparr>frame_temporaries := []\<rparr> # tl (rc_frames s)"
  then have "safe (release_all (frame_locals (hd (rc_frames s))) (rc_heap s1)) (calm (frames_claims (tl (rc_frames s)) + ext))"
    by (intro release_all_calm) (simp add: ready_def frame_claims_def ac_simps)
  then show "safe (case rc_frames s1 of [] \<Rightarrow> Inl Undefined
      | frame # callers \<Rightarrow> rbind (on_heap (release_all (frame_locals frame)) s1)
          (\<lambda>s. Inr (s\<lparr>rc_frames := callers, rc_free_frames := frame # rc_free_frames s\<rparr>)))
      (\<lambda>s'. ready ext s' \<and> rc_frames s' = tl (rc_frames s))"
    by (auto simp: s1(2) on_heap_def ready_def elim!: safe_cases)
qed

section \<open>Locals and temporaries\<close>

lemma keep_ready:
  assumes "ready (add_mset v ext) s" "rc_frames s \<noteq> []"
  shows "safe (minyar_rc_keep v s) (ready ext)"
proof (cases "uncounted v (rc_heap s)")
  case True
  then have "minyar_rc_keep v s = Inr s"
    by (auto simp: minyar_rc_keep_def uncounted_iff)
  moreover have "ready ext s" using assms(1) True by (simp add: ready_def calm_uncounted)
  ultimately show ?thesis by simp
next
  case False
  have "live v (rc_heap s)" using assms(1) by (auto simp: ready_def intro: calm_live)
  with False obtain object where "fmlookup (objects (rc_heap s)) v = Some object" "holders object \<noteq> 0" "v \<noteq> 0"
    by (auto simp: uncounted_iff live_def contents_def)
  with assms show ?thesis
    by (auto simp: minyar_rc_keep_def ready_def frame_claims_def Let_def neq_Nil_conv)
qed

text \<open>Writing a slot exchanges the claim it shows for another.\<close>

lemma swap_local:
  assumes "i < length (frame_locals frame)"
  shows "add_mset (frame_locals frame ! i)
      (frames_claims (frame\<lparr>frame_locals := (frame_locals frame)[i := w]\<rparr> # callers) + ext) =
    frames_claims (frame # callers) + add_mset w ext"
  using assms by (simp add: frame_claims_def mset_update)

lemma local_take_ready:
  assumes "ready (add_mset v ext) s" and frames: "rc_frames s = frame # callers" and i: "i < length (frame_locals frame)"
  shows "safe (minyar_rc_local_take i v s) (ready ext)"
proof -
  let ?old = "frame_locals frame ! i"
  let ?s = "s\<lparr>rc_frames := frame\<lparr>frame_locals := (frame_locals frame)[i := v]\<rparr> # callers\<rparr>"
  have "calm (add_mset ?old (frames_claims (frame\<lparr>frame_locals := (frame_locals frame)[i := v]\<rparr> # callers) + ext)) (rc_heap s)"
    using assms(1) unfolding swap_local [OF i] ready_def frames .
  then have "safe (minyar_rc_release ?old (rc_heap ?s)) (\<lambda>h. calm (frames_claims (rc_frames ?s) + ext) h)"
    by (intro safe_mono [OF release_calm]) auto
  then have "safe (on_heap (minyar_rc_release ?old) ?s) (ready ext)"
    by (rule safe_mono [OF on_heap_safe]) blast
  then show ?thesis using i by (simp add: minyar_rc_local_take_def frames Let_def)
qed

lemma local_move_ready:
  assumes "ready ext s" and frames: "rc_frames s = frame # callers" and i: "i < length (frame_locals frame)"
  shows "safe (minyar_rc_local_move i s) (ready (add_mset (frame_locals frame ! i) ext))"
proof -
  let ?old = "frame_locals frame ! i"
  have "calm (add_mset 0 (frames_claims (frame # callers) + ext)) (rc_heap s)"
    using assms(1) by (simp add: ready_def frames calm_uncounted uncounted_def)
  then have "calm (frames_claims (frame\<lparr>frame_locals := (frame_locals frame)[i := 0]\<rparr> # callers) + add_mset ?old ext) (rc_heap s)"
    by (simp only: union_mset_add_mset_right swap_local [OF i, of 0 callers ext])
  then show ?thesis using i by (simp add: minyar_rc_local_move_def frames ready_def)
qed

lemma retain_ready:
  assumes "ready ext s" "live v (rc_heap s)"
  shows "safe (on_heap (minyar_rc_retain v) s) (\<lambda>s'. ready (add_mset v ext) s' \<and> rc_frames s' = rc_frames s)"
proof (rule on_heap_safe)
  show "safe (minyar_rc_retain v (rc_heap s)) (\<lambda>h. calm (frames_claims (rc_frames s) + add_mset v ext) h)"
    using retain_calm [OF _ assms(2), of "frames_claims (rc_frames s) + ext"] assms(1)
    by (auto simp: ready_def intro: safe_mono)
qed

lemma local_ready:
  assumes "ready ext s" "live v (rc_heap s)" "rc_frames s = frame # callers" "i < length (frame_locals frame)"
  shows "safe (minyar_rc_local i v s) (ready ext)"
  unfolding minyar_rc_local_def
  by (rule safe_rbind [OF retain_ready [OF assms(1,2)]]) (use assms local_take_ready in auto)

lemma borrow_ready:
  assumes "ready ext s" "live v (rc_heap s)" "rc_frames s \<noteq> []"
  shows "safe (minyar_rc_borrow v s) (ready ext)"
  unfolding minyar_rc_borrow_def
  by (rule safe_rbind [OF retain_ready [OF assms(1,2)]]) (use assms keep_ready in auto)

section \<open>Calls\<close>

datatype rc_call =
    Retain ptr | Release ptr | Enter int | Leave | Step | Keep ptr | Borrow ptr
  | Local nat ptr | Local_Take nat ptr | Local_Move nat
  | List_New | List_References ptr | List_Add ptr ptr | List_Add_Take ptr ptr
  | List_Set ptr int ptr | List_Set_Take ptr int ptr | List_Appended ptr ptr bool bool
  | Record_New int | Record_New_Scalar int | Record_Set ptr int ptr | Record_Set_Scalar ptr int ptr
  | Record_Set_Take ptr int ptr | Record_Set_Reference ptr int ptr
  | Text_New | Text_View ptr

text \<open>The pointer a call returns; zero for those that return none.\<close>

definition no_result :: "fault + rc_state \<Rightarrow> fault + ptr \<times> rc_state" where
  "no_result r = rbind r (\<lambda>s. Inr (0, s))"

definition with_result :: "(rc_heap \<Rightarrow> fault + ptr \<times> rc_heap) \<Rightarrow> rc_state \<Rightarrow> fault + ptr \<times> rc_state" where
  "with_result f s = rbind (f (rc_heap s)) (\<lambda>(r, h). Inr (r, s\<lparr>rc_heap := h\<rparr>))"

fun run_call :: "host \<Rightarrow> rc_call \<Rightarrow> rc_state \<Rightarrow> fault + ptr \<times> rc_state" where
  "run_call malloc (Retain v) s = no_result (on_heap (minyar_rc_retain v) s)"
| "run_call malloc (Release v) s = no_result (on_heap (minyar_rc_release v) s)"
| "run_call malloc (Enter n) s = no_result (minyar_rc_enter n s)"
| "run_call malloc Leave s = no_result (minyar_rc_leave s)"
| "run_call malloc Step s = no_result (minyar_rc_step s)"
| "run_call malloc (Keep v) s = no_result (minyar_rc_keep v s)"
| "run_call malloc (Borrow v) s = no_result (minyar_rc_borrow v s)"
| "run_call malloc (Local i v) s = no_result (minyar_rc_local i v s)"
| "run_call malloc (Local_Take i v) s = no_result (minyar_rc_local_take i v s)"
| "run_call malloc (Local_Move i) s = no_result (minyar_rc_local_move i s)"
| "run_call malloc List_New s = with_result (minyar_list_new malloc) s"
| "run_call malloc (List_References p) s = no_result (on_heap (minyar_list_references p) s)"
| "run_call malloc (List_Add p v) s = no_result (on_heap (minyar_list_add p v) s)"
| "run_call malloc (List_Add_Take p v) s = no_result (on_heap (minyar_list_add_take p v) s)"
| "run_call malloc (List_Set p i v) s = no_result (on_heap (minyar_list_set p i v) s)"
| "run_call malloc (List_Set_Take p i v) s = no_result (on_heap (minyar_list_set_take p i v) s)"
| "run_call malloc (List_Appended p v references take_value) s =
     with_result (minyar_list_appended malloc p v references take_value) s"
| "run_call malloc (Record_New n) s = with_result (minyar_record_new malloc n) s"
| "run_call malloc (Record_New_Scalar n) s = with_result (minyar_record_new_scalar malloc n) s"
| "run_call malloc (Record_Set p i v) s = no_result (on_heap (minyar_record_set p i v) s)"
| "run_call malloc (Record_Set_Scalar p i v) s = no_result (on_heap (minyar_record_set_scalar p i v) s)"
| "run_call malloc (Record_Set_Take p i v) s = no_result (on_heap (minyar_record_set_take p i v) s)"
| "run_call malloc (Record_Set_Reference p i v) s = no_result (on_heap (minyar_record_set_reference p i v) s)"
| "run_call malloc Text_New s = with_result (text_object malloc) s"
| "run_call malloc (Text_View p) s = with_result (text_view malloc p) s"

section \<open>Respecting ownership\<close>

definition owned :: "ptr \<Rightarrow> ptr multiset \<Rightarrow> rc_heap \<Rightarrow> bool" where
  "owned v ext h \<longleftrightarrow> v \<in># ext \<or> uncounted v h"

definition is_list :: "ptr \<Rightarrow> rc_heap \<Rightarrow> bool" where
  "is_list p h \<longleftrightarrow> (case list_at p h of Inl _ \<Rightarrow> False | Inr _ \<Rightarrow> True)"

definition elements :: "ptr \<Rightarrow> rc_heap \<Rightarrow> ptr list" where
  "elements p h = (case list_at p h of Inl _ \<Rightarrow> [] | Inr list \<Rightarrow> list_values list)"

definition in_frame :: "nat \<Rightarrow> rc_state \<Rightarrow> bool" where
  "in_frame i s \<longleftrightarrow> (case rc_frames s of [] \<Rightarrow> False | frame # _ \<Rightarrow> i < length (frame_locals frame))"

definition signed64 :: "int \<Rightarrow> bool" where
  "signed64 i \<longleftrightarrow> - (2 ^ 63) \<le> i \<and> i < 2 ^ 63"

text \<open>A field that is not yet a reference, of a record, and of a record that has a map.\<close>

definition plain_field :: "ptr \<Rightarrow> int \<Rightarrow> rc_heap \<Rightarrow> bool" where
  "plain_field p i h \<longleftrightarrow> signed64 i \<and> (case contents h p of
     Some (RC_RECORD references slots) \<Rightarrow> \<not> references ! nat i
   | Some (RC_SCALAR_RECORD slots) \<Rightarrow> True
   | _ \<Rightarrow> False)"

definition new_reference :: "ptr \<Rightarrow> int \<Rightarrow> rc_heap \<Rightarrow> bool" where
  "new_reference p i h \<longleftrightarrow> signed64 i \<and> (case contents h p of
     Some (RC_RECORD references slots) \<Rightarrow> \<not> references ! nat i
   | _ \<Rightarrow> False)"

fun allowed :: "rc_call \<Rightarrow> ptr multiset \<Rightarrow> rc_state \<Rightarrow> bool" where
  "allowed (Retain v) ext s = live v (rc_heap s)"
| "allowed (Release v) ext s = owned v ext (rc_heap s)"
| "allowed (Enter n) ext s = True"
| "allowed Leave ext s = (rc_frames s \<noteq> [])"
| "allowed Step ext s = (rc_frames s \<noteq> [])"
| "allowed (Keep v) ext s = (owned v ext (rc_heap s) \<and> rc_frames s \<noteq> [])"
| "allowed (Borrow v) ext s = (live v (rc_heap s) \<and> rc_frames s \<noteq> [])"
| "allowed (Local i v) ext s = (live v (rc_heap s) \<and> in_frame i s)"
| "allowed (Local_Take i v) ext s = (owned v ext (rc_heap s) \<and> in_frame i s)"
| "allowed (Local_Move i) ext s = in_frame i s"
| "allowed List_New ext s = True"
| "allowed (List_References p) ext s = (is_list p (rc_heap s) \<and> elements p (rc_heap s) = [])"
| "allowed (List_Add p v) ext s =
     (is_list p (rc_heap s) \<and> (is_references p (rc_heap s) \<longrightarrow> live v (rc_heap s)))"
| "allowed (List_Add_Take p v) ext s =
     (is_list p (rc_heap s) \<and> (is_references p (rc_heap s) \<longrightarrow> owned v ext (rc_heap s)))"
| "allowed (List_Set p i v) ext s =
     (is_list p (rc_heap s) \<and> signed64 i \<and> (is_references p (rc_heap s) \<longrightarrow> live v (rc_heap s)))"
| "allowed (List_Set_Take p i v) ext s =
     (is_list p (rc_heap s) \<and> signed64 i \<and> (is_references p (rc_heap s) \<longrightarrow> owned v ext (rc_heap s)))"
| "allowed (List_Appended p v references take_value) ext s =
     (is_list p (rc_heap s) \<and>
      (references \<longrightarrow> list_all (\<lambda>x. live x (rc_heap s)) (elements p (rc_heap s)) \<and>
         (if take_value then owned v ext (rc_heap s) else live v (rc_heap s))))"
| "allowed (Record_New n) ext s = True"
| "allowed (Record_New_Scalar n) ext s = True"
| "allowed (Record_Set p i v) ext s = plain_field p i (rc_heap s)"
| "allowed (Record_Set_Scalar p i v) ext s = plain_field p i (rc_heap s)"
| "allowed (Record_Set_Take p i v) ext s = (owned v ext (rc_heap s) \<and> new_reference p i (rc_heap s))"
| "allowed (Record_Set_Reference p i v) ext s = (live v (rc_heap s) \<and> new_reference p i (rc_heap s))"
| "allowed Text_New ext s = True"
| "allowed (Text_View p) ext s = (case contents (rc_heap s) p of Some (RC_TEXT _) \<Rightarrow> True | _ \<Rightarrow> False)"

text \<open>The claims the program holds after a call that returned \<open>r\<close>.\<close>

fun owned_after :: "rc_call \<Rightarrow> ptr \<Rightarrow> rc_state \<Rightarrow> ptr multiset \<Rightarrow> ptr multiset" where
  "owned_after (Retain v) r s ext = add_mset v ext"
| "owned_after (Release v) r s ext = ext - {#v#}"
| "owned_after (Keep v) r s ext = ext - {#v#}"
| "owned_after (Local_Take i v) r s ext = ext - {#v#}"
| "owned_after (Local_Move i) r s ext = add_mset (frame_locals (hd (rc_frames s)) ! i) ext"
| "owned_after List_New r s ext = add_mset r ext"
| "owned_after (List_Add_Take p v) r s ext = (if is_references p (rc_heap s) then ext - {#v#} else ext)"
| "owned_after (List_Set_Take p i v) r s ext = (if is_references p (rc_heap s) then ext - {#v#} else ext)"
| "owned_after (List_Appended p v references take_value) r s ext =
     add_mset r (if references \<and> take_value then ext - {#v#} else ext)"
| "owned_after (Record_New n) r s ext = add_mset r ext"
| "owned_after (Record_New_Scalar n) r s ext = add_mset r ext"
| "owned_after (Record_Set_Take p i v) r s ext = ext - {#v#}"
| "owned_after Text_New r s ext = add_mset r ext"
| "owned_after (Text_View p) r s ext = add_mset r ext"
| "owned_after _ r s ext = ext"

section \<open>Every call is safe\<close>

lemma owned_calm:
  assumes "owned v ext h" "calm (M + ext) h"
  shows "calm (add_mset v (M + (ext - {#v#}))) h"
proof (cases "v \<in># ext")
  case True
  then have "add_mset v (M + (ext - {#v#})) = M + ext" by simp
  with assms(2) show ?thesis by (simp only:)
next
  case False
  with assms have "uncounted v h" "ext - {#v#} = ext" by (auto simp: owned_def diff_single_trivial)
  with assms(2) show ?thesis by (simp add: calm_uncounted)
qed

lemma owned_ready: "owned v ext (rc_heap s) \<Longrightarrow> ready ext s \<Longrightarrow> ready (add_mset v (ext - {#v#})) s"
  using owned_calm [of v ext "rc_heap s" "frames_claims (rc_frames s)"] by (simp add: ready_def)

lemma no_result_safe: "safe r (ready ext) \<Longrightarrow> safe (no_result r) (\<lambda>(r, s). ready ext s)"
  by (auto simp: no_result_def elim!: safe_cases)

lemma on_heap_call:
  assumes "safe (f (rc_heap s)) (\<lambda>h. calm (frames_claims (rc_frames s) + ext) h \<and> Q h)"
  shows "safe (no_result (on_heap f s)) (\<lambda>(r, s). ready ext s)"
proof (rule no_result_safe)
  have "safe (f (rc_heap s)) (\<lambda>h. calm (frames_claims (rc_frames s) + ext) h)"
    by (rule safe_mono [OF assms]) blast
  then show "safe (on_heap f s) (ready ext)" by (rule safe_mono [OF on_heap_safe]) blast
qed

lemma with_result_call:
  assumes "safe (f (rc_heap s)) (\<lambda>(r, h). calm (add_mset r (frames_claims (rc_frames s) + ext)) h \<and> Q r h)"
  shows "safe (with_result f s) (\<lambda>(r, s). ready (add_mset r ext) s)"
  using assms by (cases "f (rc_heap s)") (auto simp: with_result_def ready_def)

lemma is_listE:
  assumes "is_list p h"
  obtains c l where "contents h p = Some c" "list_of c = Inr l" "elements p h = list_values l"
    "is_references p h = counts_elements c"
  using assms by (auto simp: is_list_def elements_def list_at_def object_at_def is_references_def contents_def
      split: option.splits sum.splits)

text \<open>
  The calls fall into three groups: on the frames, on objects that exist, and on new objects.
\<close>

lemma frame_call_safe:
  assumes "ready ext s" "allowed c ext s"
    and "c \<in> {Leave, Step} \<or> (\<exists>n v i. c \<in> {Enter n, Keep v, Borrow v, Local i v, Local_Take i v, Local_Move i})"
  shows "safe (run_call malloc c s) (\<lambda>(r, s'). ready (owned_after c r s ext) s')"
proof -
  have taken: "ready (add_mset v (ext - {#v#})) s" if "owned v ext (rc_heap s)" for v
    using that assms(1) by (rule owned_ready)
  from assms(3) show ?thesis
  proof (elim disjE exE)
    assume "c \<in> {Leave, Step}"
    with assms leave_ready [OF assms(1)] step_ready [OF assms(1)] show ?thesis
      by (auto intro!: no_result_safe elim!: safe_mono)
  next
    fix n v i assume "c \<in> {Enter n, Keep v, Borrow v, Local i v, Local_Take i v, Local_Move i}"
    with assms taken [of v] keep_ready [of v "ext - {#v#}" s] borrow_ready [OF assms(1)] local_ready [OF assms(1)]
      local_take_ready [of v "ext - {#v#}" s] local_move_ready [OF assms(1)] enter_ready [OF assms(1)]
    show ?thesis
      by (auto intro!: no_result_safe simp: in_frame_def split: list.splits)
  qed
qed

lemma new_call_safe:
  assumes "ready ext s" "fresh malloc" "allowed c ext s"
    and "c \<in> {List_New, Text_New} \<or> (\<exists>n p. c \<in> {Record_New n, Record_New_Scalar n, Text_View p})"
  shows "safe (run_call malloc c s) (\<lambda>(r, s'). ready (owned_after c r s ext) s')"
proof -
  have calm: "calm (frames_claims (rc_frames s) + ext) (rc_heap s)" using assms(1) by (simp add: ready_def)
  note news = list_new_calm [OF calm assms(2)] text_object_calm [OF calm assms(2)]
    record_allocate_calm [OF calm assms(2)] text_view_calm [OF calm assms(2)]
  from assms(3,4) show ?thesis
    by (auto intro!: with_result_call safe_mono [OF news(1)] safe_mono [OF news(2)] safe_mono [OF news(3)]
        safe_mono [OF news(4)] simp: minyar_record_new_def minyar_record_new_scalar_def
        split: option.splits content.splits)
qed

lemma count_call_safe:
  assumes "ready ext s" "allowed c ext s" and "\<exists>v. c \<in> {Retain v, Release v}"
  shows "safe (run_call malloc c s) (\<lambda>(r, s'). ready (owned_after c r s ext) s')"
proof -
  have calm: "calm (frames_claims (rc_frames s) + ext) (rc_heap s)" using assms(1) by (simp add: ready_def)
  from assms(3) obtain v where "c = Retain v \<or> c = Release v" by auto
  then show ?thesis
  proof
    assume "c = Retain v"
    with assms(2) retain_calm [OF calm] show ?thesis by (auto intro!: on_heap_call)
  next
    assume c: "c = Release v"
    with assms(2) calm have "calm (add_mset v (frames_claims (rc_frames s) + (ext - {#v#}))) (rc_heap s)"
      by (intro owned_calm) simp_all
    from release_calm [OF this] c show ?thesis by (auto intro!: on_heap_call)
  qed
qed

lemma list_call_safe:
  assumes "ready ext s" "allowed c ext s"
    and "\<exists>p v i. c \<in> {List_References p, List_Add p v, List_Add_Take p v, List_Set p i v, List_Set_Take p i v}"
  shows "safe (run_call malloc c s) (\<lambda>(r, s'). ready (owned_after c r s ext) s')"
proof -
  let ?h = "rc_heap s" and ?M = "frames_claims (rc_frames s)"
  have calm: "calm (?M + ext) ?h" using assms(1) by (simp add: ready_def)
  have taken: "calm (add_mset v (?M + (ext - {#v#}))) ?h" if "owned v ext ?h" for v
    using that calm by (rule owned_calm)
  from assms(3) obtain p v i where
    "c \<in> {List_References p, List_Add p v, List_Add_Take p v, List_Set p i v, List_Set_Take p i v}" by blast
  moreover from this assms(2) have "is_list p ?h" by auto
  then obtain k l where kl: "contents ?h p = Some k" "list_of k = Inr l" "elements p ?h = list_values l"
      "is_references p ?h = counts_elements k"
    by (rule is_listE)
  ultimately consider "c = List_References p" "list_values l = []"
    | "c = List_Add p v" "counts_elements k \<Longrightarrow> live v ?h"
    | "c = List_Add_Take p v" "counts_elements k \<Longrightarrow> owned v ext ?h"
    | "c = List_Set p i v" "counts_elements k \<Longrightarrow> live v ?h" "signed64 i"
    | "c = List_Set_Take p i v" "counts_elements k \<Longrightarrow> owned v ext ?h" "signed64 i"
    using assms(2) by auto
  then show ?thesis
  proof cases
    case 1
    with list_references_calm [OF calm kl(1,2)] show ?thesis by (auto intro!: on_heap_call)
  next
    case 2
    from on_heap_call [of "minyar_list_add p v" s ext, OF list_add_calm [OF calm kl(1,2) 2(2)]] 2(1)
    show ?thesis by simp
  next
    case 3
    let ?ext = "if counts_elements k then ext - {#v#} else ext"
    have "calm (if counts_elements k then add_mset v (?M + ?ext) else ?M + ?ext) ?h"
      using calm 3 taken by simp
    from on_heap_call [of "minyar_list_add_take p v" s ?ext, OF list_add_take_calm [OF this kl(1,2)]] 3 kl(4) show ?thesis by simp
  next
    case 4
    have "calm (if counts_elements k \<and> \<not> True then add_mset v (?M + ext) else ?M + ext) ?h" using calm by simp
    from on_heap_call [of "minyar_list_set_owned p i v True" s ext, OF list_set_owned_calm [OF this kl(1,2), where position = i]] 4 show ?thesis
      by (simp add: minyar_list_set_def [abs_def] signed64_def)
  next
    case 5
    let ?ext = "if counts_elements k then ext - {#v#} else ext"
    have "calm (if counts_elements k \<and> \<not> False then add_mset v (?M + ?ext) else ?M + ?ext) ?h"
      using calm 5 taken by simp
    from on_heap_call [of "minyar_list_set_owned p i v False" s ?ext, OF list_set_owned_calm [OF this kl(1,2), where position = i]] 5 kl(4) show ?thesis
      by (simp add: minyar_list_set_take_def [abs_def] signed64_def)
  qed
qed

lemma appended_call_safe:
  assumes "ready ext s" "fresh malloc" "allowed c ext s" and c: "c = List_Appended p v references take_value"
  shows "safe (run_call malloc c s) (\<lambda>(r, s'). ready (owned_after c r s ext) s')"
proof -
  let ?h = "rc_heap s" and ?M = "frames_claims (rc_frames s)"
  let ?ext = "if references \<and> take_value then ext - {#v#} else ext"
  have calm: "calm (?M + ext) ?h" using assms(1) by (simp add: ready_def)
  have "is_list p ?h" using assms(3) by (simp add: c)
  then obtain k l where kl: "contents ?h p = Some k" "list_of k = Inr l" "elements p ?h = list_values l"
    by (rule is_listE)
  have "calm (if references \<and> take_value then add_mset v (?M + ?ext) else ?M + ?ext) ?h"
    using calm assms(3) owned_calm [of v ext ?h ?M] by (auto simp: c)
  note appended = list_appended_calm [OF this assms(2) kl(1,2)]
  show ?thesis unfolding c run_call.simps owned_after.simps
    by (rule with_result_call, rule appended) (use assms(3) kl(3) in \<open>auto simp: c list_all_iff split: if_splits\<close>)
qed

lemma record_call_safe:
  assumes "ready ext s" "allowed c ext s"
    and "\<exists>p v i. c \<in> {Record_Set p i v, Record_Set_Scalar p i v, Record_Set_Take p i v, Record_Set_Reference p i v}"
  shows "safe (run_call malloc c s) (\<lambda>(r, s'). ready (owned_after c r s ext) s')"
proof -
  let ?h = "rc_heap s" and ?M = "frames_claims (rc_frames s)"
  have calm: "calm (?M + ext) ?h" using assms(1) by (simp add: ready_def)
  have plain: "safe (minyar_record_set p i v ?h) (\<lambda>h. calm (?M + ext) h \<and> True)" if "plain_field p i ?h" for p i v
  proof -
    from that obtain k slots where "contents ?h p = Some k" "slots_of k = Inr slots" "\<not> is_marked k (nat i)"
      by (auto simp: plain_field_def split: option.splits content.splits)
    with that record_set_calm [OF calm, of p k slots i v] show ?thesis
      by (auto simp: plain_field_def signed64_def elim!: safe_mono)
  qed
  have marking: "\<exists>references slots. contents ?h p = Some (RC_RECORD references slots) \<and> \<not> references ! nat i"
    if "new_reference p i ?h" for p i
    using that by (auto simp: new_reference_def split: option.splits content.splits)
  from assms(3) obtain p v i where
    "c \<in> {Record_Set p i v, Record_Set_Scalar p i v, Record_Set_Take p i v, Record_Set_Reference p i v}" by blast
  then consider "c \<in> {Record_Set p i v, Record_Set_Scalar p i v}" | "c = Record_Set_Take p i v"
    | "c = Record_Set_Reference p i v" by blast
  then show ?thesis
  proof cases
    case 1
    with assms(2) plain [of p i v] show ?thesis by (auto intro!: on_heap_call [where Q = "\<lambda>_. True"] simp: record_set_scalar_eq)
  next
    case 2
    with assms(2) have "calm (add_mset v (?M + (ext - {#v#}))) ?h" using calm by (intro owned_calm) simp_all
    moreover obtain references slots where
      "contents ?h p = Some (RC_RECORD references slots)" "\<not> references ! nat i"
      using assms(2) 2 marking [of p i] by auto
    ultimately show ?thesis
      using on_heap_call [of "minyar_record_set_take p i v" s "ext - {#v#}", OF record_set_take_calm [of v "?M + (ext - {#v#})" ?h p references slots i]] assms(2) 2
      by (simp add: new_reference_def signed64_def)
  next
    case 3
    moreover obtain references slots where
      "contents ?h p = Some (RC_RECORD references slots)" "\<not> references ! nat i"
      using assms(2) 3 marking [of p i] by auto
    ultimately show ?thesis
      using on_heap_call [of "minyar_record_set_reference p i v" s ext, OF record_set_reference_calm [OF calm, of p references slots i v]] assms(2)
      by (simp add: new_reference_def signed64_def)
  qed
qed

lemma call_safe:
  assumes "ready ext s" "fresh malloc" "allowed c ext s"
  shows "safe (run_call malloc c s) (\<lambda>(r, s'). ready (owned_after c r s ext) s')"
proof (cases c)
  case (List_Appended p v references take_value)
  with appended_call_safe [OF assms] show ?thesis by blast
qed ((rule frame_call_safe [OF assms(1,3)], (simp; fail)) | (rule new_call_safe [OF assms], (simp; fail)) |
     (rule count_call_safe [OF assms(1,3)], (simp; fail)) | (rule list_call_safe [OF assms(1,3)], (simp; fail)) |
     (rule record_call_safe [OF assms(1,3)], (simp; fail)))+

section \<open>Programs\<close>

text \<open>
  A program starts with its immortal literals and no frame, and makes any allowed call. The multiset is
  what it holds outside frames and objects.
\<close>

definition initial :: "rc_state \<Rightarrow> bool" where
  "initial s \<longleftrightarrow> rc_frames s = [] \<and> rc_pending (rc_heap s) = [] \<and> fmlookup (objects (rc_heap s)) 0 = None \<and>
     (\<forall>a\<in>fmdom' (objects (rc_heap s)). fmlookup (objects (rc_heap s)) a = Some \<lparr>holders = 0, content = RC_TEXT 0\<rparr>)"

inductive runs_to :: "host \<Rightarrow> rc_state \<Rightarrow> ptr multiset \<Rightarrow> rc_state \<Rightarrow> bool" for malloc start where
  begins: "runs_to malloc start {#} start"
| calls: "runs_to malloc start ext s \<Longrightarrow> allowed c ext s \<Longrightarrow> run_call malloc c s = Inr (r, s') \<Longrightarrow>
    runs_to malloc start (owned_after c r s ext) s'"

lemma initial_ready:
  assumes "initial s"
  shows "ready {#} s"
proof -
  let ?m = "objects (rc_heap s)"
  have literal: "fmlookup ?m a = Some object \<Longrightarrow> object = \<lparr>holders = 0, content = RC_TEXT 0\<rparr>" for a object
    using assms unfolding initial_def by (metis fmdom'I option.inject)
  have "x = 0" if "x \<in># object_claims {} ?m" for x
    using that by (auto simp: in_object_claims dest!: literal)
  moreover have "counted {} (object_claims {} ?m) ?m"
    using assms unfolding counted_def initial_def by (auto simp: object_ok_def ownership_def dest: literal)
  ultimately show ?thesis
    using assms unfolding ready_def calm_def rc_inv_def claims_def
    by (auto simp: initial_def within_def queued_def)
qed

lemma runs_ready: "runs_to malloc start ext s \<Longrightarrow> fresh malloc \<Longrightarrow> initial start \<Longrightarrow> ready ext s"
proof (induction rule: runs_to.induct)
  case begins
  then show ?case by (simp add: initial_ready)
next
  case (calls ext s c r s')
  then have "safe (run_call malloc c s) (\<lambda>(r, s'). ready (owned_after c r s ext) s')" by (intro call_safe) simp_all
  with calls.hyps(3) show ?case by simp
qed

end
