(* ===== verification/Rc_Program.thy ===== *)
theory Rc_Program
  imports Rc_Calls
begin

text \<open>
  What every program that respects ownership can rely on: no call of it touches freed memory, every count
  is exact, releasing destroys what is out of reach and nothing else, and nothing is left at the end
  but literals and cycles.
\<close>

section \<open>A program to run\<close>

text \<open>Running a list of calls, each with the pointers the program knows by then.\<close>

fun run_calls :: "host \<Rightarrow> rc_call list \<Rightarrow> ptr multiset \<Rightarrow> rc_state \<Rightarrow> (ptr multiset \<times> rc_state) option" where
  "run_calls malloc [] ext s = Some (ext, s)"
| "run_calls malloc (c # cs) ext s =
     (if allowed c ext s then
        (case run_call malloc c s of
           Inl _ \<Rightarrow> None
         | Inr (r, s') \<Rightarrow> run_calls malloc cs (owned_after c r s ext) s')
      else None)"

lemma run_calls_runs:
  "runs_to malloc start ext s \<Longrightarrow> run_calls malloc cs ext s = Some (ext', s') \<Longrightarrow> runs_to malloc start ext' s'"
proof (induction cs arbitrary: ext s)
  case (Cons c cs)
  from Cons.prems(2) obtain r s1 where step: "allowed c ext s" "run_call malloc c s = Inr (r, s1)"
      "run_calls malloc cs (owned_after c r s ext) s1 = Some (ext', s')"
    by (auto split: if_splits sum.splits)
  then show ?case using Cons.IH runs_to.calls [OF Cons.prems(1)] by blast
qed simp

text \<open>A host with six addresses, and a program: a list of one text, kept in a local.\<close>

definition small_host :: host where
  "small_host m = find (\<lambda>a. fmlookup m a = None) [8, 16, 24, 32, 40, 48]"

lemma small_host_fresh: "fresh small_host"
  by (auto simp: fresh_def small_host_def find_Some_iff nth_Cons split: nat.splits)

definition sample_start :: rc_state where
  "sample_start = \<lparr>rc_heap = \<lparr>objects = fmupd 64 \<lparr>holders = 0, content = RC_TEXT 0\<rparr> fmempty, rc_pending = [],
     rc_pending_capacity = 0\<rparr>, rc_frames = [], rc_free_frames = []\<rparr>"

definition sample_calls :: "rc_call list" where
  "sample_calls = [Enter 1, List_New, List_References 8, Text_New, List_Add_Take 8 16, List_Add 8 64, Text_View 16,
     Keep 24, Local_Take 0 8]"


lemmas sample_run_simps = no_result_def with_result_def on_heap_def small_host_def
  owned_def uncounted_def live_def contents_def is_list_def elements_def list_at_def object_at_def is_references_def
  in_frame_def minyar_rc_enter_def minyar_rc_leave_def minyar_rc_step_def minyar_rc_keep_def
  minyar_rc_local_take_def minyar_rc_local_move_def minyar_rc_retain_def minyar_rc_release_def rc_drop.simps
  rc_drain.simps push_pending_def rc_free_def ownership_def rc_allocate_object_def minyar_list_new_def
  minyar_list_references_def minyar_list_add_def minyar_list_add_take_def make_room_def append_value_def put_list_def
  put_content_def list_grow_def LARGE_LIST_CAPACITY_def LLONG_MAX_def text_object_def text_view_def fmdrop_fmupd
  sample_calls_def sample_start_def Let_def

lemma sample_initial: "initial sample_start"
  by (auto simp: initial_def sample_start_def)

text \<open>After the sample calls the list is in the local, the view in a temporary, and nothing else is held.\<close>

definition sample_state :: rc_state where
  "sample_state = (case run_calls small_host sample_calls {#} sample_start of Some (ext, s) \<Rightarrow> s | None \<Rightarrow> sample_start)"

lemma sample_result:
  "run_calls small_host sample_calls {#} sample_start = Some ({#}, sample_state)"
  "objects (rc_heap sample_state) = fmap_of_list
     [(16, \<lparr>holders = 2, content = RC_TEXT 0\<rparr>), (24, \<lparr>holders = 1, content = RC_TEXT 16\<rparr>),
      (8, \<lparr>holders = 1, content = RC_REFERENCES \<lparr>list_values = [16, 64], list_capacity = 2\<rparr>\<rparr>),
      (64, \<lparr>holders = 0, content = RC_TEXT 0\<rparr>)]"
  by (simp_all add: sample_state_def sample_run_simps fmap_ext)

lemma sample_frames: "rc_frames sample_state = [\<lparr>frame_locals = [8], local_capacity = 1, frame_temporaries = [24], temporary_capacity = 8\<rparr>]"
  by (simp add: sample_state_def sample_run_simps)

lemma sample_runs: "runs_to small_host sample_start {#} sample_state"
  using run_calls_runs [OF runs_to.begins sample_result(1)] .

section \<open>Safety\<close>

text \<open>
  C32. Whatever allowed calls a program has made, no call it is then allowed to make reads or writes an object
  that is not there, an object of another kind, or memory outside an object: it returns or stops
  with a message.
\<close>

theorem program_never_faults:
  assumes "fresh malloc" "initial start" "runs_to malloc start ext s" "allowed c ext s"
  shows "run_call malloc c s \<noteq> Inl Undefined"
  using call_safe [OF runs_ready [OF assms(3,1,2)] assms(1,4)] by (auto simp: safe_def)

theorem program_never_faults_witness: "run_call small_host Leave sample_state \<noteq> Inl Undefined"
  by (rule program_never_faults [OF small_host_fresh sample_initial sample_runs]) (simp add: sample_frames)

text \<open>
  C33. In every state a program reaches, each count that is not zero is the number of claims on the object:
  those the program holds outside the heap, those of the locals and temporaries of its frames, and
  those of the objects. Every claim leads to an object that exists.
\<close>

theorem counts_exact:
  assumes "fresh malloc" "initial start" "runs_to malloc start ext s"
  defines "all \<equiv> ext + frames_claims (rc_frames s) + object_claims {} (objects (rc_heap s))"
  shows "(\<forall>a object. fmlookup (objects (rc_heap s)) a = Some object \<longrightarrow> holders object > 0 \<longrightarrow> holders object = count all a) \<and>
    (\<forall>a\<in>#all. a \<noteq> 0 \<longrightarrow> fmlookup (objects (rc_heap s)) a \<noteq> None)"
proof -
  have inv: "rc_inv {} (frames_claims (rc_frames s) + ext) (rc_heap s)"
    using runs_ready [OF assms(3,1,2)] by (simp add: ready_def calm_def)
  have all: "claims {} (frames_claims (rc_frames s) + ext) (rc_heap s) = all"
    by (simp add: claims_def all_def ac_simps)
  show ?thesis
    using invD [OF inv] claimed_live [OF inv] by (auto simp: all object_ok_def fmlookup_dom'_iff)
qed

theorem counts_exact_witness:
  "\<exists>s. runs_to small_host sample_start {#} s \<and>
    (\<forall>a object. fmlookup (objects (rc_heap s)) a = Some object \<longrightarrow> holders object > 0 \<longrightarrow>
      holders object = count (frames_claims (rc_frames s) + object_claims {} (objects (rc_heap s))) a)"
  using counts_exact [OF small_host_fresh sample_initial sample_runs] sample_runs by auto

text \<open>
  C34. Every object in a reachable state is well formed: a list's length is at most its capacity, which is at most
  2^61-1, a record's map is as long as its fields, and count and kind fit the header word. No other
  value is ever a header: the growth of a list never leaves the signed range and a count never wraps.
\<close>

theorem objects_well_formed:
  assumes "fresh malloc" "initial start" "runs_to malloc start ext s" "fmlookup (objects (rc_heap s)) a = Some object"
  shows "well_formed (content object) \<and> ownership object \<le> SIZE_LIMIT \<and> a \<noteq> 0"
proof -
  have inv: "rc_inv {} (frames_claims (rc_frames s) + ext) (rc_heap s)"
    using runs_ready [OF assms(3,1,2)] by (simp add: ready_def calm_def)
  from invD [OF inv assms(4)] show ?thesis by (simp add: object_ok_def)
qed

theorem objects_well_formed_witness:
  "\<exists>object. fmlookup (objects (rc_heap sample_state)) 8 = Some object \<and> well_formed (content object)"
proof -
  have "fmlookup (objects (rc_heap sample_state)) 8 =
      Some \<lparr>holders = 1, content = RC_REFERENCES \<lparr>list_values = [16, 64], list_capacity = 2\<rparr>\<rparr>"
    by (simp add: sample_result fmlookup_of_list)
  with objects_well_formed [OF small_host_fresh sample_initial sample_runs this] show ?thesis by blast
qed

section \<open>What is destroyed\<close>

text \<open>
  C35. Releasing a claim, in a state a program reaches and where objects do not hold each other in a cycle,
  leaves exactly the objects that the remaining claims or an immortal object reach, with their
  contents as they were.
\<close>

theorem release_destroys_exactly:
  assumes "fresh malloc" "initial start" "runs_to malloc start ext s" "v \<in># ext" "acyclic (holds_ref (rc_heap s))"
    and "minyar_rc_release v (rc_heap s) = Inr h"
  shows "fmdom' (objects h) =
      fmdom' (objects (rc_heap s)) \<inter> reachable (frames_claims (rc_frames s) + (ext - {#v#})) (rc_heap s) \<and>
    (\<forall>a\<in>fmdom' (objects h). map_option content (fmlookup (objects h) a) =
      map_option content (fmlookup (objects (rc_heap s)) a))"
proof -
  have "add_mset v (frames_claims (rc_frames s) + (ext - {#v#})) = frames_claims (rc_frames s) + ext"
    using assms(4) by (metis insert_DiffM union_mset_add_mset_right)
  moreover have "rc_inv {} (frames_claims (rc_frames s) + ext) (rc_heap s)"
    using runs_ready [OF assms(3,1,2)] by (simp add: ready_def calm_def)
  ultimately have "rc_inv {} (add_mset v (frames_claims (rc_frames s) + (ext - {#v#}))) (rc_heap s)"
    by (simp only:)
  from release_exact [OF this assms(5)] assms(6) show ?thesis by simp
qed

definition held_list :: rc_state where
  "held_list = (case run_calls small_host [Enter 1, List_New, List_References 8, Text_New, List_Add_Take 8 16] {#} sample_start
     of Some (ext, s) \<Rightarrow> s | None \<Rightarrow> sample_start)"

lemma held_list_run:
  "run_calls small_host [Enter 1, List_New, List_References 8, Text_New, List_Add_Take 8 16] {#} sample_start =
    Some ({#8#}, held_list)"
  "rc_heap held_list = \<lparr>objects = fmap_of_list
     [(8, \<lparr>holders = 1, content = RC_REFERENCES \<lparr>list_values = [16], list_capacity = 2\<rparr>\<rparr>),
      (16, \<lparr>holders = 1, content = RC_TEXT 0\<rparr>), (64, \<lparr>holders = 0, content = RC_TEXT 0\<rparr>)],
     rc_pending = [], rc_pending_capacity = 0\<rparr>"
  by (simp_all add: held_list_def sample_run_simps fmap_ext)

lemma held_list_runs: "runs_to small_host sample_start {#8#} held_list"
  using run_calls_runs [OF runs_to.begins held_list_run(1)] .

lemma acyclic_none: "acyclic ({} :: ('a \<times> 'a) set)"
  by (simp add: acyclic_def)

lemma held_list_acyclic: "acyclic (holds_ref (rc_heap held_list))"
proof (rule acyclic_subset)
  show "acyclic {(8 :: ptr, 16)}" by (simp add: acyclic_insert acyclic_none)
  show "holds_ref (rc_heap held_list) \<subseteq> {(8, 16)}"
    by (auto simp: holds_ref_def held_list_run(2) fmlookup_of_list split: if_splits)
qed

theorem release_destroys_exactly_witness:
  "\<exists>h. minyar_rc_release 8 (rc_heap held_list) = Inr h \<and> fmdom' (objects h) = {64} \<and>
     fmdom' (objects h) = fmdom' (objects (rc_heap held_list)) \<inter>
       reachable (frames_claims (rc_frames held_list)) (rc_heap held_list)"
proof -
  obtain h where h: "minyar_rc_release 8 (rc_heap held_list) = Inr h" "fmdom' (objects h) = {64}"
    by (auto simp: held_list_def sample_run_simps)
  from release_destroys_exactly [OF small_host_fresh sample_initial held_list_runs _ held_list_acyclic h(1)] h
  show ?thesis by auto
qed

text \<open>
  C36. A program that ends with no frame and no claim of its own has leaked nothing: unless objects hold each
  other in a cycle, all that is left are the immortal literals it started with.
\<close>

theorem nothing_leaks:
  assumes "fresh malloc" "initial start" "runs_to malloc start {#} s" "rc_frames s = []"
    and "acyclic (holds_ref (rc_heap s))" and object: "fmlookup (objects (rc_heap s)) a = Some object"
  shows "object = \<lparr>holders = 0, content = RC_TEXT 0\<rparr>"
proof -
  let ?h = "rc_heap s"
  have inv: "rc_inv {} {#} ?h" and pending: "rc_pending ?h = []"
    using runs_ready [OF assms(3,1,2)] assms(4) by (simp_all add: ready_def calm_def)
  obtain r where r: "r \<in> immortal {} ?h" and reach: "(r, a) \<in> (holds_ref ?h)\<^sup>*"
    using survivor_reachable [OF inv kept_refl pending assms(5)] object by (auto intro: fmdom'I)
  then obtain root where root: "fmlookup (objects ?h) r = Some root" "root = \<lparr>holders = 0, content = RC_TEXT 0\<rparr>"
    using invD [OF inv] pending by (auto simp: immortal_def object_ok_def)
  from reach have "r = a"
    by (cases rule: converse_rtranclE) (use root in \<open>auto simp: holds_ref_def\<close>)
  with root object show ?thesis by simp
qed

theorem nothing_leaks_witness:
  "\<exists>s. runs_to small_host sample_start {#} s \<and> rc_frames s = [] \<and>
    (\<forall>a object. fmlookup (objects (rc_heap s)) a = Some object \<longrightarrow> object = \<lparr>holders = 0, content = RC_TEXT 0\<rparr>)"
proof -
  obtain s where s: "run_calls small_host (sample_calls @ [Leave]) {#} sample_start = Some ({#}, s)"
      "rc_frames s = []" "objects (rc_heap s) = fmupd 64 \<lparr>holders = 0, content = RC_TEXT 0\<rparr> fmempty"
    by (simp add: sample_run_simps)
  have runs: "runs_to small_host sample_start {#} s" using run_calls_runs [OF runs_to.begins s(1)] .
  have "holds_ref (rc_heap s) = {}" by (auto simp: holds_ref_def s(3) split: if_splits)
  then have "acyclic (holds_ref (rc_heap s))" by (simp add: acyclic_none)
  with nothing_leaks [OF small_host_fresh sample_initial runs s(2)] runs s(2) show ?thesis by blast
qed

section \<open>Lists are sequences\<close>

lemma elements_contents: "contents h p = Some c \<Longrightarrow> list_of c = Inr l \<Longrightarrow> elements p h = list_values l"
  by (simp add: elements_def list_at_contents)

lemma relisted_elements:
  assumes "relisted h p c vs h'" "list_of c = Inr l"
  shows "elements p h' = vs" and "q \<noteq> p \<Longrightarrow> contents h' q = contents h q"
proof -
  obtain l' where l': "contents h' = (contents h)(p \<mapsto> with_list c l')" "list_values l' = vs"
    using assms(1) by (rule relisted_contents)
  then show "elements p h' = vs" using elements_contents [of h' p "with_list c l'" l'] assms(2) by simp
  show "q \<noteq> p \<Longrightarrow> contents h' q = contents h q" using l' by simp
qed

text \<open>
  C37. On a list, in a state a program reaches: the length is that of its sequence of elements, reading a
  position gives the element or stops with a message exactly when the position is outside, adding puts the value
  at the end, storing replaces one element, and appending gives a new list of the elements and the
  value. No other object's contents change.
\<close>

theorem lists_are_sequences:
  assumes "fresh malloc" "initial start" "runs_to malloc start ext s" "is_list p (rc_heap s)"
  defines "h \<equiv> rc_heap s" and "xs \<equiv> elements p (rc_heap s)"
  shows "minyar_list_length p h = Inr (int (length xs)) \<and>
    (\<forall>i. signed64 i \<longrightarrow> minyar_list_get p i h =
      (if 0 \<le> i \<and> i < int (length xs) then Inr (xs ! nat i) else list_position_stop i (int (length xs)))) \<and>
    (\<forall>v h'. allowed (List_Add p v) ext s \<and> minyar_list_add p v h = Inr h' \<longrightarrow>
      elements p h' = xs @ [v] \<and> (\<forall>q. q \<noteq> p \<longrightarrow> contents h' q = contents h q)) \<and>
    (\<forall>v i h'. allowed (List_Set p i v) ext s \<and> minyar_list_set p i v h = Inr h' \<and> is_list p h' \<longrightarrow>
      elements p h' = xs[nat i := v] \<and> (\<forall>q c. q \<noteq> p \<and> contents h' q = Some c \<longrightarrow> contents h q = Some c)) \<and>
    (\<forall>v references take_value r h'. allowed (List_Appended p v references take_value) ext s \<and>
      minyar_list_appended malloc p v references take_value h = Inr (r, h') \<longrightarrow>
      contents h r = None \<and> elements r h' = xs @ [v] \<and> (\<forall>q. q \<noteq> r \<longrightarrow> contents h' q = contents h q))"
proof -
  let ?M = "frames_claims (rc_frames s) + ext"
  have calm: "calm ?M h" using runs_ready [OF assms(3,1,2)] by (simp add: ready_def h_def)
  obtain c l where c: "contents h p = Some c" and l: "list_of c = Inr l" and xs: "xs = list_values l"
      and counts: "is_references p h = counts_elements c"
    using assms(4) unfolding h_def xs_def by (rule is_listE)
  have bound: "int (length xs) < 2 ^ 63" using list_length_bound [OF calm c l] by (simp add: xs)
  have "minyar_list_length p h = Inr (int (length xs))"
    by (simp add: minyar_list_length_def list_at_contents [OF c] l xs)
  moreover have "minyar_list_get p i h =
      (if 0 \<le> i \<and> i < int (length xs) then Inr (xs ! nat i) else list_position_stop i (int (length xs)))"
    if "signed64 i" for i
    using that outside_iff [of i xs] bound by (auto simp: minyar_list_get_def list_at_contents [OF c] l xs signed64_def)
  moreover have "elements p h' = xs @ [v] \<and> (\<forall>q. q \<noteq> p \<longrightarrow> contents h' q = contents h q)"
    if "allowed (List_Add p v) ext s" "minyar_list_add p v h = Inr h'" for v h'
    using list_add_calm [OF calm c l, of v] that counts relisted_elements [OF _ l] by (auto simp: xs h_def [symmetric])
  moreover have "elements p h' = xs[nat i := v] \<and> (\<forall>q c. q \<noteq> p \<and> contents h' q = Some c \<longrightarrow> contents h q = Some c)"
    if set: "allowed (List_Set p i v) ext s" "minyar_list_set p i v h = Inr h'" "is_list p h'" for v i h'
  proof -
    have "calm (if counts_elements c \<and> \<not> True then add_mset v ?M else ?M) h" using calm by simp
    from list_set_owned_calm [OF this c l, of i] set(1,2) counts
    obtain h1 where h1: "relisted h p c (xs[nat i := v]) h1" "contents h' \<subseteq>\<^sub>m contents h1"
      by (auto simp: minyar_list_set_def signed64_def xs h_def [symmetric])
    have same: "contents h' q = Some d \<Longrightarrow> contents h1 q = Some d" for q d
      using h1(2) by (metis domI map_le_def)
    obtain d k where "contents h' p = Some d" "list_of d = Inr k" using set(3) by (rule is_listE)
    with same [of p d] have "elements p h' = elements p h1" by (simp add: elements_contents)
    with relisted_elements(1) [OF h1(1) l] have "elements p h' = xs[nat i := v]" by simp
    moreover have "contents h q = Some c'" if "q \<noteq> p" "contents h' q = Some c'" for q c'
      using relisted_elements(2) [OF h1(1) l that(1)] same [OF that(2)] by simp
    ultimately show ?thesis by blast
  qed
  moreover have "contents h r = None \<and> elements r h' = xs @ [v] \<and> (\<forall>q. q \<noteq> r \<longrightarrow> contents h' q = contents h q)"
    if new: "allowed (List_Appended p v references take_value) ext s"
      "minyar_list_appended malloc p v references take_value h = Inr (r, h')" for v references take_value r h'
  proof -
    have "calm (if references \<and> take_value then add_mset v (if references \<and> take_value then
        frames_claims (rc_frames s) + (ext - {#v#}) else ?M) else ?M) h"
      using calm new(1) owned_calm [of v ext h "frames_claims (rc_frames s)"] by (auto simp: h_def)
    from list_appended_calm [OF _ assms(1) c l, of references take_value v] this new xs
    obtain l' where "contents h r = None" "list_values l' = xs @ [v]"
        "contents h' = (contents h)(r \<mapsto> (if references then RC_REFERENCES l' else RC_LIST l'))"
      by (auto simp: xs_def h_def list_all_iff split: if_splits)
    then show ?thesis using elements_contents [of h' r _ l'] by (auto split: if_splits)
  qed
  ultimately show ?thesis by blast
qed

theorem lists_are_sequences_witness:
  "minyar_list_length 8 (rc_heap sample_state) = Inr 2 \<and> minyar_list_get 8 1 (rc_heap sample_state) = Inr 64"
proof -
  have "is_list 8 (rc_heap sample_state)" "elements 8 (rc_heap sample_state) = [16, 64]"
    by (simp_all add: is_list_def elements_def list_at_def object_at_def sample_result fmlookup_of_list)
  with lists_are_sequences [OF small_host_fresh sample_initial sample_runs, of 8] show ?thesis
    by (auto simp: signed64_def)
qed

end
