(* ===== verification/Module_Cache.thy ===== *)
theory Module_Cache
  imports Text_Index Text_Build
begin

text \<open>
  The incremental build driver's cache files (\<open>tools/module-build.c\<close>, \<open>artifact_hash\<close> to \<open>publish_cache\<close>).
  A cache file is five fields: a magic word, the identity of the compiler, the entry point, a checksum
  of the state, and the state. A field is the decimal number of its UTF-8 characters, a newline, and
  its bytes. Byte strings are lists; a cursor is the list still to read; a C string is a list without
  its terminator.
\<close>

section \<open>The checksum\<close>

definition p1 :: "64 word" where "p1 = 11400714785074694791"
definition p2 :: "64 word" where "p2 = 14029467366897019727"
definition p3 :: "64 word" where "p3 = 1609587929392839161"
definition p4 :: "64 word" where "p4 = 9650029242287828579"
definition p5 :: "64 word" where "p5 = 2870177450012600261"

definition rol :: "64 word \<Rightarrow> nat \<Rightarrow> 64 word" where
  "rol x n = push_bit n x OR drop_bit (64 - n) x"

definition little :: "byte list \<Rightarrow> nat \<Rightarrow> 64 word" where
  "little s n = foldl (\<lambda>v i. v OR push_bit (8 * i) (ucast (s ! i))) 0 [0..<n]"

definition round64 :: "64 word \<Rightarrow> 64 word \<Rightarrow> 64 word" where
  "round64 a v = rol (a + v * p2) 31 * p1"

text \<open>The loop over 32-byte stripes; it is entered with one at least.\<close>

function hash_stripes ::
    "64 word \<times> 64 word \<times> 64 word \<times> 64 word \<Rightarrow> byte list \<Rightarrow> (64 word \<times> 64 word \<times> 64 word \<times> 64 word) \<times> byte list" where
  "hash_stripes (a, b, c, d) s =
     (if length s \<ge> 32 then
        hash_stripes (round64 a (little s 8), round64 b (little (drop 8 s) 8), round64 c (little (drop 16 s) 8),
          round64 d (little (drop 24 s) 8)) (drop 32 s)
      else ((a, b, c, d), s))"
  by pat_completeness auto
termination
  by (relation "measure (\<lambda>(_, s). length s)") auto

declare hash_stripes.simps [simp del]

function hash_words :: "64 word \<Rightarrow> byte list \<Rightarrow> 64 word \<times> byte list" where
  "hash_words h s =
     (if length s \<ge> 8 then hash_words (rol (h XOR round64 0 (little s 8)) 27 * p1 + p4) (drop 8 s) else (h, s))"
  by pat_completeness auto
termination
  by (relation "measure (\<lambda>(_, s). length s)") auto

declare hash_words.simps [simp del]

fun hash_bytes :: "64 word \<Rightarrow> byte list \<Rightarrow> 64 word" where
  "hash_bytes h [] = h"
| "hash_bytes h (b # s) = hash_bytes (rol (h XOR (ucast b * p5)) 11 * p1) s"

definition hash_start :: "byte list \<Rightarrow> 64 word \<times> byte list" where
  "hash_start s =
     (if length s \<ge> 32 then
        (let ((a, b, c, d), s) = hash_stripes (p1 + p2, p2, 0, 0 - p1) s;
             h = rol a 1 + rol b 7 + rol c 12 + rol d 18 in
         (foldl (\<lambda>h v. (h XOR round64 0 v) * p1 + p4) h [a, b, c, d], s))
      else (p5, s))"

definition artifact_hash :: "byte list \<Rightarrow> 64 word" where
  "artifact_hash s =
     (let (h, rest) = hash_start s;
          h = h + of_nat (length s);
          (h, rest) = hash_words h rest;
          (h, rest) = (if length rest \<ge> 4 then (rol (h XOR (little rest 4 * p1)) 23 * p2 + p3, drop 4 rest) else (h, rest));
          h = hash_bytes h rest;
          h = (h XOR drop_bit 33 h) * p2;
          h = (h XOR drop_bit 29 h) * p3 in
      h XOR drop_bit 32 h)"

definition checksum_self_test :: bool where
  "checksum_self_test \<longleftrightarrow> \<not> (artifact_hash [] \<noteq> 0xef46db3751d8e999 \<or> artifact_hash [0x61] \<noteq> 0xd24ec4f1a98c6e5b \<or>
     artifact_hash [0x61, 0x62, 0x63] \<noteq> 0x44bc2cf5ad770999)"

text \<open>\<open>"%016" PRIx64\<close> and the hexadecimal spelling of bytes.\<close>

definition hex_byte :: "nat \<Rightarrow> byte" where
  "hex_byte d = (if d < 10 then of_nat (48 + d) else of_nat (87 + d))"

definition hex16 :: "64 word \<Rightarrow> byte list" where
  "hex16 h = map (\<lambda>i. hex_byte (unat (drop_bit (60 - 4 * i) h AND 15))) [0..<16]"

definition hexadecimal :: "byte list \<Rightarrow> byte list" where
  "hexadecimal data = concat (map (\<lambda>b. [hex_byte (unat (drop_bit 4 b)), hex_byte (unat (b AND 15))]) data)"

section \<open>Fields\<close>

definition CACHE_LIMIT :: nat where
  "CACHE_LIMIT = 64 * 1024 * 1024"

definition character_count :: "byte list \<Rightarrow> nat" where
  "character_count s = length (filter (\<lambda>b. b AND 0xc0 \<noteq> 0x80) s)"

fun field_digits :: "byte list \<Rightarrow> nat \<Rightarrow> nat \<Rightarrow> (nat \<times> nat \<times> byte list) option" where
  "field_digits [] count digits = Some (count, digits, [])"
| "field_digits (b # s) count digits =
     (if 48 \<le> unat b \<and> unat b \<le> 57 then
        (if count > (CACHE_LIMIT - 9) div 10 then None
         else field_digits s (count * 10 + (unat b - 48)) (digits + 1))
      else Some (count, digits, b # s))"

text \<open>The width of the character at the head, where it is well formed.\<close>

definition lead_width :: "int \<Rightarrow> nat option" where
  "lead_width lead =
     (if lead < 0x80 then Some 1
      else if lead \<ge> 0xc2 \<and> lead \<le> 0xdf then Some 2
      else if lead \<ge> 0xe0 \<and> lead \<le> 0xef then Some 3
      else if lead \<ge> 0xf0 \<and> lead \<le> 0xf4 then Some 4
      else None)"

definition field_character :: "byte list \<Rightarrow> nat option" where
  "field_character s =
     (let lead = byte_at s 0 in
      case lead_width lead of
        None \<Rightarrow> None
      | Some width \<Rightarrow>
          if width > length s then None
          else if list_ex (\<lambda>j. byte_at s j AND 0xc0 \<noteq> 0x80) [1..<width] then None
          else if width = 3 \<and> (lead = 0xe0 \<and> byte_at s 1 < 0xa0 \<or> lead = 0xed \<and> byte_at s 1 \<ge> 0xa0) then None
          else if width = 4 \<and> (lead = 0xf0 \<and> byte_at s 1 < 0x90 \<or> lead = 0xf4 \<and> byte_at s 1 \<ge> 0x90) then None
          else Some width)"

text \<open>Sixteen ASCII characters at a time, while as many are left to read.\<close>

function skip_ascii :: "nat \<Rightarrow> byte list \<Rightarrow> nat \<times> byte list" where
  "skip_ascii count s =
     (if count \<ge> 16 \<and> length s \<ge> 16 \<and> little (drop 0 s) 8 AND 0x8080808080808080 = 0 \<and>
         little (drop 8 s) 8 AND 0x8080808080808080 = 0
      then skip_ascii (count - 16) (drop 16 s) else (count, s))"
  by pat_completeness auto
termination
  by (relation "measure fst") auto

declare skip_ascii.simps [simp del]

lemma skip_ascii_le: "fst (skip_ascii count s) \<le> count"
proof (induction count s rule: skip_ascii.induct)
  case (1 count s)
  then show ?case by (auto simp: skip_ascii.simps [of count s])
qed

function skip_characters :: "nat \<Rightarrow> byte list \<Rightarrow> byte list option" where
  "skip_characters count s =
     (if count = 0 then Some s
      else
        let (count, s) = skip_ascii count s in
        if count = 0 then Some s
        else if s = [] then None
        else
          case field_character s of
            None \<Rightarrow> None
          | Some width \<Rightarrow> skip_characters (count - 1) (drop width s))"
  by pat_completeness auto
termination
proof (relation "measure fst")
  fix n :: nat and s k t :: "byte list" and pair :: "nat \<times> byte list" and m width
  assume "n \<noteq> 0" "pair = skip_ascii n s" "(m, t) = pair" "m \<noteq> 0"
  with skip_ascii_le [of n s] show "((m - 1, drop width t), n, s) \<in> measure fst" by (cases "skip_ascii n s") auto
qed simp

declare skip_characters.simps [simp del]

definition field :: "byte list \<Rightarrow> (byte list \<times> byte list) option" where
  "field s =
     (case field_digits s 0 0 of
        None \<Rightarrow> None
      | Some (count, digits, t) \<Rightarrow>
          if digits = 0 \<or> t = [] \<or> hd t \<noteq> 10 then None
          else
            case skip_characters count (tl t) of
              None \<Rightarrow> None
            | Some rest \<Rightarrow> Some (take (length (tl t) - length rest) (tl t), rest))"

definition write_field :: "byte list \<Rightarrow> byte list" where
  "write_field data = ascii_bytes (decimal_nat (character_count data)) @ [10] @ data"

section \<open>Cache files\<close>

definition magic :: "byte list" where
  "magic = ascii_bytes ''minyar-local-cache-v1''"

fun fields :: "nat \<Rightarrow> byte list \<Rightarrow> (byte list list \<times> byte list) option" where
  "fields 0 s = Some ([], s)"
| "fields (Suc n) s =
     (case field s of
        None \<Rightarrow> None
      | Some (v, rest) \<Rightarrow>
          (case fields n rest of None \<Rightarrow> None | Some (vs, rest) \<Rightarrow> Some (v # vs, rest)))"

definition valid_cache :: "byte list \<Rightarrow> byte list \<Rightarrow> byte list \<Rightarrow> byte list option" where
  "valid_cache file identity entry =
     (case fields 5 file of
        None \<Rightarrow> None
      | Some (parts, rest) \<Rightarrow>
          if rest \<noteq> [] \<or> parts ! 0 \<noteq> magic \<or> parts ! 1 \<noteq> identity \<or> parts ! 2 \<noteq> entry then None
          else
            let expected = hex16 (artifact_hash (parts ! 4)) in
            if parts ! 3 \<noteq> expected then None else Some expected)"

definition publish_cache :: "byte list \<Rightarrow> byte list \<Rightarrow> byte list \<Rightarrow> byte list option" where
  "publish_cache identity entry state =
     (if length state + length identity + length entry + 160 > CACHE_LIMIT then None
      else Some (write_field magic @ write_field identity @ write_field entry @
        write_field (hex16 (artifact_hash state)) @ write_field state))"

text \<open>The identity of a compiler image under a limit on stack-owned values; zero is no limit.\<close>

definition compiler_identity :: "byte list \<Rightarrow> nat \<Rightarrow> byte list" where
  "compiler_identity compiler owner_limit =
     (if owner_limit \<noteq> 0
      then hexadecimal compiler @ ascii_bytes '':stack-owners-v1:'' @ ascii_bytes (decimal_nat owner_limit)
      else hexadecimal compiler)"

text \<open>\<open>owner_limit_for_budget\<close>, on the characters before the terminator.\<close>

fun budget_value :: "string \<Rightarrow> nat \<Rightarrow> nat option" where
  "budget_value [] v = Some v"
| "budget_value (c # cs) v =
     (if of_char c < (48 :: nat) \<or> of_char c > (57 :: nat) then None
      else budget_value cs (if v < 9 then min 9 (v * 10 + (of_char c - 48)) else v))"

definition owner_limit_for_budget :: "string \<Rightarrow> nat option" where
  "owner_limit_for_budget s =
     (if s = [] then None
      else case budget_value s 0 of
        None \<Rightarrow> None
      | Some v \<Rightarrow> if v = 0 then None else Some (v - 1))"

end
