(* ===== verification/Cache_Fields.thy ===== *)
theory Cache_Fields
  imports Module_Cache
begin

text \<open>
  The cache format: what a field parses, and that a published cache is accepted again by the same compiler for
  the same entry point and by no other.
\<close>

section \<open>Characters\<close>

lemma field_character_decode:
  assumes "s \<noteq> []"
  shows "field_character s = (case decode_character s of Inl _ \<Rightarrow> None | Inr (c, w) \<Rightarrow> Some w)"
proof -
  define b where "b i = byte_at s i" for i
  have continuation: "b i AND 0xc0 = 0x80 \<longleftrightarrow> 128 \<le> b i \<and> b i < 192" for i
    unfolding b_def by (rule high_mask) simp_all
  have upto: "[Suc 0..<2] = [1]" "[Suc 0..<3] = [1, 2]" "[Suc 0..<4] = [1, 2, 3]" by (simp_all add: upt_rec)
  note form = decode_character_form [of s] field_character_def [of s]
  consider "b 0 < 128" | "128 \<le> b 0" "b 0 < 194" | "194 \<le> b 0" "b 0 \<le> 223" | "224 \<le> b 0" "b 0 < 240" |
    "240 \<le> b 0" "b 0 \<le> 244" | "244 < b 0" by linarith
  then show ?thesis
  proof cases
    case 3
    with assms show ?thesis
      by (simp add: form lead_width_def b_def [symmetric] continuation upto Let_def invalid_utf8_def minyar_stop_def)
  next
    case 4
    with assms show ?thesis
      by (simp add: form lead_width_def b_def [symmetric] continuation upto Let_def invalid_utf8_def minyar_stop_def)
  next
    case 5
    with assms show ?thesis
      by (simp add: form lead_width_def b_def [symmetric] continuation upto Let_def invalid_utf8_def minyar_stop_def)
  qed (use assms in \<open>simp_all add: form lead_width_def b_def [symmetric] Let_def invalid_utf8_def minyar_stop_def\<close>)
qed

lemma bit_little:
  "n \<le> length s \<Longrightarrow> n \<le> 8 \<Longrightarrow> bit (little s n) k \<longleftrightarrow> k div 8 < n \<and> bit (s ! (k div 8)) (k mod 8)"
proof (induction n)
  case 0
  then show ?case by (simp add: little_def)
next
  case (Suc n)
  have "little s (Suc n) = little s n OR push_bit (8 * n) (ucast (s ! n))" by (simp add: little_def)
  moreover have "bit (push_bit (8 * n) (ucast (s ! n)) :: 64 word) k \<longleftrightarrow> k div 8 = n \<and> bit (s ! n) (k mod 8)"
  proof (cases "8 * n \<le> k \<and> k < 8 * n + 8")
    case True
    then have d: "k div 8 = n" by (simp add: div_nat_eqI)
    then have "k mod 8 = k - 8 * n" by (metis minus_mult_div_eq_mod)
    moreover have "k < 64" "k - 8 * n < 64" using True Suc.prems by linarith+
    ultimately show ?thesis using d True by (simp add: bit_simps)
  next
    case False
    then have "k div 8 \<noteq> n" using div_mult_mod_eq [of k 8] mod_less_divisor [of 8 k] by linarith
    moreover have "k < 8 * n \<or> \<not> bit (s ! n) (k - 8 * n)"
      using False bit_imp_le_length [of "s ! n" "k - 8 * n"] by auto
    ultimately show ?thesis by (auto simp: bit_simps)
  qed
  ultimately show ?case using Suc by (auto simp: bit_or_iff less_Suc_eq)
qed

lemma little_load: "8 \<le> length s \<Longrightarrow> little s 8 = load_bytes (take 8 s)"
  by (rule bit_word_eqI) (auto simp: bit_little bit_load_bytes)

lemma high_bits_mask: "high_bits = 0x8080808080808080"
  by code_simp

lemma little_ascii:
  "8 \<le> length s \<Longrightarrow> little s 8 AND 0x8080808080808080 = 0 \<longleftrightarrow> ascii (take 8 s)"
  using high_bits_ascii [of "take 8 s"] high_bits_mask by (simp add: little_load)

text \<open>Reading characters one at a time, by the runtime's decoder.\<close>

fun read_characters :: "nat \<Rightarrow> byte list \<Rightarrow> byte list option" where
  "read_characters 0 s = Some s"
| "read_characters (Suc n) s =
     (if s = [] then None
      else case decode_character s of Inl _ \<Rightarrow> None | Inr (c, w) \<Rightarrow> read_characters n (drop w s))"

lemma read_ascii: "ascii a \<Longrightarrow> read_characters (length a + n) (a @ s) = read_characters n s"
proof (induction a)
  case (Cons x a)
  then have "decode_character (x # a @ s) = Inr (uint x, 1)"
    by (simp add: decode_character_def byte_at_def Let_def)
  with Cons show ?case by simp
qed simp

lemma skip_ascii_read: "skip_ascii n s = (n', s') \<Longrightarrow> read_characters n s = read_characters n' s'"
proof (induction n s rule: skip_ascii.induct)
  case (1 n s)
  have word: "16 \<le> length s \<Longrightarrow> little s 8 AND 0x8080808080808080 = 0 \<longleftrightarrow> ascii (take 8 s)"
    "16 \<le> length s \<Longrightarrow> little (drop 8 s) 8 AND 0x8080808080808080 = 0 \<longleftrightarrow> ascii (take 8 (drop 8 s))"
    by (rule little_ascii, simp)+
  show ?case
  proof (cases "n \<ge> 16 \<and> length s \<ge> 16 \<and> ascii (take 8 s) \<and> ascii (take 8 (drop 8 s))")
    case True
    let ?a = "take 8 s @ take 8 (drop 8 s)"
    have s: "s = ?a @ drop 16 s" by (simp add: take_add [symmetric] drop_drop)
    have n: "n = length ?a + (n - 16)" using True by (auto simp: min_absorb2)
    have "read_characters n s = read_characters (length ?a + (n - 16)) (?a @ drop 16 s)"
      by (rule arg_cong2 [OF n s])
    also have "\<dots> = read_characters (n - 16) (drop 16 s)" by (rule read_ascii) (use True in simp)
    also have "\<dots> = read_characters n' s'"
      using "1.IH" "1.prems" True by (simp add: skip_ascii.simps [of n s] word)
    finally show ?thesis .
  next
    case False
    with word have "skip_ascii n s = (n, s)" by (auto simp: skip_ascii.simps [of n s])
    then show ?thesis using "1.prems" by simp
  qed
qed

lemma skip_characters_read: "skip_characters n s = read_characters n s"
proof (induction n s rule: skip_characters.induct)
  case (1 n s)
  show ?case
  proof (cases n)
    case 0
    then show ?thesis by (simp add: skip_characters.simps [of 0 s])
  next
    case (Suc m)
    obtain k t where kt: "skip_ascii n s = (k, t)" by (cases "skip_ascii n s") auto
    have "read_characters n s = read_characters k t" by (rule skip_ascii_read [OF kt])
    moreover have "skip_characters n s = read_characters k t"
    proof (cases k)
      case 0
      with Suc kt show ?thesis by (simp add: skip_characters.simps [of "Suc m" s])
    next
      case (Suc j)
      have IH: "field_character t = Some w \<Longrightarrow> t \<noteq> [] \<Longrightarrow> skip_characters j (drop w t) = read_characters j (drop w t)" for w
        using 1 [of "(k, t)" k t w] kt Suc \<open>n = Suc m\<close> by simp
      show ?thesis
        using IH kt Suc \<open>n = Suc m\<close>
        by (simp add: skip_characters.simps [of "Suc m" s] field_character_decode split: sum.splits prod.splits)
    qed
    ultimately show ?thesis by simp
  qed
qed

lemma read_characters_iff:
  "read_characters n s = Some rest \<longleftrightarrow> (\<exists>cs v. s = v @ rest \<and> spells cs v \<and> length cs = n)"
proof (induction n arbitrary: s)
  case 0
  then show ?case by (auto simp: spells_simps)
next
  case (Suc n)
  show ?case
  proof
    assume "read_characters (Suc n) s = Some rest"
    then obtain c w where cw: "decode_character s = Inr (c, w)" "read_characters n (drop w s) = Some rest"
      by (auto split: if_splits sum.splits)
    then obtain cs v where v: "drop w s = v @ rest" "spells cs v" "length cs = n" using Suc by blast
    have "scalar_value c" "s = form_of c @ drop w s" using decode_Inr [OF cw(1)] by auto
    then have "s = (form_of c @ v) @ rest" "spells (c # cs) (form_of c @ v)" "length (c # cs) = Suc n"
      using v by (auto simp: spells_simps)
    then show "\<exists>cs v. s = v @ rest \<and> spells cs v \<and> length cs = Suc n" by blast
  next
    assume "\<exists>cs v. s = v @ rest \<and> spells cs v \<and> length cs = Suc n"
    then obtain c cs v where v: "s = form_of c @ v @ rest" "scalar_value c" "spells cs v" "length cs = n"
      by (auto simp: length_Suc_conv spells_simps)
    have "decode_character s = Inr (c, length (form_of c))" using v decode_form_of by simp
    with v Suc [of "v @ rest"] show "read_characters (Suc n) s = Some rest" by auto
  qed
qed

section \<open>Fields\<close>

definition is_digit :: "byte \<Rightarrow> bool" where
  "is_digit b \<longleftrightarrow> 48 \<le> unat b \<and> unat b \<le> 57"

definition digits_value :: "byte list \<Rightarrow> nat" where
  "digits_value ds = foldl (\<lambda>n b. n * 10 + (unat b - 48)) 0 ds"

lemma digits_value_snoc [simp]: "digits_value [] = 0" "digits_value (ds @ [b]) = digits_value ds * 10 + (unat b - 48)"
  by (simp_all add: digits_value_def)

lemma field_digits_step:
  assumes "list_all is_digit ds" "\<forall>i < length ds. digits_value (pre @ take i ds) \<le> (CACHE_LIMIT - 9) div 10"
  shows "field_digits (ds @ s) (digits_value pre) n = field_digits s (digits_value (pre @ ds)) (n + length ds)"
  using assms
proof (induction ds arbitrary: pre n)
  case (Cons b ds)
  have "digits_value pre \<le> (CACHE_LIMIT - 9) div 10" using Cons.prems(2) by fastforce
  moreover have "\<forall>i < length ds. digits_value ((pre @ [b]) @ take i ds) \<le> (CACHE_LIMIT - 9) div 10"
    using Cons.prems(2) by fastforce
  ultimately show ?case using Cons.prems(1) Cons.IH [of "pre @ [b]" "Suc n"] by (simp add: is_digit_def)
qed simp

lemma digits_value_take: "digits_value (take i ds) \<le> digits_value ds"
proof (induction ds rule: rev_induct)
  case (snoc b ds)
  then show ?case by (cases "i \<le> length ds") auto
qed simp

text \<open>The digits read are within the limit when all but the last are.\<close>

lemma field_digits_read:
  assumes "list_all is_digit ds" "digits_value (butlast ds) \<le> (CACHE_LIMIT - 9) div 10" "s \<noteq> []" "\<not> is_digit (hd s)"
  shows "field_digits (ds @ s) 0 0 = Some (digits_value ds, length ds, s)"
proof -
  have "digits_value (take i ds) \<le> (CACHE_LIMIT - 9) div 10" if "i < length ds" for i
    using digits_value_take [of i "butlast ds"] that assms(2) by (simp add: take_butlast)
  then have "field_digits (ds @ s) 0 0 = field_digits s (digits_value ds) (length ds)"
    using field_digits_step [of ds "[]" s 0] assms(1) by simp
  with assms(3,4) show ?thesis by (cases s) (auto simp: is_digit_def)
qed

lemma field_digits_Some:
  "field_digits s (digits_value pre) n = Some (count, digits, t) \<Longrightarrow>
    \<exists>ds. s = ds @ t \<and> list_all is_digit ds \<and> digits = n + length ds \<and> count = digits_value (pre @ ds) \<and>
      (ds \<noteq> [] \<longrightarrow> digits_value (pre @ butlast ds) \<le> (CACHE_LIMIT - 9) div 10)"
proof (induction s arbitrary: pre n)
  case Nil
  then show ?case by (intro exI [of _ "[]"]) simp
next
  case (Cons b s)
  show ?case
  proof (cases "is_digit b")
    case False
    with Cons.prems show ?thesis by (intro exI [of _ "[]"]) (auto simp: is_digit_def)
  next
    case True
    with Cons.prems have le: "digits_value pre \<le> (CACHE_LIMIT - 9) div 10"
      and rec: "field_digits s (digits_value (pre @ [b])) (Suc n) = Some (count, digits, t)"
      by (auto simp: is_digit_def split: if_splits)
    from Cons.IH [OF rec] obtain ds where "s = ds @ t" "list_all is_digit ds" "digits = Suc n + length ds"
      "count = digits_value ((pre @ [b]) @ ds)" "ds \<noteq> [] \<longrightarrow> digits_value ((pre @ [b]) @ butlast ds) \<le> (CACHE_LIMIT - 9) div 10"
      by blast
    with True le show ?thesis by (intro exI [of _ "b # ds"]) auto
  qed
qed

lemma field_iff:
  "field s = Some (v, rest) \<longleftrightarrow>
    (\<exists>ds cs. s = ds @ [10] @ v @ rest \<and> ds \<noteq> [] \<and> list_all is_digit ds \<and>
      digits_value (butlast ds) \<le> (CACHE_LIMIT - 9) div 10 \<and> spells cs v \<and> length cs = digits_value ds)"
    (is "?l \<longleftrightarrow> ?r")
proof
  assume ?l
  then obtain count digits t where f: "field_digits s (digits_value []) 0 = Some (count, digits, t)" "digits \<noteq> 0" "t \<noteq> []" "hd t = 10"
    and skip: "read_characters count (tl t) = Some rest" "v = take (length (tl t) - length rest) (tl t)"
    by (auto simp: field_def skip_characters_read split: option.splits prod.splits if_splits)
  from field_digits_Some [OF f(1)] obtain ds where ds: "s = ds @ t" "list_all is_digit ds" "digits = length ds"
    "count = digits_value ds" "ds \<noteq> [] \<longrightarrow> digits_value (butlast ds) \<le> (CACHE_LIMIT - 9) div 10"
    by auto
  from skip(1) obtain cs w where cs: "tl t = w @ rest" "spells cs w" "length cs = count" by (auto simp: read_characters_iff)
  with skip(2) have "v = w" by simp
  moreover have "t = 10 # w @ rest" using f(3,4) cs(1) by (metis list.collapse)
  ultimately show ?r using ds cs f(2) by (intro exI [of _ ds] exI [of _ cs]) auto
next
  assume ?r
  then obtain ds cs where s: "s = ds @ [10] @ v @ rest" "ds \<noteq> []" "list_all is_digit ds"
    "digits_value (butlast ds) \<le> (CACHE_LIMIT - 9) div 10" "spells cs v" "length cs = digits_value ds"
    by blast
  have "field_digits s 0 0 = Some (digits_value ds, length ds, 10 # v @ rest)"
    using field_digits_read [OF s(3,4), of "10 # v @ rest"] s(1) by (simp add: is_digit_def)
  moreover have "read_characters (digits_value ds) (v @ rest) = Some rest" using s(5,6) by (auto simp: read_characters_iff)
  ultimately show ?l using s(2) by (simp add: field_def skip_characters_read)
qed

end
