(* ===== verification/Cache_Files.thy ===== *)
theory Cache_Files
  imports Cache_Fields
begin

text \<open>
  Cache files: what is written is read back, and a published cache is accepted again by the same compiler,
  under the same limit and for the same entry point, and by no other.
\<close>

section \<open>Writing fields\<close>

lemma decimal_digits:
  "list_all is_digit (ascii_bytes (decimal_nat n))" "digits_value (ascii_bytes (decimal_nat n)) = n"
  "digits_value (butlast (ascii_bytes (decimal_nat n))) = n div 10"
proof (induction n rule: decimal_nat.induct)
  case (1 n)
  have digit: "is_digit (of_nat (48 + d))" "unat (of_nat (48 + d) :: byte) = 48 + d" if "d < 10" for d
    using that by (simp_all add: is_digit_def unat_of_nat del: of_nat_add)
  {
    case 1
    then show ?case using "1.IH" digit by (simp add: decimal_nat.simps [of n] ascii_bytes_def of_char_digit)
  next
    case 2
    then show ?case using "1.IH" digit
      by (simp add: decimal_nat.simps [of n] ascii_bytes_def of_char_digit digits_value_def)
  next
    case 3
    then show ?case using "1.IH" digit
      by (simp add: decimal_nat.simps [of n] ascii_bytes_def of_char_digit digits_value_def)
  }
qed

lemma ascii_bytes_nonempty [simp]: "ascii_bytes (decimal_nat n) \<noteq> []"
  by (simp add: ascii_bytes_def)

lemma decimal_bytes_inject: "ascii_bytes (decimal_nat m) = ascii_bytes (decimal_nat n) \<longleftrightarrow> m = n"
  using decimal_digits(2) by metis

lemma continuation_form:
  assumes "scalar_value c"
  shows "\<exists>b bs. form_of c = b # bs \<and> b AND 0xc0 \<noteq> 0x80 \<and> list_all (\<lambda>b. b AND 0xc0 = 0x80) bs"
proof -
  have mask: "(word_of_int x :: byte) AND 0xc0 = 0x80 \<longleftrightarrow> 128 \<le> x \<and> x < 192" if "0 \<le> x" "x < 256" for x
  proof -
    have "uint (word_of_int x :: byte) = x" using that by (simp add: uint_word_of_int_eq take_bit_int_eq_self)
    then have "(word_of_int x :: byte) AND 0xc0 = 0x80 \<longleftrightarrow> x AND 0xc0 = 0x80"
      by (simp add: word_uint_eq_iff uint_and)
    then show ?thesis using high_mask [OF that] by simp
  qed
  show ?thesis
    using assms by (auto simp: form_of_def character_form_def scalar_value_def mask simp del: of_int_add)
qed

lemma character_count_spells: "spells cs v \<Longrightarrow> character_count v = length cs"
proof (induction cs arbitrary: v)
  case (Cons c cs)
  then obtain rest where v: "v = form_of c @ rest" "scalar_value c" "spells cs rest" by (auto simp: spells_simps)
  obtain b bs where "form_of c = b # bs" "b AND 0xc0 \<noteq> 0x80" "list_all (\<lambda>b. b AND 0xc0 = 0x80) bs"
    using continuation_form [OF v(2)] by blast
  then have "character_count (form_of c) = 1"
    by (simp add: character_count_def list_all_iff filter_False)
  with Cons.IH [OF v(3)] v(1) show ?case by (simp add: character_count_def)
qed (simp add: spells_simps character_count_def)

lemma field_written:
  assumes "spells cs v" "length cs < CACHE_LIMIT - 4"
  shows "field (write_field v @ rest) = Some (v, rest)"
proof -
  have "length cs div 10 \<le> (CACHE_LIMIT - 9) div 10" using assms(2) by (simp add: CACHE_LIMIT_def)
  then have "digits_value (butlast (ascii_bytes (decimal_nat (length cs)))) \<le> (CACHE_LIMIT - 9) div 10"
    by (simp add: decimal_digits)
  with assms(1) show ?thesis
    unfolding field_iff write_field_def character_count_spells [OF assms(1)]
    by (intro exI [of _ "ascii_bytes (decimal_nat (length cs))"] exI [of _ cs]) (simp add: decimal_digits)
qed

section \<open>Identities\<close>

lemma hex_byte_inject: "d < 16 \<Longrightarrow> e < 16 \<Longrightarrow> hex_byte d = hex_byte e \<longleftrightarrow> d = e"
proof -
  have "list_all (\<lambda>d. list_all (\<lambda>e. hex_byte d = hex_byte e \<longrightarrow> d = e) [0..<16]) [0..<16]" by code_simp
  then show "d < 16 \<Longrightarrow> e < 16 \<Longrightarrow> hex_byte d = hex_byte e \<longleftrightarrow> d = e" by (auto simp: list_all_iff)
qed

lemma hex_byte_plain: "d < 16 \<Longrightarrow> hex_byte d < 0x80 \<and> hex_byte d \<noteq> 0x3a"
proof -
  have "list_all (\<lambda>d. hex_byte d < 0x80 \<and> hex_byte d \<noteq> 0x3a) [0..<16]" by code_simp
  then show "d < 16 \<Longrightarrow> hex_byte d < 0x80 \<and> hex_byte d \<noteq> 0x3a" by (auto simp: list_all_iff)
qed

lemma low_nibble: "w AND 15 = take_bit 4 w" for w :: "'w::len word"
  using take_bit_eq_mask [of 4 w] by (simp add: mask_eq_exp_minus_1)

lemma low_nibble_less: "unat (w AND 15) < 16" for w :: "'w::len word"
proof -
  have "unat (take_bit 4 w) < 2 ^ 4" unfolding unsigned_take_bit_eq by (rule take_bit_nat_less_exp)
  then show ?thesis by (simp add: low_nibble)
qed

lemma nibbles:
  fixes b :: byte
  shows "unat (drop_bit 4 b) < 16" "unat (b AND 15) < 16" "b = push_bit 4 (drop_bit 4 b) OR (b AND 15)"
proof -
  have "unat (drop_bit 4 b) = unat b div 2 ^ 4" by (simp add: drop_bit_eq_div unat_div)
  moreover have "unat b < 2 ^ 8" using unsigned_less [where ?'a = nat and ?'b = 8] by simp
  ultimately show "unat (drop_bit 4 b) < 16" by simp
  show "unat (b AND 15) < 16" by (rule low_nibble_less)
  show "b = push_bit 4 (drop_bit 4 b) OR (b AND 15)"
    unfolding low_nibble by (rule bit_word_eqI) (auto simp: bit_simps not_le)
qed

lemma hexadecimal_Cons [simp]:
  "hexadecimal [] = []"
  "hexadecimal (b # bs) = hex_byte (unat (drop_bit 4 b)) # hex_byte (unat (b AND 15)) # hexadecimal bs"
  by (simp_all add: hexadecimal_def)

lemma hex_pair_inject:
  fixes x y :: byte
  assumes "hex_byte (unat (drop_bit 4 x)) = hex_byte (unat (drop_bit 4 y))"
    "hex_byte (unat (x AND 15)) = hex_byte (unat (y AND 15))"
  shows "x = y"
proof -
  have high: "drop_bit 4 x = drop_bit 4 y"
    using hex_byte_inject [OF nibbles(1) [of x] nibbles(1) [of y]] assms(1) unsigned_word_eqI by blast
  have low: "x AND 15 = y AND 15"
    using hex_byte_inject [OF nibbles(2) [of x] nibbles(2) [of y]] assms(2) unsigned_word_eqI by blast
  have "x = push_bit 4 (drop_bit 4 y) OR (y AND 15)" using nibbles(3) [of x] by (simp only: high low)
  with nibbles(3) [of y] show ?thesis by (simp only:)
qed

lemma hexadecimal_inject: "hexadecimal xs = hexadecimal ys \<longleftrightarrow> xs = ys"
proof (induction xs arbitrary: ys)
  case Nil
  show ?case by (cases ys) simp_all
next
  case (Cons x xs)
  note IH = Cons.IH
  show ?case
  proof (cases ys)
    case (Cons y zs)
    then show ?thesis using IH [of zs] hex_pair_inject [of x y] by auto
  qed simp
qed

lemma hexadecimal_plain: "b \<in> set (hexadecimal xs) \<Longrightarrow> b < 0x80 \<and> b \<noteq> 0x3a"
  by (induction xs) (use hex_byte_plain [OF nibbles(1)] hex_byte_plain [OF nibbles(2)] in auto)

lemma compiler_identity_inject: "compiler_identity c l = compiler_identity c' l' \<longleftrightarrow> c = c' \<and> l = l'"
proof -
  define tag where "tag = ascii_bytes ''stack-owners-v1:''"
  have colon: "ascii_bytes '':stack-owners-v1:'' = 0x3a # tag" unfolding tag_def ascii_bytes_def by code_simp
  have plain: "\<forall>b \<in> set (hexadecimal xs). b \<noteq> 0x3a" for xs using hexadecimal_plain by blast
  have hex: "takeWhile (\<lambda>b. b \<noteq> 0x3a) (compiler_identity c l) = hexadecimal c" for c l
    using plain [of c] by (simp add: compiler_identity_def colon)
  have tail: "dropWhile (\<lambda>b. b \<noteq> 0x3a) (compiler_identity c l) =
      (if l = 0 then [] else 0x3a # tag @ ascii_bytes (decimal_nat l))" for c l
    using plain [of c] by (simp add: compiler_identity_def colon)
  show ?thesis
  proof
    assume same: "compiler_identity c l = compiler_identity c' l'"
    then have "hexadecimal c = hexadecimal c'" by (metis hex)
    moreover have "l = l'" using tail [of c l] tail [of c' l'] same by (auto simp: decimal_bytes_inject split: if_splits)
    ultimately show "c = c' \<and> l = l'" by (simp add: hexadecimal_inject)
  qed simp
qed

section \<open>The round trip\<close>

lemma spells_length: "spells cs v \<Longrightarrow> length cs \<le> length v"
  using character_count_spells [of cs v] length_filter_le unfolding character_count_def by metis

lemma ascii_field: "ascii v \<Longrightarrow> length v < CACHE_LIMIT - 4 \<Longrightarrow> field (write_field v @ rest) = Some (v, rest)"
  by (rule field_written [OF spells_ascii]) simp_all

lemma ascii_below: "ascii ds \<longleftrightarrow> (\<forall>b \<in> set ds. b < 0x80)"
  by (simp add: ascii_def word_less_def)

lemma ascii_digits: "list_all is_digit ds \<Longrightarrow> ascii ds"
  by (force simp: ascii_below list_all_iff is_digit_def word_less_nat_alt)

lemma ascii_identity: "ascii (compiler_identity c l)"
proof -
  have "ascii (ascii_bytes '':stack-owners-v1:'')" unfolding ascii_def ascii_bytes_def by code_simp
  moreover have "ascii (hexadecimal c)" using hexadecimal_plain by (auto simp: ascii_below)
  ultimately show ?thesis using ascii_digits [OF decimal_digits(1), of l]
    by (auto simp: compiler_identity_def)
qed

lemma ascii_checksum: "ascii (hex16 h)" "length (hex16 h) = 16"
proof -
  show "ascii (hex16 h)" using hex_byte_plain [OF low_nibble_less] by (auto simp: hex16_def ascii_below)
qed (simp add: hex16_def)

lemma ascii_magic: "ascii magic" "length magic = 21"
  unfolding ascii_def magic_def ascii_bytes_def by code_simp+

lemma published_fields:
  assumes "spells cs entry" "spells ds state" "publish_cache (compiler_identity c l) entry state = Some file"
  shows "fields 5 file = Some ([magic, compiler_identity c l, entry, hex16 (artifact_hash state), state], [])"
proof -
  have written: "file = write_field magic @ write_field (compiler_identity c l) @ write_field entry @
      write_field (hex16 (artifact_hash state)) @ write_field state @ []"
    and total: "length state + length (compiler_identity c l) + length entry + 160 \<le> CACHE_LIMIT"
    using assms(3) by (auto simp: publish_cache_def split: if_splits)
  then have small: "length state < CACHE_LIMIT - 4" "length (compiler_identity c l) < CACHE_LIMIT - 4"
    "length entry < CACHE_LIMIT - 4" "length magic < CACHE_LIMIT - 4" "length (hex16 h) < CACHE_LIMIT - 4" for h
    by (simp_all add: ascii_magic ascii_checksum)
  note read = ascii_field [OF ascii_magic(1) small(4)] ascii_field [OF ascii_identity small(2)]
    field_written [OF assms(1) order.strict_trans1 [OF spells_length [OF assms(1)] small(3)]]
    ascii_field [OF ascii_checksum(1) small(5)]
    field_written [OF assms(2) order.strict_trans1 [OF spells_length [OF assms(2)] small(1)]]
  show ?thesis unfolding written by (simp only: numeral_eq_Suc pred_numeral_simps BitM.simps numeral_One fields.simps read option.case prod.case One_nat_def)
qed

text \<open>
  The cache format. A field read by the driver is a decimal count, a newline and exactly that many
  well-formed UTF-8 characters, of which it returns the bytes; nothing else is a field. Counts are refused from
  the first whose digits before the last exceed the tenth of the 64 MiB limit, so that no count can overflow.\<close>

theorem field_exact:
  "field s = Some (v, rest) \<longleftrightarrow>
    (\<exists>ds cs. s = ds @ [10] @ v @ rest \<and> ds \<noteq> [] \<and> list_all is_digit ds \<and>
      digits_value (butlast ds) \<le> (CACHE_LIMIT - 9) div 10 \<and> spells cs v \<and> length cs = digits_value ds)"
  using field_iff [of s v rest] by simp

text \<open>
  C39. A published cache is accepted again, with the checksum of its state, by the same compiler image, under the
  same limit on stack-owned values and for the same entry point, and by no other compiler, limit or entry.\<close>

theorem cache_roundtrip:
  assumes "spells cs entry" "spells ds state" "publish_cache (compiler_identity c l) entry state = Some cache"
  shows "valid_cache cache (compiler_identity c' l') entry' =
    (if c' = c \<and> l' = l \<and> entry' = entry then Some (hex16 (artifact_hash state)) else None)"
  using published_fields [OF assms] by (auto simp: valid_cache_def compiler_identity_inject Let_def)

lemma cache_roundtrip_witness:
  "\<exists>cache. publish_cache (compiler_identity [0x7f] 3) [0x2f, 0xc3, 0xa9] [0x61, 0x0a] = Some cache \<and>
    valid_cache cache (compiler_identity [0x7f] 3) [0x2f, 0xc3, 0xa9] = Some (hex16 (artifact_hash [0x61, 0x0a])) \<and>
    valid_cache cache (compiler_identity [0x7f] 0) [0x2f, 0xc3, 0xa9] = None"
proof -
  have "spells [0x2f, 0xe9] [0x2f, 0xc3, 0xa9]" "spells [0x61, 0x0a] [0x61, 0x0a]"
    by (simp_all add: spells_def spelling_def form_of_def character_form_def scalar_value_def)
  moreover have "length (compiler_identity [0x7f] 3) < 40" by code_simp
  then have "\<exists>cache. publish_cache (compiler_identity [0x7f] 3) [0x2f, 0xc3, 0xa9] [0x61, 0x0a] = Some cache"
    by (simp add: publish_cache_def CACHE_LIMIT_def)
  ultimately show ?thesis
    using cache_roundtrip [of _ "[0x2f, 0xc3, 0xa9]" _ "[0x61, 0x0a]" "[0x7f]" 3] by fastforce
qed

end
