(* ===== verification/Source_Path.thy ===== *)
theory Source_Path
  imports Main
begin

text \<open>
  The entry point's path in the build driver (\<open>absolute_source\<close> of \<open>tools/module-build.c\<close>): a cache belongs
  to one entry point, so the spelling of its path is made canonical first. A C string is the list of its
  characters; the working directory is an argument.
\<close>

section \<open>The code\<close>

definition slash :: char where
  "slash = CHR ''/''"

text \<open>The output buffer up to \<open>used\<close> is a list; it always starts with a slash.\<close>

function strip_name :: "string \<Rightarrow> string" where
  "strip_name out = (if length out > 1 \<and> last out \<noteq> slash then strip_name (butlast out) else out)"
  by pat_completeness auto
termination
  by (relation "measure length") auto

declare strip_name.simps [simp del]

definition drop_name :: "string \<Rightarrow> string" where
  "drop_name out =
     (if length out > 1 then
        (let out = strip_name out in if length out > 1 then butlast out else out)
      else out)"

definition add_name :: "string \<Rightarrow> string \<Rightarrow> string" where
  "add_name out name = (if length out > 1 then out @ [slash] else out) @ name"

function normalise :: "string \<Rightarrow> string \<Rightarrow> string" where
  "normalise out raw =
     (if raw = [] then out
      else
        let start = dropWhile (\<lambda>c. c = slash) raw;
            name = takeWhile (\<lambda>c. c \<noteq> slash) start;
            rest = dropWhile (\<lambda>c. c \<noteq> slash) start in
        if name = [] \<or> name = ''.'' then normalise out rest
        else if name = ''..'' then normalise (drop_name out) rest
        else normalise (add_name out name) rest)"
  by pat_completeness auto

lemma normalise_shorter:
  assumes "raw \<noteq> []"
  shows "length (dropWhile (\<lambda>c. c \<noteq> slash) (dropWhile (\<lambda>c. c = slash) raw)) < length raw"
proof (cases "dropWhile (\<lambda>c. c = slash) raw")
  case Nil
  show ?thesis unfolding Nil using assms by simp
next
  case (Cons c cs)
  then have "c \<noteq> slash" using hd_dropWhile [of "\<lambda>c. c = slash" raw] by simp
  then have "length (dropWhile (\<lambda>c. c \<noteq> slash) (c # cs)) \<le> length cs" by (simp add: length_dropWhile_le)
  moreover have "length (c # cs) \<le> length raw" using Cons length_dropWhile_le by metis
  ultimately show ?thesis using Cons by simp
qed

termination normalise
  by (relation "measure (length \<circ> snd)") (use normalise_shorter in auto)

declare normalise.simps [simp del]

definition raw_source :: "string \<Rightarrow> string \<Rightarrow> string" where
  "raw_source cwd source = (if source \<noteq> [] \<and> hd source = slash then source else cwd @ [slash] @ source)"

definition absolute_source :: "string \<Rightarrow> string \<Rightarrow> string" where
  "absolute_source cwd source = normalise [slash] (raw_source cwd source)"

section \<open>What it means\<close>

text \<open>The names between slashes, their resolution from the root, and the path that spells a list of names.\<close>

fun path_parts :: "string \<Rightarrow> string list" where
  "path_parts [] = [[]]"
| "path_parts (c # cs) = (if c = slash then [] # path_parts cs else (c # hd (path_parts cs)) # tl (path_parts cs))"

definition path_names :: "string \<Rightarrow> string list" where
  "path_names s = filter (\<lambda>n. n \<noteq> []) (path_parts s)"

fun resolve :: "string list \<Rightarrow> string list \<Rightarrow> string list" where
  "resolve seen [] = seen"
| "resolve seen (n # ns) =
     (if n = ''.'' then resolve seen ns
      else if n = ''..'' then resolve (butlast seen) ns
      else resolve (seen @ [n]) ns)"

definition spell_path :: "string list \<Rightarrow> string" where
  "spell_path ns = (if ns = [] then [slash] else concat (map (\<lambda>n. slash # n) ns))"

definition proper_name :: "string \<Rightarrow> bool" where
  "proper_name n \<longleftrightarrow> n \<noteq> [] \<and> slash \<notin> set n"

lemma path_parts_nonempty [simp]: "path_parts s \<noteq> []"
  by (cases s) auto

lemma path_names_Nil [simp]: "path_names [] = []"
  by (simp add: path_names_def)

lemma path_names_slash [simp]: "path_names (slash # s) = path_names s"
  by (simp add: path_names_def)

lemma path_parts_name:
  "slash \<notin> set n \<Longrightarrow> path_parts (n @ s) = (n @ hd (path_parts s)) # tl (path_parts s)"
  by (induction n) auto

lemma path_names_name:
  assumes "proper_name n" "s = [] \<or> hd s = slash"
  shows "path_names (n @ s) = n # path_names s"
proof (cases s)
  case Nil
  then show ?thesis using assms(1) path_parts_name [of n "[]"] by (simp add: path_names_def proper_name_def)
next
  case (Cons c cs)
  then show ?thesis using assms path_parts_name [of n s] by (simp add: path_names_def proper_name_def)
qed

lemma path_names_skip: "path_names (dropWhile (\<lambda>c. c = slash) s) = path_names s"
  by (induction s) simp_all

lemma path_names_proper: "n \<in> set (path_names s) \<Longrightarrow> proper_name n"
proof -
  have "slash \<notin> set n" if "n \<in> set (path_parts s)" for n s
    using that
  proof (induction s arbitrary: n)
    case (Cons c s)
    have "hd (path_parts s) \<in> set (path_parts s)" by simp
    moreover have "set (tl (path_parts s)) \<subseteq> set (path_parts s)" by (simp add: list.set_sel(2) subsetI)
    ultimately show ?case using Cons by (auto split: if_splits)
  qed simp
  then show "n \<in> set (path_names s) \<Longrightarrow> proper_name n" unfolding path_names_def proper_name_def set_filter by blast
qed

lemma resolve_names: "n \<in> set (resolve seen ns) \<Longrightarrow> n \<in> set seen \<or> n \<in> set ns \<and> n \<noteq> ''.'' \<and> n \<noteq> ''..''"
  by (induction seen ns rule: resolve.induct) (auto split: if_splits dest: in_set_butlastD)

lemma resolve_plain: "\<forall>n \<in> set ns. n \<noteq> ''.'' \<and> n \<noteq> ''..'' \<Longrightarrow> resolve seen ns = seen @ ns"
  by (induction ns arbitrary: seen) simp_all

lemma path_names_spell: "\<forall>n \<in> set ns. proper_name n \<Longrightarrow> path_names (spell_path ns) = ns"
proof -
  have "path_names (concat (map (\<lambda>n. slash # n) ns)) = ns" if "\<forall>n \<in> set ns. proper_name n" for ns
    using that
  proof (induction ns)
    case (Cons n ns)
    have "concat (map (\<lambda>n. slash # n) ns) = [] \<or> hd (concat (map (\<lambda>n. slash # n) ns)) = slash" by (cases ns) simp_all
    then show ?case using Cons path_names_name [of n] by simp
  qed simp
  then show "\<forall>n \<in> set ns. proper_name n \<Longrightarrow> path_names (spell_path ns) = ns" by (auto simp: spell_path_def)
qed

section \<open>The loop computes it\<close>

lemma strip_name_name:
  "slash \<notin> set n \<Longrightarrow> out \<noteq> [] \<Longrightarrow> last out = slash \<Longrightarrow> strip_name (out @ n) = out"
proof (induction n rule: rev_induct)
  case Nil
  then show ?case by (simp add: strip_name.simps)
next
  case (snoc c n)
  then show ?case using strip_name.simps [of "out @ n @ [c]"] by (auto simp: butlast_append)
qed

lemma length_spell: "\<forall>n \<in> set ns. proper_name n \<Longrightarrow> length (spell_path ns) > 1 \<longleftrightarrow> ns \<noteq> []"
  by (cases ns) (auto simp: spell_path_def proper_name_def)

lemma add_name_spell:
  assumes "\<forall>n \<in> set ns. proper_name n"
  shows "add_name (spell_path ns) n = spell_path (ns @ [n])"
  using length_spell [OF assms] by (auto simp: add_name_def spell_path_def)

lemma drop_name_spell:
  assumes "\<forall>n \<in> set ns. proper_name n"
  shows "drop_name (spell_path ns) = spell_path (butlast ns)"
proof (cases ns rule: rev_cases)
  case Nil
  then show ?thesis by (simp add: drop_name_def spell_path_def)
next
  case (snoc ms n)
  let ?front = "concat (map (\<lambda>n. slash # n) ms) @ [slash]"
  have "spell_path ns = ?front @ n" by (simp add: spell_path_def snoc)
  moreover have "strip_name (?front @ n) = ?front"
    using assms snoc by (intro strip_name_name) (auto simp: proper_name_def)
  moreover have "length (spell_path ns) > 1" using length_spell [OF assms] snoc by simp
  ultimately have "drop_name (spell_path ns) = (if length ?front > 1 then butlast ?front else ?front)"
    by (simp add: drop_name_def)
  also have "\<dots> = spell_path ms" by (cases ms) (simp_all add: spell_path_def butlast_append)
  finally show ?thesis by (simp add: snoc)
qed

lemma normalise_resolves:
  "\<forall>n \<in> set ns. proper_name n \<Longrightarrow> normalise (spell_path ns) raw = spell_path (resolve ns (path_names raw))"
proof (induction "length raw" arbitrary: ns raw rule: less_induct)
  case less
  show ?case
  proof (cases "raw = []")
    case True
    then show ?thesis by (simp add: normalise.simps)
  next
    case False
    define start where "start = dropWhile (\<lambda>c. c = slash) raw"
    define name where "name = takeWhile (\<lambda>c. c \<noteq> slash) start"
    define rest where "rest = dropWhile (\<lambda>c. c \<noteq> slash) start"
    have step: "normalise out raw = (if name = [] \<or> name = ''.'' then normalise out rest
        else if name = ''..'' then normalise (drop_name out) rest else normalise (add_name out name) rest)" for out
      using False by (simp add: normalise.simps [of out raw] Let_def start_def name_def rest_def)
    have shorter: "length rest < length raw" using normalise_shorter [OF False] by (simp add: rest_def start_def)
    note IH = less.hyps [OF shorter]
    have split: "start = name @ rest" by (simp add: name_def rest_def)
    have raw: "path_names raw = path_names start" by (simp add: start_def path_names_skip)
    show ?thesis
    proof (cases "name = []")
      case True
      then have "path_names raw = path_names rest" using raw split by simp
      then show ?thesis using step True IH [OF less.prems] by simp
    next
      case False
      have "slash \<notin> set name" using set_takeWhileD by (fastforce simp: name_def)
      then have proper: "proper_name name" using False by (simp add: proper_name_def)
      have "rest = [] \<or> hd rest = slash" using hd_dropWhile [of "\<lambda>c. c \<noteq> slash" start] by (auto simp: rest_def)
      then have names: "path_names raw = name # path_names rest" using raw split path_names_name [OF proper] by simp
      have dropped: "\<forall>n \<in> set (butlast ns). proper_name n" using less.prems in_set_butlastD by fastforce
      show ?thesis
        using step False names IH [OF less.prems] IH [OF dropped] IH [of "ns @ [name]"] less.prems proper
          drop_name_spell [OF less.prems] add_name_spell [OF less.prems, of name] by simp
    qed
  qed
qed

text \<open>The output never outgrows the path: a name is written with the slash before it, or is the first.\<close>

lemma length_strip_name: "length (strip_name out) \<le> length out"
proof (induction out rule: strip_name.induct)
  case (1 out)
  then show ?case using strip_name.simps [of out] by auto
qed

lemma length_drop_name: "length (drop_name out) \<le> length out"
  using length_strip_name [of out] by (auto simp: drop_name_def Let_def)

lemma normalise_fits:
  "length out = 1 \<or> raw = [] \<or> hd raw = slash \<Longrightarrow> length (normalise out raw) \<le> length out + length raw"
proof (induction "length raw" arbitrary: out raw rule: less_induct)
  case less
  show ?case
  proof (cases "raw = []")
    case True
    then show ?thesis by (simp add: normalise.simps)
  next
    case False
    define start where "start = dropWhile (\<lambda>c. c = slash) raw"
    define name where "name = takeWhile (\<lambda>c. c \<noteq> slash) start"
    define rest where "rest = dropWhile (\<lambda>c. c \<noteq> slash) start"
    have step: "normalise out raw = (if name = [] \<or> name = ''.'' then normalise out rest
        else if name = ''..'' then normalise (drop_name out) rest else normalise (add_name out name) rest)"
      using False by (simp add: normalise.simps [of out raw] Let_def start_def name_def rest_def)
    have shorter: "length rest < length raw" using normalise_shorter [OF False] by (simp add: rest_def start_def)
    have start: "rest = [] \<or> hd rest = slash" using hd_dropWhile [of "\<lambda>c. c \<noteq> slash" start] by (auto simp: rest_def)
    then have IH: "length (normalise o' rest) \<le> length o' + length rest" for o' using less.hyps [OF shorter] by blast
    have "length start = length name + length rest" by (simp add: name_def rest_def flip: length_append)
    moreover have "length start \<le> length raw" by (simp add: start_def length_dropWhile_le)
    moreover have "length start < length raw" if "hd raw = slash"
      using that False by (cases raw) (simp_all add: start_def length_dropWhile_le less_Suc_eq_le)
    ultimately have "length (add_name out name) + length rest \<le> length out + length raw"
      using less.prems False by (auto simp: add_name_def)
    then have "length (normalise (add_name out name) rest) \<le> length out + length raw"
      using IH [of "add_name out name"] by (rule order.trans [rotated])
    moreover have "length (normalise out rest) \<le> length out + length raw"
      using IH [of out] shorter by linarith
    moreover have "length (normalise (drop_name out) rest) \<le> length out + length raw"
      using IH [of "drop_name out"] length_drop_name [of out] shorter by linarith
    ultimately show ?thesis unfolding step by (simp only: split: if_split) blast
  qed
qed

text \<open>The names of the entry point, relative paths being under the working directory.\<close>

definition entry_names :: "string \<Rightarrow> string \<Rightarrow> string list" where
  "entry_names cwd source = resolve [] (path_names (raw_source cwd source))"

lemma entry_names_proper: "n \<in> set (entry_names cwd source) \<Longrightarrow> proper_name n \<and> n \<noteq> ''.'' \<and> n \<noteq> ''..''"
  using resolve_names path_names_proper unfolding entry_names_def by fastforce

lemma absolute_source_spells: "absolute_source cwd source = spell_path (entry_names cwd source)"
  using normalise_resolves [of "[]"] by (simp add: absolute_source_def entry_names_def spell_path_def)

lemma path_names_absolute: "path_names (absolute_source cwd source) = entry_names cwd source"
  unfolding absolute_source_spells using entry_names_proper by (intro path_names_spell) blast

lemma entry_names_absolute: "entry_names cwd' (absolute_source cwd source) = entry_names cwd source"
proof -
  have "absolute_source cwd source \<noteq> [] \<and> hd (absolute_source cwd source) = slash"
    unfolding absolute_source_spells by (cases "entry_names cwd source") (simp_all add: spell_path_def)
  then have "entry_names cwd' (absolute_source cwd source) = resolve [] (entry_names cwd source)"
    using path_names_absolute [of cwd source] by (simp add: entry_names_def [of cwd'] raw_source_def)
  also have "\<dots> = entry_names cwd source"
    using resolve_plain [of "entry_names cwd source" "[]"] entry_names_proper by simp
  finally show ?thesis .
qed

text \<open>
  C38. The driver's canonical path is the one that spells the names of the given path, resolved from the root:
  no name is empty, \<open>.\<close> or \<open>..\<close>, resolving it again changes nothing, and two paths get one entry exactly when
  they resolve to the same names.
\<close>

theorem absolute_source_canonical:
  "absolute_source cwd source = spell_path (entry_names cwd source) \<and>
   list_all (\<lambda>n. proper_name n \<and> n \<noteq> ''.'' \<and> n \<noteq> ''..'') (entry_names cwd source) \<and>
   absolute_source cwd' (absolute_source cwd source) = absolute_source cwd source \<and>
   (absolute_source cwd source = absolute_source cwd' source' \<longleftrightarrow> entry_names cwd source = entry_names cwd' source') \<and>
   length (absolute_source cwd source) + 1 \<le> length (raw_source cwd source) + 2"
proof (intro conjI)
  show "absolute_source cwd source = spell_path (entry_names cwd source)" by (rule absolute_source_spells)
  show "list_all (\<lambda>n. proper_name n \<and> n \<noteq> ''.'' \<and> n \<noteq> ''..'') (entry_names cwd source)"
    unfolding list_all_iff using entry_names_proper by blast
  show "absolute_source cwd' (absolute_source cwd source) = absolute_source cwd source"
    unfolding absolute_source_spells [of cwd'] entry_names_absolute by (rule absolute_source_spells [symmetric])
  show "absolute_source cwd source = absolute_source cwd' source' \<longleftrightarrow> entry_names cwd source = entry_names cwd' source'"
    using absolute_source_spells path_names_absolute by metis
  show "length (absolute_source cwd source) + 1 \<le> length (raw_source cwd source) + 2"
    using normalise_fits [of "[slash]" "raw_source cwd source"] by (simp add: absolute_source_def)
qed

end
