(* ===== verification/Build_Driver.thy ===== *)
theory Build_Driver
  imports Cache_Files Source_Path
begin

text \<open>
  The build driver (\<open>tools/module-build.c\<close>, \<open>snapshot_compiler\<close> and \<open>main\<close>): it finds or publishes an
  image of the compiler, looks for cache files that are valid for this image and entry point, runs the compiler
  on them and once more from nothing when that fails, and publishes what the compiler left.

  Files are a map from paths to contents; one process at a time works on them, and system calls on them do
  not fail for reasons of their own. The compiler is a parameter: a function from its image, the entry point,
  the budget and the state it is given to its exit status and the files it leaves. The state is given through a
  descriptor; \<open>Module_Plan\<close> stands for the plan file that names the two cache descriptors and the checksum.
\<close>

section \<open>Files\<close>

record stored_file =
  stored :: "byte list"
  executable :: bool

type_synonym store = "string \<Rightarrow> stored_file option"

definition path_join :: "string \<Rightarrow> string \<Rightarrow> string" where
  "path_join a b = a @ [slash] @ b"

definition read_path :: "store \<Rightarrow> string \<Rightarrow> nat \<Rightarrow> byte list option" where
  "read_path fs path limit =
     (case fs path of
        None \<Rightarrow> None
      | Some f \<Rightarrow> if length (stored f) > limit then None else Some (stored f))"

definition atomic_bytes :: "string \<Rightarrow> byte list \<Rightarrow> store \<Rightarrow> store" where
  "atomic_bytes path data fs = fs(path := Some \<lparr>stored = data, executable = False\<rparr>)"

text \<open>The exclusive publication of an image: it fails where the path is taken.\<close>

definition publish_executable :: "string \<Rightarrow> byte list \<Rightarrow> store \<Rightarrow> bool \<times> store" where
  "publish_executable path data fs =
     (case fs path of
        None \<Rightarrow> (True, fs(path := Some \<lparr>stored = data, executable = True\<rparr>))
      | Some _ \<Rightarrow> (False, fs))"

definition runnable :: "store \<Rightarrow> string \<Rightarrow> bool" where
  "runnable fs path = (case fs path of None \<Rightarrow> False | Some f \<Rightarrow> executable f)"

section \<open>Images of the compiler\<close>

definition IMAGE_LIMIT :: nat where
  "IMAGE_LIMIT = 16 * 1024 * 1024"

definition hex_name :: "64 word \<Rightarrow> string" where
  "hex_name h = map (\<lambda>b. char_of (unat b)) (hex16 h)"

definition image_name :: "byte list \<Rightarrow> nat \<Rightarrow> string" where
  "image_name compiler attempt =
     hex_name (artifact_hash compiler) @ ''-'' @ decimal_nat (length compiler) @ ''-'' @ decimal_nat attempt"

fun snapshot_attempts :: "nat list \<Rightarrow> string \<Rightarrow> byte list \<Rightarrow> store \<Rightarrow> (string \<times> store) option" where
  "snapshot_attempts [] images compiler fs = None"
| "snapshot_attempts (attempt # attempts) images compiler fs =
     (let path = path_join images (image_name compiler attempt);
          old = read_path fs path IMAGE_LIMIT in
      if old = Some compiler \<and> runnable fs path then Some (path, fs)
      else if old \<noteq> None then snapshot_attempts attempts images compiler fs
      else
        let (published, fs) = publish_executable path compiler fs in
        if published then Some (path, fs)
        else if read_path fs path IMAGE_LIMIT = Some compiler \<and> runnable fs path then Some (path, fs)
        else snapshot_attempts attempts images compiler fs)"

definition snapshot_compiler :: "string \<Rightarrow> byte list \<Rightarrow> store \<Rightarrow> (string \<times> store) option" where
  "snapshot_compiler directory compiler fs =
     snapshot_attempts [0..<16] (path_join directory ''compiler-images'') compiler fs"

section \<open>Runs of the compiler\<close>

datatype build_input = Empty_State | Module_Plan "byte list" "byte list option" "byte list"

record compiler_run =
  run_exit :: int
  run_output :: "byte list option"
  run_state :: "byte list option"
  run_stats :: "byte list option"
  run_errors :: "byte list"

type_synonym compiler = "byte list \<Rightarrow> string \<Rightarrow> string option \<Rightarrow> build_input \<Rightarrow> compiler_run"

text \<open>A second run in the same directory: what it does not write stays from the first; errors are truncated.\<close>

definition run_after :: "compiler_run \<Rightarrow> compiler_run \<Rightarrow> compiler_run" where
  "run_after first second = second\<lparr>
     run_output := (if run_output second = None then run_output first else run_output second),
     run_state := (if run_state second = None then run_state first else run_state second),
     run_stats := (if run_stats second = None then run_stats first else run_stats second)\<rparr>"

definition run_compiler :: "(build_input \<Rightarrow> compiler_run) \<Rightarrow> build_input \<Rightarrow> compiler_run" where
  "run_compiler run input =
     (let first = run input in
      if run_exit first \<noteq> 0 \<and> input \<noteq> Empty_State then run_after first (run Empty_State) else first)"

text \<open>The state given to the compiler: the base cache and the delta, as far as they are valid.\<close>

definition cached :: "store \<Rightarrow> string \<Rightarrow> byte list \<Rightarrow> byte list \<Rightarrow> (byte list \<times> byte list) option" where
  "cached fs path identity entry =
     (case read_path fs path CACHE_LIMIT of
        None \<Rightarrow> None
      | Some old \<Rightarrow> map_option (Pair old) (valid_cache old identity entry))"

definition build_state :: "store \<Rightarrow> string \<Rightarrow> string \<Rightarrow> byte list \<Rightarrow> byte list \<Rightarrow> build_input" where
  "build_state fs cache delta identity entry =
     (case cached fs cache identity entry of
        None \<Rightarrow> Empty_State
      | Some (base, checksum) \<Rightarrow> Module_Plan base (map_option fst (cached fs delta identity entry)) checksum)"

section \<open>The statistics line\<close>

text \<open>\<open>sscanf\<close> with \<open>"%llu %llu %llu %llu %llu %llu %5s %c"\<close>, which has to convert exactly seven items.\<close>

definition blank :: "byte \<Rightarrow> bool" where
  "blank b \<longleftrightarrow> b = 32 \<or> 9 \<le> unat b \<and> unat b \<le> 13"

definition digit_byte :: "byte \<Rightarrow> bool" where
  "digit_byte b \<longleftrightarrow> 48 \<le> unat b \<and> unat b \<le> 57"

definition scan_number :: "byte list \<Rightarrow> byte list option" where
  "scan_number s =
     (let s = dropWhile blank s;
          s = (if s \<noteq> [] \<and> (hd s = 43 \<or> hd s = 45) then tl s else s) in
      if s \<noteq> [] \<and> digit_byte (hd s) then Some (dropWhile digit_byte s) else None)"

fun scan_numbers :: "nat \<Rightarrow> byte list \<Rightarrow> byte list option" where
  "scan_numbers 0 s = Some s"
| "scan_numbers (Suc n) s = (case scan_number s of None \<Rightarrow> None | Some s \<Rightarrow> scan_numbers n s)"

definition stats_accepted :: "byte list \<Rightarrow> bool" where
  "stats_accepted data =
     (case scan_numbers 6 (takeWhile (\<lambda>b. b \<noteq> 0) data) of
        None \<Rightarrow> False
      | Some s \<Rightarrow>
          let s = dropWhile blank s;
              word = takeWhile (\<lambda>b. \<not> blank b) (take 5 s);
              rest = dropWhile blank (drop (length word) s) in
          rest = [] \<and> (word = ascii_bytes ''true'' \<or> word = ascii_bytes ''false''))"

section \<open>The driver\<close>

record build_args =
  compiler_path :: string
  source_path :: string
  llvm_path :: string
  cache_directory :: string
  stats_path :: "string option"
  owner_budget :: "string option"
  owner_limit :: nat

definition bounded_owners :: string where
  "bounded_owners = ''--bounded-owners''"

text \<open>The arguments, \<open>argv[0]\<close> included; the error is the message printed before status 2.\<close>

definition parse_arguments :: "string list \<Rightarrow> string + build_args" where
  "parse_arguments argv =
     (let argc = length argv;
          bounded = argc \<ge> 7 \<and> argv ! (argc - 2) = bounded_owners;
          budget = (if bounded then Some (argv ! (argc - 1)) else None);
          positional = (if bounded then argc - 2 else argc) in
      case (case budget of None \<Rightarrow> Some 0 | Some b \<Rightarrow> owner_limit_for_budget b) of
        None \<Rightarrow> Inl ''module build: ownership budget must be a positive ASCII decimal integer''
      | Some limit \<Rightarrow>
          if positional \<noteq> 5 \<and> positional \<noteq> 6 \<or> positional = 6 \<and> argv ! 5 = bounded_owners
          then Inl ''usage: module-build COMPILER SOURCE LLVM CACHE_DIRECTORY [STATS] [--bounded-owners BUDGET]''
          else Inr \<lparr>compiler_path = argv ! 1, source_path = argv ! 2, llvm_path = argv ! 3, cache_directory = argv ! 4,
            stats_path = (if positional = 6 then Some (argv ! 5) else None), owner_budget = budget, owner_limit = limit\<rparr>)"

definition cache_file :: "string \<Rightarrow> byte list \<Rightarrow> nat \<Rightarrow> string" where
  "cache_file directory entry limit =
     path_join directory
       (if limit \<noteq> 0 then hex_name (artifact_hash entry) @ ''-stack-owners-v1-'' @ decimal_nat limit @ ''.cache''
        else hex_name (artifact_hash entry) @ ''.cache'')"

definition delta_file :: "string \<Rightarrow> string" where
  "delta_file cache = cache @ ''.delta''"

text \<open>How a build ends: with a message and status 1, or with a status and what it printed on standard error.\<close>

datatype build_result = Stopped string store | Finished int "byte list" store

definition delta_schema :: "byte list" where "delta_schema = ascii_bytes ''minyar-module-delta-v2''"
definition interface_schema :: "byte list" where "interface_schema = ascii_bytes ''minyar-module-interface-v4''"

definition store_cache :: "string \<Rightarrow> byte list \<Rightarrow> byte list \<Rightarrow> byte list \<Rightarrow> store \<Rightarrow> store" where
  "store_cache path identity entry state fs =
     (case publish_cache identity entry state of None \<Rightarrow> fs | Some file \<Rightarrow> atomic_bytes path file fs)"

text \<open>Keeping the state a run left, when there is one within the limit.\<close>

definition keep_state :: "string \<Rightarrow> byte list \<Rightarrow> byte list \<Rightarrow> byte list \<Rightarrow> store \<Rightarrow> build_result" where
  "keep_state cache identity entry fresh fs =
     (if length fresh > CACHE_LIMIT \<or> fresh = [] then Finished 0 [] fs
      else
        case field fresh of
          None \<Rightarrow> Stopped ''invalid compiler state'' fs
        | Some (schema, _) \<Rightarrow>
            if schema = delta_schema then Finished 0 [] (store_cache (delta_file cache) identity entry fresh fs)
            else if schema = interface_schema then Finished 0 [] (store_cache cache identity entry fresh fs)
            else Stopped ''unsupported compiler state'' fs)"

definition finish_build :: "build_args \<Rightarrow> string \<Rightarrow> byte list \<Rightarrow> byte list \<Rightarrow> compiler_run \<Rightarrow> store \<Rightarrow> build_result" where
  "finish_build args cache identity entry run fs =
     (if run_exit run \<noteq> 0 then
        Finished (run_exit run) (if length (run_errors run) > 1024 * 1024 then [] else run_errors run) fs
      else
        case (run_stats run, run_state run) of
          (Some diagnostic, Some fresh) \<Rightarrow>
            if length diagnostic > 4096 \<or> \<not> stats_accepted diagnostic
            then Stopped ''compiler did not produce module artifacts'' fs
            else
              (case run_output run of
                 None \<Rightarrow> Stopped ''compiler output publish'' fs
               | Some llvm \<Rightarrow>
                   let fs = atomic_bytes (llvm_path args) llvm fs;
                       fs = (case stats_path args of None \<Rightarrow> fs | Some path \<Rightarrow> atomic_bytes path diagnostic fs) in
                   keep_state cache identity entry fresh fs)
        | _ \<Rightarrow> Stopped ''compiler did not produce module artifacts'' fs)"

definition build :: "compiler \<Rightarrow> string \<Rightarrow> build_args \<Rightarrow> store \<Rightarrow> build_result" where
  "build run cwd args fs =
     (case read_path fs (compiler_path args) IMAGE_LIMIT of
        None \<Rightarrow> Stopped ''compiler identity'' fs
      | Some compiler \<Rightarrow>
          let identity = compiler_identity compiler (owner_limit args);
              source = absolute_source cwd (source_path args);
              entry = ascii_bytes source;
              cache = cache_file (cache_directory args) entry (owner_limit args) in
          (case snapshot_compiler (cache_directory args) compiler fs of
             None \<Rightarrow> Stopped ''too many conflicting compiler images'' fs
           | Some (slot, fs) \<Rightarrow>
               let code = (case fs slot of None \<Rightarrow> [] | Some f \<Rightarrow> stored f);
                   input = build_state fs cache (delta_file cache) identity entry in
               finish_build args cache identity entry (run_compiler (run code source (owner_budget args)) input) fs))"

text \<open>\<open>main\<close>: the self test, the arguments, the build.\<close>

datatype main_result = Self_Test_Failed | Self_Test_Passed | Usage string | Built build_result

definition build_main :: "compiler \<Rightarrow> string \<Rightarrow> string list \<Rightarrow> store \<Rightarrow> main_result" where
  "build_main run cwd argv fs =
     (if \<not> checksum_self_test then Self_Test_Failed
      else if length argv = 2 \<and> argv ! 1 = ''--checksum-self-test'' then Self_Test_Passed
      else case parse_arguments argv of Inl message \<Rightarrow> Usage message | Inr args \<Rightarrow> Built (build run cwd args fs))"

end
