(* ===== verification/Builds.thy ===== *)
theory Builds
  imports Build_Driver
begin

text \<open>
  What a build promises: it never changes what the compiler would make of the program from nothing, it runs the
  image it was given, and the state it keeps is what the next build by the same compiler starts from.
\<close>

section \<open>Images\<close>

lemma snapshot_attempts_image:
  "snapshot_attempts attempts images compiler fs = Some (path, fs') \<Longrightarrow>
   fs' path = Some \<lparr>stored = compiler, executable = True\<rparr> \<and> (\<forall>p f. fs p = Some f \<longrightarrow> fs' p = Some f) \<and>
   (\<forall>p. p \<noteq> path \<longrightarrow> fs' p = fs p)"
proof (induction attempts images compiler fs rule: snapshot_attempts.induct)
  case (2 attempt attempts images compiler fs)
  let ?path = "path_join images (image_name compiler attempt)"
  have found: "g ?path = Some \<lparr>stored = compiler, executable = True\<rparr>"
    if "read_path g ?path IMAGE_LIMIT = Some compiler" "runnable g ?path" for g
    using that by (cases "g ?path") (auto simp: read_path_def runnable_def split: if_splits)
  consider "read_path fs ?path IMAGE_LIMIT = Some compiler \<and> runnable fs ?path"
    | "\<not> (read_path fs ?path IMAGE_LIMIT = Some compiler \<and> runnable fs ?path)" "read_path fs ?path IMAGE_LIMIT \<noteq> None"
    | "read_path fs ?path IMAGE_LIMIT = None" "fs ?path = None"
    | "read_path fs ?path IMAGE_LIMIT = None" "fs ?path \<noteq> None"
    by blast
  then show ?case
  proof cases
    case 1
    then have "path = ?path" "fs' = fs" using "2.prems" by simp_all
    then show ?thesis using found 1 by simp
  next
    case 2
    have "snapshot_attempts attempts images compiler fs = Some (path, fs')"
      using "2.prems" unfolding snapshot_attempts.simps Let_def if_not_P [OF 2(1)] if_P [OF 2(2)] .
    then show ?thesis by (rule "2.IH"(1) [OF refl refl 2])
  next
    case 3
    then have "path = ?path" "fs' = fs(?path := Some \<lparr>stored = compiler, executable = True\<rparr>)"
      using "2.prems" by (auto simp: publish_executable_def Let_def)
    then show ?thesis using 3(2) by simp
  next
    case 4
    then have "publish_executable ?path compiler fs = (False, fs)" by (auto simp: publish_executable_def)
    then show ?thesis using 4(1) "2.IH"(2) [of ?path "read_path fs ?path IMAGE_LIMIT" "(False, fs)" False fs] "2.prems"
      by (simp add: Let_def)
  qed
qed simp

lemma snapshot_image:
  assumes "snapshot_compiler directory compiler fs = Some (path, fs')"
  shows "fs' path = Some \<lparr>stored = compiler, executable = True\<rparr>" "\<And>p f. fs p = Some f \<Longrightarrow> fs' p = Some f"
  using snapshot_attempts_image assms unfolding snapshot_compiler_def by blast+

section \<open>Runs\<close>

text \<open>
  What is relied on of the compiler: where it succeeds on a state it was given, it succeeds from nothing with the
  same output; and where it succeeds it writes its output.
\<close>

definition reuse_sound :: "compiler \<Rightarrow> bool" where
  "reuse_sound run \<longleftrightarrow>
     (\<forall>code entry budget base delta checksum.
        run_exit (run code entry budget (Module_Plan base delta checksum)) = 0 \<longrightarrow>
        run_exit (run code entry budget Empty_State) = 0 \<and>
        run_output (run code entry budget (Module_Plan base delta checksum)) = run_output (run code entry budget Empty_State))"

definition writes_output :: "compiler \<Rightarrow> bool" where
  "writes_output run \<longleftrightarrow> (\<forall>code entry budget input. run_exit (run code entry budget input) = 0 \<longrightarrow>
     run_output (run code entry budget input) \<noteq> None)"

lemma run_compiler_scratch:
  assumes "reuse_sound run" "writes_output run"
  shows "run_exit (run_compiler (run code entry budget) input) = run_exit (run code entry budget Empty_State) \<and>
    (run_exit (run code entry budget Empty_State) = 0 \<longrightarrow>
       run_output (run_compiler (run code entry budget) input) = run_output (run code entry budget Empty_State)) \<and>
    (run_exit (run code entry budget Empty_State) \<noteq> 0 \<longrightarrow>
       run_errors (run_compiler (run code entry budget) input) = run_errors (run code entry budget Empty_State))"
proof (cases input)
  case Empty_State
  then show ?thesis by (simp add: run_compiler_def)
next
  case (Module_Plan base delta checksum)
  show ?thesis
  proof (cases "run_exit (run code entry budget input) = 0")
    case True
    then show ?thesis using assms(1) Module_Plan unfolding reuse_sound_def by (simp add: run_compiler_def)
  next
    case False
    have "run_output (run code entry budget Empty_State) \<noteq> None" if "run_exit (run code entry budget Empty_State) = 0"
      using assms(2) that unfolding writes_output_def by blast
    then show ?thesis using False Module_Plan by (auto simp: run_compiler_def run_after_def Let_def)
  qed
qed

lemma keep_state_other:
  assumes "keep_state cache identity entry fresh fs = Finished status errors fs'" "path \<noteq> cache" "path \<noteq> delta_file cache"
  shows "fs' path = fs path" "status = 0"
  using assms by (auto simp: keep_state_def store_cache_def atomic_bytes_def split: if_splits option.splits prod.splits)

text \<open>The run of a build, by name.\<close>

definition build_run :: "compiler \<Rightarrow> string \<Rightarrow> build_args \<Rightarrow> byte list \<Rightarrow> build_input \<Rightarrow> compiler_run" where
  "build_run run cwd args compiler = run compiler (absolute_source cwd (source_path args)) (owner_budget args)"

definition build_entry :: "string \<Rightarrow> build_args \<Rightarrow> byte list" where
  "build_entry cwd args = ascii_bytes (absolute_source cwd (source_path args))"

definition build_cache :: "string \<Rightarrow> build_args \<Rightarrow> string" where
  "build_cache cwd args = cache_file (cache_directory args) (build_entry cwd args) (owner_limit args)"

lemma build_Finished:
  assumes "build run cwd args fs = Finished status errors fs'" "fs (compiler_path args) = Some f"
  obtains image fs1 where "snapshot_compiler (cache_directory args) (stored f) fs = Some (image, fs1)"
    "\<And>p g. fs p = Some g \<Longrightarrow> fs1 p = Some g"
    "finish_build args (build_cache cwd args) (compiler_identity (stored f) (owner_limit args)) (build_entry cwd args)
       (run_compiler (build_run run cwd args (stored f))
         (build_state fs1 (build_cache cwd args) (delta_file (build_cache cwd args))
           (compiler_identity (stored f) (owner_limit args)) (build_entry cwd args))) fs1 = Finished status errors fs'"
proof -
  have read: "read_path fs (compiler_path args) IMAGE_LIMIT = Some (stored f)"
    using assms by (auto simp: build_def read_path_def split: if_splits)
  then obtain image fs1 where snap: "snapshot_compiler (cache_directory args) (stored f) fs = Some (image, fs1)"
    using assms(1) by (auto simp: build_def Let_def split: option.splits)
  have "(case fs1 image of None \<Rightarrow> [] | Some f \<Rightarrow> stored f) = stored f" using snapshot_image(1) [OF snap] by simp
  then have "finish_build args (build_cache cwd args) (compiler_identity (stored f) (owner_limit args)) (build_entry cwd args)
       (run_compiler (build_run run cwd args (stored f))
         (build_state fs1 (build_cache cwd args) (delta_file (build_cache cwd args))
           (compiler_identity (stored f) (owner_limit args)) (build_entry cwd args))) fs1 = Finished status errors fs'"
    using assms(1) read snap by (simp add: build_def Let_def build_cache_def build_entry_def build_run_def)
  then show thesis using that snap snapshot_image(2) [OF snap] by blast
qed


section \<open>The next build\<close>

lemma length_decimal: "n < 10 ^ k \<Longrightarrow> 0 < k \<Longrightarrow> length (decimal_nat n) \<le> k"
proof (induction n arbitrary: k rule: decimal_nat.induct)
  case (1 n)
  show ?case
  proof (cases "n < 10")
    case True
    then show ?thesis using 1 by (simp add: decimal_nat.simps [of n])
  next
    case False
    then obtain j where k: "k = Suc j" "0 < j" using 1(2,3) by (cases k; cases "k - 1") auto
    have "n div 10 < 10 ^ j" using 1(2) k by (simp add: less_mult_imp_div_less mult.commute)
    then have "length (decimal_nat (n div 10)) \<le> j" using 1(1) False k(2) by simp
    then show ?thesis using False k by (simp add: decimal_nat.simps [of n])
  qed
qed

lemma length_write_field: "length v < 10 ^ k \<Longrightarrow> 0 < k \<Longrightarrow> length (write_field v) \<le> length v + k + 1"
proof -
  assume small: "length v < 10 ^ k" and "0 < k"
  have "character_count v \<le> length v" by (simp add: character_count_def)
  then have "length (decimal_nat (character_count v)) \<le> k" using length_decimal small \<open>0 < k\<close> order.strict_trans1 by blast
  then show ?thesis by (simp add: write_field_def ascii_bytes_def)
qed

lemma published_length:
  assumes "publish_cache (compiler_identity c l) entry state = Some file"
  shows "length file \<le> CACHE_LIMIT"
proof -
  have made: "file = write_field magic @ write_field (compiler_identity c l) @ write_field entry @
      write_field (hex16 (artifact_hash state)) @ write_field state"
    and total: "length state + length (compiler_identity c l) + length entry + 160 \<le> CACHE_LIMIT"
    using assms by (auto simp: publish_cache_def split: if_splits)
  have limit: "CACHE_LIMIT < 10 ^ 8" by (simp add: CACHE_LIMIT_def)
  have "length (write_field v) \<le> length v + 9" if "length v \<le> CACHE_LIMIT" for v
    using length_write_field [of v 8] that limit by simp
  note field = this
  have "length (write_field state) \<le> length state + 9" "length (write_field (compiler_identity c l)) \<le> length (compiler_identity c l) + 9"
    "length (write_field entry) \<le> length entry + 9" "length (write_field magic) \<le> 30"
    "length (write_field (hex16 (artifact_hash state))) \<le> 25"
    using field [of state] field [of "compiler_identity c l"] field [of entry] field [of magic] field [of "hex16 (artifact_hash state)"]
      total ascii_magic(2) ascii_checksum(2) by simp_all
  then show ?thesis using total by (simp add: made)
qed


section \<open>A build\<close>

text \<open>A compiler that succeeds from every state with the same files, and a store that holds its image.\<close>

definition plain_state :: "byte list" where
  "plain_state = write_field interface_schema"

definition plain_compiler :: compiler where
  "plain_compiler code entry budget input =
     \<lparr>run_exit = 0, run_output = Some [59], run_state = Some plain_state,
      run_stats = Some (ascii_bytes ''1 2 3 4 5 6 true''), run_errors = []\<rparr>"

definition plain_args :: build_args where
  "plain_args = \<lparr>compiler_path = ''cc'', source_path = ''/m'', llvm_path = ''out.ll'', cache_directory = ''c'',
     stats_path = None, owner_budget = None, owner_limit = 0\<rparr>"

definition plain_store :: store where
  "plain_store = (\<lambda>_. None)(''cc'' := Some \<lparr>stored = [1], executable = True\<rparr>)"

lemma plain_source: "absolute_source cwd (source_path plain_args) = ''/m''"
  by (simp add: absolute_source_def raw_source_def plain_args_def slash_def normalise.simps [of "''/''" "''/m''"]
      normalise.simps [of "''/m''" "[]"] add_name_def)

lemma plain_entry: "build_entry cwd plain_args = [47, 109]"
  unfolding build_entry_def plain_source ascii_bytes_def by code_simp

lemma plain_schema: "ascii interface_schema" "length interface_schema = 26" "interface_schema \<noteq> delta_schema"
  "stats_accepted (ascii_bytes ''1 2 3 4 5 6 true'')" "length (ascii_bytes ''1 2 3 4 5 6 true'') = 16"
  unfolding interface_schema_def delta_schema_def ascii_def ascii_bytes_def by code_simp+

lemma plain_field: "field plain_state = Some (interface_schema, [])"
  using ascii_field [OF plain_schema(1), of "[]"] plain_schema(2) by (simp add: plain_state_def CACHE_LIMIT_def)

lemma plain_state_length: "length plain_state \<le> 40" "plain_state \<noteq> []"
  using length_write_field [of interface_schema 2] plain_schema(2) plain_field by (auto simp: plain_state_def field_def)

lemma plain_snapshot: "\<exists>image fs. snapshot_compiler ''c'' [1] plain_store = Some (image, fs)"
proof -
  have "path_join (path_join ''c'' ''compiler-images'') name \<noteq> ''cc''" for name
    by (simp add: path_join_def slash_def)
  then have "plain_store (path_join (path_join ''c'' ''compiler-images'') name) = None" for name
    by (simp add: plain_store_def)
  then show ?thesis
    by (simp add: snapshot_compiler_def upt_rec [of 0 16] read_path_def runnable_def publish_executable_def Let_def)
qed

lemma plain_build: "\<exists>fs'. build plain_compiler [] plain_args plain_store = Finished 0 [] fs'"
proof -
  obtain image fs where snap: "snapshot_compiler ''c'' [1] plain_store = Some (image, fs)" using plain_snapshot by blast
  have run: "run_compiler (plain_compiler code entry budget) input = plain_compiler code entry budget input" for code entry budget input
    by (simp add: run_compiler_def plain_compiler_def)
  have "\<exists>fs'. keep_state cache identity entry plain_state fs2 = Finished 0 [] fs'" for cache identity entry fs2
    using plain_field plain_schema(3) plain_state_length by (simp add: keep_state_def CACHE_LIMIT_def)
  then have "\<exists>fs'. finish_build plain_args cache identity entry (plain_compiler code source budget input) fs2 = Finished 0 [] fs'"
    for cache identity entry code source budget input fs2
    using plain_schema(4,5) by (simp add: finish_build_def plain_compiler_def Let_def plain_args_def)
  then show ?thesis
    using snap by (simp add: build_def Let_def run read_path_def plain_store_def plain_args_def IMAGE_LIMIT_def)
qed

lemma plain_image: "plain_store (compiler_path plain_args) = Some \<lparr>stored = [1], executable = True\<rparr>"
  by (simp add: plain_store_def plain_args_def)



end
