(* ===== verification/Arena.thy ===== *)
theory Arena
  imports Bytes Guards
begin

text \<open>
  The arenas of the compiler's own runtime (\<open>runtime/minyar_runtime.c\<close> with \<open>MINYAR_COMPILER_ARENA\<close>):
  nothing is ever freed; four bump arenas serve object headers, Text bytes, List storage and the storage
  of large Lists. The newest allocation of an arena can grow in place, so a join extends the bytes of its
  left operand where they end the arena, a slice shares the bytes of its Text, and a growing List stays
  where it is.

  Addresses are natural numbers and sizes are \<open>size_t\<close>. The four static arenas are a function from their
  names, a pointer to an arena is its name. The parameter \<open>malloc\<close> gives the answer of the call of a given
  number for a given number of bytes. Text and List headers are kept beside the memory, at their addresses;
  bytes and List values are in the memory.
\<close>

section \<open>Arenas\<close>

record arena_block =
  block_at :: nat
  block_used :: "64 word"
  block_capacity :: "64 word"

record arena =
  arena_blocks :: "arena_block list"
  arena_block_size :: "64 word"

datatype arena_name = Object_Arena | Data_Arena | List_Arena | Large_List_Arena

record arena_text =
  text_bytes :: nat
  text_size :: nat
  text_characters :: int

record arena_list =
  list_at :: nat
  list_size :: nat
  list_room :: nat

record arena_heap =
  arenas :: "arena_name \<Rightarrow> arena"
  malloc_calls :: nat
  arena_memory :: "nat \<Rightarrow> byte"
  arena_texts :: "nat \<Rightarrow> arena_text option"
  arena_lists :: "nat \<Rightarrow> arena_list option"
  slice_cache :: "nat \<Rightarrow> nat option"

type_synonym malloc = "nat \<Rightarrow> nat \<Rightarrow> nat option"

text \<open>The size of a block's header: a pointer and two sizes, padded so that the data is aligned to 16.\<close>

definition BLOCK_HEADER :: nat where
  "BLOCK_HEADER = 32"

definition SIZE_T_MAX :: "64 word" where
  "SIZE_T_MAX = - 1"

definition block_data :: "arena_block \<Rightarrow> nat" where
  "block_data b = block_at b + BLOCK_HEADER"

definition arena_out_of_memory :: "string + 'a" where
  "arena_out_of_memory = minyar_stop ''the computer ran out of memory.''"

definition set_blocks :: "arena_name \<Rightarrow> arena_block list \<Rightarrow> arena_heap \<Rightarrow> arena_heap" where
  "set_blocks n bs h = h\<lparr>arenas := (arenas h)(n := (arenas h n)\<lparr>arena_blocks := bs\<rparr>)\<rparr>"

definition arena_grow :: "malloc \<Rightarrow> arena_name \<Rightarrow> 64 word \<Rightarrow> 64 word \<Rightarrow> arena_heap \<Rightarrow> string + (arena_heap \<times> nat)" where
  "arena_grow malloc n amount alignment h =
     (let arena = arenas h n;
          capacity = (if amount > arena_block_size arena then amount else arena_block_size arena) in
      if capacity > SIZE_T_MAX - of_nat BLOCK_HEADER - alignment then arena_out_of_memory
      else
        case malloc (malloc_calls h) (unat (of_nat BLOCK_HEADER + capacity)) of
          None \<Rightarrow> arena_out_of_memory
        | Some address \<Rightarrow>
            let block = \<lparr>block_at = address, block_used = amount, block_capacity = capacity\<rparr> in
            Inr (set_blocks n (block # arena_blocks arena) (h\<lparr>malloc_calls := malloc_calls h + 1\<rparr>), block_data block))"

definition align_up :: "64 word \<Rightarrow> 64 word \<Rightarrow> 64 word" where
  "align_up used alignment = (used + alignment - 1) AND NOT (alignment - 1)"

definition arena_allocate :: "malloc \<Rightarrow> arena_name \<Rightarrow> 64 word \<Rightarrow> 64 word \<Rightarrow> arena_heap \<Rightarrow> string + (arena_heap \<times> nat)" where
  "arena_allocate malloc n amount alignment h =
     (if amount > SIZE_T_MAX - alignment then arena_out_of_memory
      else
        case arena_blocks (arenas h n) of
          [] \<Rightarrow> arena_grow malloc n amount alignment h
        | block # older \<Rightarrow>
            let start = align_up (block_used block) alignment in
            if start \<le> block_capacity block \<and> amount \<le> block_capacity block - start
            then Inr (set_blocks n (block\<lparr>block_used := start + amount\<rparr> # older) h, block_data block + unat start)
            else arena_grow malloc n amount alignment h)"

definition arena_extend :: "arena_name \<Rightarrow> nat \<Rightarrow> 64 word \<Rightarrow> 64 word \<Rightarrow> arena_heap \<Rightarrow> arena_heap option" where
  "arena_extend n pointer old_size extra h =
     (case arena_blocks (arenas h n) of
        [] \<Rightarrow> None
      | block # older \<Rightarrow>
          if extra > block_capacity block - block_used block then None
          else if pointer + unat old_size \<noteq> block_data block + unat (block_used block) then None
          else Some (set_blocks n (block\<lparr>block_used := block_used block + extra\<rparr> # older) h))"

definition arena_object_allocate :: "malloc \<Rightarrow> 64 word \<Rightarrow> arena_heap \<Rightarrow> string + (arena_heap \<times> nat)" where
  "arena_object_allocate malloc amount = arena_allocate malloc Object_Arena amount 8"

definition arena_data_allocate :: "malloc \<Rightarrow> 64 word \<Rightarrow> 64 word \<Rightarrow> arena_heap \<Rightarrow> string + (arena_heap \<times> nat)" where
  "arena_data_allocate malloc amount alignment = arena_allocate malloc Data_Arena amount alignment"

definition ARENA_LARGE_LIST :: nat where
  "ARENA_LARGE_LIST = 2048"

definition list_arena_for :: "nat \<Rightarrow> arena_name" where
  "list_arena_for capacity = (if capacity \<ge> ARENA_LARGE_LIST then Large_List_Arena else List_Arena)"

definition list_allocate :: "malloc \<Rightarrow> nat \<Rightarrow> 64 word \<Rightarrow> arena_heap \<Rightarrow> string + (arena_heap \<times> nat)" where
  "list_allocate malloc capacity amount = arena_allocate malloc (list_arena_for capacity) amount 8"

section \<open>Texts\<close>

definition read_bytes :: "(nat \<Rightarrow> byte) \<Rightarrow> nat \<Rightarrow> nat \<Rightarrow> byte list" where
  "read_bytes m p n = map m [p..<p + n]"

definition write_bytes :: "nat \<Rightarrow> byte list \<Rightarrow> arena_heap \<Rightarrow> arena_heap" where
  "write_bytes p bs h =
     h\<lparr>arena_memory := (\<lambda>a. if p \<le> a \<and> a < p + length bs then bs ! (a - p) else arena_memory h a)\<rparr>"

definition LLONG_TOP :: nat where
  "LLONG_TOP = 2 ^ 63 - 1"

definition arena_text_at :: "arena_heap \<Rightarrow> nat \<Rightarrow> arena_text" where
  "arena_text_at h t = the (arena_texts h t)"

definition arena_new_text :: "malloc \<Rightarrow> nat \<Rightarrow> nat \<Rightarrow> int \<Rightarrow> arena_heap \<Rightarrow> string + (arena_heap \<times> nat)" where
  "arena_new_text malloc bytes byte_length character_length h =
     rbind (arena_object_allocate malloc 40 h) (\<lambda>(h, t).
       Inr (h\<lparr>arena_texts := (arena_texts h)(t := Some \<lparr>text_bytes = bytes, text_size = byte_length,
         text_characters = character_length\<rparr>)\<rparr>, t))"

definition arena_new_bytes :: "malloc \<Rightarrow> nat \<Rightarrow> arena_heap \<Rightarrow> string + (arena_heap \<times> nat)" where
  "arena_new_bytes malloc len = arena_data_allocate malloc (of_nat len + 1) 1"

text \<open>
  What a join, a conversion or a file that was read does with fresh bytes: fill them, terminate them and
  put a header over them.
\<close>

definition arena_text_of :: "malloc \<Rightarrow> byte list \<Rightarrow> arena_heap \<Rightarrow> string + (arena_heap \<times> nat)" where
  "arena_text_of malloc data h =
     rbind (arena_new_bytes malloc (length data) h) (\<lambda>(h, bytes).
       arena_new_text malloc bytes (length data) (- 1) (write_bytes bytes (data @ [0]) h))"

definition arena_content :: "arena_heap \<Rightarrow> nat \<Rightarrow> byte list" where
  "arena_content h t = (let text = arena_text_at h t in read_bytes (arena_memory h) (text_bytes text) (text_size text))"

definition arena_join_by_copying :: "malloc \<Rightarrow> nat \<Rightarrow> nat \<Rightarrow> arena_heap \<Rightarrow> string + (arena_heap \<times> nat)" where
  "arena_join_by_copying malloc left right h = arena_text_of malloc (arena_content h left @ arena_content h right) h"

definition arena_join_text :: "malloc \<Rightarrow> nat \<Rightarrow> nat \<Rightarrow> arena_heap \<Rightarrow> string + (arena_heap \<times> nat)" where
  "arena_join_text malloc left right h =
     (let l = arena_text_at h left; r = arena_text_at h right in
      if text_size l > LLONG_TOP - text_size r then minyar_stop ''the joined Text would be too large.''
      else
        case arena_extend Data_Arena (text_bytes l) (of_nat (text_size l) + 1) (of_nat (text_size r)) h of
          None \<Rightarrow> arena_join_by_copying malloc left right h
        | Some h' \<Rightarrow>
            let bytes = text_bytes l; len = text_size l + text_size r;
                h' = write_bytes (bytes + text_size l) (read_bytes (arena_memory h') (text_bytes r) (text_size r)) h';
                h' = write_bytes (bytes + len) [0] h' in
            arena_new_text malloc bytes len (- 1) h')"

definition SLICE_CACHE_SIZE :: nat where "SLICE_CACHE_SIZE = 1024"
definition SLICE_CACHE_BYTES :: nat where "SLICE_CACHE_BYTES = 64"

text \<open>The slot of a slice: a hash of its length and of its first, middle and last byte, in 32 bits.\<close>

definition slice_slot :: "byte list \<Rightarrow> nat" where
  "slice_slot bs =
     (let hash = (of_nat (length bs) * 37 + ucast (bs ! 0) * 101 + ucast (bs ! (length bs div 2)) * 257
            + ucast (bs ! (length bs - 1)) * 65537 :: 32 word) in
      unat ((hash XOR drop_bit 10 hash) AND of_nat (SLICE_CACHE_SIZE - 1)))"

text \<open>
  The end of a slice, once its byte positions are known: \<open>characters\<close> is the number of its characters, or
  \<open>-1\<close> where the Text has an index.
\<close>

definition arena_share_slice :: "malloc \<Rightarrow> nat \<Rightarrow> nat \<Rightarrow> nat \<Rightarrow> int \<Rightarrow> arena_heap \<Rightarrow> string + (arena_heap \<times> nat)" where
  "arena_share_slice malloc text first_byte last_byte characters h =
     (let len = last_byte - first_byte;
          bytes = text_bytes (arena_text_at h text) + first_byte;
          slot = slice_slot (read_bytes (arena_memory h) bytes len) in
      if len > 0 \<and> len \<le> SLICE_CACHE_BYTES then
        case slice_cache h slot of
          Some cached \<Rightarrow>
            if text_size (arena_text_at h cached) = len \<and>
               read_bytes (arena_memory h) (text_bytes (arena_text_at h cached)) len = read_bytes (arena_memory h) bytes len
            then Inr (h, cached)
            else rbind (arena_new_text malloc bytes len characters h) (\<lambda>(h, t).
              Inr (h\<lparr>slice_cache := (slice_cache h)(slot := Some t)\<rparr>, t))
        | None \<Rightarrow> rbind (arena_new_text malloc bytes len characters h) (\<lambda>(h, t).
            Inr (h\<lparr>slice_cache := (slice_cache h)(slot := Some t)\<rparr>, t))
      else arena_new_text malloc bytes len characters h)"

section \<open>Lists and records\<close>

definition arena_list_at :: "arena_heap \<Rightarrow> nat \<Rightarrow> arena_list" where
  "arena_list_at h l = the (arena_lists h l)"

definition put_list :: "nat \<Rightarrow> arena_list \<Rightarrow> arena_heap \<Rightarrow> arena_heap" where
  "put_list l list h = h\<lparr>arena_lists := (arena_lists h)(l := Some list)\<rparr>"

definition arena_list_new :: "malloc \<Rightarrow> arena_heap \<Rightarrow> string + (arena_heap \<times> nat)" where
  "arena_list_new malloc h =
     rbind (arena_object_allocate malloc 24 h) (\<lambda>(h, l).
       Inr (put_list l \<lparr>list_at = 0, list_size = 0, list_room = 0\<rparr> h, l))"

definition arena_list_grow :: "malloc \<Rightarrow> nat \<Rightarrow> arena_heap \<Rightarrow> string + arena_heap" where
  "arena_list_grow malloc l h =
     (let list = arena_list_at h l; old = list_room list;
          capacity = (if old = 0 then 2 else if old \<ge> ARENA_LARGE_LIST then old * 4 else old * 2) in
      if capacity < old \<or> capacity > unat SIZE_T_MAX div 8 then minyar_stop ''this List became too large.''
      else
        case (if list_at list \<noteq> 0 \<and> list_arena_for old = list_arena_for capacity
              then arena_extend (list_arena_for capacity) (list_at list) (of_nat old * 8) (of_nat (capacity - old) * 8) h
              else None) of
          Some h \<Rightarrow> Inr (put_list l (list\<lparr>list_room := capacity\<rparr>) h)
        | None \<Rightarrow>
            rbind (list_allocate malloc capacity (of_nat capacity * 8) h) (\<lambda>(h, values).
              let h = (if list_at list \<noteq> 0
                       then write_bytes values (read_bytes (arena_memory h) (list_at list) (list_size list * 8)) h else h) in
              Inr (put_list l (list\<lparr>list_at := values, list_room := capacity\<rparr>) h)))"

definition arena_list_add :: "malloc \<Rightarrow> nat \<Rightarrow> 64 word \<Rightarrow> arena_heap \<Rightarrow> string + arena_heap" where
  "arena_list_add malloc l v h =
     rbind (if list_size (arena_list_at h l) = list_room (arena_list_at h l) then arena_list_grow malloc l h else Inr h) (\<lambda>h.
       let list = arena_list_at h l in
       Inr (put_list l (list\<lparr>list_size := list_size list + 1\<rparr>)
         (write_bytes (list_at list + list_size list * 8) (store_bytes 8 v) h)))"

definition arena_list_values :: "arena_heap \<Rightarrow> nat \<Rightarrow> 64 word list" where
  "arena_list_values h l =
     (let list = arena_list_at h l in
      map (\<lambda>i. load_bytes (read_bytes (arena_memory h) (list_at list + i * 8) 8)) [0..<list_size list])"

text \<open>A record is a List with all of its slots, cleared.\<close>

definition arena_record_allocate :: "malloc \<Rightarrow> nat \<Rightarrow> arena_heap \<Rightarrow> string + (arena_heap \<times> nat)" where
  "arena_record_allocate malloc field_count h =
     (if field_count > unat SIZE_T_MAX div 8 then minyar_stop ''this record has too many fields.''
      else
        rbind (arena_list_new malloc h) (\<lambda>(h, l).
          if field_count > 0 then
            rbind (list_allocate malloc field_count (of_nat field_count * 8) h) (\<lambda>(h, values).
              Inr (put_list l \<lparr>list_at = values, list_size = field_count, list_room = field_count\<rparr>
                (write_bytes values (replicate (field_count * 8) 0) h), l))
          else Inr (put_list l \<lparr>list_at = 0, list_size = field_count, list_room = field_count\<rparr> h, l)))"

text \<open>The arenas when the process starts.\<close>

definition arena_start :: "(nat \<Rightarrow> byte) \<Rightarrow> arena_heap" where
  "arena_start memory =
     \<lparr>arenas = (\<lambda>n. \<lparr>arena_blocks = [], arena_block_size = (if n = Large_List_Arena then 4 * 1024 * 1024 else 1024 * 1024)\<rparr>),
      malloc_calls = 0, arena_memory = memory, arena_texts = (\<lambda>_. None), arena_lists = (\<lambda>_. None),
      slice_cache = (\<lambda>_. None)\<rparr>"

end
