(* ===== verification/Arena_Safe.thy ===== *)
theory Arena_Safe
  imports Arena
begin

text \<open>
  What the arenas promise. Regions that were granted never overlap, lie inside the used part of a block, and
  grow only at the top of their arena; so every operation keeps the bytes of every Text and the values of
  every other List, whatever is shared or extended in place.
\<close>

section \<open>The system's memory\<close>

text \<open>
  What is relied on of \<open>malloc\<close>: blocks of different calls are disjoint, aligned to 16, not at address 0,
  inside the address space and outside static storage.
\<close>

definition fresh_malloc :: "malloc \<Rightarrow> nat set \<Rightarrow> bool" where
  "fresh_malloc malloc static \<longleftrightarrow>
     (\<forall>k n a. malloc k n = Some a \<longrightarrow> 0 < a \<and> 16 dvd a \<and> a + n \<le> 2 ^ 64 \<and> {a..<a + n} \<inter> static = {}) \<and>
     (\<forall>k n a k' n' a'. k \<noteq> k' \<longrightarrow> malloc k n = Some a \<longrightarrow> malloc k' n' = Some a' \<longrightarrow> {a..<a + n} \<inter> {a'..<a' + n'} = {})"

datatype region_use = Header | Bytes_Of_Text | Text_Index | List_Values nat

type_synonym region = "region_use \<times> nat \<times> nat"

abbreviation block_extent :: "arena_block \<Rightarrow> nat set" where
  "block_extent b \<equiv> {block_at b..<block_data b + unat (block_capacity b)}"

abbreviation blocks_of :: "arena_heap \<Rightarrow> arena_name \<Rightarrow> arena_block list" where
  "blocks_of h n \<equiv> arena_blocks (arenas h n)"

definition block_ok :: "malloc \<Rightarrow> nat \<Rightarrow> arena_block \<Rightarrow> bool" where
  "block_ok malloc calls b \<longleftrightarrow> block_used b \<le> block_capacity b \<and>
     (\<exists>k < calls. malloc k (BLOCK_HEADER + unat (block_capacity b)) = Some (block_at b))"

definition region_in :: "nat \<times> nat \<Rightarrow> arena_block \<Rightarrow> bool" where
  "region_in = (\<lambda>(p, l) b. block_data b \<le> p \<and> p + l \<le> block_data b + unat (block_used b))"

definition blocks_ok :: "malloc \<Rightarrow> arena_heap \<Rightarrow> bool" where
  "blocks_ok malloc h \<longleftrightarrow>
     (\<forall>n. distinct (blocks_of h n)) \<and>
     (\<forall>n. \<forall>b \<in> set (blocks_of h n). block_ok malloc (malloc_calls h) b) \<and>
     (\<forall>n n'. \<forall>b \<in> set (blocks_of h n). \<forall>b' \<in> set (blocks_of h n').
        block_extent b \<inter> block_extent b' \<noteq> {} \<longrightarrow> n = n' \<and> b = b')"

definition aligned_use :: "region_use \<Rightarrow> nat \<Rightarrow> bool" where
  "aligned_use u p \<longleftrightarrow> (u = Header \<or> (\<exists>l. u = List_Values l) \<longrightarrow> 8 dvd p)"

definition regions_ok :: "arena_heap \<Rightarrow> region set \<Rightarrow> bool" where
  "regions_ok h G \<longleftrightarrow>
     (\<forall>(u, p, l) \<in> G. aligned_use u p \<and> (\<exists>n. \<exists>b \<in> set (blocks_of h n). region_in (p, l) b)) \<and>
     (\<forall>(u, p, l) \<in> G. \<forall>(u', p', l') \<in> G. (u, p, l) \<noteq> (u', p', l') \<longrightarrow> {p..<p + l} \<inter> {p'..<p' + l'} = {})"

definition text_placed :: "nat set \<Rightarrow> region set \<Rightarrow> arena_text \<Rightarrow> bool" where
  "text_placed static G x \<longleftrightarrow> text_size x \<le> LLONG_TOP \<and>
     ({text_bytes x..<text_bytes x + text_size x + 1} \<subseteq> static \<or>
      (\<exists>p l. (Bytes_Of_Text, p, l) \<in> G \<and> p \<le> text_bytes x \<and> text_bytes x + text_size x + 1 \<le> p + l))"

definition list_placed :: "region set \<Rightarrow> nat \<Rightarrow> arena_list \<Rightarrow> bool" where
  "list_placed G a x \<longleftrightarrow> (Header, a, 24) \<in> G \<and> list_size x \<le> list_room x \<and>
     (if list_room x = 0 then list_at x = 0 else list_at x > 0 \<and> list_room x < 2 ^ 61 \<and> (List_Values a, list_at x, list_room x * 8) \<in> G)"

definition values_ok :: "nat set \<Rightarrow> arena_heap \<Rightarrow> region set \<Rightarrow> bool" where
  "values_ok static h G \<longleftrightarrow>
     (\<forall>t x. arena_texts h t = Some x \<longrightarrow> text_placed static G x \<and> (t \<in> static \<or> (Header, t, 40) \<in> G)) \<and>
     (\<forall>a x. arena_lists h a = Some x \<longrightarrow> list_placed G a x) \<and>
     (\<forall>s t. slice_cache h s = Some t \<longrightarrow> arena_texts h t \<noteq> None)"

lemma blocks_okD: "blocks_ok malloc h \<Longrightarrow> b \<in> set (blocks_of h n) \<Longrightarrow> block_ok malloc (malloc_calls h) b"
  by (simp add: blocks_ok_def)

section \<open>Alignment\<close>

lemma unat_below: "unat (w :: 64 word) < 2 ^ 64"
  by (rule order_less_le_trans [OF unsigned_less]) simp

lemma align_up:
  fixes u :: "64 word"
  assumes "a \<in> {1, 4, 8}" "unat u + 8 \<le> 2 ^ 64"
  shows "unat u \<le> unat (align_up u a)" "a = 8 \<Longrightarrow> 8 dvd unat (align_up u a)"
proof -
  obtain j :: nat where j: "j \<le> 3" "a - 1 = mask j" "unat (mask j :: 64 word) = 2 ^ j - 1" "a = 8 \<longrightarrow> j = 3"
  proof -
    have masks: "(3 :: 64 word) = mask 2" "(7 :: 64 word) = mask 3" by (simp_all add: mask_numeral)
    consider "a = 1" | "a = 4" | "a = 8" using assms(1) by auto
    then show thesis
    proof cases
      case 1
      then show ?thesis by (intro that [of 0]) simp_all
    next
      case 2
      then show ?thesis using masks(1) [symmetric] by (intro that [of 2]) simp_all
    next
      case 3
      then show ?thesis using masks(2) [symmetric] by (intro that [of 3]) simp_all
    qed
  qed
  let ?x = "u + mask j :: 64 word"
  have small: "(2 :: nat) ^ j \<le> 8" using power_increasing [of j 3 "2 :: nat"] j(1) by simp
  have x: "unat ?x = unat u + (2 ^ j - 1)"
  proof -
    have "unat u + (2 ^ j - 1) < 2 ^ 64" using assms(2) small by simp
    then show ?thesis using unat_add_lem [of u "mask j"] j(3) by simp
  qed
  have "?x AND NOT (mask j) = push_bit j (drop_bit j ?x)"
    by (rule bit_word_eqI) (auto simp: bit_simps)
  then have "unat (?x AND NOT (mask j)) = unat (push_bit j (drop_bit j ?x))" by simp
  also have "\<dots> = (unat ?x div 2 ^ j * 2 ^ j) mod 2 ^ 64"
    unfolding unsigned_push_bit_eq unat_drop_bit_eq by (simp add: push_bit_eq_mult drop_bit_eq_div take_bit_eq_mod)
  also have "\<dots> = unat ?x div 2 ^ j * 2 ^ j"
  proof -
    have "unat ?x div 2 ^ j * 2 ^ j \<le> unat ?x" by (rule div_times_less_eq_dividend)
    also have "\<dots> < 2 ^ 64" using unat_below [of ?x] by simp
    finally show ?thesis by simp
  qed
  finally have up: "unat (align_up u a) = (unat u + (2 ^ j - 1)) div 2 ^ j * 2 ^ j"
    using j(2) x by (simp add: align_up_def add_diff_eq [symmetric])
  have "unat u < (unat u + (2 ^ j - 1)) div 2 ^ j * 2 ^ j + 1"
  proof -
    have "unat u + (2 ^ j - 1) = (unat u + (2 ^ j - 1)) div 2 ^ j * 2 ^ j + (unat u + (2 ^ j - 1)) mod 2 ^ j"
      by (rule div_mult_mod_eq [symmetric])
    moreover have "(unat u + (2 ^ j - 1)) mod 2 ^ j \<le> 2 ^ j - 1"
      using mod_less_divisor [of "2 ^ j" "unat u + (2 ^ j - 1)"] by (simp add: Suc_le_eq [symmetric])
    ultimately show ?thesis by linarith
  qed
  then show "unat u \<le> unat (align_up u a)" using up by simp
  show "8 dvd unat (align_up u a)" if "a = 8"
    using that j(4) up by simp
qed

section \<open>Allocation and growth keep regions apart\<close>

lemma blocks_of_set [simp]:
  "blocks_of (set_blocks n bs h) m = (if m = n then bs else blocks_of h m)"
  "arena_memory (set_blocks n bs h) = arena_memory h" "arena_texts (set_blocks n bs h) = arena_texts h"
  "arena_lists (set_blocks n bs h) = arena_lists h" "slice_cache (set_blocks n bs h) = slice_cache h"
  "malloc_calls (set_blocks n bs h) = malloc_calls h"
  by (simp_all add: set_blocks_def)

text \<open>What allocation and growth leave as it was: everything but the blocks.\<close>

definition same_contents :: "arena_heap \<Rightarrow> arena_heap \<Rightarrow> bool" where
  "same_contents h h' \<longleftrightarrow> arena_memory h' = arena_memory h \<and> arena_texts h' = arena_texts h \<and>
     arena_lists h' = arena_lists h \<and> slice_cache h' = slice_cache h"

lemma block_space:
  assumes "fresh_malloc malloc static" "block_ok malloc k b"
  shows "0 < block_at b" "16 dvd block_data b" "block_data b + unat (block_capacity b) \<le> 2 ^ 64"
    "block_extent b \<inter> static = {}" "unat (block_used b) \<le> unat (block_capacity b)"
    "unat (block_used b) + 8 \<le> 2 ^ 64"
proof -
  obtain i where i: "malloc i (BLOCK_HEADER + unat (block_capacity b)) = Some (block_at b)"
    and used: "block_used b \<le> block_capacity b"
    using assms(2) by (auto simp: block_ok_def)
  have fresh: "0 < block_at b \<and> 16 dvd block_at b \<and> block_at b + (BLOCK_HEADER + unat (block_capacity b)) \<le> 2 ^ 64 \<and>
      {block_at b..<block_at b + (BLOCK_HEADER + unat (block_capacity b))} \<inter> static = {}"
    using assms(1) i unfolding fresh_malloc_def by blast
  have "(16 :: nat) dvd 32" by simp
  then show "0 < block_at b" "16 dvd block_data b" "block_data b + unat (block_capacity b) \<le> 2 ^ 64"
    "block_extent b \<inter> static = {}"
    using fresh by (auto simp: block_data_def BLOCK_HEADER_def add.assoc intro: dvd_add)
  show le: "unat (block_used b) \<le> unat (block_capacity b)" using used by (simp add: word_le_nat_alt)
  show "unat (block_used b) + 8 \<le> 2 ^ 64" using le fresh by (auto simp: BLOCK_HEADER_def)
qed

lemma same_block_top:
  assumes "blocks_ok malloc h" "regions_ok h G" "(u, p, l) \<in> G"
    "blocks_of h n = b # older" "x \<in> {p..<p + l}" "x \<in> block_extent b"
    and fresh: "fresh_malloc malloc static"
  shows "region_in (p, l) b"
proof -
  obtain m c where c: "c \<in> set (blocks_of h m)" "region_in (p, l) c"
    using assms(2,3) unfolding regions_ok_def by fast
  have "block_ok malloc (malloc_calls h) c" using assms(1) c(1) by (auto simp: blocks_ok_def)
  note space = block_space [OF fresh this]
  have "x \<in> block_extent c" using c(2) assms(5) space(5) by (auto simp: region_in_def block_data_def)
  moreover have "b \<in> set (blocks_of h n)" using assms(4) by simp
  ultimately have "b = c" using assms(1,6) c(1) unfolding blocks_ok_def by blast
  then show ?thesis using c(2) by simp
qed

text \<open>A change of the newest block of one arena that only uses more of it.\<close>

lemma blocks_ok_use:
  assumes "blocks_ok malloc h" "blocks_of h n = b # older" "used \<le> block_capacity b"
  shows "blocks_ok malloc (set_blocks n (b\<lparr>block_used := used\<rparr> # older) h)"
proof -
  let ?b = "b\<lparr>block_used := used\<rparr>" and ?h = "set_blocks n (b\<lparr>block_used := used\<rparr> # older) h"
  have b: "b \<in> set (blocks_of h n)" using assms(2) by simp
  have distinct: "distinct (b # older)" using assms(1,2) unfolding blocks_ok_def by metis
  have overlap: "n = m \<and> b = c" if "c \<in> set (blocks_of h m)" "block_extent b \<inter> block_extent c \<noteq> {}" for m c
    using assms(1) b that unfolding blocks_ok_def by blast
  have head: "?b \<notin> set older"
  proof
    assume old: "?b \<in> set older"
    then have "?b \<in> set (blocks_of h n)" using assms(2) by simp
    moreover have "block_at b \<in> block_extent b \<inter> block_extent ?b" by (simp add: block_data_def BLOCK_HEADER_def)
    ultimately have "b = ?b" using overlap by blast
    then show False using old distinct by simp
  qed
  have origin: "\<exists>d \<in> set (blocks_of h m). block_extent d = block_extent c \<and> (c = (if d = b \<and> m = n then ?b else d))"
    if "c \<in> set (blocks_of ?h m)" for m c
  proof (cases "m = n \<and> c = ?b")
    case True
    then show ?thesis using b by (intro bexI [of _ b]) (auto simp: block_data_def)
  next
    case False
    have "c \<in> set (blocks_of h m) \<and> \<not> (c = b \<and> m = n)"
    proof (cases "m = n")
      case True
      then have "c \<in> set older" using that False by simp
      then show ?thesis using assms(2) distinct True by auto
    next
      case False
      then show ?thesis using that by simp
    qed
    then show ?thesis by (intro bexI [of _ c]) auto
  qed
  show ?thesis unfolding blocks_ok_def
  proof (intro conjI allI ballI impI)
    fix m show "distinct (blocks_of ?h m)"
      using assms(1,2) head distinct by (auto simp: blocks_ok_def)
  next
    fix m c assume "c \<in> set (blocks_of ?h m)"
    from origin [OF this] obtain d where d: "d \<in> set (blocks_of h m)" "c = (if d = b \<and> m = n then ?b else d)" by blast
    have "block_ok malloc (malloc_calls h) d" using assms(1) d(1) by (auto simp: blocks_ok_def)
    then show "block_ok malloc (malloc_calls ?h) c" using d(2) assms(3) by (auto simp: block_ok_def)
  next
    fix m m' c c' assume c: "c \<in> set (blocks_of ?h m)" and c': "c' \<in> set (blocks_of ?h m')"
      and meet: "block_extent c \<inter> block_extent c' \<noteq> {}"
    obtain d where d: "d \<in> set (blocks_of h m)" "block_extent d = block_extent c" "c = (if d = b \<and> m = n then ?b else d)"
      using origin [OF c] by blast
    obtain d' where d': "d' \<in> set (blocks_of h m')" "block_extent d' = block_extent c'" "c' = (if d' = b \<and> m' = n then ?b else d')"
      using origin [OF c'] by blast
    have "m = m' \<and> d = d'" using assms(1) d(1,2) d'(1,2) meet unfolding blocks_ok_def by blast
    then show "m = m'" "c = c'" using d(3) d'(3) by auto
  qed
qed

lemma blocks_ok_new:
  assumes fresh: "fresh_malloc malloc static" and "blocks_ok malloc h"
    and got: "malloc (malloc_calls h) (BLOCK_HEADER + unat capacity) = Some address" and "used \<le> capacity"
  shows "blocks_ok malloc (set_blocks n (\<lparr>block_at = address, block_used = used, block_capacity = capacity\<rparr> # blocks_of h n)
      (h\<lparr>malloc_calls := malloc_calls h + 1\<rparr>))"
    "\<And>m c. c \<in> set (blocks_of h m) \<Longrightarrow>
      block_extent c \<inter> block_extent \<lparr>block_at = address, block_used = used, block_capacity = capacity\<rparr> = {}"
proof -
  let ?b = "\<lparr>block_at = address, block_used = used, block_capacity = capacity\<rparr>"
  let ?h = "set_blocks n (?b # blocks_of h n) (h\<lparr>malloc_calls := malloc_calls h + 1\<rparr>)"
  have ok: "block_ok malloc (malloc_calls h) c" if "c \<in> set (blocks_of h m)" for m c
    using assms(2) that by (auto simp: blocks_ok_def)
  show apart: "block_extent c \<inter> block_extent ?b = {}" if c: "c \<in> set (blocks_of h m)" for m c
  proof -
    obtain k where "k < malloc_calls h" "malloc k (BLOCK_HEADER + unat (block_capacity c)) = Some (block_at c)"
      using ok [OF c] by (auto simp: block_ok_def)
    then have "{block_at c..<block_at c + (BLOCK_HEADER + unat (block_capacity c))} \<inter>
        {address..<address + (BLOCK_HEADER + unat capacity)} = {}"
      using fresh got unfolding fresh_malloc_def by (metis nat_neq_iff)
    then show ?thesis by (simp add: block_data_def add.assoc)
  qed
  have nonempty: "block_extent c \<noteq> {}" for c by (simp add: block_data_def BLOCK_HEADER_def)
  have new: "?b \<notin> set (blocks_of h m)" for m using apart nonempty by (metis Int_absorb)
  show "blocks_ok malloc ?h" unfolding blocks_ok_def
  proof (intro conjI allI ballI impI)
    fix m show "distinct (blocks_of ?h m)" using assms(2) new by (auto simp: blocks_ok_def)
  next
    fix m c assume "c \<in> set (blocks_of ?h m)"
    then have "c = ?b \<or> c \<in> set (blocks_of h m)" by (auto split: if_splits)
    then show "block_ok malloc (malloc_calls ?h) c"
      using got assms(4) ok [of c m] by (auto simp: block_ok_def intro: less_SucI)
  next
    fix m m' c c' assume c: "c \<in> set (blocks_of ?h m)" and c': "c' \<in> set (blocks_of ?h m')"
      and meet: "block_extent c \<inter> block_extent c' \<noteq> {}"
    have cases: "c = ?b \<and> m = n \<or> c \<in> set (blocks_of h m)" "c' = ?b \<and> m' = n \<or> c' \<in> set (blocks_of h m')"
      using c c' by (auto split: if_splits)
    then have "m = m' \<and> c = c'"
      using apart [of c m] apart [of c' m'] meet assms(2) unfolding blocks_ok_def by (metis Int_commute)
    then show "m = m'" "c = c'" by auto
  qed
qed

lemma regions_ok_blocks:
  assumes "regions_ok h G"
    and "\<And>m c p l. c \<in> set (blocks_of h m) \<Longrightarrow> region_in (p, l) c \<Longrightarrow> \<exists>m' c'. c' \<in> set (blocks_of h' m') \<and> region_in (p, l) c'"
  shows "regions_ok h' G"
  using assms unfolding regions_ok_def by fast

lemma regions_ok_use:
  assumes "regions_ok h G" "blocks_of h n = b # older" "block_used b \<le> used"
  shows "regions_ok (set_blocks n (b\<lparr>block_used := used\<rparr> # older) h) G"
proof (rule regions_ok_blocks [OF assms(1)])
  let ?b = "b\<lparr>block_used := used\<rparr>"
  fix m c p l assume c: "c \<in> set (blocks_of h m)" "region_in (p, l) c"
  show "\<exists>m' c'. c' \<in> set (blocks_of (set_blocks n (?b # older) h) m') \<and> region_in (p, l) c'"
  proof (cases "m = n \<and> c = b")
    case True
    then have "region_in (p, l) ?b"
      using c(2) assms(3) by (auto simp: region_in_def block_data_def word_le_nat_alt)
    then show ?thesis by (intro exI [of _ n] exI [of _ ?b]) simp
  next
    case False
    then have "c \<in> set (blocks_of (set_blocks n (?b # older) h) m)" using c(1) assms(2) by auto
    then show ?thesis using c(2) by blast
  qed
qed

lemma regions_ok_insert:
  assumes "regions_ok h G" "aligned_use u p" "b \<in> set (blocks_of h n)" "region_in (p, l) b"
    and "\<And>u' p' l'. (u', p', l') \<in> G \<Longrightarrow> {p..<p + l} \<inter> {p'..<p' + l'} = {}"
  shows "regions_ok h (insert (u, p, l) G)"
  using assms unfolding regions_ok_def by (fast dest: equalityD1)

text \<open>What a granted region is: inside the arenas, away from static storage and from every earlier region.\<close>

definition new_region :: "nat set \<Rightarrow> region set \<Rightarrow> nat \<Rightarrow> nat \<Rightarrow> bool" where
  "new_region static G p l \<longleftrightarrow> 0 < p \<and> p + l \<le> 2 ^ 64 \<and> {p..<p + l} \<inter> static = {} \<and>
     (\<forall>(u', p', l') \<in> G. {p..<p + l} \<inter> {p'..<p' + l'} = {})"

lemma arena_grow_regions:
  assumes fresh: "fresh_malloc malloc static" and ok: "blocks_ok malloc h" "regions_ok h G"
    and step: "arena_grow malloc n amount alignment h = Inr (h', p)"
    and small: "alignment \<in> {1, 4, 8}"
  shows "blocks_ok malloc h' \<and> regions_ok h' (insert (u, p, unat amount) G) \<and> same_contents h h' \<and>
    new_region static G p (unat amount)"
proof -
  define capacity where "capacity = (if amount > arena_block_size (arenas h n) then amount else arena_block_size (arenas h n))"
  have step': "(if capacity > SIZE_T_MAX - of_nat BLOCK_HEADER - alignment then arena_out_of_memory
      else case malloc (malloc_calls h) (unat (of_nat BLOCK_HEADER + capacity)) of
          None \<Rightarrow> arena_out_of_memory
        | Some address \<Rightarrow> Inr (set_blocks n (\<lparr>block_at = address, block_used = amount, block_capacity = capacity\<rparr> # blocks_of h n)
            (h\<lparr>malloc_calls := malloc_calls h + 1\<rparr>), address + BLOCK_HEADER)) = Inr (h', p)"
    using step unfolding arena_grow_def Let_def capacity_def [symmetric] block_data_def arena_block.select_convs .
  then have fits: "capacity \<le> SIZE_T_MAX - of_nat BLOCK_HEADER - alignment"
    by (auto simp: arena_out_of_memory_def not_less split: if_splits)
  obtain address where got: "malloc (malloc_calls h) (unat (of_nat BLOCK_HEADER + capacity)) = Some address"
    and result: "h' = set_blocks n (\<lparr>block_at = address, block_used = amount, block_capacity = capacity\<rparr> # blocks_of h n)
        (h\<lparr>malloc_calls := malloc_calls h + 1\<rparr>)" "p = address + BLOCK_HEADER"
    using step' fits by (auto simp: arena_out_of_memory_def split: option.splits if_splits)
  let ?b = "\<lparr>block_at = address, block_used = amount, block_capacity = capacity\<rparr>"
  have "unat (of_nat BLOCK_HEADER + capacity) = BLOCK_HEADER + unat capacity"
  proof -
    have "unat capacity \<le> unat (SIZE_T_MAX - of_nat BLOCK_HEADER - alignment)" using fits by (simp add: word_le_nat_alt)
    also have "\<dots> \<le> 2 ^ 64 - 34" using small by (auto simp: SIZE_T_MAX_def BLOCK_HEADER_def)
    finally have "unat capacity + 32 < 2 ^ 64" by simp
    then show ?thesis using unat_add_lem [of "32 :: 64 word" capacity] by (simp add: BLOCK_HEADER_def)
  qed
  then have got': "malloc (malloc_calls h) (BLOCK_HEADER + unat capacity) = Some address" using got by simp
  have used: "amount \<le> capacity" by (simp add: capacity_def not_less)
  note new = blocks_ok_new [OF fresh ok(1) got' used]
  have blocks: "blocks_ok malloc h'" using new(1) [of n] result(1) by simp
  have b: "?b \<in> set (blocks_of h' n)" by (simp add: result(1))
  then have okb: "block_ok malloc (malloc_calls h') ?b" using blocks by (auto simp: blocks_ok_def)
  note space = block_space [OF fresh okb]
  have regions: "regions_ok h' G"
    by (rule regions_ok_blocks [OF ok(2)]) (auto simp: result(1))
  have region: "region_in (p, unat amount) ?b"
    by (simp add: region_in_def result(2) block_data_def)
  have inside: "{p..<p + unat amount} \<subseteq> block_extent ?b"
    using space(5) by (auto simp: result(2) block_data_def)
  have apart: "{p..<p + unat amount} \<inter> {p'..<p' + l'} = {}" if g: "(u', p', l') \<in> G" for u' p' l'
  proof -
    obtain m c where c: "c \<in> set (blocks_of h m)" "region_in (p', l') c" using ok(2) g unfolding regions_ok_def by fast
    have "block_ok malloc (malloc_calls h) c" using ok(1) c(1) by (auto simp: blocks_ok_def)
    from block_space(5) [OF fresh this] have "{p'..<p' + l'} \<subseteq> block_extent c"
      using c(2) by (auto simp: region_in_def block_data_def)
    then show ?thesis using new(2) [OF c(1)] inside by blast
  qed
  have "8 dvd p"
    using space(2) dvd_trans [of 8 16 "block_data ?b"] by (simp add: result(2) block_data_def)
  then have "regions_ok h' (insert (u, p, unat amount) G)"
    by (intro regions_ok_insert [OF regions _ b region apart]) (simp add: aligned_use_def)
  moreover have "new_region static G p (unat amount)" unfolding new_region_def
  proof (intro conjI)
    show "0 < p" by (simp add: result(2) BLOCK_HEADER_def)
    show "p + unat amount \<le> 2 ^ 64" using space(3,5) by (simp add: result(2) block_data_def)
    show "{p..<p + unat amount} \<inter> static = {}" using inside space(4) by blast
  qed (use apart in blast)
  moreover have "same_contents h h'" by (simp add: same_contents_def result(1))
  ultimately show ?thesis using blocks by simp
qed

lemma arena_allocate_regions:
  assumes fresh: "fresh_malloc malloc static" and ok: "blocks_ok malloc h" "regions_ok h G"
    and step: "arena_allocate malloc n amount alignment h = Inr (h', p)"
    and small: "alignment \<in> {1, 4, 8}" "u = Header \<or> (\<exists>l. u = List_Values l) \<Longrightarrow> alignment = 8"
  shows "blocks_ok malloc h' \<and> regions_ok h' (insert (u, p, unat amount) G) \<and> same_contents h h' \<and>
    new_region static G p (unat amount)"
proof (cases "arena_grow malloc n amount alignment h = Inr (h', p)")
  case True
  then show ?thesis by (rule arena_grow_regions [OF fresh ok _ small(1)])
next
  case False
  then obtain b older start where b: "blocks_of h n = b # older" "start = align_up (block_used b) alignment"
      "start \<le> block_capacity b" "amount \<le> block_capacity b - start"
      "h' = set_blocks n (b\<lparr>block_used := start + amount\<rparr> # older) h" "p = block_data b + unat start"
    using step by (auto simp: arena_allocate_def Let_def arena_out_of_memory_def split: list.splits if_splits)
  let ?b = "b\<lparr>block_used := start + amount\<rparr>"
  have okb: "block_ok malloc (malloc_calls h) b" by (rule blocks_okD [OF ok(1), of _ n]) (simp add: b(1))
  note space = block_space [OF fresh okb]
  have up: "unat (block_used b) \<le> unat start" "alignment = 8 \<Longrightarrow> 8 dvd unat start"
    using align_up [OF small(1) space(6)] b(2) by auto
  have sum: "unat (start + amount) = unat start + unat amount" "unat start + unat amount \<le> unat (block_capacity b)"
  proof -
    have "unat amount \<le> unat (block_capacity b) - unat start"
      using b(3,4) by (simp add: word_le_nat_alt unat_sub)
    then show le: "unat start + unat amount \<le> unat (block_capacity b)"
      using b(3) by (simp add: word_le_nat_alt)
    then show "unat (start + amount) = unat start + unat amount"
      using unat_below [of "block_capacity b"] unat_add_lem [of start amount] by simp
  qed
  have more: "block_used b \<le> start + amount" "start + amount \<le> block_capacity b"
    using up(1) sum by (simp_all add: word_le_nat_alt)
  have blocks: "blocks_ok malloc h'" using blocks_ok_use [OF ok(1) b(1) more(2)] b(5) by simp
  have regions: "regions_ok h' G" using regions_ok_use [OF ok(2) b(1) more(1)] b(5) by simp
  have member: "?b \<in> set (blocks_of h' n)" by (simp add: b(5))
  have region: "region_in (p, unat amount) ?b" using sum(1) by (simp add: region_in_def b(6) block_data_def)
  have inside: "{p..<p + unat amount} \<subseteq> block_extent b"
    using sum(2) by (auto simp: b(6) block_data_def)
  have apart: "{p..<p + unat amount} \<inter> {p'..<p' + l'} = {}" if g: "(u', p', l') \<in> G" for u' p' l'
  proof (rule ccontr)
    assume "{p..<p + unat amount} \<inter> {p'..<p' + l'} \<noteq> {}"
    then obtain x where x: "x \<in> {p..<p + unat amount}" "x \<in> {p'..<p' + l'}" by blast
    have "region_in (p', l') b"
      using same_block_top [OF ok g b(1) x(2) _ fresh] inside x(1) by blast
    then show False using x up(1) b(6) by (auto simp: region_in_def)
  qed
  have "aligned_use u p"
  proof -
    have "8 dvd block_data b" using space(2) by (rule dvd_trans [rotated]) simp
    then show ?thesis using up(2) small(2) b(6) by (auto simp: aligned_use_def intro: dvd_add)
  qed
  then have "regions_ok h' (insert (u, p, unat amount) G)"
    by (rule regions_ok_insert [OF regions _ member region apart])
  moreover have "new_region static G p (unat amount)" unfolding new_region_def
  proof (intro conjI)
    show "0 < p" by (simp add: b(6) block_data_def BLOCK_HEADER_def)
    show "p + unat amount \<le> 2 ^ 64" using space(3) sum(2) by (simp add: b(6))
    show "{p..<p + unat amount} \<inter> static = {}" using inside space(4) by blast
  qed (use apart in blast)
  moreover have "same_contents h h'" by (simp add: same_contents_def b(5))
  ultimately show ?thesis using blocks by simp
qed

lemma arena_extend_regions:
  assumes fresh: "fresh_malloc malloc static" and ok: "blocks_ok malloc h" "regions_ok h G"
    and step: "arena_extend n pointer old extra h = Some h'"
    and region: "(u, p, l) \<in> G" "p \<le> pointer" "pointer + unat old \<le> p + l" "0 < unat old"
  shows "p + l = pointer + unat old \<and> blocks_ok malloc h' \<and>
    regions_ok h' (insert (u, p, l + unat extra) (G - {(u, p, l)})) \<and> same_contents h h' \<and>
    {p..<p + l + unat extra} \<inter> static = {} \<and> p + l + unat extra \<le> 2 ^ 64"
proof -
  obtain b older where b: "blocks_of h n = b # older" "extra \<le> block_capacity b - block_used b"
      "pointer + unat old = block_data b + unat (block_used b)"
      "h' = set_blocks n (b\<lparr>block_used := block_used b + extra\<rparr> # older) h"
    using step by (auto simp: arena_extend_def not_less split: list.splits if_splits)
  let ?b = "b\<lparr>block_used := block_used b + extra\<rparr>"
  have okb: "block_ok malloc (malloc_calls h) b" by (rule blocks_okD [OF ok(1), of _ n]) (simp add: b(1))
  note space = block_space [OF fresh okb]
  have sum: "unat (block_used b + extra) = unat (block_used b) + unat extra"
    "unat (block_used b) + unat extra \<le> unat (block_capacity b)"
  proof -
    have "unat extra \<le> unat (block_capacity b) - unat (block_used b)"
      using b(2) okb by (simp add: word_le_nat_alt unat_sub block_ok_def)
    then show "unat (block_used b) + unat extra \<le> unat (block_capacity b)" using space(5) by simp
    then show "unat (block_used b + extra) = unat (block_used b) + unat extra"
      using unat_below [of "block_capacity b"] unat_add_lem [of "block_used b" extra] by simp
  qed
  have more: "block_used b \<le> block_used b + extra" "block_used b + extra \<le> block_capacity b"
    using sum by (simp_all add: word_le_nat_alt)
  have inb: "region_in (p, l) b"
  proof (rule same_block_top [OF ok region(1) b(1) _ _ fresh])
    show "pointer + unat old - 1 \<in> {p..<p + l}" using region(2-4) by auto
    show "pointer + unat old - 1 \<in> block_extent b"
      using region(4) b(3) space(5) by (auto simp: block_data_def BLOCK_HEADER_def)
  qed
  have top: "p + l = pointer + unat old" using inb b(3) region(3) by (simp add: region_in_def)
  have blocks: "blocks_ok malloc h'" using blocks_ok_use [OF ok(1) b(1) more(2)] b(4) by simp
  have "regions_ok h' G" using regions_ok_use [OF ok(2) b(1) more(1)] b(4) by simp
  then have regions: "regions_ok h' (G - {(u, p, l)})" unfolding regions_ok_def by fast
  have member: "?b \<in> set (blocks_of h' n)" by (simp add: b(4))
  have inb': "region_in (p, l + unat extra) ?b"
    using inb top b(3) sum(1) by (simp add: region_in_def block_data_def)
  have inside: "{p..<p + (l + unat extra)} \<subseteq> block_extent b"
    using inb top b(3) sum(2) by (auto simp: region_in_def block_data_def)
  have apart: "{p..<p + (l + unat extra)} \<inter> {p'..<p' + l'} = {}" if g: "(u', p', l') \<in> G - {(u, p, l)}" for u' p' l'
  proof (rule ccontr)
    assume "{p..<p + (l + unat extra)} \<inter> {p'..<p' + l'} \<noteq> {}"
    then obtain x where x: "x \<in> {p..<p + (l + unat extra)}" "x \<in> {p'..<p' + l'}" by blast
    have old: "{p..<p + l} \<inter> {p'..<p' + l'} = {}" using ok(2) region(1) g unfolding regions_ok_def by fast
    have "region_in (p', l') b" using same_block_top [OF ok _ b(1) x(2) _ fresh] inside x(1) g by blast
    then have "p' + l' \<le> p + l" using top b(3) by (simp add: region_in_def)
    then show False using x old by auto
  qed
  have "aligned_use u p" using ok(2) region(1) unfolding regions_ok_def by fast
  then have "regions_ok h' (insert (u, p, l + unat extra) (G - {(u, p, l)}))"
    by (rule regions_ok_insert [OF regions _ member inb' apart])
  moreover have "{p..<p + l + unat extra} \<inter> static = {}" using inside space(4) unfolding add.assoc by blast
  moreover have "p + l + unat extra \<le> 2 ^ 64" using space(3) sum(2) top b(3) by simp
  moreover have "same_contents h h'" by (simp add: same_contents_def b(4))
  ultimately show ?thesis using blocks top by blast
qed

end
