(* ===== verification/Arena_Values.thy ===== *)
theory Arena_Values
  imports Arena_Safe
begin

text \<open>
  The operations on Texts, Lists and records of the arena configuration: each keeps the regions apart, keeps
  the bytes of every Text and the values of every other List, and gives the value it is meant to give.
\<close>

definition arena_ok :: "malloc \<Rightarrow> nat set \<Rightarrow> arena_heap \<Rightarrow> region set \<Rightarrow> bool" where
  "arena_ok malloc static h G \<longleftrightarrow> blocks_ok malloc h \<and> regions_ok h G \<and> values_ok static h G"

text \<open>Every Text keeps its header and bytes, every List but the given ones its header and values.\<close>

definition keeps :: "nat set \<Rightarrow> arena_heap \<Rightarrow> arena_heap \<Rightarrow> bool" where
  "keeps ls h h' \<longleftrightarrow>
     (\<forall>t x. arena_texts h t = Some x \<longrightarrow> arena_texts h' t = Some x \<and> arena_content h' t = arena_content h t) \<and>
     (\<forall>a x. arena_lists h a = Some x \<longrightarrow> a \<notin> ls \<longrightarrow> arena_lists h' a = Some x \<and> arena_list_values h' a = arena_list_values h a)"

lemma keeps_trans: "keeps ls h h' \<Longrightarrow> keeps ls h' h'' \<Longrightarrow> keeps ls h h''"
  unfolding keeps_def by metis

lemma keeps_mono: "keeps ls h h' \<Longrightarrow> ls \<subseteq> ls' \<Longrightarrow> keeps ls' h h'"
  unfolding keeps_def by blast

lemma keeps_absent: "keeps {a} h h' \<Longrightarrow> arena_lists h a = None \<Longrightarrow> keeps {} h h'"
  unfolding keeps_def by (metis option.distinct(1) singletonD)

section \<open>Memory\<close>

lemma length_read_bytes [simp]: "length (read_bytes m p n) = n"
  by (simp add: read_bytes_def)

lemma nth_read_bytes [simp]: "i < n \<Longrightarrow> read_bytes m p n ! i = m (p + i)"
  by (simp add: read_bytes_def)

lemma read_bytes_cong: "(\<And>a. p \<le> a \<Longrightarrow> a < p + n \<Longrightarrow> m a = m' a) \<Longrightarrow> read_bytes m p n = read_bytes m' p n"
  by (simp add: read_bytes_def)

lemma read_bytes_append: "read_bytes m p (k + n) = read_bytes m p k @ read_bytes m (p + k) n"
  by (rule nth_equalityI) (auto simp: nth_append)

lemma write_bytes_fields [simp]:
  "arenas (write_bytes p bs h) = arenas h" "malloc_calls (write_bytes p bs h) = malloc_calls h"
  "arena_texts (write_bytes p bs h) = arena_texts h" "arena_lists (write_bytes p bs h) = arena_lists h"
  "slice_cache (write_bytes p bs h) = slice_cache h"
  by (simp_all add: write_bytes_def)

lemma read_written [simp]: "read_bytes (arena_memory (write_bytes p bs h)) p (length bs) = bs"
  by (rule nth_equalityI) (auto simp: write_bytes_def)

lemma read_unwritten:
  "{p..<p + n} \<inter> {q..<q + length bs} = {} \<Longrightarrow> read_bytes (arena_memory (write_bytes q bs h)) p n = read_bytes (arena_memory h) p n"
  by (rule read_bytes_cong) (auto simp: write_bytes_def)

lemma read_start_written:
  "k \<le> length bs \<Longrightarrow> read_bytes (arena_memory (write_bytes p bs h)) p k = take k bs"
  by (rule nth_equalityI) (auto simp: write_bytes_def)

lemma read_inside_written:
  "k + n \<le> length bs \<Longrightarrow> read_bytes (arena_memory (write_bytes p bs h)) (p + k) n = take n (drop k bs)"
  by (rule nth_equalityI) (auto simp: write_bytes_def)

lemma read_part: "k + n \<le> l \<Longrightarrow> take n (drop k (read_bytes m p l)) = read_bytes m (p + k) n"
  by (rule nth_equalityI) (auto simp: add.assoc)

text \<open>A change of memory that touches no byte of a Text and no slot of the other Lists.\<close>

lemma keepsI:
  assumes "\<And>t x. arena_texts h t = Some x \<Longrightarrow> arena_texts h' t = Some x"
    and "\<And>a x. arena_lists h a = Some x \<Longrightarrow> a \<notin> ls \<Longrightarrow> arena_lists h' a = Some x"
    and "\<And>t x p. arena_texts h t = Some x \<Longrightarrow> p \<in> {text_bytes x..<text_bytes x + text_size x} \<Longrightarrow>
      arena_memory h' p = arena_memory h p"
    and "\<And>a x p. arena_lists h a = Some x \<Longrightarrow> a \<notin> ls \<Longrightarrow> p \<in> {list_at x..<list_at x + list_size x * 8} \<Longrightarrow>
      arena_memory h' p = arena_memory h p"
  shows "keeps ls h h'"
  unfolding keeps_def
proof (intro conjI allI impI)
  fix t x assume t: "arena_texts h t = Some x"
  show t': "arena_texts h' t = Some x" using assms(1) [OF t] .
  have "read_bytes (arena_memory h') (text_bytes x) (text_size x) = read_bytes (arena_memory h) (text_bytes x) (text_size x)"
    using assms(3) [OF t] by (intro read_bytes_cong) simp
  then show "arena_content h' t = arena_content h t"
    using t t' by (simp add: arena_content_def arena_text_at_def)
next
  fix a x assume a: "arena_lists h a = Some x" "a \<notin> ls"
  show a': "arena_lists h' a = Some x" using assms(2) [OF a] .
  have "read_bytes (arena_memory h') (list_at x + i * 8) 8 = read_bytes (arena_memory h) (list_at x + i * 8) 8"
    if "i < list_size x" for i
    using that by (intro read_bytes_cong assms(4) [OF a]) auto
  then show "arena_list_values h' a = arena_list_values h a"
    using a(1) a' by (simp add: arena_list_values_def arena_list_at_def)
qed

lemma same_contents_keeps:
  assumes "same_contents h h'"
  shows "keeps ls h h'"
  using assms by (intro keepsI) (simp_all add: same_contents_def)

section \<open>Regions and values\<close>

lemma text_placed_transfer:
  assumes "text_placed static G x" "\<And>p l. (Bytes_Of_Text, p, l) \<in> G \<Longrightarrow> \<exists>l'. l \<le> l' \<and> (Bytes_Of_Text, p, l') \<in> G'"
  shows "text_placed static G' x"
proof (cases "{text_bytes x..<text_bytes x + text_size x + 1} \<subseteq> static")
  case True
  then show ?thesis using assms(1) by (simp add: text_placed_def)
next
  case False
  then obtain p l where g: "(Bytes_Of_Text, p, l) \<in> G" "p \<le> text_bytes x" "text_bytes x + text_size x + 1 \<le> p + l"
    using assms(1) by (auto simp: text_placed_def)
  obtain l' where "l \<le> l'" "(Bytes_Of_Text, p, l') \<in> G'" using assms(2) [OF g(1)] by blast
  moreover from this have "text_bytes x + text_size x + 1 \<le> p + l'" using g(3) by simp
  ultimately show ?thesis using assms(1) g(2) by (auto simp: text_placed_def)
qed

lemma text_placedI:
  "text_size x \<le> LLONG_TOP \<Longrightarrow> (Bytes_Of_Text, p, l) \<in> G \<Longrightarrow> p \<le> text_bytes x \<Longrightarrow>
   text_bytes x + text_size x + 1 \<le> p + l \<Longrightarrow> text_placed static G x"
  unfolding text_placed_def by blast

lemma list_placed_transfer:
  assumes "list_placed G a x" "\<And>p l. (Header, p, l) \<in> G \<Longrightarrow> (Header, p, l) \<in> G'"
    and "\<And>p l. (List_Values a, p, l) \<in> G \<Longrightarrow> (List_Values a, p, l) \<in> G'"
  shows "list_placed G' a x"
  using assms by (simp add: list_placed_def split: if_splits)

lemma values_ok_transfer:
  assumes "values_ok static h G" "\<And>p l. (Header, p, l) \<in> G \<Longrightarrow> (Header, p, l) \<in> G'"
    and "\<And>a p l. (List_Values a, p, l) \<in> G \<Longrightarrow> (List_Values a, p, l) \<in> G'"
    and "\<And>p l. (Bytes_Of_Text, p, l) \<in> G \<Longrightarrow> \<exists>l'. l \<le> l' \<and> (Bytes_Of_Text, p, l') \<in> G'"
  shows "values_ok static h G'"
  unfolding values_ok_def
proof (intro conjI allI impI)
  fix t x assume "arena_texts h t = Some x"
  then have "text_placed static G x" "t \<in> static \<or> (Header, t, 40) \<in> G" using assms(1) by (auto simp: values_ok_def)
  then show "text_placed static G' x" "t \<in> static \<or> (Header, t, 40) \<in> G'"
    using text_placed_transfer [OF _ assms(4)] assms(2) by blast+
next
  fix a x assume "arena_lists h a = Some x"
  then have "list_placed G a x" using assms(1) by (auto simp: values_ok_def)
  then show "list_placed G' a x" by (rule list_placed_transfer [OF _ assms(2,3)])
next
  fix s t assume "slice_cache h s = Some t"
  then show "arena_texts h t \<noteq> None" using assms(1) by (auto simp: values_ok_def)
qed

lemma values_ok_mono:
  assumes "values_ok static h G" "G \<subseteq> G'"
  shows "values_ok static h G'"
  by (rule values_ok_transfer [OF assms(1)]) (use assms(2) in blast)+

lemma values_ok_same: "same_contents h h' \<Longrightarrow> values_ok static h' G = values_ok static h G"
  by (simp add: values_ok_def same_contents_def)

lemma blocks_ok_cong: "arenas h' = arenas h \<Longrightarrow> malloc_calls h' = malloc_calls h \<Longrightarrow> blocks_ok malloc h' = blocks_ok malloc h"
  by (simp add: blocks_ok_def)

lemma regions_ok_cong: "arenas h' = arenas h \<Longrightarrow> regions_ok h' G = regions_ok h G"
  by (simp add: regions_ok_def)

lemma arena_ok_write: "arena_ok malloc static (write_bytes p bs h) G = arena_ok malloc static h G"
  using blocks_ok_cong [of "write_bytes p bs h" h] regions_ok_cong [of "write_bytes p bs h" h]
  by (simp add: arena_ok_def values_ok_def)

lemma regions_apart:
  "arena_ok malloc static h G \<Longrightarrow> (u, p, l) \<in> G \<Longrightarrow> (u', p', l') \<in> G \<Longrightarrow> (u, p, l) \<noteq> (u', p', l') \<Longrightarrow>
   {p..<p + l} \<inter> {p'..<p' + l'} = {}"
  unfolding arena_ok_def regions_ok_def by fast

lemma text_placedD:
  "arena_ok malloc static h G \<Longrightarrow> arena_texts h t = Some x \<Longrightarrow> text_placed static G x"
  by (auto simp: arena_ok_def values_ok_def)

lemma list_placedD:
  "arena_ok malloc static h G \<Longrightarrow> arena_lists h a = Some x \<Longrightarrow> list_placed G a x"
  by (auto simp: arena_ok_def values_ok_def)

lemma region_not_static:
  assumes fresh: "fresh_malloc malloc static" and ok: "arena_ok malloc static h G" and g: "(u, p, l) \<in> G"
  shows "{p..<p + l} \<inter> static = {}" "p + l \<le> 2 ^ 64" "0 < p"
proof -
  obtain n b where b: "b \<in> set (blocks_of h n)" "region_in (p, l) b"
    using ok g unfolding arena_ok_def regions_ok_def by fast
  have "block_ok malloc (malloc_calls h) b" using ok b(1) blocks_okD by (auto simp: arena_ok_def)
  note space = block_space [OF fresh this]
  show "{p..<p + l} \<inter> static = {}" "p + l \<le> 2 ^ 64" "0 < p"
    using b(2) space(3,4,5) by (auto simp: region_in_def block_data_def BLOCK_HEADER_def disjoint_iff)
qed

text \<open>Writing away from static storage and from every region, or over the terminator at a region's end.\<close>

lemma keeps_write:
  assumes "values_ok static h G" "{p..<p + length bs} \<inter> static = {}"
    and "\<And>u' p' l'. (u', p', l') \<in> G \<Longrightarrow>
      {p..<p + length bs} \<inter> {p'..<p' + l'} = {} \<or> u' = Bytes_Of_Text \<and> p' + l' \<le> p + 1 \<or> (\<exists>a \<in> ls. u' = List_Values a)"
  shows "keeps ls h (write_bytes p bs h)"
proof (rule keepsI)
  fix t x q assume t: "arena_texts h t = Some x" "q \<in> {text_bytes x..<text_bytes x + text_size x}"
  have "q \<notin> {p..<p + length bs}"
  proof
    assume q: "q \<in> {p..<p + length bs}"
    have "text_placed static G x" using assms(1) t(1) by (auto simp: values_ok_def)
    then consider "q \<in> static" | p' l' where "(Bytes_Of_Text, p', l') \<in> G" "q \<in> {p'..<p' + l'}" "q + 1 < p' + l'"
      using t(2) unfolding text_placed_def by (auto simp: subset_iff)
    then show False
    proof cases
      case 1
      then show ?thesis using assms(2) q by blast
    next
      case 2
      then have "p' + l' \<le> p + 1" using assms(3) [OF 2(1)] q by auto
      then show ?thesis using 2(3) q by simp
    qed
  qed
  then show "arena_memory (write_bytes p bs h) q = arena_memory h q" by (auto simp: write_bytes_def)
next
  fix a x q assume a: "arena_lists h a = Some x" "a \<notin> ls" "q \<in> {list_at x..<list_at x + list_size x * 8}"
  have "q \<notin> {p..<p + length bs}"
  proof
    assume q: "q \<in> {p..<p + length bs}"
    have "list_placed G a x" using assms(1) a(1) by (auto simp: values_ok_def)
    then have "(List_Values a, list_at x, list_room x * 8) \<in> G" "q \<in> {list_at x..<list_at x + list_room x * 8}"
      using a(3) by (auto simp: list_placed_def split: if_splits)
    then show False using assms(3) q a(2) by blast
  qed
  then show "arena_memory (write_bytes p bs h) q = arena_memory h q" by (auto simp: write_bytes_def)
qed simp_all

lemma arena_allocate_ok:
  assumes fresh: "fresh_malloc malloc static" and ok: "arena_ok malloc static h G"
    and step: "arena_allocate malloc n amount alignment h = Inr (h', p)"
    and small: "alignment \<in> {1, 4, 8}" "u = Header \<or> (\<exists>l. u = List_Values l) \<Longrightarrow> alignment = 8"
  shows "arena_ok malloc static h' (insert (u, p, unat amount) G)" "same_contents h h'" "new_region static G p (unat amount)"
proof -
  have blocks: "blocks_ok malloc h" "regions_ok h G" "values_ok static h G" using ok by (simp_all add: arena_ok_def)
  note regions = arena_allocate_regions [OF fresh blocks(1,2) step small]
  show same: "same_contents h h'" using regions by simp
  show "new_region static G p (unat amount)" using regions by simp
  have "values_ok static h' (insert (u, p, unat amount) G)"
    using values_ok_mono [OF blocks(3)] values_ok_same [OF same] by blast
  then show "arena_ok malloc static h' (insert (u, p, unat amount) G)" using regions by (simp add: arena_ok_def)
qed

section \<open>Texts\<close>

lemma new_textE:
  assumes "arena_new_text malloc bytes len characters h = Inr (h', t)"
  obtains h1 where "arena_allocate malloc Object_Arena 40 8 h = Inr (h1, t)"
    "h' = h1\<lparr>arena_texts := (arena_texts h1)(t := Some \<lparr>text_bytes = bytes, text_size = len, text_characters = characters\<rparr>)\<rparr>"
  using assms by (auto simp: arena_new_text_def arena_object_allocate_def rbind_eq_Inr)

lemma arena_new_text_ok:
  assumes fresh: "fresh_malloc malloc static" and ok: "arena_ok malloc static h G"
    and step: "arena_new_text malloc bytes len characters h = Inr (h', t)"
    and placed: "text_placed static G \<lparr>text_bytes = bytes, text_size = len, text_characters = characters\<rparr>"
  shows "arena_ok malloc static h' (insert (Header, t, 40) G)" "keeps {} h h'" "arena_texts h t = None"
    "arena_texts h' t = Some \<lparr>text_bytes = bytes, text_size = len, text_characters = characters\<rparr>"
    "arena_memory h' = arena_memory h" "slice_cache h' = slice_cache h"
proof -
  let ?x = "\<lparr>text_bytes = bytes, text_size = len, text_characters = characters\<rparr>"
  let ?G = "insert (Header, t, 40) G"
  obtain h1 where h1: "arena_allocate malloc Object_Arena 40 8 h = Inr (h1, t)"
    and h': "h' = h1\<lparr>arena_texts := (arena_texts h1)(t := Some ?x)\<rparr>"
    using step by (rule new_textE)
  note got = arena_allocate_ok [OF fresh ok h1, of Header, simplified]
  have same: "same_contents h h1" using got(2) .
  show "arena_memory h' = arena_memory h" "slice_cache h' = slice_cache h"
    using same by (simp_all add: h' same_contents_def)
  show at: "arena_texts h' t = Some ?x" by (simp add: h')
  show new: "arena_texts h t = None"
  proof (rule ccontr)
    assume "arena_texts h t \<noteq> None"
    then have "t \<in> static \<or> (Header, t, 40) \<in> G" using ok by (auto simp: arena_ok_def values_ok_def)
    moreover have "t \<in> {t..<t + 40}" by simp
    ultimately show False using got(3) unfolding new_region_def by blast
  qed
  show "keeps {} h h'"
    using same new by (intro keepsI) (auto simp: h' same_contents_def)
  have "values_ok static h1 ?G" using got(1) by (simp add: arena_ok_def)
  moreover have "text_placed static ?G ?x" using text_placed_transfer [OF placed] by blast
  ultimately have "values_ok static h' ?G" unfolding values_ok_def h' by auto
  then show "arena_ok malloc static h' ?G"
    using got(1) blocks_ok_cong [of h' h1] regions_ok_cong [of h' h1] by (simp add: arena_ok_def h')
qed

lemma content_of_new:
  assumes "arena_texts h t = Some \<lparr>text_bytes = bytes, text_size = len, text_characters = characters\<rparr>"
  shows "arena_content h t = read_bytes (arena_memory h) bytes len"
  by (simp add: arena_content_def arena_text_at_def assms)

lemma unat_size:
  assumes "n \<le> LLONG_TOP"
  shows "unat (of_nat n + 1 :: 64 word) = n + 1" "unat (of_nat n :: 64 word) = n"
proof -
  show n: "unat (of_nat n :: 64 word) = n" using assms by (simp add: LLONG_TOP_def unat_of_nat)
  show "unat (of_nat n + 1 :: 64 word) = n + 1"
    using assms unat_add_lem [of "of_nat n :: 64 word" 1] n by (simp add: LLONG_TOP_def)
qed

lemma arena_text_of_ok:
  assumes fresh: "fresh_malloc malloc static" and ok: "arena_ok malloc static h G"
    and step: "arena_text_of malloc data h = Inr (h', t)" and fits: "length data \<le> LLONG_TOP"
  shows "\<exists>G'. arena_ok malloc static h' G'" "keeps {} h h'" "arena_texts h t = None" "arena_content h' t = data"
    "arena_texts h' t \<noteq> None"
proof -
  obtain h1 bytes where h1: "arena_allocate malloc Data_Arena (of_nat (length data) + 1) 1 h = Inr (h1, bytes)"
    and made: "arena_new_text malloc bytes (length data) (- 1) (write_bytes bytes (data @ [0]) h1) = Inr (h', t)"
    using step by (auto simp: arena_text_of_def arena_new_bytes_def arena_data_allocate_def rbind_eq_Inr)
  let ?w = "write_bytes bytes (data @ [0]) h1"
  note got = arena_allocate_ok [OF fresh ok h1, of Bytes_Of_Text, simplified, unfolded unat_size [OF fits]]
  let ?G = "insert (Bytes_Of_Text, bytes, length data + 1) G"
  have okw: "arena_ok malloc static ?w ?G" using got(1) by (simp add: arena_ok_write)
  have placed: "text_placed static ?G \<lparr>text_bytes = bytes, text_size = length data, text_characters = - 1\<rparr>"
    using fits by (intro text_placedI [of _ bytes "length data + 1"]) auto
  note new = arena_new_text_ok [OF fresh okw made placed]
  show "\<exists>G'. arena_ok malloc static h' G'" using new(1) by blast
  have "values_ok static h1 G" using ok values_ok_same [OF got(2)] by (simp add: arena_ok_def)
  then have "keeps {} h1 ?w"
    by (rule keeps_write) (use got(3) in \<open>auto simp: new_region_def\<close>)
  then show "keeps {} h h'"
    using same_contents_keeps [OF got(2)] new(2) keeps_trans by blast
  show "arena_texts h t = None" using new(3) got(2) by (simp add: same_contents_def)
  show "arena_texts h' t \<noteq> None" using new(4) by simp
  show "arena_content h' t = data"
    by (simp add: content_of_new [OF new(4)] new(5) read_start_written)
qed

lemma write_write: "write_bytes (p + length bs) cs (write_bytes p bs h) = write_bytes p (bs @ cs) h"
proof -
  have "arena_memory (write_bytes (p + length bs) cs (write_bytes p bs h)) a = arena_memory (write_bytes p (bs @ cs) h) a" for a
    by (auto simp: write_bytes_def nth_append)
  then have "arena_memory (write_bytes (p + length bs) cs (write_bytes p bs h)) = arena_memory (write_bytes p (bs @ cs) h)" by blast
  then show ?thesis by (simp add: write_bytes_def)
qed

text \<open>Static storage never ends at the top of an arena.\<close>

lemma extend_not_static:
  assumes "fresh_malloc malloc static" "blocks_ok malloc h" "arena_extend n pointer old extra h = Some h'"
  shows "0 < unat old \<Longrightarrow> pointer + unat old - 1 \<notin> static"
proof -
  assume pos: "0 < unat old"
  obtain b older where b: "blocks_of h n = b # older" "pointer + unat old = block_data b + unat (block_used b)"
    using assms(3) by (auto simp: arena_extend_def split: list.splits if_splits)
  have "block_ok malloc (malloc_calls h) b" by (rule blocks_okD [OF assms(2), of _ n]) (simp add: b(1))
  note space = block_space [OF assms(1) this]
  have "pointer + unat old - 1 \<in> block_extent b"
    using pos b(2) space(5) by (auto simp: block_data_def BLOCK_HEADER_def)
  then show "pointer + unat old - 1 \<notin> static" using space(4) by blast
qed

lemma arena_join_text_ok:
  assumes fresh: "fresh_malloc malloc static" and ok: "arena_ok malloc static h G"
    and step: "arena_join_text malloc left right h = Inr (h', t)"
    and l: "arena_texts h left = Some l" and r: "arena_texts h right = Some r"
  shows "\<exists>G'. arena_ok malloc static h' G'" "keeps {} h h'" "arena_texts h t = None"
    "arena_content h' t = arena_content h left @ arena_content h right" "arena_texts h' t \<noteq> None"
proof -
  have pl: "text_placed static G l" and pr: "text_placed static G r" using text_placedD [OF ok] l r by auto
  have sizes: "text_size l \<le> LLONG_TOP" "text_size r \<le> LLONG_TOP" using pl pr by (simp_all add: text_placed_def)
  have contents: "arena_content h left = read_bytes (arena_memory h) (text_bytes l) (text_size l)"
    "arena_content h right = read_bytes (arena_memory h) (text_bytes r) (text_size r)"
    using l r by (simp_all add: arena_content_def arena_text_at_def)
  have small: "text_size l + text_size r \<le> LLONG_TOP"
    using step sizes l r by (auto simp: arena_join_text_def Let_def arena_text_at_def split: if_splits)
  let ?extend = "arena_extend Data_Arena (text_bytes l) (of_nat (text_size l) + 1) (of_nat (text_size r)) h"
  have goal: "(\<exists>G'. arena_ok malloc static h' G') \<and> keeps {} h h' \<and> arena_texts h t = None \<and>
    arena_content h' t = arena_content h left @ arena_content h right \<and> arena_texts h' t \<noteq> None"
  proof (cases ?extend)
    case None
    then have copied: "arena_text_of malloc (arena_content h left @ arena_content h right) h = Inr (h', t)"
      using step l r small by (auto simp: arena_join_text_def arena_join_by_copying_def Let_def arena_text_at_def split: if_splits)
    have "length (arena_content h left @ arena_content h right) \<le> LLONG_TOP" using small contents by simp
    from arena_text_of_ok [OF fresh ok copied this] show ?thesis by blast
  next
    case (Some h1)
    let ?start = "text_bytes l + text_size l" and ?r = "read_bytes (arena_memory h) (text_bytes r) (text_size r)"
    have blocks: "blocks_ok malloc h" "regions_ok h G" "values_ok static h G" using ok by (simp_all add: arena_ok_def)
    have old: "unat (of_nat (text_size l) + 1 :: 64 word) = text_size l + 1" "unat (of_nat (text_size r) :: 64 word) = text_size r"
      using unat_size sizes by blast+
    obtain p k where g: "(Bytes_Of_Text, p, k) \<in> G" "p \<le> text_bytes l" "text_bytes l + (text_size l + 1) \<le> p + k"
    proof -
      have "text_bytes l + text_size l \<notin> static" using extend_not_static [OF fresh blocks(1) Some] old(1) by simp
      moreover have "text_bytes l + text_size l \<in> {text_bytes l..<text_bytes l + text_size l + 1}" by simp
      ultimately have "\<not> {text_bytes l..<text_bytes l + text_size l + 1} \<subseteq> static" by blast
      then show thesis using pl that unfolding text_placed_def add.assoc by blast
    qed
    let ?G = "insert (Bytes_Of_Text, p, k + text_size r) (G - {(Bytes_Of_Text, p, k)})"
    note grown = arena_extend_regions [OF fresh blocks(1,2) Some g(1,2), unfolded old, OF g(3) zero_less_Suc [of "text_size l", unfolded Suc_eq_plus1]]
    have same: "same_contents h h1" using grown by simp
    have vals: "values_ok static h1 G" using blocks(3) values_ok_same [OF same] by simp
    have vals': "values_ok static h1 ?G"
    proof (rule values_ok_transfer [OF vals])
      fix p' l' assume "(Bytes_Of_Text, p', l') \<in> G"
      then show "\<exists>l''. l' \<le> l'' \<and> (Bytes_Of_Text, p', l'') \<in> ?G"
        by (cases "p' = p \<and> l' = k") (auto intro: exI [of _ "k + text_size r"] exI [of _ l'])
    qed auto
    let ?h = "write_bytes ?start (?r @ [0]) h1"
    have ok': "arena_ok malloc static ?h ?G" using grown vals' unfolding arena_ok_write by (simp add: arena_ok_def)
    have made: "arena_new_text malloc (text_bytes l) (text_size l + text_size r) (- 1) ?h = Inr (h', t)"
    proof -
      have "write_bytes (?start + text_size r) [0] (write_bytes ?start ?r h1) = ?h"
        using write_write [of ?start ?r "[0]" h1] by simp
      then show ?thesis using step Some small l r same
        by (auto simp: arena_join_text_def Let_def arena_text_at_def add.assoc same_contents_def split: if_splits)
    qed
    have "text_placed static ?G \<lparr>text_bytes = text_bytes l, text_size = text_size l + text_size r, text_characters = - 1\<rparr>"
      using small g(2) grown by (intro text_placedI [of _ p "k + text_size r"]) auto
    note new = arena_new_text_ok [OF fresh ok' made this]
    have "keeps {} h1 ?h"
    proof (rule keeps_write [OF vals])
      have inside: "{?start..<?start + length (?r @ [0])} \<subseteq> {p..<p + k + text_size r}" using g(2) grown by auto
      then show "{?start..<?start + length (?r @ [0])} \<inter> static = {}" using grown by blast
      fix u' p' l' assume g': "(u', p', l') \<in> G"
      show "{?start..<?start + length (?r @ [0])} \<inter> {p'..<p' + l'} = {} \<or> u' = Bytes_Of_Text \<and> p' + l' \<le> ?start + 1 \<or>
          (\<exists>a \<in> {}. u' = List_Values a)"
      proof (cases "(u', p', l') = (Bytes_Of_Text, p, k)")
        case True
        then show ?thesis using grown by simp
      next
        case False
        have apart: "{p..<p + k} \<inter> {p'..<p' + l'} = {}" using regions_apart [OF ok g(1) g'] False by auto
        have "p \<in> {p..<p + k}" using g(2,3) by simp
        then have "(Bytes_Of_Text, p, k + text_size r) \<noteq> (u', p', l')" using apart by auto
        then have "{p..<p + (k + text_size r)} \<inter> {p'..<p' + l'} = {}"
          using regions_apart [OF ok', of Bytes_Of_Text p "k + text_size r" u' p' l'] g' False by simp
        then show ?thesis using inside by (auto simp: add.assoc)
      qed
    qed
    then have keeps: "keeps {} h ?h" using same_contents_keeps [OF same] keeps_trans by blast
    have "arena_content h' t = read_bytes (arena_memory ?h) (text_bytes l) (text_size l + text_size r)"
      using content_of_new [OF new(4)] new(5) by simp
    also have "\<dots> = arena_content h left @ arena_content h right"
      using same by (simp add: read_bytes_append read_unwritten read_start_written contents same_contents_def)
    finally show ?thesis using new keeps keeps_trans same by (auto simp: same_contents_def)
  qed
  then show "\<exists>G'. arena_ok malloc static h' G'" "keeps {} h h'" "arena_texts h t = None"
    "arena_content h' t = arena_content h left @ arena_content h right" "arena_texts h' t \<noteq> None" by simp_all
qed

text \<open>Sharing a slice: a header over bytes of the Text, or the header of an equal slice that was shared before.\<close>

lemma arena_share_slice_ok:
  assumes fresh: "fresh_malloc malloc static" and ok: "arena_ok malloc static h G"
    and step: "arena_share_slice malloc whole first_byte last_byte characters h = Inr (h', t)"
    and w: "arena_texts h whole = Some w" and range: "first_byte \<le> last_byte" "last_byte \<le> text_size w"
  shows "\<exists>G'. arena_ok malloc static h' G'" "keeps {} h h'"
    "arena_content h' t = take (last_byte - first_byte) (drop first_byte (arena_content h whole))" "arena_texts h' t \<noteq> None"
proof -
  let ?len = "last_byte - first_byte" and ?bytes = "text_bytes w + first_byte"
  let ?part = "read_bytes (arena_memory h) ?bytes ?len"
  let ?x = "\<lparr>text_bytes = ?bytes, text_size = ?len, text_characters = characters\<rparr>"
  have part: "?part = take ?len (drop first_byte (arena_content h whole))"
    using range w by (intro nth_equalityI) (auto simp: arena_content_def arena_text_at_def add.assoc)
  have placed: "text_placed static G ?x"
  proof -
    have "text_placed static G w" using text_placedD [OF ok w] .
    moreover have "{?bytes..<?bytes + ?len + 1} \<subseteq> {text_bytes w..<text_bytes w + text_size w + 1}" using range by auto
    ultimately show ?thesis using range unfolding text_placed_def by fastforce
  qed
  have shared: "(\<exists>G'. arena_ok malloc static h1 G') \<and> keeps {} h h1 \<and> arena_content h1 t = ?part \<and> arena_texts h1 t \<noteq> None"
    if "arena_new_text malloc ?bytes ?len characters h = Inr (h1, t)" for h1
    using arena_new_text_ok [OF fresh ok that placed] content_of_new by auto
  have cached: "(\<exists>G'. arena_ok malloc static h' G') \<and> keeps {} h h' \<and> arena_content h' t = ?part \<and> arena_texts h' t \<noteq> None"
    if new: "arena_new_text malloc ?bytes ?len characters h = Inr (h1, t)" and h': "h' = h1\<lparr>slice_cache := (slice_cache h1)(s := Some t)\<rparr>"
    for h1 s
  proof -
    obtain G' where G': "arena_ok malloc static h1 G'" using shared [OF new] by blast
    have "values_ok static h' G'" using G' shared [OF new] unfolding arena_ok_def values_ok_def h' by auto
    then have "arena_ok malloc static h' G'"
      using G' blocks_ok_cong [of h' h1] regions_ok_cong [of h' h1] by (simp add: arena_ok_def h')
    moreover have "keeps {} h1 h'" by (rule keepsI) (simp_all add: h')
    moreover have "arena_content h' t = arena_content h1 t" by (simp add: h' arena_content_def arena_text_at_def)
    ultimately show ?thesis using shared [OF new] keeps_trans h' by auto
  qed
  have hit: "(\<exists>G'. arena_ok malloc static h' G') \<and> keeps {} h h' \<and> arena_content h' t = ?part \<and> arena_texts h' t \<noteq> None"
    if "slice_cache h s = Some c" "text_size (arena_text_at h c) = ?len"
      "read_bytes (arena_memory h) (text_bytes (arena_text_at h c)) ?len = ?part" "h' = h" "t = c" for s c
    using that ok by (auto simp: arena_content_def keeps_def arena_ok_def values_ok_def)
  let ?new = "arena_new_text malloc ?bytes ?len characters h" and ?slot = "slice_slot ?part"
  have at: "arena_text_at h whole = w" using w by (simp add: arena_text_at_def)
  have "(\<exists>G'. arena_ok malloc static h' G') \<and> keeps {} h h' \<and> arena_content h' t = ?part \<and> arena_texts h' t \<noteq> None"
  proof (cases "?len > 0 \<and> ?len \<le> SLICE_CACHE_BYTES")
    case False
    have "?new = Inr (h', t)" using step unfolding arena_share_slice_def Let_def at if_not_P [OF False] .
    then show ?thesis by (rule shared)
  next
    case True
    have miss: ?thesis if "rbind ?new (\<lambda>(h, t). Inr (h\<lparr>slice_cache := (slice_cache h)(?slot := Some t)\<rparr>, t)) = Inr (h', t)"
      using that cached by (auto simp: rbind_eq_Inr)
    show ?thesis
    proof (cases "slice_cache h ?slot")
      case None
      show ?thesis
        by (rule miss) (use step in \<open>unfold arena_share_slice_def Let_def at if_P [OF True] None option.case\<close>)
    next
      case (Some c)
      show ?thesis
      proof (cases "text_size (arena_text_at h c) = ?len \<and> read_bytes (arena_memory h) (text_bytes (arena_text_at h c)) ?len = ?part")
        case same: True
        have "Inr (h, c) = (Inr (h', t) :: string + arena_heap \<times> nat)"
          using step by (unfold arena_share_slice_def Let_def at if_P [OF True] Some option.case if_P [OF same])
        then have "h' = h" "t = c" by simp_all
        then show ?thesis by (rule hit [OF Some conjunct1 [OF same] conjunct2 [OF same]])
      next
        case False
        show ?thesis
          by (rule miss) (use step in \<open>unfold arena_share_slice_def Let_def at if_P [OF True] Some option.case if_not_P [OF False]\<close>)
      qed
    qed
  qed
  then show "\<exists>G'. arena_ok malloc static h' G'" "keeps {} h h'"
    "arena_content h' t = take (last_byte - first_byte) (drop first_byte (arena_content h whole))" "arena_texts h' t \<noteq> None"
    using part by simp_all
qed

section \<open>Lists and records\<close>

lemma put_list_fields [simp]:
  "arenas (put_list a x h) = arenas h" "malloc_calls (put_list a x h) = malloc_calls h"
  "arena_memory (put_list a x h) = arena_memory h" "arena_texts (put_list a x h) = arena_texts h"
  "arena_lists (put_list a x h) = (arena_lists h)(a := Some x)" "slice_cache (put_list a x h) = slice_cache h"
  by (simp_all add: put_list_def)

text \<open>A new header for one List over its region.\<close>

lemma arena_ok_put:
  assumes "blocks_ok malloc h" "regions_ok h G'" "list_placed G' a x"
    and "\<And>t y. arena_texts h t = Some y \<Longrightarrow> text_placed static G' y \<and> (t \<in> static \<or> (Header, t, 40) \<in> G')"
    and "\<And>b y. arena_lists h b = Some y \<Longrightarrow> b \<noteq> a \<Longrightarrow> list_placed G' b y"
    and "\<And>s t. slice_cache h s = Some t \<Longrightarrow> arena_texts h t \<noteq> None"
  shows "arena_ok malloc static (put_list a x h) G'"
  using assms blocks_ok_cong [of "put_list a x h" h] regions_ok_cong [of "put_list a x h" h]
  unfolding arena_ok_def values_ok_def by simp

lemma keeps_put: "keeps (insert a ls) h (put_list a x h)"
  by (rule keepsI) simp_all

lemma keeps_put_new: "arena_lists h a = None \<Longrightarrow> keeps ls h (put_list a x h)"
  by (rule keepsI) auto

lemma arena_list_new_ok:
  assumes fresh: "fresh_malloc malloc static" and ok: "arena_ok malloc static h G"
    and step: "arena_list_new malloc h = Inr (h', a)"
  shows "\<exists>G'. arena_ok malloc static h' G' \<and> (Header, a, 24) \<in> G'" "keeps {} h h'" "arena_lists h a = None"
    "arena_lists h' a = Some \<lparr>list_at = 0, list_size = 0, list_room = 0\<rparr>"
proof -
  let ?x = "\<lparr>list_at = 0, list_size = 0, list_room = 0\<rparr>" and ?G = "insert (Header, a, 24) G"
  obtain h1 where h1: "arena_allocate malloc Object_Arena 24 8 h = Inr (h1, a)" and h': "h' = put_list a ?x h1"
    using step by (auto simp: arena_list_new_def arena_object_allocate_def rbind_eq_Inr)
  note got = arena_allocate_ok [OF fresh ok h1, of Header, simplified]
  show new: "arena_lists h a = None"
  proof (rule ccontr)
    assume "arena_lists h a \<noteq> None"
    then have "(Header, a, 24) \<in> G" using ok by (auto simp: arena_ok_def values_ok_def list_placed_def)
    moreover have "a \<in> {a..<a + 24}" by simp
    ultimately show False using got(3) unfolding new_region_def by blast
  qed
  have "arena_ok malloc static h' ?G"
    unfolding h'
  proof (rule arena_ok_put)
    show "list_placed ?G a ?x" by (simp add: list_placed_def)
  qed (use got(1) in \<open>auto simp: arena_ok_def values_ok_def\<close>)
  then show "\<exists>G'. arena_ok malloc static h' G' \<and> (Header, a, 24) \<in> G'" by blast
  have "arena_lists h1 a = None" using new got(2) by (simp add: same_contents_def)
  then have "keeps {} h1 h'" unfolding h' by (rule keeps_put_new)
  then show "keeps {} h h'" using same_contents_keeps [OF got(2)] keeps_trans by blast
  show "arena_lists h' a = Some ?x" by (simp add: h')
qed

lemma unat_top: "unat SIZE_T_MAX = 2 ^ 64 - 1"
  by (simp add: SIZE_T_MAX_def unsigned_minus_1_eq_mask mask_eq_exp_minus_1)

lemma unat_times_8:
  assumes "n < 2 ^ 61"
  shows "unat (of_nat n * 8 :: 64 word) = n * 8"
proof -
  have n: "unat (of_nat n :: 64 word) = n" using assms by (simp add: unat_of_nat)
  have "unat (of_nat n :: 64 word) * unat (8 :: 64 word) < 2 ^ 64" using assms n by simp
  then show ?thesis using unat_mult_lem [of "of_nat n :: 64 word" 8] n by simp
qed

text \<open>A List that grows keeps its values, in place or in a fresh region, and gets more room.\<close>

lemma arena_list_grow_ok:
  assumes fresh: "fresh_malloc malloc static" and ok: "arena_ok malloc static h G"
    and step: "arena_list_grow malloc a h = Inr h'" and a: "arena_lists h a = Some x" and full: "list_size x = list_room x"
  shows "\<exists>G'. arena_ok malloc static h' G'" "keeps {a} h h'"
    "\<exists>y. arena_lists h' a = Some y \<and> list_size y = list_size x \<and> list_room x < list_room y"
    "arena_list_values h' a = arena_list_values h a"
proof -
  define room where "room = (if list_room x = 0 then 2 else if list_room x \<ge> ARENA_LARGE_LIST then list_room x * 4 else list_room x * 2)"
  have at: "arena_list_at h a = x" using a by (simp add: arena_list_at_def)
  have placed: "list_placed G a x" using list_placedD [OF ok a] .
  have "\<not> (room < list_room x \<or> room > unat SIZE_T_MAX div 8)"
  proof
    assume "room < list_room x \<or> room > unat SIZE_T_MAX div 8"
    from step show False
      unfolding arena_list_grow_def Let_def at room_def [symmetric] if_P [OF \<open>room < list_room x \<or> room > unat SIZE_T_MAX div 8\<close>]
      by simp
  qed
  note guard = this
  have more: "list_room x < room" by (simp add: room_def)
  have small: "room < 2 ^ 61" using guard by (simp add: unat_top)
  have amounts: "unat (of_nat room * 8 :: 64 word) = room * 8" "unat (of_nat (list_room x) * 8 :: 64 word) = list_room x * 8"
    "unat (of_nat (room - list_room x) * 8 :: 64 word) = (room - list_room x) * 8"
    by (rule unat_times_8; use small more in simp)+
  let ?grown = "if list_at x \<noteq> 0 \<and> list_arena_for (list_room x) = list_arena_for room
      then arena_extend (list_arena_for room) (list_at x) (of_nat (list_room x) * 8) (of_nat (room - list_room x) * 8) h else None"
  have step': "(case ?grown of
      Some h \<Rightarrow> Inr (put_list a (x\<lparr>list_room := room\<rparr>) h)
    | None \<Rightarrow> rbind (list_allocate malloc room (of_nat room * 8) h) (\<lambda>(h, values).
        let h = (if list_at x \<noteq> 0 then write_bytes values (read_bytes (arena_memory h) (list_at x) (list_size x * 8)) h else h) in
        Inr (put_list a (x\<lparr>list_at := values, list_room := room\<rparr>) h))) = Inr h'"
    using step unfolding arena_list_grow_def Let_def at room_def [symmetric] if_not_P [OF guard] .
  have blocks: "blocks_ok malloc h" "regions_ok h G" "values_ok static h G" using ok by (simp_all add: arena_ok_def)
  show "\<exists>G'. arena_ok malloc static h' G'" "keeps {a} h h'"
    "\<exists>y. arena_lists h' a = Some y \<and> list_size y = list_size x \<and> list_room x < list_room y"
    "arena_list_values h' a = arena_list_values h a"
  proof (atomize (full), cases ?grown)
    case (Some h1)
    then have extended: "arena_extend (list_arena_for room) (list_at x) (of_nat (list_room x) * 8) (of_nat (room - list_room x) * 8) h = Some h1"
      and at0: "list_at x \<noteq> 0" by (auto split: if_splits)
    have h': "h' = put_list a (x\<lparr>list_room := room\<rparr>) h1" using step' Some by simp
    have pos: "0 < list_room x" and g: "(List_Values a, list_at x, list_room x * 8) \<in> G" and header: "(Header, a, 24) \<in> G"
      using placed at0 by (auto simp: list_placed_def split: if_splits)
    let ?G = "insert (List_Values a, list_at x, list_room x * 8 + (room - list_room x) * 8) (G - {(List_Values a, list_at x, list_room x * 8)})"
    have wide: "list_room x * 8 + (room - list_room x) * 8 = room * 8" using more by simp
    have grown: "blocks_ok malloc h1 \<and> regions_ok h1 ?G \<and> same_contents h h1"
      using arena_extend_regions [OF fresh blocks(1,2) extended g order_refl, unfolded amounts] pos by simp
    have same: "same_contents h h1" using grown by simp
    have "arena_ok malloc static h' ?G" unfolding h'
    proof (rule arena_ok_put)
      show "list_placed ?G a (x\<lparr>list_room := room\<rparr>)"
        using header at0 full more small unfolding list_placed_def wide by simp
    next
      fix t y assume "arena_texts h1 t = Some y"
      then have "text_placed static G y \<and> (t \<in> static \<or> (Header, t, 40) \<in> G)"
        using blocks(3) same by (auto simp: values_ok_def same_contents_def)
      then show "text_placed static ?G y \<and> (t \<in> static \<or> (Header, t, 40) \<in> ?G)"
        using text_placed_transfer [of static G y ?G] by blast
    next
      fix b y assume "arena_lists h1 b = Some y" "b \<noteq> a"
      then have "list_placed G b y" "b \<noteq> a" using blocks(3) same by (auto simp: values_ok_def same_contents_def)
      then show "list_placed ?G b y" by (intro list_placed_transfer [of G b y ?G]) auto
    next
      fix s t assume "slice_cache h1 s = Some t"
      then show "arena_texts h1 t \<noteq> None" using blocks(3) same by (auto simp: values_ok_def same_contents_def)
    qed (use grown in simp_all)
    moreover have "keeps {a} h h'"
      using same_contents_keeps [OF same] keeps_put [of a "{}" h1] keeps_trans unfolding h' by blast
    moreover have "arena_list_values h' a = arena_list_values h a"
      using same a by (simp add: h' arena_list_values_def arena_list_at_def same_contents_def)
    ultimately show "((\<exists>G'. arena_ok malloc static h' G') \<and> keeps {a} h h') \<and>
      (\<exists>y. arena_lists h' a = Some y \<and> list_size y = list_size x \<and> list_room x < list_room y) \<and>
      arena_list_values h' a = arena_list_values h a" using more by (auto simp: h')
  next
    case None
    then obtain h1 v where got: "arena_allocate malloc (list_arena_for room) (of_nat room * 8) 8 h = Inr (h1, v)"
      and h': "h' = put_list a (x\<lparr>list_at := v, list_room := room\<rparr>)
        (if list_at x \<noteq> 0 then write_bytes v (read_bytes (arena_memory h1) (list_at x) (list_size x * 8)) h1 else h1)"
      using step' by (auto simp: list_allocate_def rbind_eq_Inr Let_def)
    let ?h = "if list_at x \<noteq> 0 then write_bytes v (read_bytes (arena_memory h1) (list_at x) (list_size x * 8)) h1 else h1"
    let ?G = "insert (List_Values a, v, room * 8) G"
    have "arena_ok malloc static h1 ?G" "same_contents h h1" "new_region static G v (room * 8)"
      using arena_allocate_ok [OF fresh ok got, of "List_Values a"] amounts(1) by simp_all
    note new = this
    have okh: "arena_ok malloc static ?h ?G" using new(1) by (simp add: arena_ok_write)
    have lists: "arena_lists ?h = arena_lists h" using new(2) by (simp add: same_contents_def)
    have "arena_ok malloc static h' ?G" unfolding h'
    proof (rule arena_ok_put)
      show "list_placed ?G a (x\<lparr>list_at := v, list_room := room\<rparr>)"
        using placed full more small new(3) by (simp add: list_placed_def new_region_def)
    qed (use okh in \<open>auto simp: arena_ok_def values_ok_def\<close>)
    moreover have "keeps {a} h h'"
    proof -
      have "values_ok static h1 G" using blocks(3) values_ok_same [OF new(2)] by simp
      moreover have "{v..<v + length (read_bytes (arena_memory h1) (list_at x) (list_size x * 8))} \<subseteq> {v..<v + room * 8}"
        using full more by auto
      ultimately have "keeps {a} h1 (write_bytes v (read_bytes (arena_memory h1) (list_at x) (list_size x * 8)) h1)"
        using new(3) unfolding new_region_def by (intro keeps_write) blast+
      then have "keeps {a} h1 ?h" using same_contents_keeps [of h1 h1] by (simp add: same_contents_def)
      then show ?thesis
        using same_contents_keeps [OF new(2)] keeps_put [of a "{}" ?h] keeps_trans unfolding h' by blast
    qed
    moreover have "arena_list_values h' a = arena_list_values h a"
    proof (cases "list_at x = 0")
      case True
      then have "list_size x = 0" using placed full by (auto simp: list_placed_def split: if_splits)
      then show ?thesis using a by (simp add: h' arena_list_values_def arena_list_at_def)
    next
      case False
      have "read_bytes (arena_memory ?h) (v + i * 8) 8 = read_bytes (arena_memory h) (list_at x + i * 8) 8" if "i < list_size x" for i
        using that False new(2) by (simp add: read_inside_written read_part same_contents_def)
      then show ?thesis using a by (simp add: h' arena_list_values_def arena_list_at_def)
    qed
    ultimately show "((\<exists>G'. arena_ok malloc static h' G') \<and> keeps {a} h h') \<and>
      (\<exists>y. arena_lists h' a = Some y \<and> list_size y = list_size x \<and> list_room x < list_room y) \<and>
      arena_list_values h' a = arena_list_values h a" using more by (auto simp: h')
  qed
qed

lemma load_store: "load_bytes (store_bytes 8 v) = (v :: 64 word)"
proof (rule bit_word_eqI)
  fix k assume "k < LENGTH(64)"
  then have "k div 8 < 8" by (simp add: less_mult_imp_div_less)
  then show "bit (load_bytes (store_bytes 8 v) :: 64 word) k = bit v k"
    using \<open>k < LENGTH(64)\<close> by (simp add: bit_load_bytes store_bytes_def bit_simps)
qed

lemma arena_list_add_ok:
  assumes fresh: "fresh_malloc malloc static" and ok: "arena_ok malloc static h G"
    and step: "arena_list_add malloc a v h = Inr h'" and a: "arena_lists h a = Some x"
  shows "\<exists>G'. arena_ok malloc static h' G'" "keeps {a} h h'" "arena_lists h' a \<noteq> None"
    "arena_list_values h' a = arena_list_values h a @ [v]"
proof -
  obtain h1 where h1: "(if list_size x = list_room x then arena_list_grow malloc a h else Inr h) = Inr h1"
    and h': "h' = (let y = arena_list_at h1 a in
      put_list a (y\<lparr>list_size := list_size y + 1\<rparr>) (write_bytes (list_at y + list_size y * 8) (store_bytes 8 v) h1))"
    using step a by (auto simp: arena_list_add_def rbind_eq_Inr arena_list_at_def Let_def split: if_splits)
  have "(\<exists>G'. arena_ok malloc static h1 G') \<and> keeps {a} h h1 \<and> arena_list_values h1 a = arena_list_values h a \<and>
    (\<exists>y. arena_lists h1 a = Some y \<and> list_size y < list_room y)"
  proof (cases "list_size x = list_room x")
    case True
    then have "arena_list_grow malloc a h = Inr h1" using h1 by simp
    from arena_list_grow_ok [OF fresh ok this a True] show ?thesis using True by auto
  next
    case False
    moreover have "list_size x \<le> list_room x" using list_placedD [OF ok a] by (simp add: list_placed_def)
    ultimately show ?thesis using h1 ok a by (auto simp: keeps_def)
  qed
  then obtain G1 y where ok1: "arena_ok malloc static h1 G1" and keeps: "keeps {a} h h1"
    and same: "arena_list_values h1 a = arena_list_values h a"
    and y: "arena_lists h1 a = Some y" "list_size y < list_room y" by blast
  have placed: "list_placed G1 a y" using list_placedD [OF ok1 y(1)] .
  then have g: "(List_Values a, list_at y, list_room y * 8) \<in> G1" using y(2) by (auto simp: list_placed_def split: if_splits)
  let ?p = "list_at y + list_size y * 8"
  let ?h = "write_bytes ?p (store_bytes 8 v) h1"
  have h'': "h' = put_list a (y\<lparr>list_size := list_size y + 1\<rparr>) ?h" using y(1) by (simp add: h' arena_list_at_def Let_def)
  have okw: "arena_ok malloc static ?h G1" using ok1 by (simp add: arena_ok_write)
  have "arena_ok malloc static h' G1" unfolding h''
  proof (rule arena_ok_put)
    show "list_placed G1 a (y\<lparr>list_size := list_size y + 1\<rparr>)" using placed y(2) by (auto simp: list_placed_def split: if_splits)
  qed (use okw in \<open>auto simp: arena_ok_def values_ok_def\<close>)
  then show "\<exists>G'. arena_ok malloc static h' G'" by blast
  have inside: "{?p..<?p + length (store_bytes 8 v)} \<subseteq> {list_at y..<list_at y + list_room y * 8}" using y(2) by auto
  have "keeps {a} h1 ?h"
  proof (rule keeps_write)
    show "values_ok static h1 G1" using ok1 by (simp add: arena_ok_def)
    show "{?p..<?p + length (store_bytes 8 v)} \<inter> static = {}" using region_not_static(1) [OF fresh ok1 g] inside by blast
    fix u' p' l' assume g': "(u', p', l') \<in> G1"
    show "{?p..<?p + length (store_bytes 8 v)} \<inter> {p'..<p' + l'} = {} \<or> u' = Bytes_Of_Text \<and> p' + l' \<le> ?p + 1 \<or>
        (\<exists>a' \<in> {a}. u' = List_Values a')"
    proof (cases "u' = List_Values a")
      case False
      then have "{list_at y..<list_at y + list_room y * 8} \<inter> {p'..<p' + l'} = {}" using regions_apart [OF ok1 g g'] by auto
      then show ?thesis using inside by blast
    qed simp
  qed
  then show "keeps {a} h h'"
    using keeps keeps_put [of a "{}" ?h] keeps_trans unfolding h'' by blast
  show "arena_lists h' a \<noteq> None" by (simp add: h'')
  have old: "read_bytes (arena_memory ?h) (list_at y + i * 8) 8 = read_bytes (arena_memory h1) (list_at y + i * 8) 8"
    if "i < list_size y" for i
    using that by (intro read_unwritten) (auto simp: disjoint_iff)
  have last: "read_bytes (arena_memory ?h) ?p 8 = store_bytes 8 v"
    using read_written [of ?p "store_bytes 8 v" h1] by simp
  have "arena_list_values h' a = arena_list_values h1 a @ [v]"
    using y(1) old last by (simp add: h'' arena_list_values_def arena_list_at_def load_store)
  then show "arena_list_values h' a = arena_list_values h a @ [v]" using same by simp
qed

lemma arena_record_allocate_ok:
  assumes fresh: "fresh_malloc malloc static" and ok: "arena_ok malloc static h G"
    and step: "arena_record_allocate malloc n h = Inr (h', a)"
  shows "\<exists>G'. arena_ok malloc static h' G'" "keeps {} h h'" "arena_lists h a = None" "arena_lists h' a \<noteq> None"
    "arena_list_values h' a = replicate n 0"
proof -
  have guard: "\<not> n > unat SIZE_T_MAX div 8" using step by (auto simp: arena_record_allocate_def)
  have small: "n < 2 ^ 61" using guard by (simp add: unat_top)
  let ?fields = "\<lambda>(h, l). if n > 0 then rbind (list_allocate malloc n (of_nat n * 8) h) (\<lambda>(h, v).
        Inr (put_list l \<lparr>list_at = v, list_size = n, list_room = n\<rparr> (write_bytes v (replicate (n * 8) 0) h), l))
      else Inr (put_list l \<lparr>list_at = 0, list_size = n, list_room = n\<rparr> h, l)"
  have "rbind (arena_list_new malloc h) ?fields = Inr (h', a)"
    using step unfolding arena_record_allocate_def if_not_P [OF guard] .
  then obtain z where z: "arena_list_new malloc h = Inr z" "?fields z = Inr (h', a)" unfolding rbind_eq_Inr by blast
  have "snd z = a"
  proof (cases z)
    case (Pair h1 l)
    then show ?thesis using z(2) by (cases "n > 0") (auto simp: rbind_eq_Inr)
  qed
  then obtain h1 where pair: "z = (h1, a)" by (cases z) simp
  note h1 = z(1) [unfolded pair] and rest = z(2) [unfolded pair, simplified]
  note new = arena_list_new_ok [OF fresh ok h1]
  obtain G1 where ok1: "arena_ok malloc static h1 G1" and header: "(Header, a, 24) \<in> G1" using new(1) by blast
  show none: "arena_lists h a = None" using new(3) .
  have keeps_new: "keeps {} h h2" if "keeps {a} h1 h2" for h2
  proof -
    have "keeps {a} h h2" using keeps_mono [OF new(2)] that keeps_trans by blast
    then show ?thesis by (rule keeps_absent) (rule none)
  qed
  have "(\<exists>G'. arena_ok malloc static h' G') \<and> keeps {} h h' \<and> arena_lists h' a \<noteq> None \<and> arena_list_values h' a = replicate n 0"
  proof (cases "n > 0")
    case False
    then have h': "h' = put_list a \<lparr>list_at = 0, list_size = n, list_room = n\<rparr> h1" "n = 0" using rest by simp_all
    have "arena_ok malloc static h' G1" unfolding h'
    proof (rule arena_ok_put)
      show "list_placed G1 a \<lparr>list_at = 0, list_size = 0, list_room = 0\<rparr>" using header by (simp add: list_placed_def)
    qed (use ok1 in \<open>auto simp: arena_ok_def values_ok_def\<close>)
    moreover have "keeps {} h h'" unfolding h'(1) by (rule keeps_new [OF keeps_put])
    ultimately show ?thesis by (auto simp: h' arena_list_values_def arena_list_at_def)
  next
    case True
    then obtain h2 v where got: "arena_allocate malloc (list_arena_for n) (of_nat n * 8) 8 h1 = Inr (h2, v)"
      and h': "h' = put_list a \<lparr>list_at = v, list_size = n, list_room = n\<rparr> (write_bytes v (replicate (n * 8) 0) h2)"
      using rest by (auto simp: list_allocate_def rbind_eq_Inr)
    let ?G = "insert (List_Values a, v, n * 8) G1" and ?h = "write_bytes v (replicate (n * 8) 0) h2"
    have "arena_ok malloc static h2 ?G" "same_contents h1 h2" "new_region static G1 v (n * 8)"
      using arena_allocate_ok [OF fresh ok1 got, of "List_Values a"] unat_times_8 [OF small] by simp_all
    note region = this
    have okw: "arena_ok malloc static ?h ?G" using region(1) by (simp add: arena_ok_write)
    have "arena_ok malloc static h' ?G" unfolding h'
    proof (rule arena_ok_put)
      show "list_placed ?G a \<lparr>list_at = v, list_size = n, list_room = n\<rparr>"
        using header small True region(3) by (simp add: list_placed_def new_region_def)
    qed (use okw in \<open>auto simp: arena_ok_def values_ok_def\<close>)
    moreover have "keeps {} h h'"
    proof (rule keeps_new)
      have "values_ok static h2 G1" using ok1 values_ok_same [OF region(2)] by (simp add: arena_ok_def)
      then have "keeps {a} h2 ?h" by (rule keeps_write) (use region(3) in \<open>auto simp: new_region_def\<close>)
      then show "keeps {a} h1 h'"
        using same_contents_keeps [OF region(2)] keeps_put [of a "{}" ?h] keeps_trans unfolding h' by blast
    qed
    moreover have "arena_list_values h' a = replicate n 0"
    proof -
      have "read_bytes (arena_memory ?h) (v + i * 8) 8 = replicate 8 0" if "i < n" for i
        using that by (simp add: read_inside_written min_def)
      moreover have "load_bytes (replicate 8 0) = (0 :: 64 word)" by (simp add: eval_nat_numeral)
      ultimately show ?thesis
        by (intro nth_equalityI) (simp_all add: h' arena_list_values_def arena_list_at_def)
    qed
    ultimately show ?thesis by (auto simp: h')
  qed
  then show "\<exists>G'. arena_ok malloc static h' G'" "keeps {} h h'" "arena_lists h' a \<noteq> None"
    "arena_list_values h' a = replicate n 0" by simp_all
qed

end
