(* ===== verification/Arena_Runs.thy ===== *)
theory Arena_Runs
  imports Arena_Values
begin

text \<open>
  Runs of a program on the arenas, from the start of the process, and what holds in all of them.
\<close>

section \<open>Calls\<close>

text \<open>
  A literal's header and bytes are in static storage; an index is raw data of the data arena. The bounds of a
  slice are those \<open>minyar_text_slice\<close> has checked before it shares.
\<close>

datatype arena_call =
    Literal nat nat nat int
  | Index_Data "64 word" "64 word"
  | Make_Text "byte list"
  | Join nat nat
  | Slice nat nat nat int
  | New_List
  | Add nat "64 word"
  | New_Record nat

definition pair_up :: "(string + arena_heap) \<Rightarrow> nat \<Rightarrow> string + (arena_heap \<times> nat)" where
  "pair_up r a = rbind r (\<lambda>h. Inr (h, a))"

lemma pair_up_Inr: "pair_up q a = Inr (h', r) \<longleftrightarrow> q = Inr h' \<and> r = a"
  by (cases q) (auto simp: pair_up_def)

fun do_call :: "malloc \<Rightarrow> arena_call \<Rightarrow> arena_heap \<Rightarrow> string + (arena_heap \<times> nat)" where
  "do_call malloc (Literal t bytes len characters) h =
     Inr (h\<lparr>arena_texts := (arena_texts h)(t := Some \<lparr>text_bytes = bytes, text_size = len, text_characters = characters\<rparr>)\<rparr>, t)"
| "do_call malloc (Index_Data amount alignment) h = arena_data_allocate malloc amount alignment h"
| "do_call malloc (Make_Text data) h = arena_text_of malloc data h"
| "do_call malloc (Join left right) h = arena_join_text malloc left right h"
| "do_call malloc (Slice t first_byte last_byte characters) h = arena_share_slice malloc t first_byte last_byte characters h"
| "do_call malloc New_List h = arena_list_new malloc h"
| "do_call malloc (Add l v) h = pair_up (arena_list_add malloc l v h) l"
| "do_call malloc (New_Record n) h = arena_record_allocate malloc n h"

text \<open>What a call may be applied to.\<close>

fun arena_allowed :: "nat set \<Rightarrow> arena_call \<Rightarrow> arena_heap \<Rightarrow> bool" where
  "arena_allowed static (Literal t bytes len characters) h \<longleftrightarrow>
     t \<in> static \<and> arena_texts h t = None \<and> len \<le> LLONG_TOP \<and> {bytes..<bytes + len + 1} \<subseteq> static"
| "arena_allowed static (Index_Data amount alignment) h \<longleftrightarrow> alignment \<in> {4, 8}"
| "arena_allowed static (Make_Text data) h \<longleftrightarrow> length data \<le> LLONG_TOP"
| "arena_allowed static (Join left right) h \<longleftrightarrow> arena_texts h left \<noteq> None \<and> arena_texts h right \<noteq> None"
| "arena_allowed static (Slice t first_byte last_byte characters) h \<longleftrightarrow>
     arena_texts h t \<noteq> None \<and> first_byte \<le> last_byte \<and> last_byte \<le> text_size (arena_text_at h t)"
| "arena_allowed static New_List h \<longleftrightarrow> True"
| "arena_allowed static (Add l v) h \<longleftrightarrow> arena_lists h l \<noteq> None"
| "arena_allowed static (New_Record n) h \<longleftrightarrow> True"

text \<open>Lists a call may change.\<close>

fun call_changes :: "arena_call \<Rightarrow> nat set" where
  "call_changes (Add l v) = {l}"
| "call_changes _ = {}"

inductive arena_runs :: "malloc \<Rightarrow> nat set \<Rightarrow> arena_heap \<Rightarrow> bool" for malloc static where
  start: "arena_runs malloc static (arena_start m)"
| call: "arena_runs malloc static h \<Longrightarrow> arena_allowed static c h \<Longrightarrow> do_call malloc c h = Inr (h', r) \<Longrightarrow>
    arena_runs malloc static h'"

text \<open>What the call's result is, over what was there before.\<close>

fun call_result :: "arena_call \<Rightarrow> arena_heap \<Rightarrow> arena_heap \<Rightarrow> nat \<Rightarrow> bool" where
  "call_result (Literal t bytes len characters) h h' r \<longleftrightarrow> r = t \<and> arena_content h' r = read_bytes (arena_memory h) bytes len"
| "call_result (Index_Data amount alignment) h h' r \<longleftrightarrow> True"
| "call_result (Make_Text data) h h' r \<longleftrightarrow> arena_texts h' r \<noteq> None \<and> arena_content h' r = data"
| "call_result (Join left right) h h' r \<longleftrightarrow> arena_texts h r = None \<and> arena_texts h' r \<noteq> None \<and>
     arena_content h' r = arena_content h left @ arena_content h right"
| "call_result (Slice t first_byte last_byte characters) h h' r \<longleftrightarrow> arena_texts h' r \<noteq> None \<and>
     arena_content h' r = take (last_byte - first_byte) (drop first_byte (arena_content h t))"
| "call_result New_List h h' r \<longleftrightarrow> arena_lists h r = None \<and> arena_lists h' r \<noteq> None \<and> arena_list_values h' r = []"
| "call_result (Add l v) h h' r \<longleftrightarrow> r = l \<and> arena_lists h' l \<noteq> None \<and> arena_list_values h' l = arena_list_values h l @ [v]"
| "call_result (New_Record n) h h' r \<longleftrightarrow> arena_lists h r = None \<and> arena_lists h' r \<noteq> None \<and>
     arena_list_values h' r = replicate n 0"

section \<open>Every call is correct in every run\<close>

lemma arena_start_ok: "arena_ok malloc static (arena_start m) {}"
  by (simp add: arena_ok_def blocks_ok_def regions_ok_def values_ok_def arena_start_def)

lemma arena_call_ok:
  assumes fresh: "fresh_malloc malloc static" and ok: "arena_ok malloc static h G"
    and allowed: "arena_allowed static c h" and step: "do_call malloc c h = Inr (h', r)"
  shows "(\<exists>G'. arena_ok malloc static h' G') \<and> keeps (call_changes c) h h' \<and> call_result c h h' r"
proof (cases c)
  case (Literal t bytes len characters)
  let ?x = "\<lparr>text_bytes = bytes, text_size = len, text_characters = characters\<rparr>"
  have h': "h' = h\<lparr>arena_texts := (arena_texts h)(t := Some ?x)\<rparr>" "r = t" using step Literal by auto
  have new: "arena_texts h t = None" "t \<in> static" "text_placed static G ?x" using allowed Literal by (simp_all add: text_placed_def)
  have "values_ok static h' G" using ok new(2,3) unfolding arena_ok_def values_ok_def h' by auto
  then have "arena_ok malloc static h' G"
    using ok blocks_ok_cong [of h' h] regions_ok_cong [of h' h] by (simp add: arena_ok_def h')
  moreover have "keeps {} h h'" using new(1) by (intro keepsI) (auto simp: h')
  ultimately show ?thesis using Literal h' by (auto simp: arena_content_def arena_text_at_def)
next
  case (Index_Data amount alignment)
  then have got: "arena_allocate malloc Data_Arena amount alignment h = Inr (h', r)" using step by (simp add: arena_data_allocate_def)
  have "alignment \<in> {1, 4, 8}" using allowed Index_Data by auto
  then have "arena_ok malloc static h' (insert (Text_Index, r, unat amount) G)" "same_contents h h'"
    using arena_allocate_ok [OF fresh ok got, of Text_Index] by auto
  then show ?thesis using Index_Data same_contents_keeps by auto
next
  case (Make_Text data)
  then have "arena_text_of malloc data h = Inr (h', r)" "length data \<le> LLONG_TOP" using step allowed by simp_all
  from arena_text_of_ok [OF fresh ok this] show ?thesis using Make_Text by simp
next
  case (Join left right)
  then obtain l m where "arena_texts h left = Some l" "arena_texts h right = Some m" "arena_join_text malloc left right h = Inr (h', r)"
    using step allowed by auto
  from arena_join_text_ok [OF fresh ok this(3) this(1,2)] show ?thesis using Join by simp
next
  case (Slice t first_byte last_byte characters)
  then obtain w where w: "arena_texts h t = Some w" "first_byte \<le> last_byte" "last_byte \<le> text_size w"
      "arena_share_slice malloc t first_byte last_byte characters h = Inr (h', r)"
    using step allowed by (auto simp: arena_text_at_def)
  from arena_share_slice_ok [OF fresh ok w(4) w(1-3)] show ?thesis using Slice by simp
next
  case New_List
  then have "arena_list_new malloc h = Inr (h', r)" using step by simp
  from arena_list_new_ok [OF fresh ok this] show ?thesis
    using New_List by (auto simp: arena_list_values_def arena_list_at_def)
next
  case (Add l v)
  then obtain x where x: "arena_lists h l = Some x" and added: "arena_list_add malloc l v h = Inr h'" and r: "r = l"
    using step allowed by (auto simp: pair_up_Inr)
  from arena_list_add_ok [OF fresh ok added x] show ?thesis using Add r by simp
next
  case (New_Record n)
  then have "arena_record_allocate malloc n h = Inr (h', r)" using step by simp
  from arena_record_allocate_ok [OF fresh ok this] show ?thesis using New_Record by simp
qed

lemma arena_runs_ok:
  assumes "fresh_malloc malloc static" "arena_runs malloc static h"
  shows "\<exists>G. arena_ok malloc static h G"
  using assms(2)
proof (induction rule: arena_runs.induct)
  case (start m)
  show ?case using arena_start_ok by blast
next
  case (call h c h' r)
  then show ?case using arena_call_ok [OF assms(1)] by blast
qed

text \<open>The only messages are those of an exhausted memory and of a join that is too large.\<close>

lemma arena_allocate_message:
  assumes "arena_allocate malloc n amount alignment h = Inl m"
  shows "m = ''the computer ran out of memory.''"
  using assms
  by (auto simp: arena_allocate_def arena_grow_def arena_out_of_memory_def Let_def split: if_splits list.splits option.splits)

lemma arena_new_text_message:
  "arena_new_text malloc bytes len characters h = Inl m \<Longrightarrow> m = ''the computer ran out of memory.''"
  using arena_allocate_message by (auto simp: arena_new_text_def arena_object_allocate_def rbind_eq_Inl)

lemma arena_text_of_message:
  "arena_text_of malloc data h = Inl m \<Longrightarrow> m = ''the computer ran out of memory.''"
  using arena_allocate_message arena_new_text_message
  by (auto simp: arena_text_of_def arena_new_bytes_def arena_data_allocate_def rbind_eq_Inl)

lemma arena_join_message:
  assumes "arena_texts h left = Some l" "arena_texts h right = Some m"
  shows "arena_join_text malloc left right h = Inl ''the joined Text would be too large.'' \<longleftrightarrow> text_size l > LLONG_TOP - text_size m"
proof (cases "text_size l > LLONG_TOP - text_size m")
  case True
  then show ?thesis using assms by (simp add: arena_join_text_def arena_text_at_def)
next
  case False
  have distinct: "''the joined Text would be too large.'' \<noteq> ''the computer ran out of memory.''" by simp
  have "arena_new_text malloc b n c g \<noteq> Inl ''the joined Text would be too large.''"
    "arena_text_of malloc d g \<noteq> Inl ''the joined Text would be too large.''" for b n c d g
    using distinct arena_new_text_message arena_text_of_message by blast+
  then have "arena_join_text malloc left right h \<noteq> Inl ''the joined Text would be too large.''"
    using False assms by (simp add: arena_join_text_def arena_join_by_copying_def arena_text_at_def Let_def split: option.splits)
  then show ?thesis using False by simp
qed

section \<open>Properties\<close>

text \<open>
  C22. Whatever a program on the arenas has done, a further call leaves the bytes of every Text and the values
  of every List but the one it appends to as they were: no allocation, no join that extends a Text in place, no
  shared slice and no List that grows where it is reaches memory another value uses.
\<close>

theorem arena_values_stable:
  assumes "fresh_malloc malloc static" "arena_runs malloc static h" "arena_allowed static c h"
    and "do_call malloc c h = Inr (h', r)"
  shows "(\<forall>t x. arena_texts h t = Some x \<longrightarrow> arena_texts h' t = Some x \<and> arena_content h' t = arena_content h t) \<and>
    (\<forall>l x. arena_lists h l = Some x \<longrightarrow> l \<notin> call_changes c \<longrightarrow>
       arena_lists h' l = Some x \<and> arena_list_values h' l = arena_list_values h l)"
  using arena_runs_ok [OF assms(1,2)] arena_call_ok [OF assms(1) _ assms(3,4)] unfolding keeps_def by blast

text \<open>
  C11. Each call on the arenas gives the value it is meant to give: a join the concatenation, in place or
  copied, a slice its part of the bytes, fresh or from the cache, an addition the values with one more, a new
  record its cleared fields; a join stops with the size message exactly when the sizes do not fit.
\<close>

theorem arena_calls_correct:
  assumes "fresh_malloc malloc static" "arena_runs malloc static h" "arena_allowed static c h"
  shows "(\<forall>h' r. do_call malloc c h = Inr (h', r) \<longrightarrow> call_result c h h' r) \<and>
    (\<forall>left right. c = Join left right \<longrightarrow>
       (do_call malloc c h = Inl ''the joined Text would be too large.'' \<longleftrightarrow>
        length (arena_content h left) + length (arena_content h right) > LLONG_TOP))"
proof (intro conjI allI impI)
  fix h' r assume "do_call malloc c h = Inr (h', r)"
  then show "call_result c h h' r" using arena_runs_ok [OF assms(1,2)] arena_call_ok [OF assms(1) _ assms(3)] by blast
next
  fix left right assume c: "c = Join left right"
  obtain G where ok: "arena_ok malloc static h G" using arena_runs_ok [OF assms(1,2)] by blast
  obtain l m where texts: "arena_texts h left = Some l" "arena_texts h right = Some m" using assms(3) c by auto
  have "text_size m \<le> LLONG_TOP" using text_placedD [OF ok texts(2)] by (simp add: text_placed_def)
  then show "(do_call malloc c h = Inl ''the joined Text would be too large.'') \<longleftrightarrow>
      length (arena_content h left) + length (arena_content h right) > LLONG_TOP"
    using arena_join_message [OF texts, of malloc] texts by (auto simp: c arena_content_def arena_text_at_def)
qed

text \<open>A system whose blocks lie eight gigabytes apart, and a program with one literal.\<close>

definition spread_malloc :: malloc where
  "spread_malloc k n = (if k < 64 \<and> n \<le> 2 ^ 32 then Some ((k + 128) * 2 ^ 33) else None)"

lemma spread_malloc_fresh: "fresh_malloc spread_malloc {0..<4096}"
proof -
  have apart: "{(k + 128) * 2 ^ 33..<(k + 128) * 2 ^ 33 + n} \<inter> {(k' + 128) * 2 ^ 33..<(k' + 128) * 2 ^ 33 + n'} = {}"
    if "k \<noteq> k'" "n \<le> 2 ^ 32" "n' \<le> 2 ^ 32" for k k' n n' :: nat
    using that by (cases k k' rule: linorder_cases) (auto simp: disjoint_iff)
  have "(16 :: nat) dvd 2 ^ 33" by (intro dvdI [of _ _ "2 ^ 29"]) simp
  then have aligned: "(16 :: nat) dvd (k + 128) * 2 ^ 33" for k by (rule dvd_mult)
  show ?thesis unfolding fresh_malloc_def
  proof (intro conjI allI impI)
    fix k n a assume "spread_malloc k n = Some a"
    then have a: "a = (k + 128) * 2 ^ 33" "n \<le> 2 ^ 32" "k < 64" by (simp_all add: spread_malloc_def split: if_splits)
    show "0 < a" "16 dvd a" "a + n \<le> 2 ^ 64" "{a..<a + n} \<inter> {0..<4096} = {}" using a aligned by auto
  next
    fix k n a k' n' a' assume "k \<noteq> k'" "spread_malloc k n = Some a" "spread_malloc k' n' = Some a'"
    then show "{a..<a + n} \<inter> {a'..<a' + n'} = {}" using apart by (simp add: spread_malloc_def split: if_splits)
  qed
qed

definition one_literal :: arena_heap where
  "one_literal = (arena_start (\<lambda>_. 65))\<lparr>arena_texts := (\<lambda>_. None)(100 := Some \<lparr>text_bytes = 200, text_size = 1, text_characters = 1\<rparr>)\<rparr>"

lemma one_literal_runs: "arena_runs spread_malloc {0..<4096} one_literal"
  by (rule arena_runs.call [OF arena_runs.start [of _ _ "\<lambda>_. 65"], where c = "Literal 100 200 1 1" and r = 100])
    (auto simp: one_literal_def arena_start_def LLONG_TOP_def)

lemma one_literal_joins: "\<exists>h' r. do_call spread_malloc (Join 100 100) one_literal = Inr (h', r)"
  by (simp add: one_literal_def arena_start_def arena_join_text_def arena_text_at_def arena_extend_def LLONG_TOP_def
      arena_join_by_copying_def arena_text_of_def arena_new_bytes_def arena_data_allocate_def arena_allocate_def
      arena_content_def SIZE_T_MAX_def arena_grow_def BLOCK_HEADER_def spread_malloc_def arena_new_text_def
      arena_object_allocate_def set_blocks_def write_bytes_def Let_def block_data_def)

lemma arena_values_stable_witness:
  "\<exists>h' r. do_call spread_malloc (Join 100 100) one_literal = Inr (h', r) \<and> arena_content h' 100 = [65]"
proof -
  obtain h' r where step: "do_call spread_malloc (Join 100 100) one_literal = Inr (h', r)" using one_literal_joins by blast
  have lit: "arena_texts one_literal 100 = Some \<lparr>text_bytes = 200, text_size = 1, text_characters = 1\<rparr>"
    by (simp add: one_literal_def)
  have "arena_content h' 100 = arena_content one_literal 100"
    using arena_values_stable [OF spread_malloc_fresh one_literal_runs _ step] lit by simp
  then show ?thesis
    using step by (simp add: arena_content_def arena_text_at_def lit) (simp add: one_literal_def arena_start_def read_bytes_def)
qed

lemma arena_calls_correct_witness:
  "\<exists>h' r. do_call spread_malloc (Join 100 100) one_literal = Inr (h', r) \<and> arena_content h' r = [65, 65]"
proof -
  obtain h' r where step: "do_call spread_malloc (Join 100 100) one_literal = Inr (h', r)" using one_literal_joins by blast
  have lit: "arena_texts one_literal 100 = Some \<lparr>text_bytes = 200, text_size = 1, text_characters = 1\<rparr>"
    by (simp add: one_literal_def)
  have "call_result (Join 100 100) one_literal h' r"
    using arena_calls_correct [OF spread_malloc_fresh one_literal_runs, of "Join 100 100"] lit step by auto
  then have "arena_content h' r = arena_content one_literal 100 @ arena_content one_literal 100" by simp
  moreover have "arena_content one_literal 100 = [65]"
    by (simp add: arena_content_def arena_text_at_def lit) (simp add: one_literal_def arena_start_def read_bytes_def)
  ultimately show ?thesis using step by auto
qed

end
