(* ===== verification/Bounded_Rc.thy ===== *)
theory Bounded_Rc
  imports Rc Utf8
begin

text \<open>
  Reference counting with bounded pauses (\<open>runtime/minyar_bounded_rc.h\<close>, and \<open>runtime/minyar_rc.h\<close>
  under \<open>MINYAR_BOUNDED_RC\<close>), on the system heap. A dead container is not destroyed at once: its
  header becomes a link of one of two queues, and a poll does a bounded number of units of work, each of
  which visits one slot or retires one task.

  An object is addressed by its header (\<open>RcObject *\<close>), a value by its contents, eight bytes on; the memory is
  keyed by the latter. The header is the machine word: a count or a link above three bits of kind. An
  object that is not there, or whose contents are not of its kind, is undefined behaviour to touch.
  Queues of frames and of chunks of temporaries are lists; the queues of objects are threaded through the
  headers as in the code. The sizes of arrays are numbers, and \<open>rc_pending_count\<close> is one.
\<close>

section \<open>Objects\<close>

datatype payload =
    Text_payload ptr \<comment> \<open>the backing\<close>
  | List_payload "ptr list" nat \<comment> \<open>the values in use, and the capacity\<close>
  | Record_payload "byte list" "ptr list" \<comment> \<open>the reference map, empty in a scalar record, and the fields\<close>

record bounded_object =
  header :: "64 word"
  payload :: payload

abbreviation KIND_TEXT :: "64 word" where "KIND_TEXT \<equiv> 1"
abbreviation KIND_LIST :: "64 word" where "KIND_LIST \<equiv> 2"
abbreviation KIND_REFERENCES :: "64 word" where "KIND_REFERENCES \<equiv> 3"
abbreviation KIND_RECORD :: "64 word" where "KIND_RECORD \<equiv> 4"
abbreviation KIND_SCALAR_RECORD :: "64 word" where "KIND_SCALAR_RECORD \<equiv> 5"
abbreviation KIND_REFERENCES_IMMORTAL :: "64 word" where "KIND_REFERENCES_IMMORTAL \<equiv> 6"

definition kind :: "bounded_object \<Rightarrow> 64 word" where
  "kind object = header object AND 7"

fun slots :: "payload \<Rightarrow> ptr list" where
  "slots (Text_payload _) = []"
| "slots (List_payload values _) = values"
| "slots (Record_payload _ values) = values"

text \<open>Whether the slot at an index is marked as a reference in the map of a record.\<close>

fun reference_at :: "payload \<Rightarrow> nat \<Rightarrow> bool" where
  "reference_at (Record_payload references _) i \<longleftrightarrow> references ! i AND 1 \<noteq> 0"
| "reference_at _ _ \<longleftrightarrow> True"

definition shaped :: "bounded_object \<Rightarrow> bool" where
  "shaped object \<longleftrightarrow>
     (case payload object of
        Text_payload _ \<Rightarrow> kind object = KIND_TEXT
      | List_payload _ _ \<Rightarrow> kind object = KIND_LIST \<or> kind object = KIND_REFERENCES \<or> kind object = KIND_REFERENCES_IMMORTAL
      | Record_payload references values \<Rightarrow>
          kind object = KIND_RECORD \<and> length references = length values \<or> kind object = KIND_SCALAR_RECORD \<and> references = [])"

section \<open>The state\<close>

text \<open>
  A frame of the bounded configuration: a local whose low bit is set has its index among the written
  ones; temporaries are in chunks of eight. A frame the compiler has placed on the stack knows its header.
\<close>

record bounded_frame =
  stack_header :: "ptr option"
  locals :: "ptr list"
  local_room :: nat
  written :: "nat list"
  temporaries :: "ptr list list"
  temporary_count :: nat

record bounded =
  memory :: "(ptr, bounded_object) fmap"
  rc_bounded_head :: ptr
  rc_bounded_tail :: ptr
  rc_bounded_active :: ptr
  rc_bounded_cursor :: nat
  rc_bounded_recent_head :: ptr
  rc_bounded_recent_tail :: ptr
  rc_bounded_recent_turn :: bool
  rc_pending_count :: nat
  rc_bounded_frame_queue :: "bounded_frame list"
  rc_bounded_chunk_queue :: "ptr list list"
  rc_bounded_next_queue :: nat
  rc_bounded_stack :: "bounded_frame list"
  rc_bounded_free_frames :: "bounded_frame list"
  rc_bounded_cached_frame_bytes :: nat

definition bounded_object_at :: "ptr \<Rightarrow> bounded \<Rightarrow> fault + bounded_object" where
  "bounded_object_at a s =
     (case fmlookup (memory s) (a + 8) of
        None \<Rightarrow> Inl Undefined
      | Some object \<Rightarrow> if shaped object then Inr object else Inl Undefined)"

definition put_object :: "ptr \<Rightarrow> bounded_object \<Rightarrow> bounded \<Rightarrow> bounded" where
  "put_object a object s = s\<lparr>memory := fmupd (a + 8) object (memory s)\<rparr>"

section \<open>Cursors in dead objects\<close>

text \<open>
  The cursor of a dead List is in its capacity. That of a dead record is in the seven high bits of the bytes
  of its reference map, of as many as there are, ten at most.
\<close>

fun load_cursor :: "byte list \<Rightarrow> nat \<Rightarrow> 64 word" where
  "load_cursor [] i = 0"
| "load_cursor (b # bs) i = push_bit (i * 7) (ucast (drop_bit 1 b)) OR load_cursor bs (i + 1)"

fun store_cursor :: "byte list \<Rightarrow> 64 word \<Rightarrow> byte list" where
  "store_cursor [] cursor = []"
| "store_cursor (b # bs) cursor = ((b AND 1) OR ucast (push_bit 1 (cursor AND 127))) # store_cursor bs (drop_bit 7 cursor)"

definition rc_bounded_saved_cursor :: "bounded_object \<Rightarrow> nat" where
  "rc_bounded_saved_cursor object =
     (case payload object of
        List_payload _ capacity \<Rightarrow> capacity
      | Record_payload references _ \<Rightarrow> unat (load_cursor (take 10 references) 0)
      | Text_payload _ \<Rightarrow> 0)"

definition rc_bounded_save_cursor :: "bounded_object \<Rightarrow> nat \<Rightarrow> bounded_object" where
  "rc_bounded_save_cursor object cursor =
     object\<lparr>payload :=
       (case payload object of
          List_payload values _ \<Rightarrow> List_payload values cursor
        | Record_payload references values \<Rightarrow>
            Record_payload (store_cursor (take 10 references) (of_nat cursor) @ drop 10 references) values
        | Text_payload backing \<Rightarrow> Text_payload backing)\<rparr>"

section \<open>Giving up a claim\<close>

fun backing_of :: "payload \<Rightarrow> ptr" where
  "backing_of (Text_payload backing) = backing"
| "backing_of _ = 0"

text \<open>The object, its data and its index go; the backing of a view is for the caller to give up.\<close>

definition rc_bounded_finish_object :: "ptr \<Rightarrow> bounded \<Rightarrow> fault + ptr \<times> bounded" where
  "rc_bounded_finish_object a s =
     rbind (bounded_object_at a s) (\<lambda>object.
     Inr (backing_of (payload object), s\<lparr>memory := fmdrop (a + 8) (memory s)\<rparr>))"

lemma finish_object_domain:
  assumes "rc_bounded_finish_object a s = Inr (backing, s')"
  shows "card (fmdom' (memory s')) < card (fmdom' (memory s))"
proof -
  have "a + 8 \<in> fmdom' (memory s)" and "memory s' = fmdrop (a + 8) (memory s)"
    using assms by (auto simp: rc_bounded_finish_object_def bounded_object_at_def rbind_eq_Inr intro: fmdom'I
        split: option.splits if_splits)
  then have "fmdom' (memory s') \<subset> fmdom' (memory s)" by auto
  then show ?thesis by (simp add: psubset_card_mono)
qed

text \<open>The result counts the objects freed at once.\<close>

function rc_bounded_drop :: "ptr \<Rightarrow> bounded \<Rightarrow> fault + nat \<times> bounded" where
  "rc_bounded_drop value s =
     (if value = 0 then Inr (0, s)
      else
        let a = value - 8 in
        rbind (bounded_object_at a s) (\<lambda>object.
        if header object = 8 OR KIND_SCALAR_RECORD then
          rbind (rc_bounded_finish_object a s) (\<lambda>(backing, s). Inr (1, s))
        else if drop_bit 3 (header object) = 0 then Inr (0, s)
        else
          let object = object\<lparr>header := header object - 8\<rparr>; s = put_object a object s in
          if drop_bit 3 (header object) \<noteq> 0 then Inr (0, s)
          else if kind object = KIND_TEXT then
            rbind (rc_bounded_finish_object a s) (\<lambda>(backing, s).
            if backing \<noteq> 0 then rbind (rc_bounded_drop backing s) (\<lambda>(n, s). Inr (1 + n, s)) else Inr (1, s))
          else if kind object = KIND_LIST \<or> kind object = KIND_REFERENCES_IMMORTAL \<or>
              kind object = KIND_REFERENCES \<and> slots (payload object) = [] \<or>
              kind object = KIND_RECORD \<and> slots (payload object) = [] then
            rbind (rc_bounded_finish_object a s) (\<lambda>(backing, s). Inr (1, s))
          else
            let object = rc_bounded_save_cursor object 0;
                object = object\<lparr>header := header object OR rc_bounded_recent_head s\<rparr> in
            Inr (0, (put_object a object s)\<lparr>rc_bounded_recent_head := a,
              rc_bounded_recent_tail := (if rc_bounded_recent_tail s = 0 then a else rc_bounded_recent_tail s),
              rc_pending_count := rc_pending_count s + 1\<rparr>)))"
  by pat_completeness auto
termination
proof (relation "measure (\<lambda>(_, s). card (fmdom' (memory s)))")
  fix v :: ptr and s :: bounded and a object object' t p backing u
  assume "bounded_object_at a s = Inr object" "t = put_object a object' s"
    and "rc_bounded_finish_object a t = Inr p" "(backing, u) = p"
  moreover from this(1) have "a + 8 \<in> fmdom' (memory s)"
    by (auto simp: bounded_object_at_def intro: fmdom'I split: option.splits)
  then have "fmdom' (memory (put_object a object' s)) = fmdom' (memory s)" by (auto simp: put_object_def)
  ultimately show "((backing, u), v, s) \<in> measure (\<lambda>(_, s). card (fmdom' (memory s)))"
    using finish_object_domain [of a t backing u] by auto
qed simp

declare rc_bounded_drop.simps [simp del]

section \<open>Units of work\<close>

abbreviation LINK :: "64 word" where "LINK \<equiv> NOT 7"

text \<open>The first task of the captured queue becomes the active one.\<close>

definition activate :: "bounded \<Rightarrow> fault + bounded" where
  "activate s =
     (if rc_bounded_active s = 0 then
        let a = rc_bounded_head s in
        rbind (bounded_object_at a s) (\<lambda>object.
        let next = header object AND LINK; object = object\<lparr>header := header object AND 7\<rparr> in
        Inr ((put_object a object s)\<lparr>rc_bounded_active := a, rc_bounded_head := next,
          rc_bounded_tail := (if next = 0 then 0 else rc_bounded_tail s),
          rc_bounded_cursor := rc_bounded_saved_cursor object\<rparr>))
      else Inr s)"

definition rc_bounded_old_object_unit :: "bounded \<Rightarrow> fault + bounded" where
  "rc_bounded_old_object_unit s =
     rbind (activate s) (\<lambda>s.
     rbind (bounded_object_at (rc_bounded_active s) s) (\<lambda>object.
     let cursor = rc_bounded_cursor s in
     if (kind object = KIND_REFERENCES \<or> kind object = KIND_RECORD) \<and> cursor < length (slots (payload object)) then
       let s = s\<lparr>rc_bounded_cursor := cursor + 1\<rparr> in
       if kind object = KIND_REFERENCES \<or> reference_at (payload object) cursor
       then rbind (rc_bounded_drop (slots (payload object) ! cursor) s) (\<lambda>(freed, s). Inr s)
       else Inr s
     else
       rbind (rc_bounded_finish_object (rc_bounded_active s) s) (\<lambda>(backing, s).
       Inr (s\<lparr>rc_pending_count := rc_pending_count s - 1, rc_bounded_active := 0\<rparr>))))"

definition rc_bounded_recent_object_unit :: "bounded \<Rightarrow> fault + bounded" where
  "rc_bounded_recent_object_unit s =
     (let a = rc_bounded_recent_head s in
      rbind (bounded_object_at a s) (\<lambda>object.
      let cursor = rc_bounded_saved_cursor object in
      if cursor < length (slots (payload object)) then
        let child = (if kind object = KIND_REFERENCES \<or> reference_at (payload object) cursor
          then slots (payload object) ! cursor else 0) in
        rbind (rc_bounded_drop child (put_object a (rc_bounded_save_cursor object (cursor + 1)) s)) (\<lambda>(freed, s). Inr s)
      else
        let next = header object AND LINK in
        rbind (rc_bounded_finish_object a s) (\<lambda>(backing, s).
        Inr (s\<lparr>rc_bounded_recent_head := next,
          rc_bounded_recent_tail := (if next = 0 then 0 else rc_bounded_recent_tail s),
          rc_pending_count := rc_pending_count s - 1\<rparr>))))"

text \<open>When the captured queue is used up, the recent one is captured.\<close>

definition capture :: "bounded \<Rightarrow> bounded" where
  "capture s =
     (if rc_bounded_active s = 0 \<and> rc_bounded_head s = 0 then
        s\<lparr>rc_bounded_head := rc_bounded_recent_head s, rc_bounded_tail := rc_bounded_recent_tail s,
          rc_bounded_recent_head := 0, rc_bounded_recent_tail := 0\<rparr>
      else s)"

text \<open>The active task is a record of one field that has been visited.\<close>

definition visited_unary :: "bounded \<Rightarrow> fault + bool" where
  "visited_unary s =
     rbind (bounded_object_at (rc_bounded_active s) s) (\<lambda>object.
     Inr (kind object = KIND_RECORD \<and> length (slots (payload object)) = 1 \<and> rc_bounded_cursor s = 1))"

definition rc_bounded_object_unit :: "bounded \<Rightarrow> fault + bounded" where
  "rc_bounded_object_unit s =
     (let s = capture s; recent = rc_bounded_recent_turn s; s = s\<lparr>rc_bounded_recent_turn := \<not> recent\<rparr> in
      if recent \<and> rc_bounded_recent_head s \<noteq> 0 then
        rbind (if rc_bounded_head s = 0 \<and> rc_bounded_active s \<noteq> 0 then visited_unary s else Inr False) (\<lambda>finish.
        if finish then rc_bounded_old_object_unit s else rc_bounded_recent_object_unit s)
      else rc_bounded_old_object_unit s)"

text \<open>Frames and chunks of temporaries that wait are not reached from objects.\<close>

definition MINYAR_FRAME_CACHE_BYTES :: nat where
  "MINYAR_FRAME_CACHE_BYTES = 256 * 1024"

text \<open>What the system heap charges for a frame: its header, and two words for each local.\<close>

definition frame_bytes :: "bounded_frame \<Rightarrow> nat" where
  "frame_bytes frame = 64 + (if local_room frame \<noteq> 0 then local_room frame * 16 else 0)"

definition rc_bounded_local_value :: "bounded_frame \<Rightarrow> nat \<Rightarrow> fault + ptr" where
  "rc_bounded_local_value frame index =
     (if index < length (locals frame) then Inr (locals frame ! index AND NOT 1) else Inl Undefined)"

definition rc_bounded_frame_unit :: "bounded \<Rightarrow> fault + bounded" where
  "rc_bounded_frame_unit s =
     (case rc_bounded_frame_queue s of
        [] \<Rightarrow> Inl Undefined
      | frame # frames \<Rightarrow>
          if written frame \<noteq> [] then
            rbind (rc_bounded_local_value frame (last (written frame))) (\<lambda>v.
            rbind (rc_bounded_drop v (s\<lparr>rc_bounded_frame_queue := frame\<lparr>written := butlast (written frame)\<rparr> # frames\<rparr>))
              (\<lambda>(freed, s). Inr s))
          else if frame_bytes frame \<le> MINYAR_FRAME_CACHE_BYTES \<and>
              rc_bounded_cached_frame_bytes s \<le> MINYAR_FRAME_CACHE_BYTES - frame_bytes frame then
            Inr (s\<lparr>rc_bounded_frame_queue := frames, rc_bounded_free_frames := frame # rc_bounded_free_frames s,
              rc_bounded_cached_frame_bytes := rc_bounded_cached_frame_bytes s + frame_bytes frame,
              rc_pending_count := rc_pending_count s - 1\<rparr>)
          else
            Inr (s\<lparr>rc_bounded_frame_queue := frames, rc_pending_count := rc_pending_count s - 1\<rparr>))"

definition rc_bounded_chunk_unit :: "bounded \<Rightarrow> fault + bounded" where
  "rc_bounded_chunk_unit s =
     (case rc_bounded_chunk_queue s of
        [] \<Rightarrow> Inl Undefined
      | chunk # chunks \<Rightarrow>
          if chunk \<noteq> [] then
            rbind (rc_bounded_drop (last chunk) (s\<lparr>rc_bounded_chunk_queue := butlast chunk # chunks\<rparr>)) (\<lambda>(freed, s). Inr s)
          else Inr (s\<lparr>rc_bounded_chunk_queue := chunks, rc_pending_count := rc_pending_count s - 1\<rparr>))"

section \<open>Polling\<close>

text \<open>In each of the polls \<open>n\<close> is \<open>budget - work\<close>, the units left.\<close>

text \<open>The scheduler of three queues.\<close>

definition queue_ready :: "nat \<Rightarrow> bounded \<Rightarrow> bool" where
  "queue_ready queue s \<longleftrightarrow>
     queue = 0 \<and> (rc_bounded_active s \<noteq> 0 \<or> rc_bounded_head s \<noteq> 0 \<or> rc_bounded_recent_head s \<noteq> 0) \<or>
     queue = 1 \<and> rc_bounded_frame_queue s \<noteq> [] \<or>
     queue = 2 \<and> rc_bounded_chunk_queue s \<noteq> []"

fun select_queue :: "nat \<Rightarrow> nat \<Rightarrow> bounded \<Rightarrow> nat" where
  "select_queue 0 queue s = queue"
| "select_queue (Suc tries) queue s =
     (if queue_ready queue s then queue else select_queue tries ((queue + 1) mod 3) s)"

definition rc_bounded_unit :: "bounded \<Rightarrow> fault + bounded" where
  "rc_bounded_unit s =
     (let queue = select_queue 3 (rc_bounded_next_queue s) s;
          s = s\<lparr>rc_bounded_next_queue := (queue + 1) mod 3\<rparr> in
      if queue = 0 then rc_bounded_object_unit s
      else if queue = 1 then rc_bounded_frame_unit s
      else rc_bounded_chunk_unit s)"

fun poll_queues :: "nat \<Rightarrow> bounded \<Rightarrow> fault + nat \<times> bounded" where
  "poll_queues 0 s = Inr (0, s)"
| "poll_queues (Suc n) s =
     (if rc_pending_count s = 0 then Inr (Suc n, s) else rbind (rc_bounded_unit s) (poll_queues n))"

text \<open>One task, a record of one field not yet visited, is served together with unique unary children.\<close>

function unary_run :: "nat \<Rightarrow> ptr \<Rightarrow> bounded \<Rightarrow> fault + nat \<times> bounded" where
  "unary_run n single s =
     rbind (bounded_object_at single s) (\<lambda>object.
     let value = (if reference_at (payload object) 0 then slots (payload object) ! 0 else 0) in
     rbind
       (if n \<ge> 4 \<and> value \<noteq> 0 then
          rbind (bounded_object_at (value - 8) s) (\<lambda>child.
          Inr (if header child = 8 OR KIND_RECORD \<and> length (slots (payload child)) = 1 then Some child else None))
        else Inr None) (\<lambda>next.
     case next of
       Some child \<Rightarrow>
         rbind (rc_bounded_finish_object single (put_object (value - 8) (child\<lparr>header := KIND_RECORD\<rparr>) s)) (\<lambda>(backing, s).
         unary_run (n - 2) (value - 8) (s\<lparr>rc_bounded_active := value - 8\<rparr>))
     | None \<Rightarrow>
         let s = s\<lparr>rc_bounded_recent_turn := \<not> rc_bounded_recent_turn s\<rparr> in
         rbind (if reference_at (payload object) 0 then rc_bounded_drop value s else Inr (0, s)) (\<lambda>(freed, s).
         let s = s\<lparr>rc_bounded_recent_turn := \<not> rc_bounded_recent_turn s\<rparr> in
         rbind (rc_bounded_finish_object single s) (\<lambda>(backing, s).
         Inr (n - 2, s\<lparr>rc_pending_count := rc_pending_count s - 1, rc_bounded_active := 0\<rparr>)))))"
  by pat_completeness auto
termination
proof (relation "measure fst")
  fix n :: nat and single :: ptr and s object v found child p backing t
  assume "found = Some child"
    "(if n \<ge> 4 \<and> v \<noteq> 0 then
        rbind (bounded_object_at (v - 8) s) (\<lambda>child.
        Inr (if header child = 8 OR KIND_RECORD \<and> length (slots (payload child)) = 1 then Some child else None))
      else Inr None) = Inr found"
  then show "((n - 2, v - 8, t\<lparr>rc_bounded_active := v - 8\<rparr>), n, single, s) \<in> measure fst"
    by (auto split: if_splits)
qed simp

declare unary_run.simps [simp del]

lemma unary_run_less: "unary_run n single s = Inr (n', s') \<Longrightarrow> 2 \<le> n \<Longrightarrow> n' < n"
proof (induction n arbitrary: single s rule: less_induct)
  case (less n)
  have "n' = n - 2 \<or> (4 \<le> n \<and> (\<exists>a t. unary_run (n - 2) a t = Inr (n', s')))"
    using less.prems(1) unfolding unary_run.simps [of n single s]
    by (auto simp: rbind_eq_Inr Let_def split: if_splits option.splits) blast
  with less.IH [of "n - 2"] less.prems(2) show ?case by fastforce
qed

text \<open>The single waiting task, where it is a record of one field that has not been visited.\<close>

definition single_unary :: "nat \<Rightarrow> bounded \<Rightarrow> fault + ptr option" where
  "single_unary n s =
     (let single = (if rc_bounded_head s \<noteq> 0 then rc_bounded_head s else rc_bounded_recent_head s) in
      if n \<ge> 2 \<and> rc_pending_count s = 1 \<and> rc_bounded_active s = 0 \<and> single \<noteq> 0 then
        rbind (bounded_object_at single s) (\<lambda>object.
        Inr (case payload object of
            Record_payload references values \<Rightarrow>
              if kind object = KIND_RECORD \<and> length values = 1 \<and> drop_bit 1 (references ! 0) = 0 then Some single else None
          | _ \<Rightarrow> None))
      else Inr None)"

definition take_single :: "ptr \<Rightarrow> bounded \<Rightarrow> fault + bounded" where
  "take_single single s =
     rbind (bounded_object_at single s) (\<lambda>object.
     Inr ((put_object single (object\<lparr>header := KIND_RECORD\<rparr>) s)\<lparr>rc_bounded_head := 0, rc_bounded_tail := 0,
       rc_bounded_recent_head := 0, rc_bounded_recent_tail := 0, rc_bounded_active := single, rc_bounded_cursor := 1\<rparr>))"

text \<open>A run of slots of the active List, ended by a newly dead container.\<close>

definition scalar_leaf :: "ptr \<Rightarrow> bounded \<Rightarrow> fault + bool" where
  "scalar_leaf value s =
     (if value = 0 then Inr False
      else rbind (bounded_object_at (value - 8) s) (\<lambda>child. Inr (header child = 8 OR KIND_SCALAR_RECORD)))"

fun list_run :: "nat \<Rightarrow> nat \<Rightarrow> bounded \<Rightarrow> fault + nat \<times> bounded" where
  "list_run 0 n s = Inr (n, s)"
| "list_run (Suc k) n s =
     rbind (bounded_object_at (rc_bounded_active s) s) (\<lambda>list.
     let value = slots (payload list) ! rc_bounded_cursor s;
         s = s\<lparr>rc_bounded_recent_turn := \<not> rc_bounded_recent_turn s, rc_bounded_cursor := rc_bounded_cursor s + 1\<rparr> in
     rbind (scalar_leaf value s) (\<lambda>leaf.
     if leaf then rbind (rc_bounded_finish_object (value - 8) s) (\<lambda>(backing, s). list_run k (n - 1) s)
     else
       rbind (rc_bounded_drop value s) (\<lambda>(freed, s).
       if rc_bounded_recent_head s \<noteq> 0 then Inr (n - 1, s) else list_run k (n - 1) s)))"

lemma list_run_le: "list_run k n s = Inr (n', s') \<Longrightarrow> n' \<le> n"
proof (induction k arbitrary: n s)
  case (Suc k)
  then show ?case
    by (auto simp: rbind_eq_Inr Let_def split: if_splits prod.splits) (meson diff_le_self le_trans)+
qed simp

lemma list_run_less: "list_run (Suc k) n s = Inr (n', s') \<Longrightarrow> 0 < n \<Longrightarrow> n' < n"
  by (auto simp: rbind_eq_Inr Let_def split: if_splits prod.splits dest!: list_run_le)

text \<open>How many slots of an active List may be served at once.\<close>

definition list_slots :: "nat \<Rightarrow> bounded \<Rightarrow> fault + nat" where
  "list_slots n s =
     (if rc_bounded_recent_head s = 0 \<and> rc_bounded_active s \<noteq> 0 then
        rbind (bounded_object_at (rc_bounded_active s) s) (\<lambda>object.
        Inr (if kind object = KIND_REFERENCES then min n (length (slots (payload object)) - rc_bounded_cursor s) else 0))
      else Inr 0)"

text \<open>Without frames and chunks only objects are served.\<close>

function poll_objects :: "nat \<Rightarrow> bounded \<Rightarrow> fault + nat \<times> bounded" where
  "poll_objects n s =
     (if n = 0 \<or> rc_pending_count s = 0 then Inr (n, s)
      else
        rbind (single_unary n s) (\<lambda>found.
        case found of
          Some single \<Rightarrow>
            rbind (rbind (take_single single s) (unary_run n single)) (\<lambda>(n, s). poll_objects n s)
        | None \<Rightarrow>
            rbind (list_slots n s) (\<lambda>count.
            case count of
              Suc k \<Rightarrow> rbind (list_run (Suc k) n s) (\<lambda>(n, s). poll_objects n s)
            | 0 \<Rightarrow> rbind (rc_bounded_object_unit s) (\<lambda>s. poll_objects (n - 1) s))))"
  by pat_completeness auto
termination
proof (relation "measure fst")
  fix n :: nat and s found single p m t
  assume "\<not> (n = 0 \<or> rc_pending_count s = 0)" "single_unary n s = Inr found" "found = Some single"
    "rbind (take_single single s) (unary_run n single) = Inr p" "(m, t) = p"
  then show "((m, t), n, s) \<in> measure fst"
    by (auto simp: rbind_eq_Inr single_unary_def Let_def split: if_splits dest!: unary_run_less)
next
  fix n :: nat and s found count k p m t
  assume "\<not> (n = 0 \<or> rc_pending_count s = 0)" "list_run (Suc k) n s = Inr p" "(m, t) = p"
  then show "((m, t), n, s) \<in> measure fst" using list_run_less [of k n s m t] by auto
qed simp_all

declare poll_objects.simps [simp del]

definition MINYAR_RC_POLL_BUDGET :: nat where
  "MINYAR_RC_POLL_BUDGET = 32"

text \<open>The result is the number of units done.\<close>

definition minyar_rc_poll :: "nat \<Rightarrow> bounded \<Rightarrow> fault + nat \<times> bounded" where
  "minyar_rc_poll budget s =
     (let budget = min budget MINYAR_RC_POLL_BUDGET in
      if rc_bounded_frame_queue s = [] \<and> rc_bounded_chunk_queue s = [] then
        rbind (poll_objects budget s) (\<lambda>(n, s).
        Inr (budget - n, if budget - n \<noteq> 0 then s\<lparr>rc_bounded_next_queue := 1\<rparr> else s))
      else rbind (poll_queues budget s) (\<lambda>(n, s). Inr (budget - n, s)))"

section \<open>Counts and objects\<close>

definition rc_service_pending :: "nat \<Rightarrow> bounded \<Rightarrow> fault + bounded" where
  "rc_service_pending budget s =
     (if rc_pending_count s \<noteq> 0 then rbind (minyar_rc_poll budget s) (\<lambda>(work, s). Inr s) else Inr s)"

definition bounded_retain :: "ptr \<Rightarrow> bounded \<Rightarrow> fault + bounded" where
  "bounded_retain value s =
     (if value = 0 then Inr s
      else rbind (bounded_object_at (value - 8) s) (\<lambda>object.
        if drop_bit 3 (header object) = 0 then Inr s
        else if header object > - 1 - 8 then rc_stop ''this value has too many references.''
        else Inr (put_object (value - 8) (object\<lparr>header := header object + 8\<rparr>) s)))"

definition bounded_release :: "ptr \<Rightarrow> bounded \<Rightarrow> fault + bounded" where
  "bounded_release value s =
     rbind (rc_bounded_drop value s) (\<lambda>(immediate, s).
     rc_service_pending (if immediate < MINYAR_RC_POLL_BUDGET then MINYAR_RC_POLL_BUDGET - immediate else 0) s)"

text \<open>Whoever allocates an object fills it in before the next call.\<close>

definition bounded_allocate ::
    "((ptr, bounded_object) fmap \<Rightarrow> ptr option) \<Rightarrow> nat \<Rightarrow> 64 word \<Rightarrow> payload \<Rightarrow> bounded \<Rightarrow> fault + ptr \<times> bounded" where
  "bounded_allocate malloc bytes k contents s =
     rbind (rc_service_pending MINYAR_RC_POLL_BUDGET s) (\<lambda>s.
     if bytes > SIZE_LIMIT - 8 then out_of_memory
     else case malloc (memory s) of
       None \<Rightarrow> out_of_memory
     | Some v \<Rightarrow> Inr (v, put_object (v - 8) \<lparr>header = 8 OR k, payload = contents\<rparr> s))"

section \<open>Frames\<close>

definition rc_bounded_retire_temporaries :: "bounded_frame \<Rightarrow> bounded \<Rightarrow> bounded_frame \<times> bounded" where
  "rc_bounded_retire_temporaries frame s =
     (if temporaries frame = [] then (frame, s)
      else
        (frame\<lparr>temporaries := [], temporary_count := 0\<rparr>,
         s\<lparr>rc_bounded_chunk_queue := rc_bounded_chunk_queue s @ temporaries frame,
           rc_pending_count := rc_pending_count s + (temporary_count frame div 8 + (if temporary_count frame mod 8 \<noteq> 0 then 1 else 0))\<rparr>))"

definition bounded_enter :: "int \<Rightarrow> bounded \<Rightarrow> fault + bounded" where
  "bounded_enter locals_wanted s =
     rbind (minyar_rc_poll MINYAR_RC_POLL_BUDGET s) (\<lambda>(work, s).
     let (frame, s) = (case rc_bounded_free_frames s of
           frame # frames \<Rightarrow>
             (frame, s\<lparr>rc_bounded_free_frames := frames,
               rc_bounded_cached_frame_bytes := rc_bounded_cached_frame_bytes s - frame_bytes frame\<rparr>)
         | [] \<Rightarrow>
             (\<lparr>stack_header = None, locals = [], local_room = 0, written = [], temporaries = [], temporary_count = 0\<rparr>, s));
         count = nat (locals_wanted mod 2 ^ 64) in
     if count > SIZE_LIMIT div 16 then out_of_memory
     else Inr (s\<lparr>rc_bounded_stack := frame\<lparr>locals := replicate count 0,
       local_room := (if count > local_room frame then count else local_room frame), written := [],
       temporary_count := 0\<rparr> # rc_bounded_stack s\<rparr>))"

definition bounded_leave :: "bounded \<Rightarrow> fault + bounded" where
  "bounded_leave s =
     (case rc_bounded_stack s of
        [] \<Rightarrow> Inl Undefined
      | frame # callers \<Rightarrow>
          let s = s\<lparr>rc_bounded_stack := callers\<rparr>;
              (frame, s) = rc_bounded_retire_temporaries frame s in
          rbind (minyar_rc_poll MINYAR_RC_POLL_BUDGET
            (s\<lparr>rc_bounded_frame_queue := rc_bounded_frame_queue s @ [frame], rc_pending_count := rc_pending_count s + 1\<rparr>))
            (\<lambda>(work, s). Inr s))"

definition bounded_step :: "bounded \<Rightarrow> fault + bounded" where
  "bounded_step s =
     (case rc_bounded_stack s of
        [] \<Rightarrow> Inl Undefined
      | frame # callers \<Rightarrow>
          let (frame, s) = rc_bounded_retire_temporaries frame s in
          rbind (minyar_rc_poll MINYAR_RC_POLL_BUDGET (s\<lparr>rc_bounded_stack := frame # callers\<rparr>)) (\<lambda>(work, s). Inr s))"

text \<open>A chunk of temporaries holds eight; the last of them is filled first, and polled for.\<close>

definition bounded_keep :: "ptr \<Rightarrow> bounded \<Rightarrow> fault + bounded" where
  "bounded_keep value s =
     (if value = 0 then Inr s
      else rbind (bounded_object_at (value - 8) s) (\<lambda>object.
        if drop_bit 3 (header object) = 0 then Inr s
        else
          case rc_bounded_stack s of
            [] \<Rightarrow> Inl Undefined
          | frame # callers \<Rightarrow>
              let full = temporaries frame = [] \<or> length (last (temporaries frame)) = 8 in
              rbind (if full then rc_service_pending MINYAR_RC_POLL_BUDGET s else Inr s) (\<lambda>s.
              let chunks = (if full then temporaries frame @ [[value]]
                    else butlast (temporaries frame) @ [last (temporaries frame) @ [value]]) in
              rc_service_pending MINYAR_RC_POLL_BUDGET
                (s\<lparr>rc_bounded_stack := frame\<lparr>temporaries := chunks, temporary_count := temporary_count frame + 1\<rparr> # callers\<rparr>))))"

definition bounded_local_take :: "nat \<Rightarrow> ptr \<Rightarrow> bounded \<Rightarrow> fault + bounded" where
  "bounded_local_take index value s =
     (case rc_bounded_stack s of
        [] \<Rightarrow> Inl Undefined
      | frame # callers \<Rightarrow>
          if index \<ge> length (locals frame) then Inl Undefined
          else
            let previous = locals frame ! index;
                frame = (if previous AND 1 = 0 \<and> value \<noteq> 0 then frame\<lparr>written := written frame @ [index]\<rparr> else frame);
                frame = (if value \<noteq> 0 \<or> previous AND 1 \<noteq> 0
                  then frame\<lparr>locals := (locals frame)[index := value OR 1]\<rparr> else frame) in
            bounded_release (previous AND NOT 1) (s\<lparr>rc_bounded_stack := frame # callers\<rparr>))"

definition bounded_local_move :: "nat \<Rightarrow> bounded \<Rightarrow> fault + bounded" where
  "bounded_local_move index s =
     (case rc_bounded_stack s of
        [] \<Rightarrow> Inl Undefined
      | frame # callers \<Rightarrow>
          if index \<ge> length (locals frame) then Inl Undefined
          else Inr (s\<lparr>rc_bounded_stack :=
            frame\<lparr>locals := (locals frame)[index := locals frame ! index AND 1]\<rparr> # callers\<rparr>))"

definition bounded_local :: "nat \<Rightarrow> ptr \<Rightarrow> bounded \<Rightarrow> fault + bounded" where
  "bounded_local index value s = rbind (bounded_retain value s) (bounded_local_take index value)"

definition bounded_borrow :: "ptr \<Rightarrow> bounded \<Rightarrow> fault + bounded" where
  "bounded_borrow value s = rbind (bounded_retain value s) (bounded_keep value)"

section \<open>Frames on the stack\<close>

text \<open>
  \<open>runtime/minyar_stack_frames.h\<close>: a small frame lives in storage of the caller, and its locals are given up when
  it is left instead of being queued.
\<close>

definition minyar_rc_enter_stack_v1 :: "ptr \<Rightarrow> int \<Rightarrow> bounded \<Rightarrow> fault + bounded" where
  "minyar_rc_enter_stack_v1 frame_header locals_wanted s =
     (if locals_wanted > 0 \<and> locals_wanted \<le> 8 \<and> nat locals_wanted < MINYAR_RC_POLL_BUDGET then
        rbind (minyar_rc_poll MINYAR_RC_POLL_BUDGET s) (\<lambda>(work, s).
        Inr (s\<lparr>rc_bounded_stack := \<lparr>stack_header = Some frame_header, locals = replicate (nat locals_wanted) 0,
          local_room = nat locals_wanted, written = [], temporaries = [], temporary_count = 0\<rparr> # rc_bounded_stack s\<rparr>))
      else bounded_enter locals_wanted s)"

fun drop_written :: "bounded_frame \<Rightarrow> nat list \<Rightarrow> bounded \<Rightarrow> fault + bounded" where
  "drop_written frame [] s = Inr s"
| "drop_written frame (index # indices) s =
     rbind (rc_bounded_local_value frame index) (\<lambda>v.
     rbind (rc_bounded_drop v s) (\<lambda>(freed, s). drop_written frame indices s))"

definition minyar_rc_leave_stack_v1 :: "ptr \<Rightarrow> bounded \<Rightarrow> fault + bounded" where
  "minyar_rc_leave_stack_v1 frame_header s =
     (case rc_bounded_stack s of
        [] \<Rightarrow> Inl Undefined
      | frame # callers \<Rightarrow>
          if stack_header frame = Some frame_header then
            let (frame, s) = rc_bounded_retire_temporaries frame (s\<lparr>rc_bounded_stack := callers\<rparr>) in
            rbind (drop_written frame (rev (written frame)) s) (\<lambda>s.
            rbind (minyar_rc_poll (MINYAR_RC_POLL_BUDGET - length (written frame)) s) (\<lambda>(work, s). Inr s))
          else bounded_leave s)"

end
