(* ===== verification/Bounded_Tasks.thy ===== *)
theory Bounded_Tasks
  imports Bounded_Rc Rc_Ownership
begin

text \<open>
  The representation of tasks: what a header packs, the cursor a dead object carries, and the queues
  threaded through the headers.
\<close>

section \<open>Headers\<close>

lemma kind_bits: "h AND 7 = take_bit 3 h" for h :: "64 word"
  using take_bit_eq_mask [of 3 h] by (simp add: mask_eq_exp_minus_1)

lemma kind_unat: "unat (h AND 7) = unat h mod 8" for h :: "64 word"
  by (simp only: kind_bits unsigned_take_bit_eq) (simp add: take_bit_eq_mod)

lemma holders_unat: "unat (drop_bit 3 h) = unat h div 8" for h :: "64 word"
  by (simp add: drop_bit_eq_div unat_div)

lemma header_value: "unat h = 8 * unat (drop_bit 3 h) + unat (h AND 7)" for h :: "64 word"
  by (simp add: kind_unat holders_unat)

lemma less_claims:
  fixes h :: "64 word"
  assumes "drop_bit 3 h \<noteq> 0"
  shows "(h - 8) AND 7 = h AND 7" and "unat (drop_bit 3 (h - 8)) = unat (drop_bit 3 h) - 1"
proof -
  have "unat h \<ge> 8" using assms header_value [of h] by (simp add: word_unat_eq_iff)
  then have less: "unat (h - 8) = unat h - 8" by (simp add: unat_sub_if')
  have "unat ((h - 8) AND 7) = unat (h AND 7)"
    using \<open>unat h \<ge> 8\<close> by (simp add: kind_unat less le_mod_geq)
  then show "(h - 8) AND 7 = h AND 7" by (simp add: word_unat_eq_iff)
  show "unat (drop_bit 3 (h - 8)) = unat (drop_bit 3 h) - 1"
    using \<open>unat h \<ge> 8\<close> by (simp add: holders_unat less le_div_geq)
qed

lemma no_claims: "drop_bit 3 h = 0 \<longleftrightarrow> h AND 7 = h" for h :: "64 word"
  using header_value [of h] by (auto simp: word_unat_eq_iff)

lemma packed_link:
  fixes k p :: "64 word"
  assumes "k AND 7 = k" "p AND 7 = 0"
  shows "(k OR p) AND 7 = k" and "(k OR p) AND NOT 7 = p"
proof -
  have "bit k n \<longrightarrow> n < 3" "bit p n \<longrightarrow> \<not> n < 3" for n
    using arg_cong [OF assms(1), of "\<lambda>w. bit w n"] arg_cong [OF assms(2), of "\<lambda>w. bit w n"]
    by (auto simp: kind_bits bit_simps)
  note bits = this
  have seven: "(7 :: 64 word) = mask 3" by (simp add: mask_eq_exp_minus_1)
  show "(k OR p) AND 7 = k" "(k OR p) AND NOT 7 = p"
    unfolding seven
    by (rule bit_word_eqI, unfold bit_or_iff bit_and_iff bit_not_iff bit_mask_iff, use bits in auto)+
qed

section \<open>Cursors\<close>

lemma length_store_cursor [simp]: "length (store_cursor bs c) = length bs"
  by (induction bs c rule: store_cursor.induct) simp_all

lemma bit_stored_byte:
  "bit ((b AND 1) OR ucast (push_bit 1 (c AND 127)) :: byte) n \<longleftrightarrow>
    (if n = 0 then bit b 0 else n < 8 \<and> bit c (n - 1))" for b :: byte and c :: "64 word"
proof -
  have m: "(127 :: 64 word) = mask 7" by (simp add: mask_eq_exp_minus_1)
  show ?thesis
    unfolding m bit_or_iff bit_and_iff bit_unsigned_iff bit_push_bit_iff bit_mask_iff
    by (cases n) (auto simp: bit_1_iff dest: bit_imp_le_length)
qed

lemma stored_reference: "store_cursor bs c ! i AND 1 = bs ! i AND 1" if "i < length bs"
  using that
proof (induction bs c arbitrary: i rule: store_cursor.induct)
  case (2 b bs c)
  have "(b AND 1 OR ucast (push_bit 1 (c AND 127))) AND 1 = b AND 1"
    by (rule bit_word_eqI) (auto simp: bit_simps bit_stored_byte)
  with 2 show ?case by (cases i) auto
qed simp

lemma bit_load_cursor:
  "bit (load_cursor bs i) n \<longleftrightarrow>
    n < 64 \<and> i * 7 \<le> n \<and> (n - i * 7) div 7 < length bs \<and> bit (bs ! ((n - i * 7) div 7)) ((n - i * 7) mod 7 + 1)"
proof (induction bs i rule: load_cursor.induct)
  case (2 b bs i)
  show ?case
  proof (cases "i * 7 \<le> n \<and> n < i * 7 + 7")
    case True
    then have "(n - i * 7) div 7 = 0" "(n - i * 7) mod 7 = n - i * 7" by auto
    with True 2 show ?thesis by (auto simp: bit_simps)
  next
    case False
    have "\<not> bit b (n - i * 7 + 1)" if "i * 7 + 7 \<le> n" using that bit_imp_le_length [of b] by fastforce
    moreover have "(n - i * 7) div 7 = Suc ((n - (i + 1) * 7) div 7)" "(n - i * 7) mod 7 = (n - (i + 1) * 7) mod 7"
      if "i * 7 + 7 \<le> n" using that by (simp_all add: le_div_geq le_mod_geq add.commute)
    ultimately show ?thesis using False 2 by (auto simp: bit_simps)
  qed
qed simp

lemma bit_store_cursor:
  "j < length bs \<Longrightarrow> bit (store_cursor bs c ! j) (Suc k) \<longleftrightarrow> k < 7 \<and> bit c (j * 7 + k)"
proof (induction bs c arbitrary: j rule: store_cursor.induct)
  case (2 b bs c)
  show ?case
  proof (cases j)
    case 0
    then show ?thesis by (simp only: store_cursor.simps nth_Cons_0 bit_stored_byte) auto
  next
    case (Suc i)
    with 2 show ?thesis by (auto simp: bit_simps algebra_simps)
  qed
qed simp

lemma load_stored_cursor:
  assumes "unat c < 2 ^ (7 * length bs) \<or> length bs \<ge> 10"
  shows "load_cursor (store_cursor bs c) 0 = c"
proof (rule bit_word_eqI)
  fix n assume "n < LENGTH(64)"
  then have n: "n < 64" by simp
  have split: "n div 7 * 7 + n mod 7 = n" by simp
  show "bit (load_cursor (store_cursor bs c) 0) n \<longleftrightarrow> bit c n"
  proof (cases "n div 7 < length bs")
    case True
    then show ?thesis using n split by (simp add: bit_load_cursor bit_store_cursor)
  next
    case False
    then have "7 * length bs \<le> n" "length bs < 10" using n by auto
    with assms have "c = take_bit n c"
      by (simp add: word_unat_eq_iff unsigned_take_bit_eq)
        (metis less_le_trans one_le_numeral power_increasing take_bit_nat_eq_self)
    then have "\<not> bit c n" by (metis bit_take_bit_iff less_irrefl)
    with False show ?thesis by (simp add: bit_load_cursor)
  qed
qed

end
