(* ===== verification/Bounded_Inv.thy ===== *)
theory Bounded_Inv
  imports Bounded_Tasks Rc_Release
begin

text \<open>
  The invariant of the bounded reclaimer. A state is read as a heap of the eager reference counter
  (\<open>eager\<close>), in which a dead object holds just the references its cursor has not passed; the invariant of
  that heap and the shape of the queues together are kept by every operation.
\<close>

section \<open>Queues\<close>

fun linked :: "(ptr, bounded_object) fmap \<Rightarrow> ptr \<Rightarrow> ptr list \<Rightarrow> bool" where
  "linked m a [] \<longleftrightarrow> a = 0"
| "linked m a (b # bs) \<longleftrightarrow> a = b \<and> b \<noteq> 0 \<and> (\<exists>object. fmlookup m (b + 8) = Some object \<and> linked m (header object AND LINK) bs)"

lemma linked_same:
  assumes "linked m a bs"
    and "\<And>b object. b \<in> set bs \<Longrightarrow> fmlookup m (b + 8) = Some object \<Longrightarrow>
      \<exists>object'. fmlookup m' (b + 8) = Some object' \<and> header object' AND LINK = header object AND LINK"
  shows "linked m' a bs"
  using assms
proof (induction m a bs rule: linked.induct)
  case (2 m a b bs)
  then obtain object where object: "fmlookup m (b + 8) = Some object" "linked m (header object AND LINK) bs" by auto
  then have "linked m' (header object AND LINK) bs" using "2.IH" "2.prems"(2) by auto
  moreover obtain object' where "fmlookup m' (b + 8) = Some object'" "header object' AND LINK = header object AND LINK"
    using "2.prems"(2) [OF _ object(1)] by auto
  ultimately show ?case using "2.prems"(1) by auto
qed simp

lemma linked_null: "linked m a bs \<Longrightarrow> a = 0 \<longleftrightarrow> bs = []"
  by (cases bs) auto

definition last_task :: "ptr list \<Rightarrow> ptr" where
  "last_task bs = (if bs = [] then 0 else last bs)"

definition active_tasks :: "bounded \<Rightarrow> ptr list" where
  "active_tasks s = (if rc_bounded_active s \<noteq> 0 then [rc_bounded_active s] else [])"

definition queues_ok :: "ptr list \<Rightarrow> ptr list \<Rightarrow> bounded \<Rightarrow> bool" where
  "queues_ok recents olds s \<longleftrightarrow>
     linked (memory s) (rc_bounded_recent_head s) recents \<and> rc_bounded_recent_tail s = last_task recents \<and>
     linked (memory s) (rc_bounded_head s) olds \<and> rc_bounded_tail s = last_task olds \<and>
     rc_pending_count s = length recents + length olds + length (active_tasks s) +
       length (rc_bounded_frame_queue s) + length (rc_bounded_chunk_queue s)"

section \<open>The eager view\<close>

text \<open>The references of an object from a slot on, with \<open>NULL\<close> for a slot that is not one.\<close>

definition references_from :: "payload \<Rightarrow> nat \<Rightarrow> ptr list" where
  "references_from p i =
     (case p of
        Text_payload _ \<Rightarrow> []
      | List_payload values _ \<Rightarrow> drop i values
      | Record_payload references values \<Rightarrow>
          map2 (\<lambda>b v. if b AND 1 \<noteq> 0 then v else 0) (drop i references) (drop i values))"

definition live_content :: "bounded_object \<Rightarrow> content" where
  "live_content object =
     (case payload object of
        Text_payload backing \<Rightarrow> RC_TEXT backing
      | List_payload values capacity \<Rightarrow>
          let list = \<lparr>list_values = values, list_capacity = int capacity\<rparr> in
          if kind object = KIND_REFERENCES then RC_REFERENCES list else RC_LIST list
      | Record_payload references values \<Rightarrow>
          if kind object = KIND_RECORD then RC_RECORD (map (\<lambda>b. b AND 1 \<noteq> 0) references) values
          else RC_SCALAR_RECORD values)"

definition dead_content :: "bounded_object \<Rightarrow> nat \<Rightarrow> content" where
  "dead_content object i =
     (let refs = references_from (payload object) i in
      RC_REFERENCES \<lparr>list_values = refs, list_capacity = int (length refs)\<rparr>)"

definition cursor_of :: "bounded \<Rightarrow> ptr \<Rightarrow> bounded_object \<Rightarrow> nat" where
  "cursor_of s v object =
     (if rc_bounded_active s \<noteq> 0 \<and> v = rc_bounded_active s + 8 then rc_bounded_cursor s
      else rc_bounded_saved_cursor object)"

definition view_object :: "ptr list \<Rightarrow> bounded \<Rightarrow> ptr \<Rightarrow> bounded_object \<Rightarrow> rc_object" where
  "view_object dead s v object =
     (if v \<in> set dead then \<lparr>holders = 0, content = dead_content object (cursor_of s v object)\<rparr>
      else \<lparr>holders = unat (drop_bit 3 (header object)), content = live_content object\<rparr>)"

definition dead_values :: "ptr list \<Rightarrow> ptr list \<Rightarrow> bounded \<Rightarrow> ptr list" where
  "dead_values recents olds s = map (\<lambda>a. a + 8) (recents @ olds @ active_tasks s)"

definition eager :: "ptr list \<Rightarrow> ptr list \<Rightarrow> bounded \<Rightarrow> rc_heap" where
  "eager recents olds s =
     \<lparr>objects = fmmap_keys (view_object (dead_values recents olds s) s) (memory s),
      rc_pending = dead_values recents olds s, rc_pending_capacity = 0\<rparr>"

lemma eager_simps [simp]:
  "fmlookup (objects (eager recents olds s)) v =
    map_option (view_object (dead_values recents olds s) s v) (fmlookup (memory s) v)"
  "rc_pending (eager recents olds s) = dead_values recents olds s"
  by (simp_all add: eager_def)

section \<open>The invariant\<close>

definition container :: "bounded_object \<Rightarrow> bool" where
  "container object \<longleftrightarrow> kind object = KIND_REFERENCES \<or> kind object = KIND_RECORD"

text \<open>The reference map of a live record has no cursor in it.\<close>

definition plain_map :: "bounded_object \<Rightarrow> bool" where
  "plain_map object \<longleftrightarrow>
     (case payload object of Record_payload references _ \<Rightarrow> \<forall>b \<in> set references. drop_bit 1 b = 0 | _ \<Rightarrow> True)"

definition object_fits :: "ptr list \<Rightarrow> bounded \<Rightarrow> ptr \<Rightarrow> bounded_object \<Rightarrow> bool" where
  "object_fits dead s v object \<longleftrightarrow>
     v AND 7 = 0 \<and> v \<noteq> 8 \<and> shaped object \<and> length (slots (payload object)) \<le> SIZE_LIMIT div 8 \<and>
     (if v \<in> set dead then
        container object \<and> cursor_of s v object \<le> length (slots (payload object)) \<and> slots (payload object) \<noteq> [] \<and>
        (rc_bounded_active s \<noteq> 0 \<and> v = rc_bounded_active s + 8 \<longrightarrow> header object = kind object)
      else plain_map object)"

definition objects_fit :: "ptr list \<Rightarrow> bounded \<Rightarrow> bool" where
  "objects_fit dead s \<longleftrightarrow> (\<forall>v object. fmlookup (memory s) v = Some object \<longrightarrow> object_fits dead s v object)"

definition heap_inv :: "ptr multiset \<Rightarrow> ptr list \<Rightarrow> ptr list \<Rightarrow> bounded \<Rightarrow> bool" where
  "heap_inv ext recents olds s \<longleftrightarrow>
     queues_ok recents olds s \<and> objects_fit (dead_values recents olds s) s \<and> rc_inv {} ext (eager recents olds s)"

text \<open>The work that is in the objects: one unit for each, and one for each slot still to be visited.\<close>

fun content_slots :: "content \<Rightarrow> nat" where
  "content_slots (RC_REFERENCES list) = length (list_values list)"
| "content_slots (RC_RECORD references vs) = length vs"
| "content_slots _ = 0"

definition weight :: "rc_heap \<Rightarrow> nat" where
  "weight h = (\<Sum>a\<in>fmdom' (objects h). Suc (content_slots (content (the (fmlookup (objects h) a)))))"

text \<open>
  What an operation leaves alone: live objects keep their contents, the immortal ones stay, and there is not
  more work than before.
\<close>

definition kept_live :: "rc_heap \<Rightarrow> rc_heap \<Rightarrow> bool" where
  "kept_live h h' \<longleftrightarrow> immortal {} h' = immortal {} h \<and> weight h' \<le> weight h \<and>
     (\<forall>a object'. fmlookup (objects h') a = Some object' \<longrightarrow> a \<notin> set (rc_pending h') \<longrightarrow>
        (\<exists>object. fmlookup (objects h) a = Some object \<and> a \<notin> set (rc_pending h) \<and> content object' = content object))"

lemma kept_live_refl [simp, intro]: "kept_live h h"
  by (simp add: kept_live_def)

lemma kept_live_trans [trans]: "kept_live h1 h2 \<Longrightarrow> kept_live h2 h3 \<Longrightarrow> kept_live h1 h3"
  unfolding kept_live_def by (metis le_trans)

lemma weight_at:
  assumes "fmlookup (objects h) a = Some object"
  shows "weight h = Suc (content_slots (content object)) +
    (\<Sum>b\<in>fmdom' (objects h) - {a}. Suc (content_slots (content (the (fmlookup (objects h) b)))))"
proof -
  have "a \<in> fmdom' (objects h)" using assms by (rule fmdom'I)
  then show ?thesis using assms by (simp add: weight_def sum.remove)
qed

lemma weight_change:
  assumes "fmlookup (objects h) a = Some object" "fmlookup (objects h') a = Some object'"
    and "\<And>b. b \<noteq> a \<Longrightarrow> fmlookup (objects h') b = fmlookup (objects h) b"
  shows "weight h' + content_slots (content object) = weight h + content_slots (content object')"
proof -
  have "fmdom' (objects h') - {a} = fmdom' (objects h) - {a}"
    using assms(3) by (auto simp: fmlookup_dom'_iff)
  then have "(\<Sum>b\<in>fmdom' (objects h') - {a}. Suc (content_slots (content (the (fmlookup (objects h') b))))) =
      (\<Sum>b\<in>fmdom' (objects h) - {a}. Suc (content_slots (content (the (fmlookup (objects h) b)))))"
    using assms(3) by (intro sum.cong) auto
  then show ?thesis using weight_at [OF assms(1)] weight_at [OF assms(2)] by simp
qed

lemma weight_less:
  assumes "fmlookup (objects h) a = Some object" "objects h' = fmdrop a (objects h)"
  shows "weight h' < weight h"
proof -
  have "weight h' = (\<Sum>b\<in>fmdom' (objects h) - {a}. Suc (content_slots (content (the (fmlookup (objects h) b)))))"
    unfolding weight_def assms(2) by (intro sum.cong) auto
  then show ?thesis using weight_at [OF assms(1)] by simp
qed

lemma weight_kept:
  assumes "kept {} h h'"
  shows "weight h' \<le> weight h"
proof -
  have "(\<Sum>a\<in>fmdom' (objects h'). Suc (content_slots (content (the (fmlookup (objects h') a))))) =
      (\<Sum>a\<in>fmdom' (objects h'). Suc (content_slots (content (the (fmlookup (objects h) a)))))"
    using assms by (intro sum.cong) (fastforce simp: kept_def fmlookup_dom'_iff)+
  also have "\<dots> \<le> weight h" unfolding weight_def
    using assms by (intro sum_mono2) (fastforce simp: kept_def fmlookup_dom'_iff)+
  finally show ?thesis by (simp add: weight_def)
qed

text \<open>Giving up a claim touches only the memory, the recent queue and the count of tasks.\<close>

definition same_rest :: "bounded \<Rightarrow> bounded \<Rightarrow> bool" where
  "same_rest s s' \<longleftrightarrow>
     s'\<lparr>memory := memory s, rc_bounded_recent_head := rc_bounded_recent_head s,
       rc_bounded_recent_tail := rc_bounded_recent_tail s, rc_pending_count := rc_pending_count s\<rparr> = s"

lemma same_rest_refl [simp, intro]: "same_rest s s"
  by (simp add: same_rest_def)

lemma same_rest_trans: "same_rest s t \<Longrightarrow> same_rest t u \<Longrightarrow> same_rest s u"
  by (cases s; cases t; cases u) (simp add: same_rest_def)

lemma same_restD:
  assumes "same_rest s s'"
  shows "rc_bounded_head s' = rc_bounded_head s" "rc_bounded_tail s' = rc_bounded_tail s"
    "rc_bounded_active s' = rc_bounded_active s" "rc_bounded_cursor s' = rc_bounded_cursor s"
    "rc_bounded_recent_turn s' = rc_bounded_recent_turn s" "rc_bounded_frame_queue s' = rc_bounded_frame_queue s"
    "rc_bounded_chunk_queue s' = rc_bounded_chunk_queue s" "rc_bounded_next_queue s' = rc_bounded_next_queue s"
    "rc_bounded_stack s' = rc_bounded_stack s" "rc_bounded_free_frames s' = rc_bounded_free_frames s"
    "active_tasks s' = active_tasks s" "cursor_of s' = cursor_of s"
  using assms by (cases s; cases s'; simp add: same_rest_def active_tasks_def cursor_of_def fun_eq_iff)+

section \<open>Lookups\<close>

lemma value_header [simp]: "v - 8 + 8 = v" "a + 8 - 8 = a" for v a :: ptr
  by simp_all

lemma in_dead_values: "v \<in> set (dead_values recents olds s) \<longleftrightarrow> v - 8 \<in> set recents \<union> set olds \<union> set (active_tasks s)"
  by (auto simp: dead_values_def image_iff intro!: bexI [of _ "v - 8"])

lemma heap_invD:
  assumes "heap_inv ext recents olds s" "fmlookup (memory s) v = Some object"
  shows "object_fits (dead_values recents olds s) s v object"
    and "object_ok (set (dead_values recents olds s)) (claims {} ext (eager recents olds s)) v
      (view_object (dead_values recents olds s) s v object)"
    and "bounded_object_at (v - 8) s = Inr object"
proof -
  show fits: "object_fits (dead_values recents olds s) s v object"
    using assms by (simp add: heap_inv_def objects_fit_def)
  show "object_ok (set (dead_values recents olds s)) (claims {} ext (eager recents olds s)) v
      (view_object (dead_values recents olds s) s v object)"
    using invD [of "{}" ext "eager recents olds s" v] assms by (simp add: heap_inv_def)
  show "bounded_object_at (v - 8) s = Inr object"
    using fits assms(2) by (simp add: bounded_object_at_def object_fits_def)
qed

text \<open>A claim leads to a live object.\<close>

lemma claimed_object:
  assumes "heap_inv (add_mset v ext) recents olds s" "v \<noteq> 0"
  obtains object where "fmlookup (memory s) v = Some object" "v \<notin> set (dead_values recents olds s)"
    and "view_object (dead_values recents olds s) s v object =
      \<lparr>holders = unat (drop_bit 3 (header object)), content = live_content object\<rparr>"
proof -
  have "rc_inv {} (add_mset v ext) (eager recents olds s)" using assms(1) by (simp add: heap_inv_def)
  then obtain object where "fmlookup (objects (eager recents olds s)) v = Some object"
    "v \<notin> {} \<union> set (rc_pending (eager recents olds s))"
    using assms(2) by (rule inv_claimed)
  then obtain object where "fmlookup (memory s) v = Some object" "v \<notin> set (dead_values recents olds s)" by auto
  then show thesis using that by (simp add: view_object_def)
qed

section \<open>Changes of one object\<close>

lemma dead_values_same:
  "active_tasks s' = active_tasks s \<Longrightarrow> dead_values recents olds s' = dead_values recents olds s"
  by (simp add: dead_values_def)

lemma put_object_simps [simp]:
  "memory (put_object a object s) = fmupd (a + 8) object (memory s)"
  "active_tasks (put_object a object s) = active_tasks s" "cursor_of (put_object a object s) = cursor_of s"
  "rc_bounded_head (put_object a object s) = rc_bounded_head s" "rc_bounded_tail (put_object a object s) = rc_bounded_tail s"
  "rc_bounded_active (put_object a object s) = rc_bounded_active s"
  "rc_bounded_recent_head (put_object a object s) = rc_bounded_recent_head s"
  "rc_bounded_recent_tail (put_object a object s) = rc_bounded_recent_tail s"
  "rc_bounded_recent_turn (put_object a object s) = rc_bounded_recent_turn s"
  "rc_pending_count (put_object a object s) = rc_pending_count s"
  "rc_bounded_frame_queue (put_object a object s) = rc_bounded_frame_queue s"
  "rc_bounded_chunk_queue (put_object a object s) = rc_bounded_chunk_queue s"
  "rc_bounded_cursor (put_object a object s) = rc_bounded_cursor s"
  "dead_values recents olds (put_object a object s) = dead_values recents olds s"
  "same_rest s (put_object a object s)"
  "view_object dead (put_object a object s) = view_object dead s" "object_fits dead (put_object a object s) = object_fits dead s"
  by (simp_all add: view_object_def object_fits_def put_object_def active_tasks_def cursor_of_def dead_values_def same_rest_def fun_eq_iff)

lemma remove_object_simps [simp]:
  "active_tasks (s\<lparr>memory := m\<rparr>) = active_tasks s" "cursor_of (s\<lparr>memory := m\<rparr>) = cursor_of s"
  "dead_values recents olds (s\<lparr>memory := m\<rparr>) = dead_values recents olds s" "same_rest s (s\<lparr>memory := m\<rparr>)"
  "view_object dead (s\<lparr>memory := m\<rparr>) = view_object dead s" "object_fits dead (s\<lparr>memory := m\<rparr>) = object_fits dead s"
  by (simp_all add: view_object_def object_fits_def active_tasks_def cursor_of_def dead_values_def same_rest_def fun_eq_iff)

lemma view_live:
  "v \<notin> set dead \<Longrightarrow> view_object dead s v object = \<lparr>holders = unat (drop_bit 3 (header object)), content = live_content object\<rparr>"
  by (simp add: view_object_def)

text \<open>Change of a live object.\<close>

lemma eager_put_live:
  assumes "v \<notin> set (dead_values recents olds s)"
  shows "eager recents olds (put_object (v - 8) object s) =
    (eager recents olds s)\<lparr>objects := fmupd v \<lparr>holders = unat (drop_bit 3 (header object)), content = live_content object\<rparr>
      (objects (eager recents olds s))\<rparr>"
  using assms by (auto simp: eager_def view_object_def intro!: fmap_ext)

lemma eager_remove_live:
  "eager recents olds (s\<lparr>memory := fmdrop v (memory s)\<rparr>) = rc_free v (eager recents olds s)"
  by (auto simp: eager_def rc_free_def view_object_def intro!: fmap_ext)

lemma queues_ok_memory:
  assumes "queues_ok recents olds s" "v \<notin> set (dead_values recents olds s)"
    and "\<And>u. u \<noteq> v \<Longrightarrow> fmlookup m u = fmlookup (memory s) u"
  shows "queues_ok recents olds (s\<lparr>memory := m\<rparr>)"
proof -
  have other: "b + 8 \<noteq> v" if "b \<in> set recents \<union> set olds" for b
    using assms(2) that by (auto simp: dead_values_def)
  have "linked m a bs" if "linked (memory s) a bs" "set bs \<subseteq> set recents \<union> set olds" for a bs
    by (rule linked_same [OF that(1)]) (use that(2) other assms(3) in auto)
  with assms(1) show ?thesis by (auto simp: queues_ok_def)
qed

lemma put_live_ok:
  assumes "heap_inv ext recents olds s" "v \<notin> set (dead_values recents olds s)"
    and "object_fits (dead_values recents olds s) s v object"
  shows "queues_ok recents olds (put_object (v - 8) object s)"
    and "objects_fit (dead_values recents olds s) (put_object (v - 8) object s)"
proof -
  show "queues_ok recents olds (put_object (v - 8) object s)"
    using assms queues_ok_memory [of recents olds s v] by (simp add: heap_inv_def put_object_def)
  show "objects_fit (dead_values recents olds s) (put_object (v - 8) object s)"
    using assms by (auto simp: heap_inv_def objects_fit_def object_fits_def)
qed

lemma remove_live_ok:
  assumes "heap_inv ext recents olds s" "v \<notin> set (dead_values recents olds s)"
  shows "queues_ok recents olds (s\<lparr>memory := fmdrop v (memory s)\<rparr>)"
    and "objects_fit (dead_values recents olds s) (s\<lparr>memory := fmdrop v (memory s)\<rparr>)"
proof -
  show "queues_ok recents olds (s\<lparr>memory := fmdrop v (memory s)\<rparr>)"
    using assms queues_ok_memory [of recents olds s v] by (simp add: heap_inv_def)
  show "objects_fit (dead_values recents olds s) (s\<lparr>memory := fmdrop v (memory s)\<rparr>)"
    using assms by (auto simp: heap_inv_def objects_fit_def object_fits_def split: if_splits)
qed

lemma kept_live_of_kept:
  "kept {} h h' \<Longrightarrow> set (rc_pending h) \<subseteq> set (rc_pending h') \<Longrightarrow> kept_live h h'"
  using weight_kept [of h h'] unfolding kept_def kept_live_def by blast

text \<open>A dead object hands on some of the references it still holds; \<open>NULL\<close> does not count.\<close>

lemma kind_code_small: "kind_code c \<le> SIZE_LIMIT"
  by (cases c) simp_all

lemma inv_hand_on:
  assumes inv: "rc_inv {} ext h" and dead: "a \<in> set (rc_pending h)" and object: "fmlookup (objects h) a = Some object"
    and refs: "\<And>x. x \<noteq> 0 \<Longrightarrow> count (mset (held (content object))) x = count (M + mset (held c)) x"
    and c: "well_formed c" "waits c"
  shows "rc_inv {} (M + ext) (h\<lparr>objects := fmupd a (object\<lparr>content := c\<rparr>) (objects h)\<rparr>)"
    (is "rc_inv {} _ ?h'")
proof -
  have same: "count (claims {} (M + ext) ?h') x = count (claims {} ext h) x" if "x \<noteq> 0" for x
    using object refs [OF that] by (simp add: claims_def object_claims_update object_claims_remove [OF object])
  have "counted (set (rc_pending h)) (claims {} (M + ext) ?h') (objects ?h')"
    unfolding counted_def
  proof (intro allI impI)
    fix b new assume b: "fmlookup (objects ?h') b = Some new"
    then have "object_ok (set (rc_pending h)) (claims {} ext h) b new"
      using invD [OF inv object] invD [OF inv, of b new] dead c
      by (auto simp: object_ok_def ownership_def kind_code_small split: if_splits)
    then show "object_ok (set (rc_pending h)) (claims {} (M + ext) ?h') b new" using same [of b] by (simp add: object_ok_def)
  qed
  moreover have "within (claims {} (M + ext) ?h') (objects ?h')"
    unfolding within_def
  proof (intro allI impI)
    fix x assume "count (claims {} (M + ext) ?h') x > 0"
    then show "x = 0 \<or> x \<in> fmdom' (objects ?h')" using inv same [of x] by (cases "x = 0") (auto simp: rc_inv_def within_def)
  qed
  moreover have "queued {} ?h'"
    using inv c by (auto simp: rc_inv_def queued_def)
  ultimately show ?thesis unfolding rc_inv_def by simp
qed

end
