(* ===== verification/Bounded_Drop.thy ===== *)
theory Bounded_Drop
  imports Bounded_Inv
begin

text \<open>Giving up a claim in the bounded configuration keeps the invariant and faults on nothing.\<close>

section \<open>The cases\<close>

lemma uncounted_inv:
  assumes "heap_inv (add_mset v ext) recents olds s"
    and "v = 0 \<or> (\<exists>object. fmlookup (memory s) v = Some object \<and> drop_bit 3 (header object) = 0 \<and> v \<notin> set (dead_values recents olds s))"
  shows "heap_inv ext recents olds s"
proof -
  have "rc_inv {} ext (eager recents olds s)"
    using assms by (intro inv_uncounted [of "{}" v ext]) (auto simp: heap_inv_def view_live)
  with assms show ?thesis by (simp add: heap_inv_def)
qed

lemma claim_view:
  assumes "heap_inv (add_mset v ext) recents olds s" "fmlookup (memory s) v = Some object"
    and "v \<notin> set (dead_values recents olds s)"
  shows "rc_inv {} (add_mset v ext) (eager recents olds s)"
    and "fmlookup (objects (eager recents olds s)) v =
      Some \<lparr>holders = unat (drop_bit 3 (header object)), content = live_content object\<rparr>"
    and "object_fits (dead_values recents olds s) s v object"
  using assms heap_invD(1) by (simp_all add: heap_inv_def view_live)

lemma header_change:
  assumes "header object' AND 7 = header object AND 7" "payload object' = payload object"
  shows "v \<notin> set dead \<Longrightarrow> object_fits dead s v object \<Longrightarrow> object_fits dead s v object'"
    and "live_content object' = live_content object"
  using assms by (simp_all add: object_fits_def shaped_def kind_def plain_map_def live_content_def split: payload.splits)

lemma decremented:
  assumes inv: "heap_inv (add_mset v ext) recents olds s" and object: "fmlookup (memory s) v = Some object"
    and live: "v \<notin> set (dead_values recents olds s)" and more: "unat (drop_bit 3 (header object)) > 1"
  defines "s' \<equiv> put_object (v - 8) (object\<lparr>header := header object - 8\<rparr>) s"
  shows "heap_inv ext recents olds s'" and "kept_live (eager recents olds s) (eager recents olds s')"
proof -
  let ?object = "object\<lparr>header := header object - 8\<rparr>"
  let ?viewed = "\<lparr>holders = unat (drop_bit 3 (header object)), content = live_content object\<rparr>"
  have nonzero: "drop_bit 3 (header object) \<noteq> 0" using more by auto
  note less = less_claims [OF nonzero]
  note viewed = claim_view [OF inv object live]
  have fits: "object_fits (dead_values recents olds s) s v ?object"
    by (rule header_change(1) [OF _ _ live viewed(3)]) (simp_all add: less)
  have "live_content ?object = live_content object" by (rule header_change(2)) (simp_all add: less)
  then have eager: "eager recents olds s' = (eager recents olds s)\<lparr>objects := fmupd v (?viewed\<lparr>holders := holders ?viewed - 1\<rparr>)
      (objects (eager recents olds s))\<rparr>"
    unfolding s'_def eager_put_live [OF live] by (simp add: less)
  have "holders ?viewed > 1" using more by simp
  note step = inv_decrement [OF viewed(1,2) this, folded eager]
  show "heap_inv ext recents olds s'"
    using put_live_ok [OF inv live fits] step(1) by (simp add: heap_inv_def s'_def)
  show "kept_live (eager recents olds s) (eager recents olds s')"
    using step(2) by (rule kept_live_of_kept) (simp add: s'_def)
qed

lemma freed:
  assumes inv: "heap_inv (add_mset v ext) recents olds s" and object: "fmlookup (memory s) v = Some object"
    and live: "v \<notin> set (dead_values recents olds s)" and last: "unat (drop_bit 3 (header object)) = 1"
  defines "s' \<equiv> s\<lparr>memory := fmdrop v (memory s)\<rparr>"
  shows "heap_inv (mset (held (live_content object)) + ext) recents olds s'"
    and "kept_live (eager recents olds s) (eager recents olds s')"
proof -
  note step = inv_free [OF claim_view(1,2) [OF inv object live], unfolded rc_object.simps, OF last]
  show "heap_inv (mset (held (live_content object)) + ext) recents olds s'"
    using remove_live_ok [OF inv live] step(1) by (simp add: heap_inv_def s'_def eager_remove_live)
  show "kept_live (eager recents olds s) (eager recents olds s')"
    unfolding s'_def eager_remove_live using step(2) by (rule kept_live_of_kept) (simp add: rc_free_def)
qed

section \<open>A container set aside\<close>

lemma map2_references:
  fixes rs rs' :: "byte list"
  assumes "length rs' = length rs" "\<And>j. j < length rs \<Longrightarrow> rs' ! j AND 1 = rs ! j AND 1"
  shows "map2 (\<lambda>b v. if b AND 1 \<noteq> 0 then v else 0) (drop i rs') (drop i vs) =
    map2 (\<lambda>b v. if b AND 1 \<noteq> 0 then v else (0 :: ptr)) (drop i rs) (drop i vs)"
proof (rule nth_equalityI)
  fix j assume "j < length (map2 (\<lambda>b v. if b AND 1 \<noteq> 0 then v else (0 :: ptr)) (drop i rs') (drop i vs))"
  then have j: "j < length rs - i" "j < length vs - i" "i + j < length rs" using assms(1) by auto
  with assms(2) [OF j(3)] assms(1) show "map2 (\<lambda>b v. if b AND 1 \<noteq> 0 then v else 0) (drop i rs') (drop i vs) ! j =
      map2 (\<lambda>b v. if b AND 1 \<noteq> 0 then v else 0) (drop i rs) (drop i vs) ! j"
    by (simp add: nth_drop [OF less_imp_le])
qed (use assms in simp)

lemma references_saved: "references_from (payload (rc_bounded_save_cursor object c)) i = references_from (payload object) i"
proof (cases "payload object")
  case (Record_payload rs vs)
  let ?stored = "store_cursor (take 10 rs) (of_nat c) @ drop 10 rs"
  have "?stored ! j AND 1 = rs ! j AND 1" if "j < length rs" for j
    using that by (auto simp: nth_append stored_reference)
  moreover have "length ?stored = length rs" by simp
  ultimately show ?thesis using Record_payload map2_references [of ?stored rs i vs]
    by (simp add: rc_bounded_save_cursor_def references_from_def)
qed (simp_all add: rc_bounded_save_cursor_def references_from_def)

lemma store_cursor_Nil [simp]: "store_cursor bs c = [] \<longleftrightarrow> bs = []"
  by (cases bs) simp_all

lemma saved_simps [simp]:
  "header (rc_bounded_save_cursor object c) = header object" "kind (rc_bounded_save_cursor object c) = kind object"
  "slots (payload (rc_bounded_save_cursor object c)) = slots (payload object)"
  "shaped (rc_bounded_save_cursor object c) = shaped object" "container (rc_bounded_save_cursor object c) = container object"
  by (auto simp: rc_bounded_save_cursor_def kind_def shaped_def container_def split: payload.splits)

lemma saved_cursor:
  assumes "shaped object" "container object" "c \<le> length (slots (payload object))"
    "length (slots (payload object)) \<le> SIZE_LIMIT div 8"
  shows "rc_bounded_saved_cursor (rc_bounded_save_cursor object c) = c"
proof (cases "payload object")
  case (Record_payload rs vs)
  with assms have "length rs = length vs" by (auto simp: shaped_def container_def)
  moreover have u: "unat (of_nat c :: 64 word) = c"
    using assms by (simp add: unat_of_nat take_bit_nat_eq_self)
  moreover have "c < 2 ^ (7 * length vs)" using assms(3) Record_payload power_gt_expt [of "2 ^ 7" "length vs"]
    by (simp add: power_mult)
  ultimately have "load_cursor (store_cursor (take 10 rs) (of_nat c)) 0 = (of_nat c :: 64 word)"
    by (intro load_stored_cursor) (auto simp: min_def)
  with Record_payload u show ?thesis
    by (cases "length rs \<le> 10") (simp_all add: rc_bounded_save_cursor_def rc_bounded_saved_cursor_def min_absorb2)
qed (use assms in \<open>auto simp: rc_bounded_save_cursor_def rc_bounded_saved_cursor_def shaped_def container_def\<close>)

lemma length_references: "length (references_from p i) \<le> length (slots p)"
  by (cases p) (auto simp: references_from_def)

lemma count_marked:
  "length rs = length vs \<Longrightarrow> x \<noteq> 0 \<Longrightarrow>
    count (mset (marked (map (\<lambda>b. b AND 1 \<noteq> 0) rs) vs)) x =
    count (mset (map2 (\<lambda>b v. if b AND 1 \<noteq> 0 then v else 0) rs vs)) x"
  by (induction rs vs rule: list_induct2) auto

lemma held_live_content:
  assumes "container object" "shaped object" "x \<noteq> 0"
  shows "count (mset (held (live_content object))) x = count (mset (references_from (payload object) 0)) x"
  using assms count_marked [OF _ assms(3)]
  by (auto simp: container_def shaped_def live_content_def references_from_def split: payload.splits)

lemma content_slots_live:
  "container object \<Longrightarrow> shaped object \<Longrightarrow>
    content_slots (live_content object) = length (slots (payload object)) \<and>
    length (references_from (payload object) i) = length (slots (payload object)) - i"
  by (auto simp: container_def shaped_def live_content_def references_from_def split: payload.splits)

lemma held_empty:
  assumes "container object" "shaped object" "slots (payload object) = []"
  shows "held (live_content object) = []"
  using assms by (auto simp: container_def shaped_def live_content_def split: payload.splits)

lemma waits_live: "container object \<Longrightarrow> shaped object \<Longrightarrow> waits (live_content object)"
  by (auto simp: container_def shaped_def live_content_def split: payload.splits)

lemma dead_content_ok:
  "length (slots (payload object)) \<le> SIZE_LIMIT div 8 \<Longrightarrow> well_formed (dead_content object i)"
  "waits (dead_content object i)" "held (dead_content object i) = references_from (payload object) i"
  using length_references [of "payload object" i] by (auto simp: dead_content_def Let_def)

lemma aligned_header: "(v - 8) AND 7 = v AND 7" for v :: ptr
proof -
  have "unat ((a + 8) AND 7) = unat (a AND 7)" for a :: ptr
  proof -
    have "(unat a + 8) mod 2 ^ 64 mod 8 = (unat a + 8) mod 8" by (rule mod_mod_cancel) simp
    then show ?thesis unfolding kind_unat by (simp add: unat_word_ariths)
  qed
  from this [of "v - 8"] show ?thesis by (simp add: word_unat_eq_iff)
qed

lemma linked_nonzero: "linked m a bs \<Longrightarrow> b \<in> set bs \<Longrightarrow> b \<noteq> 0"
  by (induction m a bs rule: linked.induct) auto

lemma last_task_null: "linked m a bs \<Longrightarrow> last_task bs = 0 \<longleftrightarrow> bs = []"
  using linked_nonzero [of m a bs "last bs"] by (auto simp: last_task_def)

lemma recent_head_aligned:
  assumes "heap_inv ext recents olds s"
  shows "rc_bounded_recent_head s AND 7 = 0"
proof (cases recents)
  case Nil
  with assms show ?thesis by (simp add: heap_inv_def queues_ok_def)
next
  case (Cons b bs)
  with assms obtain object where b: "rc_bounded_recent_head s = b" "fmlookup (memory s) (b + 8) = Some object"
    by (auto simp: heap_inv_def queues_ok_def)
  from heap_invD(1) [OF assms b(2)] have "(b + 8) AND 7 = 0" by (simp add: object_fits_def)
  then show ?thesis using aligned_header [of "b + 8"] b(1) by simp
qed

lemma kept_live_other:
  assumes "\<And>u. u \<noteq> v \<Longrightarrow> fmlookup (objects h') u = fmlookup (objects h) u"
    and "v \<in> set (rc_pending h')" "\<And>u. u \<noteq> v \<Longrightarrow> u \<in> set (rc_pending h') \<longleftrightarrow> u \<in> set (rc_pending h)"
    and "fmlookup (objects h) v = Some object" "v \<in> set (rc_pending h) \<or> holders object > 0"
    and "fmlookup (objects h') v = Some object'" "content_slots (content object') \<le> content_slots (content object)"
  shows "kept_live h h'"
  unfolding kept_live_def immortal_def
proof (intro conjI allI impI set_eqI)
  show "weight h' \<le> weight h" using weight_change [OF assms(4,6,1)] assms(7) by simp
next
  fix u
  show "u \<in> {a. \<exists>object. fmlookup (objects h') a = Some object \<and> holders object = 0 \<and> a \<notin> {} \<union> set (rc_pending h')} \<longleftrightarrow>
      u \<in> {a. \<exists>object. fmlookup (objects h) a = Some object \<and> holders object = 0 \<and> a \<notin> {} \<union> set (rc_pending h)}"
    using assms by (cases "u = v") auto
next
  fix a object' assume "fmlookup (objects h') a = Some object'" "a \<notin> set (rc_pending h')"
  then show "\<exists>object. fmlookup (objects h) a = Some object \<and> a \<notin> set (rc_pending h) \<and> content object' = content object"
    using assms by (cases "a = v") auto
qed

text \<open>The header of the new task is its kind and the link to the former head.\<close>

definition set_aside :: "ptr \<Rightarrow> bounded_object \<Rightarrow> bounded \<Rightarrow> bounded" where
  "set_aside v object s =
     (put_object (v - 8) (rc_bounded_save_cursor (object\<lparr>header := header object - 8\<rparr>) 0
       \<lparr>header := (header object - 8) OR rc_bounded_recent_head s\<rparr>) s)
     \<lparr>rc_bounded_recent_head := v - 8,
      rc_bounded_recent_tail := (if rc_bounded_recent_tail s = 0 then v - 8 else rc_bounded_recent_tail s),
      rc_pending_count := rc_pending_count s + 1\<rparr>"

lemma set_aside_inv:
  assumes inv: "heap_inv (add_mset v ext) recents olds s" and object: "fmlookup (memory s) v = Some object"
    and live: "v \<notin> set (dead_values recents olds s)" and last: "unat (drop_bit 3 (header object)) = 1"
    and container: "container object" "slots (payload object) \<noteq> []"
  shows "heap_inv ext ((v - 8) # recents) olds (set_aside v object s)"
    and "kept_live (eager recents olds s) (eager ((v - 8) # recents) olds (set_aside v object s))"
proof -
  define new where "new = rc_bounded_save_cursor (object\<lparr>header := header object - 8\<rparr>) 0
    \<lparr>header := (header object - 8) OR rc_bounded_recent_head s\<rparr>"
  define s' where "s' = set_aside v object s"
  let ?dead = "dead_values recents olds s" and ?h = "eager recents olds s"
  note viewed = claim_view [OF inv object live]
  have shaped: "shaped object" "v AND 7 = 0" "v \<noteq> 8" "length (slots (payload object)) \<le> SIZE_LIMIT div 8"
    using viewed(3) by (simp_all add: object_fits_def)
  have "drop_bit 3 (header object) \<noteq> 0" using last by auto
  note less = less_claims [OF this]
  have bare: "header object - 8 = kind object"
    using no_claims [of "header object - 8"] less last by (simp add: kind_def word_unat_eq_iff)
  have "kind object AND 7 = kind object" using less bare by (simp add: kind_def)
  note packed = packed_link [OF this recent_head_aligned [OF inv]]
  have new: "kind new = kind object" "header new AND LINK = rc_bounded_recent_head s"
    "slots (payload new) = slots (payload object)" "shaped new" "container new"
    using packed bare shaped(1) container(1) saved_simps [of "object\<lparr>header := header object - 8\<rparr>" 0]
    by (auto simp: new_def kind_def container_def shaped_def split: payload.splits)
  have memory: "memory s' = fmupd v new (memory s)" by (simp add: s'_def set_aside_def new_def)
  have dead: "dead_values ((v - 8) # recents) olds s' = v # ?dead"
    by (simp add: s'_def set_aside_def dead_values_def put_object_def active_tasks_def)
  have rest: "rc_bounded_active s' = rc_bounded_active s" "cursor_of s' = cursor_of s" "active_tasks s' = active_tasks s"
    by (simp_all add: s'_def set_aside_def put_object_def cursor_of_def active_tasks_def fun_eq_iff)
  have others: "view_object (v # ?dead) s' u = view_object ?dead s u" if "u \<noteq> v" for u
    using that rest by (simp add: view_object_def fun_eq_iff)
  have inactive: "rc_bounded_active s \<noteq> 0 \<Longrightarrow> v \<noteq> rc_bounded_active s + 8"
    using live by (auto simp: in_dead_values active_tasks_def)
  have "shaped (object\<lparr>header := header object - 8\<rparr>)" "container (object\<lparr>header := header object - 8\<rparr>)"
    using shaped(1) container(1) less by (simp_all add: shaped_def container_def kind_def split: payload.splits)
  then have "rc_bounded_saved_cursor (rc_bounded_save_cursor (object\<lparr>header := header object - 8\<rparr>) 0) = 0"
    using shaped(4) by (intro saved_cursor) simp_all
  then have "rc_bounded_saved_cursor new = 0" by (simp add: new_def rc_bounded_saved_cursor_def)
  with inactive have cursor: "cursor_of s v new = 0" by (auto simp: cursor_of_def)
  have "queues_ok ((v - 8) # recents) olds s'"
  proof -
    have other: "b + 8 \<noteq> v" if "b \<in> set recents \<union> set olds" for b using live that by (auto simp: dead_values_def)
    have keep: "linked (memory s') a bs" if "linked (memory s) a bs" "set bs \<subseteq> set recents \<union> set olds" for a bs
      by (rule linked_same [OF that(1)]) (use that(2) other memory in auto)
    have "queues_ok recents olds s" using inv by (simp add: heap_inv_def)
    then show ?thesis
      using keep [of "rc_bounded_recent_head s" recents] keep [of "rc_bounded_head s" olds] memory new(2) shaped(3) rest
        last_task_null [of "memory s" "rc_bounded_recent_head s" recents]
      by (auto simp: queues_ok_def s'_def set_aside_def last_task_def put_object_def)
  qed
  moreover have "objects_fit (v # ?dead) s'"
    using inv new shaped container cursor inactive rest memory
    by (auto simp: heap_inv_def objects_fit_def object_fits_def split: if_splits)
  moreover have "rc_inv {} ext (eager ((v - 8) # recents) olds s')"
  proof -
    let ?waiting = "\<lparr>holders = 0, content = live_content object\<rparr>"
    let ?h1 = "?h\<lparr>objects := fmupd v ?waiting (objects ?h), rc_pending := v # rc_pending ?h\<rparr>"
    have "rc_inv {} ext ?h1"
      by (rule inv_queue(1) [OF viewed(1,2)]) (use last container shaped waits_live in simp_all)
    then have "rc_inv {} ({#} + ext) (?h1\<lparr>objects := fmupd v (?waiting\<lparr>content := dead_content new 0\<rparr>) (objects ?h1)\<rparr>)"
      by (rule inv_hand_on) (use dead_content_ok [of new 0] new shaped container held_live_content [of object] in
          \<open>auto simp: new_def references_saved\<close>)
    moreover have "eager ((v - 8) # recents) olds s' = ?h1\<lparr>objects := fmupd v (?waiting\<lparr>content := dead_content new 0\<rparr>) (objects ?h1)\<rparr>"
    proof -
      have "view_object (v # ?dead) s' v new = ?waiting\<lparr>content := dead_content new 0\<rparr>"
        using rest cursor by (simp add: view_object_def)
      with others show ?thesis using memory dead by (auto simp: eager_def intro!: fmap_ext)
    qed
    ultimately show ?thesis by simp
  qed
  ultimately show "heap_inv ext ((v - 8) # recents) olds (set_aside v object s)"
    unfolding heap_inv_def s'_def [symmetric] dead by simp
  show "kept_live (eager recents olds s) (eager ((v - 8) # recents) olds (set_aside v object s))"
    unfolding s'_def [symmetric]
  proof (rule kept_live_other [of v])
    show "fmlookup (objects (eager ((v - 8) # recents) olds s')) v = Some \<lparr>holders = 0, content = dead_content new 0\<rparr>"
      using memory dead cursor rest by (simp add: view_object_def)
    show "content_slots (content \<lparr>holders = 0, content = dead_content new 0\<rparr>) \<le>
        content_slots (content \<lparr>holders = unat (drop_bit 3 (header object)), content = live_content object\<rparr>)"
      using content_slots_live [OF container(1) shaped(1)] content_slots_live [OF new(5,4)] new(3) by (simp add: dead_content_def)
  qed (use memory dead last viewed(2) live others in \<open>auto simp: view_live\<close>)
qed

section \<open>Giving up a claim\<close>

text \<open>What is left after claims have been given up: at most new tasks in front of the recent ones.\<close>

definition dropped :: "ptr multiset \<Rightarrow> ptr list \<Rightarrow> ptr list \<Rightarrow> bounded \<Rightarrow> bounded \<Rightarrow> bool" where
  "dropped ext recents olds s s' \<longleftrightarrow> same_rest s s' \<and>
     (\<forall>v \<in> set (dead_values recents olds s). fmlookup (memory s') v = fmlookup (memory s) v) \<and>
     (\<exists>recents'. (recents' = recents \<or> (\<exists>a. recents' = a # recents)) \<and> heap_inv ext recents' olds s' \<and>
       kept_live (eager recents olds s) (eager recents' olds s'))"

lemma droppedI:
  "same_rest s s' \<Longrightarrow> (\<And>v. v \<in> set (dead_values recents olds s) \<Longrightarrow> fmlookup (memory s') v = fmlookup (memory s) v) \<Longrightarrow> heap_inv ext recents olds s' \<Longrightarrow> kept_live (eager recents olds s) (eager recents olds s') \<Longrightarrow>
   dropped ext recents olds s s'"
  by (auto simp: dropped_def)

lemma finish_at:
  "bounded_object_at a s = Inr object \<Longrightarrow>
   rc_bounded_finish_object a s = Inr (backing_of (payload object), s\<lparr>memory := fmdrop (a + 8) (memory s)\<rparr>)"
  by (simp add: rc_bounded_finish_object_def)

lemma fmdrop_update: "fmdrop v (fmupd v object m) = fmdrop v m"
  by (rule fmap_ext) simp

lemma put_remove:
  "(put_object (v - 8) object s)\<lparr>memory := fmdrop v (memory (put_object (v - 8) object s))\<rparr> = s\<lparr>memory := fmdrop v (memory s)\<rparr>"
  by (simp add: put_object_def fmdrop_update)

lemma put_put_object: "put_object a object (put_object a object' s) = put_object a object s"
  by (simp add: put_object_def)

theorem drop_inv:
  "heap_inv (add_mset v ext) recents olds s \<Longrightarrow> safe (rc_bounded_drop v s) (\<lambda>(n, s'). dropped ext recents olds s s')"
proof (induction v s arbitrary: ext rule: rc_bounded_drop.induct)
  case (1 v s)
  show ?case
  proof (cases "v = 0")
    case True
    with uncounted_inv [OF "1.prems"] show ?thesis by (simp add: rc_bounded_drop.simps [of 0 s] droppedI)
  next
    case False
    with "1.prems" obtain object where object: "fmlookup (memory s) v = Some object"
      and live: "v \<notin> set (dead_values recents olds s)"
      by (auto elim: claimed_object)
    note at = heap_invD(3) [OF "1.prems" object]
    note viewed = claim_view [OF "1.prems" object live]
    have shaped: "shaped object" using viewed(3) by (simp add: object_fits_def)
    note freed = freed [OF "1.prems" object live]
    define s1 where "s1 = s\<lparr>memory := fmdrop v (memory s)\<rparr>"
    have leaf: "dropped ext recents olds s s1"
      if "unat (drop_bit 3 (header object)) = 1" "held (live_content object) = []"
      using freed that live by (intro droppedI) (auto simp: s1_def)
    note drop = rc_bounded_drop.simps [of v s]
    consider (scalar) "header object = 13" | (immortal) "drop_bit 3 (header object) = 0"
      | (shared) "header object \<noteq> 13" "unat (drop_bit 3 (header object)) > 1"
      | (last) "header object \<noteq> 13" "unat (drop_bit 3 (header object)) = 1"
      by (metis One_nat_def less_one linorder_neqE_nat unat_eq_zero)
    then show ?thesis
    proof cases
      case scalar
      then have "kind object = 5" "unat (drop_bit 3 (header object)) = 1" by (simp_all add: kind_def)
      moreover from this(1) have "held (live_content object) = []"
        using shaped by (auto simp: shaped_def live_content_def split: payload.splits)
      ultimately show ?thesis using leaf False at scalar by (simp add: drop finish_at [OF at] s1_def)
    next
      case immortal
      then have "header object \<noteq> 13" by auto
      with immortal have "rc_bounded_drop v s = Inr (0, s)" using False at by (simp add: drop)
      then show ?thesis using uncounted_inv [OF "1.prems"] object live immortal by (auto intro: droppedI)
    next
      case shared
      then have "drop_bit 3 (header object) \<noteq> 0" by auto
      note less = less_claims [OF this]
      with shared have "drop_bit 3 (header object - 8) \<noteq> 0" by auto
      then have "rc_bounded_drop v s = Inr (0, put_object (v - 8) (object\<lparr>header := header object - 8\<rparr>) s)"
        using False at shared by (auto simp: drop Let_def)
      then show ?thesis using decremented [OF "1.prems" object live shared(2)] live by (auto intro!: droppedI)
    next
      case last
      let ?one = "object\<lparr>header := header object - 8\<rparr>"
      have nonzero: "drop_bit 3 (header object) \<noteq> 0" using last by auto
      note less = less_claims [OF this]
      have none: "drop_bit 3 (header object - 8) = 0" using less(2) last by (simp add: word_unat_eq_iff)
      have one: "kind ?one = kind object" "shaped ?one" using less shaped by (simp_all add: kind_def shaped_def split: payload.splits)
      have at_one: "bounded_object_at (v - 8) (put_object (v - 8) ?one s) = Inr ?one"
        using one(2) by (simp add: bounded_object_at_def)
      have finish: "rc_bounded_finish_object (v - 8) (put_object (v - 8) ?one s) = Inr (backing_of (payload object), s1)"
        unfolding finish_at [OF at_one] using put_remove [of v ?one s] by (simp add: s1_def)
      note enter = drop False at last(1) nonzero none one finish Let_def
      consider (text_object) backing where "payload object = Text_payload backing" "kind object = 1"
        | (plain) "kind object = 2 \<or> kind object = 6 \<or> container object \<and> slots (payload object) = []"
        | (full) "container object" "slots (payload object) \<noteq> []"
      proof -
        have "kind object \<noteq> 5" using last header_value [of "header object"] by (auto simp: kind_def word_unat_eq_iff)
        with shaped that show thesis by (cases "payload object") (auto simp: shaped_def container_def)
      qed
      then show ?thesis
      proof cases
        case text_object
        then have held: "held (live_content object) = [backing]" by (simp add: live_content_def)
        show ?thesis
        proof (cases "backing = 0")
          case True
          with text_object have "rc_bounded_drop v s = Inr (1, s1)" by (simp add: enter)
          then show ?thesis
            using freed [OF last(2)] held live True uncounted_inv [of 0 ext recents olds s1] by (auto simp: s1_def intro!: droppedI)
        next
          case backed: False
          have "header object \<noteq> 8 OR KIND_SCALAR_RECORD" using last(1) by simp
          from "1.IH" [OF False refl at this nonzero refl refl _ _ finish refl, of ext]
          have "safe (rc_bounded_drop backing s1) (\<lambda>(n, s'). dropped ext recents olds s1 s')"
            using backed none one(1) text_object freed(1) [OF last(2)] held by (simp add: s1_def)
          then have "safe (rc_bounded_drop backing s1) (\<lambda>(n, s'). dropped ext recents olds s s')"
            by (rule safe_mono) (use freed(2) [OF last(2), folded s1_def] same_rest_trans [of s s1] live in
                \<open>auto simp: dropped_def s1_def intro: kept_live_trans\<close>)
          moreover have "rc_bounded_drop v s = rbind (rc_bounded_drop backing s1) (\<lambda>(n, s). Inr (1 + n, s))"
            using text_object backed by (simp add: enter)
          ultimately show ?thesis by (auto intro: safe_rbind)
        qed
      next
        case plain
        then have "held (live_content object) = []"
          using shaped held_empty [of object]
          by (auto simp: shaped_def live_content_def split: payload.splits)
        moreover have "rc_bounded_drop v s = Inr (1, s1)"
          using plain by (auto simp: enter container_def)
        ultimately show ?thesis using leaf last by simp
      next
        case full
        have "rc_bounded_drop v s = Inr (0, set_aside v object s)"
          using full by (auto simp: enter container_def set_aside_def put_put_object)
        then show ?thesis
          using set_aside_inv [OF "1.prems" object live last(2) full] live
          by (auto simp: dropped_def set_aside_def put_object_def same_rest_def)
      qed
    qed
  qed
qed

end
