(* ===== verification/Bounded_Units.thy ===== *)
theory Bounded_Units
  imports Bounded_Drop
begin

text \<open>Each unit of work of the bounded reclaimer keeps the invariant and faults on nothing.\<close>

section \<open>Changes that the invariant does not see\<close>

lemma eager_cong:
  assumes "memory s' = memory s" "rc_bounded_active s' = rc_bounded_active s" "rc_bounded_cursor s' = rc_bounded_cursor s"
  shows "eager recents olds s' = eager recents olds s" "objects_fit dead s' \<longleftrightarrow> objects_fit dead s"
    "dead_values recents olds s' = dead_values recents olds s"
proof -
  have same: "dead_values recents olds s' = dead_values recents olds s" "cursor_of s' = cursor_of s"
    "view_object dead s' = view_object dead s" "object_fits dead s' = object_fits dead s" for dead
    using assms by (simp_all add: dead_values_def active_tasks_def cursor_of_def view_object_def object_fits_def fun_eq_iff)
  then show "eager recents olds s' = eager recents olds s" "objects_fit dead s' \<longleftrightarrow> objects_fit dead s"
    "dead_values recents olds s' = dead_values recents olds s"
    using assms by (simp_all add: eager_def objects_fit_def)
qed

lemma heap_inv_cong:
  assumes "memory s' = memory s" "rc_bounded_active s' = rc_bounded_active s" "rc_bounded_cursor s' = rc_bounded_cursor s"
    and "queues_ok recents olds s'" "heap_inv ext recents olds s"
  shows "heap_inv ext recents olds s'"
  using assms(4,5) eager_cong [OF assms(1-3)] by (simp add: heap_inv_def)

lemma heap_inv_turn [simp]:
  "heap_inv ext recents olds (s\<lparr>rc_bounded_recent_turn := turn\<rparr>) \<longleftrightarrow> heap_inv ext recents olds s"
  "heap_inv ext recents olds (s\<lparr>rc_bounded_next_queue := queue\<rparr>) \<longleftrightarrow> heap_inv ext recents olds s"
  "eager recents olds (s\<lparr>rc_bounded_recent_turn := turn\<rparr>) = eager recents olds s"
  "eager recents olds (s\<lparr>rc_bounded_next_queue := queue\<rparr>) = eager recents olds s"
  using eager_cong [of "s\<lparr>rc_bounded_recent_turn := turn\<rparr>" s] eager_cong [of "s\<lparr>rc_bounded_next_queue := queue\<rparr>" s]
  by (simp_all add: heap_inv_def queues_ok_def active_tasks_def)

text \<open>What the units of work on objects do not touch.\<close>

definition outside :: "bounded \<Rightarrow> bounded_frame list \<times> ptr list list \<times> nat \<times> bounded_frame list \<times> bounded_frame list \<times> nat" where
  "outside s = (rc_bounded_frame_queue s, rc_bounded_chunk_queue s, rc_bounded_next_queue s, rc_bounded_stack s,
     rc_bounded_free_frames s, rc_bounded_cached_frame_bytes s)"

lemma outside_put [simp]: "outside (put_object a object s) = outside s"
  by (simp add: put_object_def outside_def)

lemma outside_rest: "same_rest s s' \<Longrightarrow> outside s' = outside s"
  by (cases s; cases s'; simp add: same_rest_def outside_def)

lemma outside_queues:
  "outside s' = outside s \<Longrightarrow> rc_bounded_frame_queue s' = rc_bounded_frame_queue s \<and> rc_bounded_chunk_queue s' = rc_bounded_chunk_queue s"
  by (simp add: outside_def)

section \<open>Tasks that wait\<close>

text \<open>The order of the tasks does not matter to the counts, and a task that holds nothing can go.\<close>

lemma inv_pending:
  assumes "rc_inv D ext h" "distinct p" "set p = set (rc_pending h)"
  shows "rc_inv D ext (h\<lparr>rc_pending := p\<rparr>)"
  using assms by (simp add: rc_inv_def claims_def queued_def)

lemma inv_retire:
  assumes inv: "rc_inv {} ext h" and "a \<in> set (rc_pending h)" and object: "fmlookup (objects h) a = Some object"
    and "held (content object) = []" and p: "distinct p" "set p = set (rc_pending h) - {a}"
  shows "rc_inv {} ext (rc_free a (h\<lparr>rc_pending := p\<rparr>))"
proof -
  have "rc_inv {} ext (h\<lparr>rc_pending := a # p\<rparr>)" by (rule inv_pending [OF inv]) (use assms in auto)
  from inv_dying [OF this, of a p object] have "rc_inv {a} ext (h\<lparr>rc_pending := p\<rparr>)" using assms by simp
  then show ?thesis by (rule inv_finish) simp
qed

lemma heap_inv_distinct:
  "heap_inv ext recents olds s \<Longrightarrow> distinct (recents @ olds @ active_tasks s)"
  by (auto simp: heap_inv_def rc_inv_def queued_def dead_values_def distinct_map)

text \<open>The task at the head of the captured queue.\<close>

lemma task_object:
  assumes inv: "heap_inv ext recents olds s" and "v \<in> set (dead_values recents olds s)"
  obtains object where "fmlookup (memory s) v = Some object" "bounded_object_at (v - 8) s = Inr object"
    "container object" "shaped object" "cursor_of s v object \<le> length (slots (payload object))"
    "length (slots (payload object)) \<le> SIZE_LIMIT div 8" "slots (payload object) \<noteq> []"
    "rc_bounded_active s \<noteq> 0 \<Longrightarrow> v = rc_bounded_active s + 8 \<Longrightarrow> header object = kind object"
proof -
  have "v \<in> set (rc_pending (eager recents olds s))" using assms(2) by simp
  then have "\<exists>object. fmlookup (objects (eager recents olds s)) v = Some object"
    using inv unfolding heap_inv_def rc_inv_def queued_def by blast
  then obtain object where object: "fmlookup (memory s) v = Some object" by auto
  with heap_invD [OF inv this] assms(2) show thesis by (intro that) (auto simp: object_fits_def)
qed

lemma activated:
  assumes inv: "heap_inv ext recents (b # olds) s" and idle: "rc_bounded_active s = 0"
  shows "\<exists>s'. activate s = Inr s' \<and> heap_inv ext recents olds s' \<and> rc_bounded_active s' = b \<and> b \<noteq> 0 \<and>
    kept_live (eager recents (b # olds) s) (eager recents olds s') \<and>
    rc_bounded_recent_head s' = rc_bounded_recent_head s \<and> outside s' = outside s"
proof -
  let ?dead = "dead_values recents (b # olds) s"
  have "queues_ok recents (b # olds) s" using inv by (simp add: heap_inv_def)
  then have head: "rc_bounded_head s = b" "b \<noteq> 0" by (auto simp: queues_ok_def)
  have "b + 8 \<in> set ?dead" by (simp add: dead_values_def)
  from task_object [OF inv this] obtain object where object: "fmlookup (memory s) (b + 8) = Some object"
    "bounded_object_at b s = Inr object" "container object" "shaped object" by (metis value_header(2))
  from inv object(1) have links: "linked (memory s) (rc_bounded_recent_head s) recents"
    "linked (memory s) (header object AND LINK) olds" "rc_bounded_recent_tail s = last_task recents"
    "rc_bounded_tail s = last_task (b # olds)" "rc_pending_count s = length recents + Suc (length olds) +
      length (rc_bounded_frame_queue s) + length (rc_bounded_chunk_queue s)"
    using idle by (auto simp: heap_inv_def queues_ok_def active_tasks_def)
  define bare where "bare = object\<lparr>header := header object AND 7\<rparr>"
  define s' where "s' = (put_object b bare s)\<lparr>rc_bounded_active := b, rc_bounded_head := header object AND LINK,
    rc_bounded_tail := (if header object AND LINK = 0 then 0 else rc_bounded_tail s),
    rc_bounded_cursor := rc_bounded_saved_cursor bare\<rparr>"
  have run: "activate s = Inr s'"
    using idle head object(2) by (simp add: activate_def Let_def s'_def bare_def)
  let ?dead' = "dead_values recents olds s'"
  have fields: "rc_bounded_active s' = b" "memory s' = fmupd (b + 8) bare (memory s)" "active_tasks s' = [b]"
    "rc_bounded_cursor s' = rc_bounded_saved_cursor bare"
    using head(2) by (simp_all add: s'_def active_tasks_def)
  have dead: "set ?dead' = set ?dead" "distinct ?dead'"
    using heap_inv_distinct [OF inv] fields idle by (auto simp: dead_values_def active_tasks_def distinct_map)
  have bare: "payload bare = payload object" "kind bare = kind object" "header bare = kind bare"
    "rc_bounded_saved_cursor bare = rc_bounded_saved_cursor object" "shaped bare" "container bare"
    using object(3,4) by (simp_all add: bare_def kind_def shaped_def container_def rc_bounded_saved_cursor_def split: payload.splits)
  have cursor: "cursor_of s' u = cursor_of s u" if "u \<noteq> b + 8" for u
    using that idle fields by (auto simp: cursor_of_def fun_eq_iff)
  have here: "cursor_of s' (b + 8) bare = cursor_of s (b + 8) object"
    using idle fields bare head by (simp add: cursor_of_def)
  have "view_object ?dead' s' u = view_object ?dead s u" if "u \<noteq> b + 8" for u
    using that dead(1) cursor by (simp add: view_object_def fun_eq_iff)
  moreover have "view_object ?dead' s' (b + 8) bare = view_object ?dead s (b + 8) object"
    using dead(1) here bare \<open>b + 8 \<in> set ?dead\<close> by (simp add: view_object_def dead_content_def)
  ultimately have eager: "eager recents olds s' = (eager recents (b # olds) s)\<lparr>rc_pending := ?dead'\<rparr>"
    using fields(2) object(1) by (auto simp: eager_def intro!: fmap_ext)
  have keep: "linked (memory s') a bs" if "linked (memory s) a bs" "b \<notin> set bs" for a bs
    by (rule linked_same [OF that(1)]) (use that(2) fields(2) in auto)
  have "heap_inv ext recents olds s'" unfolding heap_inv_def
  proof (intro conjI)
    have "b \<notin> set recents" "b \<notin> set olds" using heap_inv_distinct [OF inv] by auto
    then show "queues_ok recents olds s'"
      using keep links fields last_task_null [OF links(2)] linked_null [OF links(2)]
      by (auto simp: queues_ok_def s'_def last_task_def)
    show "objects_fit ?dead' s'" unfolding objects_fit_def
    proof (intro allI impI)
      fix u new assume new: "fmlookup (memory s') u = Some new"
      show "object_fits ?dead' s' u new"
      proof (cases "u = b + 8")
        case True
        with heap_invD(1) [OF inv object(1)] new fields here bare dead(1) \<open>b + 8 \<in> set ?dead\<close> show ?thesis
          by (simp add: object_fits_def)
      next
        case False
        with new fields(2) have "fmlookup (memory s) u = Some new" by simp
        from heap_invD(1) [OF inv this] False fields idle cursor dead(1) show ?thesis
          by (simp add: object_fits_def)
      qed
    qed
    show "rc_inv {} ext (eager recents olds s')" unfolding eager
      by (rule inv_pending) (use inv dead in \<open>simp_all add: heap_inv_def\<close>)
  qed
  moreover have "kept_live (eager recents (b # olds) s) (eager recents olds s')"
    unfolding eager using dead(1) by (auto simp: kept_live_def immortal_def weight_def)
  moreover have "outside s' = outside s" using outside_put [of b bare s] by (simp add: s'_def outside_def)
  ultimately show ?thesis using run head(2) by (intro exI [of _ s']) (simp add: s'_def)
qed

text \<open>A dead object hands on the reference in its next slot; where the cursor is kept does not matter.\<close>

definition slot_reference :: "bounded_object \<Rightarrow> nat \<Rightarrow> ptr" where
  "slot_reference object i =
     (if kind object = KIND_REFERENCES \<or> reference_at (payload object) i then slots (payload object) ! i else 0)"

lemma references_step:
  assumes "shaped object" "container object" "i < length (slots (payload object))"
  shows "references_from (payload object) i = slot_reference object i # references_from (payload object) (Suc i)"
proof (cases "payload object")
  case (Record_payload rs vs)
  with assms have "i < length rs" "i < length vs" "kind object = KIND_RECORD" by (auto simp: shaped_def container_def)
  with Record_payload show ?thesis
    by (auto simp: references_from_def slot_reference_def simp flip: Cons_nth_drop_Suc)
qed (use assms in \<open>simp_all add: references_from_def slot_reference_def Cons_nth_drop_Suc shaped_def container_def\<close>)

lemma references_end: "length (slots p) \<le> i \<Longrightarrow> references_from p i = []"
  by (cases p) (simp_all add: references_from_def)

lemma kept_live_dead:
  assumes "v \<in> set (rc_pending h)" "rc_pending h' = rc_pending h"
    and "\<And>u. u \<noteq> v \<Longrightarrow> fmlookup (objects h') u = fmlookup (objects h) u"
    and "fmlookup (objects h) v = Some object" "fmlookup (objects h') v = Some object'"
    and "content_slots (content object') < content_slots (content object)"
  shows "kept_live h h'" "weight h' < weight h"
proof -
  show "kept_live h h'" by (rule kept_live_other [of v]) (use assms in auto)
  show "weight h' < weight h" using weight_change [OF assms(4,5,3)] assms(6) by simp
qed

lemma visited:
  assumes inv: "heap_inv ext recents olds s" and dead: "v \<in> set (dead_values recents olds s)"
    and object: "fmlookup (memory s) v = Some object" and i: "cursor_of s v object < length (slots (payload object))"
    and s': "fmlookup (memory s') v = Some object'" "\<And>u. u \<noteq> v \<Longrightarrow> fmlookup (memory s') u = fmlookup (memory s) u"
      "rc_bounded_active s' = rc_bounded_active s" "\<And>u. u \<noteq> v \<Longrightarrow> cursor_of s' u = cursor_of s u"
      "queues_ok recents olds s'"
    and object': "cursor_of s' v object' = Suc (cursor_of s v object)" "slots (payload object') = slots (payload object)"
      "\<And>j. references_from (payload object') j = references_from (payload object) j"
      "header object' = header object" "shaped object'" "container object'"
  shows "heap_inv (add_mset (slot_reference object (cursor_of s v object)) ext) recents olds s'"
    and "kept_live (eager recents olds s) (eager recents olds s')"
    and "weight (eager recents olds s') < weight (eager recents olds s)"
proof -
  let ?dead = "dead_values recents olds s" and ?h = "eager recents olds s" and ?i = "cursor_of s v object"
  let ?old = "\<lparr>holders = 0, content = dead_content object ?i\<rparr>"
  have same: "dead_values recents olds s' = ?dead" using s'(3) by (simp add: dead_values_def active_tasks_def)
  from task_object [OF inv dead] object have shaped: "container object" "shaped object"
    "length (slots (payload object)) \<le> SIZE_LIMIT div 8" by (metis option.inject)+
  have "view_object ?dead s' u = view_object ?dead s u" if "u \<noteq> v" for u
    using s'(4) [OF that] by (simp add: view_object_def fun_eq_iff)
  moreover have "view_object ?dead s' v object' = ?old\<lparr>content := dead_content object (Suc ?i)\<rparr>"
    using dead object' by (simp add: view_object_def dead_content_def)
  ultimately have eager: "eager recents olds s' =
      ?h\<lparr>objects := fmupd v (?old\<lparr>content := dead_content object (Suc ?i)\<rparr>) (objects ?h)\<rparr>"
    using s'(1,2) same by (auto simp: eager_def intro!: fmap_ext)
  note step = references_step [OF shaped(2,1) i]
  have "rc_inv {} ({#slot_reference object ?i#} + ext) (eager recents olds s')" unfolding eager
    by (rule inv_hand_on) (use inv dead object dead_content_ok [of object] shaped step in
        \<open>auto simp: heap_inv_def view_object_def\<close>)
  moreover have "objects_fit ?dead s'" unfolding objects_fit_def
  proof (intro allI impI)
    fix u new assume new: "fmlookup (memory s') u = Some new"
    show "object_fits ?dead s' u new"
    proof (cases "u = v")
      case True
      with heap_invD(1) [OF inv object] new s' object' dead i show ?thesis
        by (simp add: object_fits_def kind_def)
    next
      case False
      with new s'(2) have "fmlookup (memory s) u = Some new" by simp
      from heap_invD(1) [OF inv this] False s'(3,4) show ?thesis by (auto simp: object_fits_def)
    qed
  qed
  ultimately show "heap_inv (add_mset (slot_reference object ?i) ext) recents olds s'"
    using s'(5) by (simp add: heap_inv_def same)
  have "fmlookup (objects ?h) v = Some ?old" using object dead by (simp add: view_object_def)
  moreover have "content_slots (dead_content object (Suc ?i)) < content_slots (dead_content object ?i)"
    using step by (simp add: dead_content_def Let_def)
  ultimately show "kept_live ?h (eager recents olds s')" "weight (eager recents olds s') < weight ?h"
    using kept_live_dead [of v ?h "eager recents olds s'" ?old "?old\<lparr>content := dead_content object (Suc ?i)\<rparr>"] dead eager
    by simp_all
qed

text \<open>A task that holds nothing any more is retired.\<close>

lemma retired:
  assumes inv: "heap_inv ext recents olds s" and dead: "v \<in> set (dead_values recents olds s)"
    and object: "fmlookup (memory s) v = Some object" and i: "length (slots (payload object)) \<le> cursor_of s v object"
    and s': "memory s' = fmdrop v (memory s)" "\<And>u. u \<noteq> v \<Longrightarrow> cursor_of s' u = cursor_of s u"
      "rc_bounded_active s' = 0 \<or> rc_bounded_active s' = rc_bounded_active s" "queues_ok recents' olds' s'"
      "distinct (dead_values recents' olds' s')"
      "set (dead_values recents' olds' s') = set (dead_values recents olds s) - {v}"
  shows "heap_inv ext recents' olds' s'" and "kept_live (eager recents olds s) (eager recents' olds' s')"
    and "weight (eager recents' olds' s') < weight (eager recents olds s)"
proof -
  let ?dead = "dead_values recents olds s" and ?dead' = "dead_values recents' olds' s'" and ?h = "eager recents olds s"
  have "view_object ?dead' s' u = view_object ?dead s u" if "u \<noteq> v" for u
    using that s'(2) [OF that] s'(6) by (simp add: view_object_def fun_eq_iff)
  then have eager: "eager recents' olds' s' = rc_free v (?h\<lparr>rc_pending := ?dead'\<rparr>)"
    using s'(1) by (auto simp: eager_def rc_free_def intro!: fmap_ext)
  have "rc_inv {} ext (eager recents' olds' s')" unfolding eager
    by (rule inv_retire) (use inv dead object i s' references_end dead_content_ok in
        \<open>auto simp: heap_inv_def view_object_def\<close>)
  moreover have "objects_fit ?dead' s'" unfolding objects_fit_def
  proof (intro allI impI)
    fix u new assume new: "fmlookup (memory s') u = Some new"
    with s'(1) have u: "u \<noteq> v" "fmlookup (memory s) u = Some new" by (auto split: if_splits)
    from heap_invD(1) [OF inv u(2)] u(1) s'(2,3,6) show "object_fits ?dead' s' u new" by (auto simp: object_fits_def)
  qed
  ultimately show "heap_inv ext recents' olds' s'" using s'(4) by (simp add: heap_inv_def)
  show less: "weight (eager recents' olds' s') < weight ?h"
    by (rule weight_less [of _ v]) (use object eager in \<open>simp_all add: rc_free_def\<close>)
  then show "kept_live ?h (eager recents' olds' s')" unfolding eager
    using dead s'(6) by (auto simp: kept_live_def immortal_def rc_free_def)
qed

section \<open>Units on objects\<close>

lemma linked_outside:
  "linked m a bs \<Longrightarrow> v - 8 \<notin> set bs \<Longrightarrow> (\<And>u. u \<noteq> v \<Longrightarrow> fmlookup m' u = fmlookup m u) \<Longrightarrow> linked m' a bs"
  by (erule linked_same) (metis value_header(2))

definition unit_safe :: "ptr multiset \<Rightarrow> ptr list \<Rightarrow> ptr list \<Rightarrow> bounded \<Rightarrow> fault + bounded \<Rightarrow> bool" where
  "unit_safe ext recents olds s r \<longleftrightarrow>
     safe r (\<lambda>s'. outside s' = outside s \<and>
       (\<exists>recents' olds'. heap_inv ext recents' olds' s' \<and> kept_live (eager recents olds s) (eager recents' olds' s') \<and>
         weight (eager recents' olds' s') < weight (eager recents olds s)))"

lemma unit_safe_after:
  assumes "unit_safe ext recents' olds' s' r" "kept_live (eager recents olds s) (eager recents' olds' s')" "outside s' = outside s"
  shows "unit_safe ext recents olds s r"
proof -
  have "weight (eager recents' olds' s') \<le> weight (eager recents olds s)" using assms(2) by (simp add: kept_live_def)
  then show ?thesis
    using assms(1) unfolding unit_safe_def
    by (elim safe_mono) (use assms(2,3) in \<open>auto intro: kept_live_trans less_le_trans\<close>)
qed

lemma unit_safeI:
  "heap_inv ext recents' olds' s' \<Longrightarrow> kept_live (eager recents olds s) (eager recents' olds' s') \<Longrightarrow>
   weight (eager recents' olds' s') < weight (eager recents olds s) \<Longrightarrow> outside s' = outside s \<Longrightarrow>
   unit_safe ext recents olds s (Inr s')"
  by (auto simp: unit_safe_def)

lemma inv_null_claim: "rc_inv D (add_mset 0 ext) h \<longleftrightarrow> rc_inv D ext h"
proof
  assume inv: "rc_inv D ext h"
  with inv_null [OF inv] show "rc_inv D (add_mset 0 ext) h"
    by (auto simp: rc_inv_def within_def claims_simps elim!: counted_same)
qed (rule inv_uncounted, auto)

text \<open>A unit that visits a slot and gives up what is in it.\<close>

lemma drop_unit:
  assumes "heap_inv (add_mset v ext) recents olds s'" "kept_live (eager recents olds s) (eager recents olds s')"
    "weight (eager recents olds s') < weight (eager recents olds s)" "outside s' = outside s"
  shows "unit_safe ext recents olds s (rbind (rc_bounded_drop v s') (\<lambda>(freed, s). Inr s))"
proof -
  have less: "weight h < weight (eager recents olds s)" if "kept_live (eager recents olds s') h" for h
    using that assms(3) by (simp add: kept_live_def)
  have "safe (rc_bounded_drop v s') (\<lambda>(n, t). dropped ext recents olds s' t)" by (rule drop_inv [OF assms(1)])
  then show ?thesis unfolding unit_safe_def
  proof (rule safe_rbind)
    fix r assume r: "case r of (n, t) \<Rightarrow> dropped ext recents olds s' t"
    obtain n t where "r = (n, t)" by (cases r)
    with r obtain recents' where t: "same_rest s' t" "heap_inv ext recents' olds t"
      "kept_live (eager recents olds s') (eager recents' olds t)"
      by (auto simp: dropped_def)
    moreover have "outside t = outside s" using outside_rest [OF t(1)] assms(4) by simp
    moreover note kept_live_trans [OF assms(2) t(3)] less [OF t(3)]
    ultimately show "safe (case r of (freed, s) \<Rightarrow> Inr s) (\<lambda>t. outside t = outside s \<and>
       (\<exists>recents' olds'. heap_inv ext recents' olds' t \<and> kept_live (eager recents olds s) (eager recents' olds' t) \<and>
         weight (eager recents' olds' t) < weight (eager recents olds s)))"
      using \<open>r = (n, t)\<close> by auto
  qed
qed

lemma heap_inv_null [simp]: "heap_inv (add_mset 0 ext) recents olds s \<longleftrightarrow> heap_inv ext recents olds s"
  by (auto simp: heap_inv_def inv_null_claim)

lemma active_unit:
  assumes inv: "heap_inv ext recents olds s" and active: "rc_bounded_active s \<noteq> 0"
  shows "unit_safe ext recents olds s (rc_bounded_old_object_unit s)"
proof -
  let ?v = "rc_bounded_active s + 8" and ?c = "rc_bounded_cursor s"
  have dead: "?v \<in> set (dead_values recents olds s)" using active by (simp add: dead_values_def active_tasks_def)
  from task_object [OF inv dead] obtain object where object: "fmlookup (memory s) ?v = Some object"
    "bounded_object_at (rc_bounded_active s) s = Inr object" "container object" "shaped object" by (metis value_header(2))
  have cursor: "cursor_of s ?v object = ?c" using active by (simp add: cursor_of_def)
  have queues: "queues_ok recents olds s" using inv by (simp add: heap_inv_def)
  have other: "u \<noteq> ?v \<Longrightarrow> cursor_of (s\<lparr>rc_bounded_active := a, rc_bounded_cursor := c\<rparr>) u = cursor_of s u"
    if "a = 0 \<or> a = rc_bounded_active s" for u a c using that by (auto simp: cursor_of_def fun_eq_iff)
  show ?thesis
  proof (cases "?c < length (slots (payload object))")
    case True
    let ?s = "s\<lparr>rc_bounded_cursor := ?c + 1\<rparr>"
    note step = visited [OF inv dead object(1), of ?s object]
    have here: "heap_inv (add_mset (slot_reference object ?c) ext) recents olds ?s"
      "kept_live (eager recents olds s) (eager recents olds ?s)" "weight (eager recents olds ?s) < weight (eager recents olds s)"
      using step True queues object active cursor other [where a = "rc_bounded_active s" and c = "?c + 1"]
      by (auto simp: cursor_of_def queues_ok_def active_tasks_def fun_eq_iff)
    have out: "outside ?s = outside s" by (simp add: outside_def)
    have run: "rc_bounded_old_object_unit s =
      (if kind object = KIND_REFERENCES \<or> reference_at (payload object) ?c
       then rbind (rc_bounded_drop (slots (payload object) ! ?c) ?s) (\<lambda>(freed, s). Inr s) else Inr ?s)"
      using True active object by (simp add: rc_bounded_old_object_unit_def activate_def container_def Let_def)
    show ?thesis
    proof (cases "kind object = KIND_REFERENCES \<or> reference_at (payload object) ?c")
      case True
      with drop_unit [OF here out] show ?thesis unfolding run by (simp add: slot_reference_def)
    next
      case False
      with here show ?thesis unfolding run using out by (auto simp: slot_reference_def intro!: unit_safeI [of ext recents olds])
    qed
  next
    case False
    let ?s = "s\<lparr>memory := fmdrop ?v (memory s), rc_pending_count := rc_pending_count s - 1, rc_bounded_active := 0\<rparr>"
    have run: "rc_bounded_old_object_unit s = Inr ?s"
      using False active object
      by (simp add: rc_bounded_old_object_unit_def activate_def Let_def finish_at [OF object(2)])
    have distinct: "distinct (recents @ olds @ [rc_bounded_active s])"
      using heap_inv_distinct [OF inv] active by (simp add: active_tasks_def)
    have "linked (fmdrop ?v (memory s)) a bs" if "linked (memory s) a bs" "set bs \<subseteq> set recents \<union> set olds" for a bs
      by (rule linked_outside [OF that(1), of ?v]) (use that(2) distinct in auto)
    then have "queues_ok recents olds ?s" using queues active by (auto simp: queues_ok_def active_tasks_def)
    moreover have split: "dead_values recents olds s = dead_values recents olds ?s @ [?v]"
      using active by (simp add: dead_values_def active_tasks_def)
    moreover have "distinct (dead_values recents olds s)"
      using inv by (simp add: heap_inv_def rc_inv_def queued_def)
    ultimately have "heap_inv ext recents olds ?s \<and> kept_live (eager recents olds s) (eager recents olds ?s) \<and>
        weight (eager recents olds ?s) < weight (eager recents olds s)"
      using retired [OF inv dead object(1), of ?s recents olds] False cursor
      by (auto simp: cursor_of_def fun_eq_iff)
    then show ?thesis unfolding run by (intro unit_safeI [of ext recents olds]) (simp_all add: outside_def)
  qed
qed

lemma old_unit:
  assumes inv: "heap_inv ext recents olds s" and some: "rc_bounded_active s \<noteq> 0 \<or> rc_bounded_head s \<noteq> 0"
  shows "unit_safe ext recents olds s (rc_bounded_old_object_unit s)"
proof (cases "rc_bounded_active s = 0")
  case False
  with inv show ?thesis by (rule active_unit)
next
  case True
  moreover have "queues_ok recents olds s" using inv by (simp add: heap_inv_def)
  ultimately obtain b bs where olds: "olds = b # bs" using some by (cases olds) (auto simp: queues_ok_def)
  from activated [OF inv [unfolded olds] True] obtain s' where s': "activate s = Inr s'" "heap_inv ext recents bs s'"
    "rc_bounded_active s' \<noteq> 0" "kept_live (eager recents olds s) (eager recents bs s')" "outside s' = outside s"
    by (auto simp: olds)
  have "activate s' = Inr s'" using s'(3) by (simp add: activate_def)
  then have "rc_bounded_old_object_unit s = rc_bounded_old_object_unit s'" using s'(1) by (simp add: rc_bounded_old_object_unit_def)
  with unit_safe_after [OF active_unit [OF s'(2,3)] s'(4,5)] show ?thesis by simp
qed

lemma recent_unit:
  assumes inv: "heap_inv ext recents olds s" and some: "rc_bounded_recent_head s \<noteq> 0"
  shows "unit_safe ext recents olds s (rc_bounded_recent_object_unit s)"
proof -
  let ?a = "rc_bounded_recent_head s"
  let ?v = "?a + 8"
  have queues: "queues_ok recents olds s" using inv by (simp add: heap_inv_def)
  with some obtain bs where recents: "recents = ?a # bs" by (cases recents) (auto simp: queues_ok_def)
  then have dead: "?v \<in> set (dead_values recents olds s)" by (subst recents) (simp add: dead_values_def)
  from task_object [OF inv dead] obtain object where object: "fmlookup (memory s) ?v = Some object"
    "bounded_object_at ?a s = Inr object" "container object" "shaped object" "length (slots (payload object)) \<le> SIZE_LIMIT div 8"
    by (metis value_header(2))
  have distinct: "distinct (recents @ olds @ active_tasks s)" by (rule heap_inv_distinct [OF inv])
  then have idle: "rc_bounded_active s \<noteq> 0 \<Longrightarrow> ?a \<noteq> rc_bounded_active s" by (subst (asm) recents) (auto simp: active_tasks_def)
  let ?c = "rc_bounded_saved_cursor object"
  have cursor: "cursor_of s ?v new = rc_bounded_saved_cursor new" for new using idle by (auto simp: cursor_of_def)
  show ?thesis
  proof (cases "?c < length (slots (payload object))")
    case True
    let ?new = "rc_bounded_save_cursor object (?c + 1)"
    let ?s = "put_object ?a ?new s"
    let ?child = "if kind object = KIND_REFERENCES \<or> reference_at (payload object) ?c then slots (payload object) ! ?c else 0"
    have "queues_ok recents olds ?s"
    proof -
      have "linked (fmupd ?v ?new (memory s)) a bs" if "linked (memory s) a bs" for a bs
        by (rule linked_same [OF that]) (use object in auto)
      with queues show ?thesis by (simp add: queues_ok_def)
    qed
    then have here: "heap_inv (add_mset (slot_reference object ?c) ext) recents olds ?s"
      "kept_live (eager recents olds s) (eager recents olds ?s)" "weight (eager recents olds ?s) < weight (eager recents olds s)"
      using visited [OF inv dead object(1), of ?s ?new] True object cursor saved_cursor [OF object(4,3) _ object(5), of "?c + 1"]
      by (simp_all add: references_saved)
    have "slot_reference object ?c = ?child" by (simp add: slot_reference_def)
    with drop_unit [OF here outside_put] show ?thesis
      using True object by (simp add: rc_bounded_recent_object_unit_def Let_def)
  next
    case False
    let ?next = "header object AND LINK"
    let ?s = "s\<lparr>memory := fmdrop ?v (memory s), rc_bounded_recent_head := ?next,
      rc_bounded_recent_tail := (if ?next = 0 then 0 else rc_bounded_recent_tail s), rc_pending_count := rc_pending_count s - 1\<rparr>"
    have run: "rc_bounded_recent_object_unit s = Inr ?s"
      using False object by (simp add: rc_bounded_recent_object_unit_def Let_def finish_at [OF object(2)])
    have "queues_ok (?a # bs) olds s" using queues recents by metis
    then have links: "linked (memory s) ?next bs" "linked (memory s) (rc_bounded_head s) olds"
      "rc_bounded_recent_tail s = last_task (?a # bs)" "rc_bounded_tail s = last_task olds"
      "rc_pending_count s = Suc (length bs) + length olds + length (active_tasks s) +
        length (rc_bounded_frame_queue s) + length (rc_bounded_chunk_queue s)"
      using object(1) by (auto simp: queues_ok_def)
    have "linked (fmdrop ?v (memory s)) a cs" if "linked (memory s) a cs" "set cs \<subseteq> set bs \<union> set olds" for a cs
      by (rule linked_outside [OF that(1), of ?v]) (use that(2) distinct recents in \<open>auto dest: arg_cong [of recents _ distinct]\<close>)
    then have new: "queues_ok bs olds ?s"
      using links linked_null [OF links(1)] by (auto simp: queues_ok_def active_tasks_def last_task_def)
    have split: "dead_values recents olds s = ?v # dead_values bs olds ?s"
      by (subst recents) (simp add: dead_values_def active_tasks_def)
    moreover have "distinct (dead_values recents olds s)"
      using inv by (simp add: heap_inv_def rc_inv_def queued_def)
    ultimately have "heap_inv ext bs olds ?s \<and> kept_live (eager recents olds s) (eager bs olds ?s) \<and>
        weight (eager bs olds ?s) < weight (eager recents olds s)"
      using retired [OF inv dead object(1), of ?s bs olds] False cursor new
      by (auto simp: cursor_of_def fun_eq_iff)
    then show ?thesis unfolding run by (intro unit_safeI [of ext bs olds]) (simp_all add: outside_def)
  qed
qed

lemma captured:
  assumes "heap_inv ext recents olds s"
  shows "\<exists>recents' olds'. heap_inv ext recents' olds' (capture s) \<and>
    kept_live (eager recents olds s) (eager recents' olds' (capture s))"
proof (cases "rc_bounded_active s = 0 \<and> rc_bounded_head s = 0")
  case True
  moreover have queues: "queues_ok recents olds s" using assms by (simp add: heap_inv_def)
  ultimately have olds: "olds = []" using linked_null by (auto simp: queues_ok_def)
  have dead: "dead_values [] recents (capture s) = dead_values recents olds s"
    using True by (simp add: dead_values_def olds capture_def active_tasks_def)
  have same: "memory (capture s) = memory s" "rc_bounded_active (capture s) = rc_bounded_active s"
    "rc_bounded_cursor (capture s) = rc_bounded_cursor s" by (simp_all add: capture_def)
  note cong = eager_cong [OF same]
  have "eager [] recents s = eager recents olds s" using dead cong(3) [of "[]" recents] by (simp add: eager_def)
  then have "eager [] recents (capture s) = eager recents olds s" "objects_fit d (capture s) \<longleftrightarrow> objects_fit d s" for d
    using cong by simp_all
  moreover have "queues_ok [] recents (capture s)"
    using queues True by (simp add: queues_ok_def capture_def olds last_task_def active_tasks_def)
  ultimately have "heap_inv ext [] recents (capture s) \<and> eager [] recents (capture s) = eager recents olds s"
    using assms dead by (simp add: heap_inv_def)
  then show ?thesis by (intro exI [of _ "[]"] exI [of _ recents]) simp
next
  case False
  with assms show ?thesis by (auto simp: capture_def)
qed

lemma capture_simps:
  "rc_bounded_active (capture s) = rc_bounded_active s" "outside (capture s) = outside s"
  "rc_bounded_active s \<noteq> 0 \<or> rc_bounded_head s \<noteq> 0 \<or> rc_bounded_recent_head s \<noteq> 0 \<Longrightarrow>
    rc_bounded_active (capture s) \<noteq> 0 \<or> rc_bounded_head (capture s) \<noteq> 0"
  "rc_bounded_recent_turn (capture s) = rc_bounded_recent_turn s"
  by (auto simp: capture_def outside_def)

lemma object_unit:
  assumes inv: "heap_inv ext recents olds s"
    and some: "rc_bounded_active s \<noteq> 0 \<or> rc_bounded_head s \<noteq> 0 \<or> rc_bounded_recent_head s \<noteq> 0"
  shows "unit_safe ext recents olds s (rc_bounded_object_unit s)"
proof -
  define t where "t = (capture s)\<lparr>rc_bounded_recent_turn := \<not> rc_bounded_recent_turn s\<rparr>"
  from captured [OF inv] obtain recents' olds' where t: "heap_inv ext recents' olds' t"
    "kept_live (eager recents olds s) (eager recents' olds' t)"
    by (auto simp: t_def)
  have out: "outside t = outside s" using capture_simps(2) [of s] by (simp add: t_def outside_def)
  have old: "unit_safe ext recents' olds' t (rc_bounded_old_object_unit t)"
    by (rule old_unit [OF t(1)]) (use capture_simps(3) [OF some] in \<open>simp add: t_def\<close>)
  have look: "\<exists>finish. visited_unary t = Inr finish" if "rc_bounded_active t \<noteq> 0"
  proof -
    have "rc_bounded_active t + 8 \<in> set (dead_values recents' olds' t)" using that by (simp add: dead_values_def active_tasks_def)
    from task_object [OF t(1) this] obtain object where "bounded_object_at (rc_bounded_active t) t = Inr object"
      by (metis value_header(2))
    then show ?thesis by (simp add: visited_unary_def)
  qed
  have run: "rc_bounded_object_unit s =
    (if rc_bounded_recent_turn s \<and> rc_bounded_recent_head t \<noteq> 0 then
       rbind (if rc_bounded_head t = 0 \<and> rc_bounded_active t \<noteq> 0 then visited_unary t else Inr False)
         (\<lambda>finish. if finish then rc_bounded_old_object_unit t else rc_bounded_recent_object_unit t)
     else rc_bounded_old_object_unit t)"
    unfolding rc_bounded_object_unit_def Let_def capture_simps t_def by simp
  have "unit_safe ext recents' olds' t (rc_bounded_object_unit s)"
  proof (cases "rc_bounded_recent_turn s \<and> rc_bounded_recent_head t \<noteq> 0")
    case True
    obtain finish where "(if rc_bounded_head t = 0 \<and> rc_bounded_active t \<noteq> 0 then visited_unary t else Inr False) = Inr finish"
      using look by (cases "rc_bounded_head t = 0 \<and> rc_bounded_active t \<noteq> 0") auto
    with True old recent_unit [OF t(1)] show ?thesis unfolding run by simp
  next
    case False
    with old show ?thesis unfolding run by auto
  qed
  then show ?thesis using t(2) out by (rule unit_safe_after)
qed

end
