(* ===== verification/Bounded_Poll.thy ===== *)
theory Bounded_Poll
  imports Bounded_Units
begin

text \<open>
  The scheduler of the three queues: the invariant with the frames and chunks that wait, the work there is
  to do, and what a poll does to both.
\<close>

section \<open>Frames and chunks\<close>

definition frame_ok :: "bounded_frame \<Rightarrow> bool" where
  "frame_ok frame \<longleftrightarrow> (\<forall>i \<in> set (written frame). i < length (locals frame))"

definition frame_claims :: "bounded_frame \<Rightarrow> ptr list" where
  "frame_claims frame = map (\<lambda>i. locals frame ! i AND NOT 1) (written frame)"

definition waiting :: "bounded \<Rightarrow> ptr multiset" where
  "waiting s = mset (concat (map frame_claims (rc_bounded_frame_queue s))) + mset (concat (rc_bounded_chunk_queue s))"

definition bounded_inv :: "ptr multiset \<Rightarrow> ptr list \<Rightarrow> ptr list \<Rightarrow> bounded \<Rightarrow> bool" where
  "bounded_inv ext recents olds s \<longleftrightarrow>
     heap_inv (ext + waiting s) recents olds s \<and> (\<forall>frame \<in> set (rc_bounded_frame_queue s). frame_ok frame) \<and>
     rc_bounded_next_queue s < 3"

text \<open>The units of work to be done at most until nothing is left.\<close>

definition queue_work :: "bounded \<Rightarrow> nat" where
  "queue_work s = (\<Sum>frame\<leftarrow>rc_bounded_frame_queue s. Suc (length (written frame))) + (\<Sum>chunk\<leftarrow>rc_bounded_chunk_queue s. Suc (length chunk))"

definition work_left :: "ptr list \<Rightarrow> ptr list \<Rightarrow> bounded \<Rightarrow> nat" where
  "work_left recents olds s = weight (eager recents olds s) + queue_work s"

text \<open>Progress by a number of units.\<close>

definition progress :: "ptr multiset \<Rightarrow> ptr list \<Rightarrow> ptr list \<Rightarrow> nat \<Rightarrow> bounded \<Rightarrow> bounded \<Rightarrow> bool" where
  "progress ext recents olds n s s' \<longleftrightarrow> rc_bounded_stack s' = rc_bounded_stack s \<and>
     (\<exists>recents' olds'. bounded_inv ext recents' olds' s' \<and> kept_live (eager recents olds s) (eager recents' olds' s') \<and>
       work_left recents' olds' s' + n \<le> work_left recents olds s)"

lemma progressI:
  "rc_bounded_stack s' = rc_bounded_stack s \<Longrightarrow> bounded_inv ext recents' olds' s' \<Longrightarrow>
   kept_live (eager recents olds s) (eager recents' olds' s') \<Longrightarrow>
   work_left recents' olds' s' + n \<le> work_left recents olds s \<Longrightarrow> progress ext recents olds n s s'"
  unfolding progress_def by blast

lemma progress_refl: "bounded_inv ext recents olds s \<Longrightarrow> progress ext recents olds 0 s s"
  by (auto simp: progress_def)

lemma progress_trans:
  assumes "progress ext recents olds m s t" "\<And>recents' olds'. bounded_inv ext recents' olds' t \<Longrightarrow> progress ext recents' olds' n t u"
  shows "progress ext recents olds (m + n) s u"
proof -
  from assms(1) obtain recents' olds' where t: "rc_bounded_stack t = rc_bounded_stack s" "bounded_inv ext recents' olds' t"
    "kept_live (eager recents olds s) (eager recents' olds' t)" "work_left recents' olds' t + m \<le> work_left recents olds s"
    by (auto simp: progress_def)
  from assms(2) [OF t(2)] obtain recents'' olds'' where "rc_bounded_stack u = rc_bounded_stack t" "bounded_inv ext recents'' olds'' u"
    "kept_live (eager recents' olds' t) (eager recents'' olds'' u)" "work_left recents'' olds'' u + n \<le> work_left recents' olds' t"
    by (auto simp: progress_def)
  with t show ?thesis by (intro progressI [of _ _ _ recents'' olds'']) (auto intro: kept_live_trans)
qed

section \<open>The queue served next\<close>

lemma select_queue_order:
  "select_queue 3 0 s = (if queue_ready 0 s then 0 else if queue_ready 1 s then 1 else if queue_ready 2 s then 2 else 0)"
  "select_queue 3 1 s = (if queue_ready 1 s then 1 else if queue_ready 2 s then 2 else if queue_ready 0 s then 0 else 1)"
  "select_queue 3 2 s = (if queue_ready 2 s then 2 else if queue_ready 0 s then 0 else if queue_ready 1 s then 1 else 2)"
  unfolding numeral_3_eq_3 select_queue.simps by (simp_all add: numeral_2_eq_2)

lemma select_queue_ready:
  assumes "queue < 3" "queue_ready 0 s \<or> queue_ready 1 s \<or> queue_ready 2 s"
  shows "queue_ready (select_queue 3 queue s) s" "select_queue 3 queue s < 3"
proof -
  have "queue = 0 \<or> queue = 1 \<or> queue = 2" using assms(1) by linarith
  then show "queue_ready (select_queue 3 queue s) s" "select_queue 3 queue s < 3"
    by (elim disjE; use assms(2) in \<open>simp only: select_queue_order split: if_splits; simp\<close>)+
qed

lemma some_ready:
  assumes "heap_inv ext recents olds s" "rc_pending_count s \<noteq> 0"
  shows "queue_ready 0 s \<or> queue_ready 1 s \<or> queue_ready 2 s"
proof -
  have q: "queues_ok recents olds s" using assms(1) by (simp add: heap_inv_def)
  then have "rc_bounded_recent_head s = 0 \<longleftrightarrow> recents = []" "rc_bounded_head s = 0 \<longleftrightarrow> olds = []"
    using linked_null by (auto simp: queues_ok_def)
  with q assms(2) show ?thesis by (auto simp: queue_ready_def queues_ok_def active_tasks_def split: if_splits)
qed

section \<open>Each unit\<close>

lemma object_progress:
  assumes inv: "bounded_inv ext recents olds s" and some: "queue_ready 0 s"
  shows "safe (rc_bounded_object_unit s) (progress ext recents olds 1 s)"
proof -
  have "unit_safe (ext + waiting s) recents olds s (rc_bounded_object_unit s)"
    using inv some by (intro object_unit) (auto simp: bounded_inv_def queue_ready_def)
  then show ?thesis unfolding unit_safe_def
  proof (rule safe_mono, elim conjE exE)
    fix t recents' olds'
    assume t: "outside t = outside s" "heap_inv (ext + waiting s) recents' olds' t"
      "kept_live (eager recents olds s) (eager recents' olds' t)" "weight (eager recents' olds' t) < weight (eager recents olds s)"
    from t(1) have "bounded_inv ext recents' olds' t" "queue_work t = queue_work s" "rc_bounded_stack t = rc_bounded_stack s"
      using t(2) inv by (simp_all add: bounded_inv_def waiting_def outside_def queue_work_def)
    with t(3,4) show "progress ext recents olds 1 s t" by (intro progressI [of _ _ _ recents' olds']) (simp_all add: work_left_def)
  qed
qed

lemma frame_queue_change:
  assumes "heap_inv ext recents olds s" "length frames = length (rc_bounded_frame_queue s)"
  shows "heap_inv ext recents olds (s\<lparr>rc_bounded_frame_queue := frames\<rparr>)"
    and "eager recents olds (s\<lparr>rc_bounded_frame_queue := frames\<rparr>) = eager recents olds s"
  using assms heap_inv_cong [of "s\<lparr>rc_bounded_frame_queue := frames\<rparr>" s] eager_cong [of "s\<lparr>rc_bounded_frame_queue := frames\<rparr>" s]
  by (simp_all add: heap_inv_def queues_ok_def active_tasks_def)

lemma chunk_queue_change:
  assumes "heap_inv ext recents olds s" "length chunks = length (rc_bounded_chunk_queue s)"
  shows "heap_inv ext recents olds (s\<lparr>rc_bounded_chunk_queue := chunks\<rparr>)"
    and "eager recents olds (s\<lparr>rc_bounded_chunk_queue := chunks\<rparr>) = eager recents olds s"
  using assms heap_inv_cong [of "s\<lparr>rc_bounded_chunk_queue := chunks\<rparr>" s] eager_cong [of "s\<lparr>rc_bounded_chunk_queue := chunks\<rparr>" s]
  by (simp_all add: heap_inv_def queues_ok_def active_tasks_def)

lemma drop_progress:
  assumes heap: "heap_inv (add_mset v (ext + waiting t)) recents olds t" and eager: "eager recents olds t = eager recents olds s"
    and frames: "\<forall>frame \<in> set (rc_bounded_frame_queue t). frame_ok frame" "rc_bounded_next_queue t < 3"
    and stack: "rc_bounded_stack t = rc_bounded_stack s" and less: "queue_work t < queue_work s"
  shows "safe (rbind (rc_bounded_drop v t) (\<lambda>(freed, s). Inr s)) (progress ext recents olds 1 s)"
proof (rule safe_rbind [OF drop_inv [OF heap]])
  fix r assume r: "case r of (n, u) \<Rightarrow> dropped (ext + waiting t) recents olds t u"
  obtain n u where n: "r = (n, u)" by (cases r)
  with r obtain recents' where u: "same_rest t u" "heap_inv (ext + waiting t) recents' olds u"
    "kept_live (eager recents olds t) (eager recents' olds u)"
    by (auto simp: dropped_def)
  have "outside u = outside t" by (rule outside_rest [OF u(1)])
  then have "bounded_inv ext recents' olds u" "queue_work u = queue_work t" "rc_bounded_stack u = rc_bounded_stack s"
    using u(2) frames stack by (simp_all add: bounded_inv_def waiting_def queue_work_def outside_def)
  with u(3) eager less n show "safe (case r of (freed, s) \<Rightarrow> Inr s) (progress ext recents olds 1 s)"
    by (auto simp: work_left_def kept_live_def intro!: progressI [of _ _ _ recents' olds])
qed

lemma frame_progress:
  assumes inv: "bounded_inv ext recents olds s" and some: "queue_ready 1 s"
  shows "safe (rc_bounded_frame_unit s) (progress ext recents olds 1 s)"
proof -
  obtain frame frames where queue: "rc_bounded_frame_queue s = frame # frames"
    using some by (cases "rc_bounded_frame_queue s") (auto simp: queue_ready_def)
  have heap: "heap_inv (ext + waiting s) recents olds s" and ok: "frame_ok frame" using inv queue by (simp_all add: bounded_inv_def)
  show ?thesis
  proof (cases "written frame = []")
    case False
    let ?i = "last (written frame)" and ?rest = "frame\<lparr>written := butlast (written frame)\<rparr>"
    let ?s = "s\<lparr>rc_bounded_frame_queue := ?rest # frames\<rparr>"
    have read: "rc_bounded_local_value frame ?i = Inr (locals frame ! ?i AND NOT 1)"
      using ok False by (simp add: rc_bounded_local_value_def frame_ok_def)
    have split: "written frame = butlast (written frame) @ [?i]" using False by simp
    have claims: "frame_claims frame = frame_claims ?rest @ [locals frame ! ?i AND NOT 1]"
      unfolding frame_claims_def by (subst split) simp
    have "safe (rbind (rc_bounded_drop (locals frame ! ?i AND NOT 1) ?s) (\<lambda>(freed, s). Inr s)) (progress ext recents olds 1 s)"
    proof (rule drop_progress)
      have "ext + waiting s = add_mset (locals frame ! ?i AND NOT 1) (ext + waiting ?s)"
        using queue claims by (simp add: waiting_def)
      then show "heap_inv (add_mset (locals frame ! ?i AND NOT 1) (ext + waiting ?s)) recents olds ?s"
        using frame_queue_change(1) [OF heap, of "?rest # frames"] queue by simp
      show "eager recents olds ?s = eager recents olds s" using frame_queue_change(2) [OF heap, of "?rest # frames"] queue by simp
      show "\<forall>f \<in> set (rc_bounded_frame_queue ?s). frame_ok f"
        using inv queue by (auto simp: bounded_inv_def frame_ok_def dest: in_set_butlastD)
      show "queue_work ?s < queue_work s" using queue False by (simp add: queue_work_def)
    qed (use inv in \<open>simp_all add: bounded_inv_def\<close>)
    then show ?thesis using queue False read by (simp add: rc_bounded_frame_unit_def)
  next
    case True
    have retire: "progress ext recents olds 1 s (s\<lparr>rc_bounded_frame_queue := frames, rc_bounded_free_frames := free,
        rc_bounded_cached_frame_bytes := cached, rc_pending_count := rc_pending_count s - 1\<rparr>)"
      (is "progress _ _ _ _ _ ?s") for free cached
    proof -
      have queues: "queues_ok recents olds s" using heap by (simp add: heap_inv_def)
      have "waiting ?s = waiting s" using queue True by (simp add: waiting_def frame_claims_def)
      moreover have "heap_inv (ext + waiting s) recents olds ?s"
        by (rule heap_inv_cong [of _ s]) (use heap queues queue in \<open>auto simp: queues_ok_def active_tasks_def\<close>)
      moreover have "eager recents olds ?s = eager recents olds s" by (rule eager_cong) simp_all
      moreover have "queue_work ?s < queue_work s" using queue by (simp add: queue_work_def)
      ultimately show ?thesis using inv queue
        by (intro progressI [of _ _ _ recents olds]) (simp_all add: bounded_inv_def work_left_def)
    qed
    show ?thesis
      using queue True retire [where free = "frame # rc_bounded_free_frames s"]
        retire [where free = "rc_bounded_free_frames s" and cached = "rc_bounded_cached_frame_bytes s"]
      by (simp add: rc_bounded_frame_unit_def)
  qed
qed

lemma chunk_progress:
  assumes inv: "bounded_inv ext recents olds s" and some: "queue_ready 2 s"
  shows "safe (rc_bounded_chunk_unit s) (progress ext recents olds 1 s)"
proof -
  obtain chunk chunks where queue: "rc_bounded_chunk_queue s = chunk # chunks"
    using some by (cases "rc_bounded_chunk_queue s") (auto simp: queue_ready_def)
  have heap: "heap_inv (ext + waiting s) recents olds s" using inv by (simp add: bounded_inv_def)
  show ?thesis
  proof (cases "chunk = []")
    case False
    let ?v = "last chunk" and ?s = "s\<lparr>rc_bounded_chunk_queue := butlast chunk # chunks\<rparr>"
    have split: "mset chunk = add_mset ?v (mset (butlast chunk))"
      using arg_cong [OF append_butlast_last_id [OF False], of mset] by simp
    have "safe (rbind (rc_bounded_drop ?v ?s) (\<lambda>(freed, s). Inr s)) (progress ext recents olds 1 s)"
    proof (rule drop_progress)
      have "ext + waiting s = add_mset ?v (ext + waiting ?s)" using queue split by (simp add: waiting_def)
      then show "heap_inv (add_mset ?v (ext + waiting ?s)) recents olds ?s"
        using chunk_queue_change(1) [OF heap, of "butlast chunk # chunks"] queue by simp
      show "eager recents olds ?s = eager recents olds s" using chunk_queue_change(2) [OF heap, of "butlast chunk # chunks"] queue by simp
      show "queue_work ?s < queue_work s" using queue False by (simp add: queue_work_def)
    qed (use inv in \<open>simp_all add: bounded_inv_def\<close>)
    then show ?thesis using queue False by (simp add: rc_bounded_chunk_unit_def)
  next
    case True
    let ?s = "s\<lparr>rc_bounded_chunk_queue := chunks, rc_pending_count := rc_pending_count s - 1\<rparr>"
    have queues: "queues_ok recents olds s" using heap by (simp add: heap_inv_def)
    have "waiting ?s = waiting s" using queue True by (simp add: waiting_def)
    moreover have "heap_inv (ext + waiting s) recents olds ?s"
      by (rule heap_inv_cong [of _ s]) (use heap queues queue in \<open>auto simp: queues_ok_def active_tasks_def\<close>)
    moreover have "eager recents olds ?s = eager recents olds s" by (rule eager_cong) simp_all
    moreover have "queue_work ?s < queue_work s" using queue by (simp add: queue_work_def)
    ultimately have "progress ext recents olds 1 s ?s" using inv queue
      by (intro progressI [of _ _ _ recents olds]) (simp_all add: bounded_inv_def work_left_def)
    then show ?thesis using queue True by (simp add: rc_bounded_chunk_unit_def)
  qed
qed

lemma unit_progress:
  assumes inv: "bounded_inv ext recents olds s" and "rc_pending_count s \<noteq> 0"
  shows "safe (rc_bounded_unit s) (progress ext recents olds 1 s)"
proof -
  define queue where "queue = select_queue 3 (rc_bounded_next_queue s) s"
  have "heap_inv (ext + waiting s) recents olds s" using inv by (simp add: bounded_inv_def)
  then have "queue_ready 0 s \<or> queue_ready 1 s \<or> queue_ready 2 s" using assms(2) by (rule some_ready)
  with inv have chosen: "queue_ready queue s" "queue < 3"
    using select_queue_ready [of "rc_bounded_next_queue s" s] by (simp_all add: queue_def bounded_inv_def)
  let ?s = "s\<lparr>rc_bounded_next_queue := (queue + 1) mod 3\<rparr>"
  have t: "bounded_inv ext recents olds ?s" using inv by (simp add: bounded_inv_def waiting_def)
  have same: "progress ext recents olds n (s\<lparr>rc_bounded_next_queue := q\<rparr>) = progress ext recents olds n s" for n q
    by (simp add: progress_def work_left_def queue_work_def fun_eq_iff)
  have "queue_ready queue ?s" using chosen(1) by (simp add: queue_ready_def)
  moreover have "queue = 0 \<or> queue = 1 \<or> queue = 2" using chosen(2) by linarith
  ultimately show ?thesis
    using object_progress [OF t] frame_progress [OF t] chunk_progress [OF t]
    by (auto simp: rc_bounded_unit_def Let_def queue_def [symmetric] same)
qed

section \<open>Polls\<close>

theorem poll_queues_progress:
  "bounded_inv ext recents olds s \<Longrightarrow>
    safe (poll_queues n s) (\<lambda>(m, t). m \<le> n \<and> (m \<noteq> 0 \<longrightarrow> rc_pending_count t = 0) \<and> progress ext recents olds (n - m) s t)"
proof (induction n arbitrary: recents olds s)
  case 0
  then show ?case by (simp add: progress_refl)
next
  case (Suc n)
  show ?case
  proof (cases "rc_pending_count s = 0")
    case True
    with Suc.prems show ?thesis by (simp add: progress_refl)
  next
    case False
    have "safe (rbind (rc_bounded_unit s) (poll_queues n))
      (\<lambda>(m, t). m \<le> Suc n \<and> (m \<noteq> 0 \<longrightarrow> rc_pending_count t = 0) \<and> progress ext recents olds (Suc n - m) s t)"
    proof (rule safe_rbind [OF unit_progress [OF Suc.prems False]])
      fix u assume u: "progress ext recents olds 1 s u"
      then obtain recents' olds' where "bounded_inv ext recents' olds' u" by (auto simp: progress_def)
      from Suc.IH [OF this] show "safe (poll_queues n u)
        (\<lambda>(m, t). m \<le> Suc n \<and> (m \<noteq> 0 \<longrightarrow> rc_pending_count t = 0) \<and> progress ext recents olds (Suc n - m) s t)"
      proof (cases rule: safe_cases)
        case (1 r)
        obtain m t where r: "r = (m, t)" by (cases r)
        with 1 have m: "m \<le> n" "m \<noteq> 0 \<longrightarrow> rc_pending_count t = 0" by simp_all
        have "progress ext recents olds (1 + (n - m)) s t"
        proof (rule progress_trans [OF u])
          fix recents'' olds'' assume "bounded_inv ext recents'' olds'' u"
          from Suc.IH [OF this] 1 r show "progress ext recents'' olds'' (n - m) u t" by simp
        qed
        with 1 m r show ?thesis by (simp add: Suc_diff_le)
      qed simp
    qed
    with False show ?thesis by simp
  qed
qed

end
