(* ===== verification/Bounded_Fast.thy ===== *)
theory Bounded_Fast
  imports Bounded_Poll
begin

text \<open>
  While no frame or chunk waits, a poll takes short cuts: it serves a chain of records of one field together,
  and a run of slots of a List. They do what the scheduler of the three queues does, unit for unit.
\<close>

section \<open>One unit after the other\<close>

fun object_units :: "nat \<Rightarrow> bounded \<Rightarrow> fault + nat \<times> bounded" where
  "object_units 0 s = Inr (0, s)"
| "object_units (Suc n) s =
     (if rc_pending_count s = 0 then Inr (Suc n, s) else rbind (rc_bounded_object_unit s) (object_units n))"

lemma rbind_assoc: "rbind (rbind r f) g = rbind r (\<lambda>x. rbind (f x) g)"
  by (cases r) simp_all

lemma rbind_if: "rbind (if b then r else r') f = (if b then rbind r f else rbind r' f)"
  by simp

section \<open>The queue served next does not matter to objects\<close>

abbreviation set_queue :: "nat \<Rightarrow> bounded \<Rightarrow> bounded" where
  "set_queue q s \<equiv> s\<lparr>rc_bounded_next_queue := q\<rparr>"

text \<open>The update is pulled out of every other.\<close>

lemma set_queue_pull:
  "s\<lparr>rc_bounded_next_queue := q, memory := m\<rparr> = s\<lparr>memory := m, rc_bounded_next_queue := q\<rparr>"
  "s\<lparr>rc_bounded_next_queue := q, rc_bounded_head := a\<rparr> = s\<lparr>rc_bounded_head := a, rc_bounded_next_queue := q\<rparr>"
  "s\<lparr>rc_bounded_next_queue := q, rc_bounded_tail := a\<rparr> = s\<lparr>rc_bounded_tail := a, rc_bounded_next_queue := q\<rparr>"
  "s\<lparr>rc_bounded_next_queue := q, rc_bounded_active := a\<rparr> = s\<lparr>rc_bounded_active := a, rc_bounded_next_queue := q\<rparr>"
  "s\<lparr>rc_bounded_next_queue := q, rc_bounded_cursor := c\<rparr> = s\<lparr>rc_bounded_cursor := c, rc_bounded_next_queue := q\<rparr>"
  "s\<lparr>rc_bounded_next_queue := q, rc_bounded_recent_head := a\<rparr> = s\<lparr>rc_bounded_recent_head := a, rc_bounded_next_queue := q\<rparr>"
  "s\<lparr>rc_bounded_next_queue := q, rc_bounded_recent_tail := a\<rparr> = s\<lparr>rc_bounded_recent_tail := a, rc_bounded_next_queue := q\<rparr>"
  "s\<lparr>rc_bounded_next_queue := q, rc_bounded_recent_turn := b\<rparr> = s\<lparr>rc_bounded_recent_turn := b, rc_bounded_next_queue := q\<rparr>"
  "s\<lparr>rc_bounded_next_queue := q, rc_pending_count := n\<rparr> = s\<lparr>rc_pending_count := n, rc_bounded_next_queue := q\<rparr>"
  by (rule bounded.equality; simp)+

lemma set_queue_simps:
  "bounded_object_at a (set_queue q s) = bounded_object_at a s"
  "put_object a object (set_queue q s) = set_queue q (put_object a object s)"
  "rc_bounded_finish_object a (set_queue q s) = rbind (rc_bounded_finish_object a s) (\<lambda>(b, s). Inr (b, set_queue q s))"
  by (simp_all add: bounded_object_at_def put_object_def rc_bounded_finish_object_def rbind_assoc set_queue_pull)

lemma drop_set_queue:
  "rc_bounded_drop v (set_queue q s) = rbind (rc_bounded_drop v s) (\<lambda>(n, s). Inr (n, set_queue q s))"
proof (induction v s rule: rc_bounded_drop.induct)
  case (1 v s)
  let ?a = "v - 8"
  note run = rc_bounded_drop.simps [of v s] rc_bounded_drop.simps [of v "set_queue q s"]
  show ?case
  proof (cases "v = 0 \<or> (\<exists>e. bounded_object_at ?a s = Inl e)")
    case True
    then show ?thesis by (auto simp: run set_queue_simps)
  next
    case False
    then obtain object where v: "v \<noteq> 0" and object: "bounded_object_at ?a s = Inr object"
      by (cases "bounded_object_at ?a s") auto
    let ?one = "object\<lparr>header := header object - 8\<rparr>"
    let ?s = "put_object ?a ?one s"
    show ?thesis
    proof (cases "header object \<noteq> 8 OR KIND_SCALAR_RECORD \<and> drop_bit 3 (header object) \<noteq> 0 \<and>
        drop_bit 3 (header ?one) = 0 \<and> kind ?one = KIND_TEXT")
      case False
      then show ?thesis
        by (simp add: run v object set_queue_simps Let_def rbind_assoc split_def)
          (auto simp: set_queue_pull)
    next
      case True
      show ?thesis
      proof (cases "rc_bounded_finish_object ?a ?s")
        case (Inl e)
        with True show ?thesis by (simp add: run v object set_queue_simps Let_def)
      next
        case (Inr r)
        obtain b u where r: "r = (b, u)" by (cases r)
        have "b \<noteq> 0 \<Longrightarrow> rc_bounded_drop b (set_queue q u) = rbind (rc_bounded_drop b u) (\<lambda>(n, s). Inr (n, set_queue q s))"
          using "1.IH" [OF v refl object _ _ refl refl _ _ Inr r [symmetric]] True by auto
        with True Inr r show ?thesis
          by (simp add: run v object set_queue_simps Let_def rbind_assoc split_def)
      qed
    qed
  qed
qed

lemma unit_set_queue:
  "rc_bounded_object_unit (set_queue q s) = rbind (rc_bounded_object_unit s) (\<lambda>s. Inr (set_queue q s))"
proof -
  have act: "activate (set_queue q s) = rbind (activate s) (\<lambda>s. Inr (set_queue q s))" for s
    by (simp add: activate_def set_queue_simps Let_def rbind_assoc set_queue_pull cong: if_cong)
  have old: "rc_bounded_old_object_unit (set_queue q s) = rbind (rc_bounded_old_object_unit s) (\<lambda>s. Inr (set_queue q s))" for s
    by (simp add: rc_bounded_old_object_unit_def act set_queue_simps Let_def rbind_assoc rbind_if split_def drop_set_queue
        set_queue_pull cong: if_cong)
  have recent: "rc_bounded_recent_object_unit (set_queue q s) = rbind (rc_bounded_recent_object_unit s) (\<lambda>s. Inr (set_queue q s))" for s
    by (simp add: rc_bounded_recent_object_unit_def set_queue_simps Let_def rbind_assoc rbind_if split_def drop_set_queue
        set_queue_pull cong: if_cong)
  have "capture (set_queue q s) = set_queue q (capture s)" by (simp add: capture_def set_queue_pull)
  moreover have "visited_unary (set_queue q s) = visited_unary s" for s by (simp add: visited_unary_def set_queue_simps)
  ultimately show ?thesis
    by (simp add: rc_bounded_object_unit_def Let_def set_queue_pull old recent rbind_assoc rbind_if cong: if_cong)
qed

lemma units_set_queue:
  "object_units n (set_queue q s) = rbind (object_units n s) (\<lambda>(m, t). Inr (m, set_queue q t))"
  by (induction n arbitrary: s) (auto simp: unit_set_queue rbind_assoc intro!: rbind_cong)

text \<open>Without frames and chunks the scheduler serves objects only.\<close>

lemma queues_idle:
  assumes "heap_inv ext recents olds s" "rc_bounded_frame_queue s = []" "rc_bounded_chunk_queue s = []"
    and "rc_pending_count s \<noteq> 0" "rc_bounded_next_queue s < 3"
  shows "queue_ready 0 s" "rc_bounded_unit s = rc_bounded_object_unit (set_queue 1 s)"
proof -
  have "queue_ready 0 s \<or> queue_ready 1 s \<or> queue_ready 2 s" using assms by (intro some_ready)
  then show r: "queue_ready 0 s" using assms(2,3) by (simp add: queue_ready_def)
  have "\<not> queue_ready 1 s" "\<not> queue_ready 2 s" using assms(2,3) by (simp_all add: queue_ready_def)
  moreover have "rc_bounded_next_queue s = 0 \<or> rc_bounded_next_queue s = 1 \<or> rc_bounded_next_queue s = 2"
    using assms(5) by linarith
  ultimately have "select_queue 3 (rc_bounded_next_queue s) s = 0" using r
    by (elim disjE; simp only: select_queue_order; simp)
  then show "rc_bounded_unit s = rc_bounded_object_unit (set_queue 1 s)" by (simp add: rc_bounded_unit_def)
qed

definition objects_only :: "bounded \<Rightarrow> bool" where
  "objects_only s \<longleftrightarrow> rc_bounded_frame_queue s = [] \<and> rc_bounded_chunk_queue s = [] \<and> rc_bounded_next_queue s < 3"

definition object_inv :: "ptr multiset \<Rightarrow> bounded \<Rightarrow> bool" where
  "object_inv ext s \<longleftrightarrow> objects_only s \<and> (\<exists>recents olds. heap_inv ext recents olds s)"

lemma object_unit_inv:
  assumes "object_inv ext s" "rc_pending_count s \<noteq> 0"
  shows "safe (rc_bounded_object_unit s) (object_inv ext)"
proof -
  obtain recents olds where heap: "heap_inv ext recents olds s" and only: "objects_only s"
    using assms(1) by (auto simp: object_inv_def)
  have "queue_ready 0 s" using queues_idle(1) [OF heap _ _ assms(2)] only by (simp add: objects_only_def)
  then have "unit_safe ext recents olds s (rc_bounded_object_unit s)" by (intro object_unit [OF heap]) (auto simp: queue_ready_def)
  then show ?thesis unfolding unit_safe_def
    by (rule safe_mono) (use only in \<open>auto simp: object_inv_def objects_only_def outside_def\<close>)
qed

lemma object_inv_queue: "object_inv ext s \<Longrightarrow> q < 3 \<Longrightarrow> object_inv ext (set_queue q s)"
  by (auto simp: object_inv_def objects_only_def)

lemma poll_queues_objects:
  "object_inv ext s \<Longrightarrow>
    poll_queues n s = rbind (object_units n s) (\<lambda>(m, t). Inr (m, if n - m \<noteq> 0 then set_queue 1 t else t))"
proof (induction n arbitrary: s)
  case (Suc n)
  show ?case
  proof (cases "rc_pending_count s = 0")
    case False
    let ?s = "set_queue 1 s"
    obtain recents olds where heap: "heap_inv ext recents olds s" and only: "objects_only s"
      using Suc.prems by (auto simp: object_inv_def)
    have unit: "rc_bounded_unit s = rbind (rc_bounded_object_unit s) (\<lambda>t. Inr (set_queue 1 t))"
      using queues_idle(2) [OF heap _ _ False] only unit_set_queue by (simp add: objects_only_def)
    have step: "poll_queues n (set_queue 1 t) = rbind (object_units n t) (\<lambda>(m, u). Inr (m, set_queue 1 u))" if "object_inv ext t" for t
      using Suc.IH [OF object_inv_queue [OF that, of 1]]
      by (simp add: units_set_queue rbind_assoc split_def cong: rbind_cong if_cong)
    have le: "m \<le> n" if "object_units n t = Inr (m, u)" for t m u
      using that by (induction n arbitrary: t) (auto simp: rbind_eq_Inr le_Suc_eq split: if_splits)
    show ?thesis
    proof (cases "rc_bounded_object_unit s")
      case (Inr t)
      then have "object_inv ext t" using object_unit_inv [OF Suc.prems False] by simp
      with step False unit Inr show ?thesis by (auto simp: Suc_diff_le dest!: le intro!: rbind_cong)
    qed (use False unit in simp)
  qed simp
qed simp

end
