(* ===== verification/Bounded_Runs.thy ===== *)
theory Bounded_Runs
  imports Bounded_Fast
begin

text \<open>
  The two short cuts of a poll, each against as many units of the scheduler: a chain of records of one field
  (\<open>unary_run\<close>) and a run of the slots of a List (\<open>list_run\<close>); with them, a poll is the scheduler.
\<close>

section \<open>Units in a row\<close>

lemma units_inv:
  "object_inv ext s \<Longrightarrow>
    safe (object_units k s) (\<lambda>(m, u). object_inv ext u \<and> m \<le> k \<and> (m = k \<longrightarrow> k = 0 \<or> rc_pending_count s = 0) \<and>
      (m \<noteq> 0 \<longrightarrow> rc_pending_count u = 0))"
proof (induction k arbitrary: s)
  case (Suc k)
  show ?case
  proof (cases "rc_pending_count s = 0")
    case False
    have "safe (rbind (rc_bounded_object_unit s) (object_units k))
      (\<lambda>(m, u). object_inv ext u \<and> m \<le> k \<and> (m \<noteq> 0 \<longrightarrow> rc_pending_count u = 0))"
      by (rule safe_rbind [OF object_unit_inv [OF Suc.prems False]]) (rule safe_mono [OF Suc.IH], auto)
    with False show ?thesis by (auto elim: safe_mono)
  qed (use Suc.prems in simp)
qed simp

lemma units_idle: "rc_pending_count s = 0 \<Longrightarrow> object_units n s = Inr (n, s)"
  by (cases n) simp_all

lemma units_join:
  "object_inv ext s \<Longrightarrow> object_units (k + j) s = rbind (object_units k s) (\<lambda>(m, u). object_units (m + j) u)"
proof (induction k arbitrary: s)
  case (Suc k)
  show ?case
  proof (cases "rc_pending_count s = 0")
    case False
    show ?thesis
    proof (cases "rc_bounded_object_unit s")
      case (Inr t)
      then have "object_inv ext t" using object_unit_inv [OF Suc.prems False] by simp
      with Suc.IH False Inr show ?thesis by simp
    qed (use False in simp)
  qed (simp add: units_idle)
qed simp

section \<open>What giving up a claim leaves alone\<close>

definition spares :: "bounded \<Rightarrow> bounded \<Rightarrow> bool" where
  "spares s s' \<longleftrightarrow> same_rest s s' \<and> rc_pending_count s \<le> rc_pending_count s' \<and>
     (\<forall>u object. fmlookup (memory s) u = Some object \<longrightarrow> drop_bit 3 (header object) = 0 \<longrightarrow>
        fmlookup (memory s') u = Some object)"

lemma spares_refl [simp]: "spares s s"
  by (simp add: spares_def)

lemma spares_trans: "spares s t \<Longrightarrow> spares t u \<Longrightarrow> spares s u"
  unfolding spares_def using same_rest_trans le_trans by blast

lemma spares_memory:
  assumes "fmlookup (memory s) v = Some object" "drop_bit 3 (header object) \<noteq> 0"
    and "same_rest s s'" "rc_pending_count s \<le> rc_pending_count s'" "\<And>u. u \<noteq> v \<Longrightarrow> fmlookup (memory s') u = fmlookup (memory s) u"
  shows "spares s s'"
  unfolding spares_def using assms by (metis option.inject)

lemma same_rest_queue:
  "same_rest s (put_object a object (put_object a object' s)\<lparr>rc_bounded_recent_head := h, rc_bounded_recent_tail := t, rc_pending_count := n\<rparr>)"
  by (simp add: same_rest_def put_object_def)

lemma finish_object_eq:
  "rc_bounded_finish_object a s = Inr (b, s') \<Longrightarrow> s' = s\<lparr>memory := fmdrop (a + 8) (memory s)\<rparr>"
  by (auto simp: rc_bounded_finish_object_def rbind_eq_Inr)

lemma drop_spares: "rc_bounded_drop v s = Inr (n, s') \<Longrightarrow> spares s s'"
proof (induction v s arbitrary: n s' rule: rc_bounded_drop.induct)
  case (1 v s)
  let ?a = "v - 8"
  note run = rc_bounded_drop.simps [of v s]
  show ?case
  proof (cases "v = 0")
    case False
    then obtain object where object: "bounded_object_at ?a s = Inr object"
      using "1.prems" by (cases "bounded_object_at ?a s") (auto simp: run)
    then have there: "fmlookup (memory s) v = Some object"
      by (auto simp: bounded_object_at_def split: option.splits if_splits)
    let ?one = "object\<lparr>header := header object - 8\<rparr>"
    let ?s = "put_object ?a ?one s"
    consider (leaf) "header object = 8 OR KIND_SCALAR_RECORD" | (zero) "header object \<noteq> 8 OR KIND_SCALAR_RECORD" "drop_bit 3 (header object) = 0"
      | (counted) "header object \<noteq> 8 OR KIND_SCALAR_RECORD" "drop_bit 3 (header object) \<noteq> 0" by blast
    then show ?thesis
    proof cases
      case leaf
      with "1.prems" False object show ?thesis
        by (auto simp: run rbind_eq_Inr dest!: finish_object_eq intro!: spares_memory [OF there])
    next
      case zero
      with "1.prems" False object show ?thesis by (simp add: run)
    next
      case counted
      have gone: "spares s u" if "rc_bounded_finish_object ?a ?s = Inr (b, u)" for b u
        using finish_object_eq [OF that] by (intro spares_memory [OF there counted(2)]) (auto simp: put_object_def same_rest_def)
      show ?thesis
      proof (cases "drop_bit 3 (header ?one) = 0 \<and> kind ?one = KIND_TEXT")
        case True
        with "1.prems" False object counted obtain b u where u: "rc_bounded_finish_object ?a ?s = Inr (b, u)"
          and rest: "if b \<noteq> 0 then \<exists>k. rc_bounded_drop b u = Inr (k, s') else s' = u"
          by (auto simp: run rbind_eq_Inr Let_def split: if_splits)
        show ?thesis
        proof (cases "b = 0")
          case False
          with rest obtain k where "rc_bounded_drop b u = Inr (k, s')" by auto
          from "1.IH" [OF \<open>v \<noteq> 0\<close> refl object _ _ refl refl _ _ u refl False this] counted True
          have "spares u s'" by auto
          with gone [OF u] show ?thesis by (rule spares_trans)
        qed (use rest gone [OF u] in simp)
      next
        case other: False
        have queue: "spares s (put_object ?a x ?s\<lparr>rc_bounded_recent_head := h, rc_bounded_recent_tail := t, rc_pending_count := Suc (rc_pending_count s)\<rparr>)" for x h t
          by (intro spares_memory [OF there counted(2)]) (auto simp: put_object_def same_rest_def)
        have one: "spares s ?s" by (intro spares_memory [OF there counted(2)]) auto
        from "1.prems" False object counted other show ?thesis
          by (auto simp: run rbind_eq_Inr Let_def gone queue one split: if_splits)
      qed
    qed
  qed (use "1.prems" rc_bounded_drop.simps [of 0 s] in simp)
qed

section \<open>A chain of records of one field\<close>

abbreviation flip_turn :: "bounded \<Rightarrow> bounded" where
  "flip_turn s \<equiv> s\<lparr>rc_bounded_recent_turn := \<not> rc_bounded_recent_turn s\<rparr>"

text \<open>The only task is a record of one field, not visited.\<close>

definition solo :: "ptr \<Rightarrow> bounded_object \<Rightarrow> byte \<Rightarrow> ptr \<Rightarrow> bounded \<Rightarrow> bool" where
  "solo single object b x s \<longleftrightarrow> single \<noteq> 0 \<and> rc_bounded_active s = 0 \<and> rc_pending_count s = 1 \<and>
     single = (if rc_bounded_head s \<noteq> 0 then rc_bounded_head s else rc_bounded_recent_head s) \<and>
     bounded_object_at single s = Inr object \<and> kind object = KIND_RECORD \<and>
     payload object = Record_payload [b] [x] \<and> drop_bit 1 b = 0"

lemma soloD:
  "solo single object b x s \<Longrightarrow> single \<noteq> 0" "solo single object b x s \<Longrightarrow> payload object = Record_payload [b] [x]"
  "solo single object b x s \<Longrightarrow> kind object = KIND_RECORD" "solo single object b x s \<Longrightarrow> drop_bit 1 b = 0"
  "solo single object b x s \<Longrightarrow> bounded_object_at single s = Inr object"
  unfolding solo_def by blast+

definition taken :: "ptr \<Rightarrow> bounded_object \<Rightarrow> bounded \<Rightarrow> bounded" where
  "taken single object s =
     (put_object single (object\<lparr>header := KIND_RECORD\<rparr>) s)\<lparr>rc_bounded_head := 0, rc_bounded_tail := 0,
       rc_bounded_recent_head := 0, rc_bounded_recent_tail := 0, rc_bounded_active := single, rc_bounded_cursor := 1\<rparr>"

definition visit :: "byte \<Rightarrow> ptr \<Rightarrow> bounded \<Rightarrow> fault + bounded" where
  "visit b x s = rbind (if b AND 1 \<noteq> 0 then rc_bounded_drop x s else Inr (0, s)) (\<lambda>(freed, s). Inr s)"

definition finish_active :: "bounded \<Rightarrow> fault + bounded" where
  "finish_active s =
     rbind (rc_bounded_finish_object (rc_bounded_active s) s) (\<lambda>(backing, s).
     Inr (s\<lparr>rc_pending_count := rc_pending_count s - 1, rc_bounded_active := 0\<rparr>))"

lemma solo_queues:
  assumes inv: "object_inv ext s" and solo: "solo single object b x s"
  shows "capture s = s\<lparr>rc_bounded_head := single, rc_bounded_tail := single, rc_bounded_recent_head := 0, rc_bounded_recent_tail := 0\<rparr>"
    and "header object AND LINK = 0"
    and "\<exists>recents olds. heap_inv ext recents olds s \<and> dead_values recents olds s = [single + 8]"
proof -
  obtain recents olds where heap: "heap_inv ext recents olds s" and only: "objects_only s"
    using inv by (auto simp: object_inv_def)
  then have q: "queues_ok recents olds s" by (simp add: heap_inv_def)
  with only solo have "length recents + length olds = 1" by (simp add: queues_ok_def objects_only_def solo_def active_tasks_def)
  then have "(recents = [single] \<and> olds = []) \<or> (recents = [] \<and> olds = [single])"
    using q solo by (cases recents; cases olds) (auto simp: queues_ok_def solo_def)
  then show "capture s = s\<lparr>rc_bounded_head := single, rc_bounded_tail := single, rc_bounded_recent_head := 0, rc_bounded_recent_tail := 0\<rparr>"
    by (elim disjE) (use q solo in \<open>auto simp: queues_ok_def solo_def capture_def last_task_def\<close>)
  show "\<exists>recents olds. heap_inv ext recents olds s \<and> dead_values recents olds s = [single + 8]"
    using heap \<open>(recents = [single] \<and> olds = []) \<or> (recents = [] \<and> olds = [single])\<close> solo
    by (intro exI [of _ recents] exI [of _ olds]) (auto simp: dead_values_def active_tasks_def solo_def)
  have "linked (memory s) single [single]" 
    using \<open>length recents + length olds = 1\<close> q solo by (cases recents; cases olds) (auto simp: queues_ok_def solo_def)
  then show "header object AND LINK = 0"
    using solo by (auto simp: solo_def bounded_object_at_def split: option.splits if_splits)
qed

lemma turn_cursor:
  "(taken single object s)\<lparr>rc_bounded_recent_turn := turn, rc_bounded_cursor := Suc 0\<rparr> =
    (taken single object s)\<lparr>rc_bounded_recent_turn := turn\<rparr>"
  by (rule bounded.equality) (simp_all add: taken_def)

lemma taken_simps:
  assumes "solo single object b x s"
  shows "rc_bounded_active (taken single object s) = single" "rc_bounded_head (taken single object s) = 0"
    "rc_bounded_cursor (taken single object s) = 1" "rc_pending_count (taken single object s) = 1"
    "rc_bounded_recent_head (taken single object s) = 0" "rc_bounded_recent_tail (taken single object s) = 0"
    "rc_bounded_recent_turn (taken single object s) = rc_bounded_recent_turn s"
    "fmlookup (memory (taken single object s)) (single + 8) = Some (object\<lparr>header := KIND_RECORD\<rparr>)"
    "memory s' = memory (taken single object s) \<Longrightarrow> bounded_object_at single s' = Inr (object\<lparr>header := KIND_RECORD\<rparr>)"
  using assms
  by (auto simp: taken_def solo_def bounded_object_at_def shaped_def kind_def split: option.splits if_splits)

lemma first_unit:
  assumes inv: "object_inv ext s" and solo: "solo single object b x s"
  shows "rc_bounded_object_unit s = visit b x (flip_turn (taken single object s))"
proof -
  let ?s = "flip_turn (s\<lparr>rc_bounded_head := single, rc_bounded_tail := single, rc_bounded_recent_head := 0, rc_bounded_recent_tail := 0\<rparr>)"
  have kind: "header object AND 7 = KIND_RECORD" using solo by (simp add: solo_def kind_def)
  have "activate ?s = Inr ((flip_turn (taken single object s))\<lparr>rc_bounded_cursor := 0\<rparr>)"
    using solo solo_queues(2) [OF inv solo] kind
    by (auto simp: activate_def solo_def bounded_object_at_def Let_def taken_def put_object_def rc_bounded_saved_cursor_def
        intro!: bounded.equality split: option.splits if_splits)
  then have "rc_bounded_old_object_unit ?s = visit b x (flip_turn (taken single object s))"
    using soloD [OF solo] taken_simps [OF solo]
    by (simp add: rc_bounded_old_object_unit_def kind_def visit_def rbind_if Let_def turn_cursor)
  then show ?thesis
    by (simp add: rc_bounded_object_unit_def Let_def solo_queues(1) [OF inv solo])
qed

lemma second_unit:
  assumes "rc_bounded_active u \<noteq> 0" "rc_bounded_cursor u = 1" "rc_bounded_head u = 0"
    and "bounded_object_at (rc_bounded_active u) u = Inr object" "kind object = KIND_RECORD" "length (slots (payload object)) = 1"
  shows "rc_bounded_object_unit u = finish_active (flip_turn u)"
proof -
  have same: "bounded_object_at (rc_bounded_active u) (flip_turn u) = Inr object" using assms(4) by (simp add: bounded_object_at_def)
  have "rc_bounded_old_object_unit (flip_turn u) = finish_active (flip_turn u)"
    using assms same by (simp add: rc_bounded_old_object_unit_def activate_def finish_active_def)
  moreover have "visited_unary (flip_turn u) = Inr True"
    using assms same by (simp add: visited_unary_def)
  ultimately show ?thesis
    using assms by (cases "rc_bounded_recent_turn u") (simp_all add: rc_bounded_object_unit_def Let_def capture_def)
qed

text \<open>Two units serve the task; where its field was the last claim on another record of one field, that is the only task then.\<close>

lemma two_units:
  assumes inv: "object_inv ext s" and solo: "solo single object b x s"
  shows "object_units (Suc (Suc 0)) s =
    rbind (visit b x (flip_turn (taken single object s))) (\<lambda>u. rbind (finish_active (flip_turn u)) (\<lambda>u. Inr (0, u)))"
proof -
  let ?t = "flip_turn (taken single object s)"
  note taken = taken_simps [OF solo]
  have pending: "rc_pending_count s \<noteq> 0" using solo by (simp add: solo_def)
  have rest: "object_units (Suc 0) u = rbind (finish_active (flip_turn u)) (\<lambda>u. Inr (0, u))" if "visit b x ?t = Inr u" for u
  proof -
    have "spares ?t u" using that drop_spares by (auto simp: visit_def rbind_eq_Inr split: if_splits)
    then have u: "rc_bounded_active u = single" "rc_bounded_cursor u = 1" "rc_bounded_head u = 0" "rc_pending_count u \<noteq> 0"
      "fmlookup (memory u) (single + 8) = Some (object\<lparr>header := KIND_RECORD\<rparr>)"
      using taken same_restD [of ?t u] by (auto simp: spares_def)
    have "rc_bounded_object_unit u = finish_active (flip_turn u)"
      by (rule second_unit [of _ "object\<lparr>header := KIND_RECORD\<rparr>"])
        (use u solo in \<open>auto simp: solo_def bounded_object_at_def shaped_def kind_def split: option.splits if_splits\<close>)
    with u show ?thesis by (simp add: rbind_def split: sum.splits)
  qed
  have "object_units (Suc (Suc 0)) s = rbind (visit b x ?t) (object_units (Suc 0))"
    using pending by (simp add: first_unit [OF inv solo])
  with rest show ?thesis by (cases "visit b x ?t") simp_all
qed

lemma cleared_cursor:
  fixes b :: byte
  assumes "drop_bit 1 b = 0"
  shows "b AND 1 = b"
  using assms by (metis add_cancel_right_left and_one_eq bits_ident mult_zero_left push_bit_of_0 take_bit_eq_mask_iff take_bit_Suc_0 One_nat_def)

lemma carried:
  assumes inv: "object_inv ext s" and solo: "solo single object b x s" and x: "b AND 1 \<noteq> 0" "x \<noteq> 0"
    and child: "bounded_object_at (x - 8) (taken single object s) = Inr child" "header child = 8 OR KIND_RECORD"
      "length (slots (payload child)) = 1"
  shows "\<exists>b' x' t backing u. let child' = child\<lparr>header := KIND_RECORD\<rparr> in
    object_units (Suc (Suc 0)) s = Inr (0, t) \<and> solo (x - 8) child' b' x' t \<and>
    rc_bounded_finish_object single (put_object (x - 8) child' (taken single object s)) = Inr (backing, u) \<and>
    u\<lparr>rc_bounded_active := x - 8\<rparr> = taken (x - 8) child' t"
proof -
  let ?T = "taken single object s" and ?child = "child\<lparr>header := KIND_RECORD\<rparr>"
  note taken = taken_simps [OF solo]
  have there: "fmlookup (memory ?T) x = Some child" "shaped child"
    using child(1) by (auto simp: bounded_object_at_def split: option.splits if_splits)
  then have other: "x \<noteq> single + 8" using taken(8) child(2) by auto
  then have "fmlookup (memory s) x = Some child" using there(1) by (simp add: taken_def put_object_def)
  moreover obtain recents olds where "heap_inv ext recents olds s" "dead_values recents olds s = [single + 8]"
    using solo_queues(3) [OF inv solo] by blast
  ultimately have fits: "plain_map child" "x \<noteq> 8"
    using heap_invD(1) [of ext recents olds s x child] other by (auto simp: object_fits_def)
  obtain b' x' where payload: "payload child = Record_payload [b'] [x']"
    using there(2) child(2,3)
    by (cases "payload child") (auto simp: shaped_def kind_def length_Suc_conv)
  with fits(1) have b': "drop_bit 1 b' = 0" "b' AND 1 = b'" by (simp_all add: plain_map_def cleared_cursor)
  define u where "u = (put_object (x - 8) ?child (flip_turn ?T))\<lparr>rc_bounded_recent_head := x - 8,
    rc_bounded_recent_tail := x - 8, rc_pending_count := Suc (Suc 0)\<rparr>"
  define t where "t = (flip_turn u)\<lparr>memory := fmdrop (single + 8) (memory u), rc_pending_count := 1, rc_bounded_active := 0\<rparr>"
  have "rc_bounded_save_cursor ?child 0 = ?child"
    using payload b' by (simp add: rc_bounded_save_cursor_def)
  moreover have at: "bounded_object_at (x - 8) (flip_turn ?T) = Inr child" using there by (simp add: bounded_object_at_def)
  ultimately have "rc_bounded_drop x (flip_turn ?T) = Inr (0, u)"
    using x(2) child(2) payload taken at
    by (subst rc_bounded_drop.simps) (simp add: kind_def u_def put_object_def Let_def)
  then have "visit b x (flip_turn ?T) = Inr u" using x by (simp add: visit_def)
  moreover have at: "bounded_object_at single (flip_turn u) = Inr (object\<lparr>header := KIND_RECORD\<rparr>)"
    using other taken soloD [OF solo] by (auto simp: bounded_object_at_def u_def shaped_def kind_def)
  then have "finish_active (flip_turn u) = Inr t"
    using taken by (auto simp: finish_active_def rc_bounded_finish_object_def u_def t_def intro!: bounded.equality)
  ultimately have units: "object_units (Suc (Suc 0)) s = Inr (0, t)" using two_units [OF inv solo] by simp
  have "solo (x - 8) ?child b' x' t"
    using fits payload b' other taken
    by (auto simp: solo_def t_def u_def bounded_object_at_def shaped_def kind_def)
  moreover have "bounded_object_at single (put_object (x - 8) ?child ?T) = Inr (object\<lparr>header := KIND_RECORD\<rparr>)"
    using other taken soloD [OF solo] by (auto simp: bounded_object_at_def shaped_def kind_def)
  then obtain backing v where v: "rc_bounded_finish_object single (put_object (x - 8) ?child ?T) = Inr (backing, v)"
    by (simp add: rc_bounded_finish_object_def)
  moreover have "v\<lparr>rc_bounded_active := x - 8\<rparr> = taken (x - 8) ?child t"
    using finish_object_eq [OF v] taken other
    by (auto simp: t_def u_def taken_def put_object_def intro!: bounded.equality fmap_ext)
  ultimately show ?thesis using units by (auto simp: Let_def)
qed

lemma take_single_taken: "bounded_object_at single s = Inr object \<Longrightarrow> take_single single s = Inr (taken single object s)"
  by (simp add: take_single_def taken_def)

lemma last_pair:
  assumes solo: "solo single object b x s"
  shows "rbind (if b AND 1 \<noteq> 0 then rc_bounded_drop x (flip_turn (taken single object s)) else Inr (0, flip_turn (taken single object s)))
      (\<lambda>(freed, u). rbind (rc_bounded_finish_object single (flip_turn u)) (\<lambda>(backing, u).
         Inr (n, u\<lparr>rc_pending_count := rc_pending_count u - 1, rc_bounded_active := 0\<rparr>))) =
    rbind (visit b x (flip_turn (taken single object s))) (\<lambda>u. rbind (finish_active (flip_turn u)) (\<lambda>u. Inr (n, u)))"
    (is "rbind ?first _ = _")
proof (cases ?first)
  case (Inr r)
  obtain freed u where r: "r = (freed, u)" by (cases r)
  have "spares (flip_turn (taken single object s)) u" using Inr r drop_spares by (auto split: if_splits)
  then have "rc_bounded_active u = single"
    using taken_simps(1) [OF solo] same_restD(3) by (auto simp: spares_def)
  with Inr r show ?thesis
    by (simp add: visit_def finish_active_def rbind_assoc split_def cong: rbind_cong)
qed (simp add: visit_def)

lemma unary_runs:
  "object_inv ext s \<Longrightarrow> solo single object b x s \<Longrightarrow> 2 \<le> n \<Longrightarrow>
    \<exists>k. 0 < k \<and> k \<le> n \<and> unary_run n single (taken single object s) = rbind (object_units k s) (\<lambda>(m, u). Inr (n - k + m, u))"
proof (induction n arbitrary: s single object b x rule: less_induct)
  case (less n)
  let ?T = "taken single object s" and ?object = "object\<lparr>header := KIND_RECORD\<rparr>"
  note inv = less.prems(1) and solo = less.prems(2)
  note taken = taken_simps [OF solo] and two = two_units [OF inv solo] and run = unary_run.simps [of n single ?T]
  have at: "bounded_object_at single ?T = Inr ?object" by (rule taken(9)) simp
  let ?field = "if b AND 1 \<noteq> 0 then x else 0"
  have pair: "rbind (object_units (Suc (Suc 0)) s) (\<lambda>(m, u). Inr (n - 2 + m, u)) =
      rbind (visit b x (flip_turn ?T)) (\<lambda>u. rbind (finish_active (flip_turn u)) (\<lambda>u. Inr (n - 2, u)))"
    unfolding two by (simp add: rbind_assoc)
  show ?case
  proof (cases "4 \<le> n \<and> ?field \<noteq> 0")
    case True
    then have x: "b AND 1 \<noteq> 0" "x \<noteq> 0" "4 \<le> n" by (auto split: if_splits)
    show ?thesis
    proof (cases "bounded_object_at (x - 8) ?T")
      case (Inl e)
      have "bounded_object_at (x - 8) (flip_turn ?T) = Inl e" using Inl by (simp add: bounded_object_at_def)
      then have "visit b x (flip_turn ?T) = Inl e" using x by (simp add: visit_def rc_bounded_drop.simps [of x])
      then show ?thesis
        using two Inl x soloD [OF solo] at less.prems(3) by (intro exI [of _ 2]) (simp add: run Let_def numeral_2_eq_2)
    next
      case (Inr child)
      show ?thesis
      proof (cases "header child = 8 OR KIND_RECORD \<and> length (slots (payload child)) = 1")
        case True
        let ?child = "child\<lparr>header := KIND_RECORD\<rparr>"
        from carried [OF inv solo x(1,2) Inr] True obtain b' x' t backing u where
          t: "object_units (Suc (Suc 0)) s = Inr (0, t)" "solo (x - 8) ?child b' x' t"
          and u: "rc_bounded_finish_object single (put_object (x - 8) ?child ?T) = Inr (backing, u)"
            "u\<lparr>rc_bounded_active := x - 8\<rparr> = taken (x - 8) ?child t"
          by (auto simp: Let_def)
        have inv': "object_inv ext t" using units_inv [OF inv, of "Suc (Suc 0)"] t(1) by simp
        have n: "n - 2 < n" "2 \<le> n - 2" using x(3) by auto
        obtain k where k: "0 < k" "k \<le> n - 2"
          "unary_run (n - 2) (x - 8) (taken (x - 8) ?child t) = rbind (object_units k t) (\<lambda>(m, u). Inr (n - 2 - k + m, u))"
          using less.IH [OF n(1) inv' t(2) n(2)] by blast
        have "unary_run n single ?T = unary_run (n - 2) (x - 8) (taken (x - 8) ?child t)"
          using Inr True x soloD [OF solo] at u by (simp add: run Let_def)
        moreover have "object_units (Suc (Suc 0) + k) s = object_units k t"
          using units_join [OF inv, of "Suc (Suc 0)" k] t(1) by simp
        ultimately show ?thesis using k by (intro exI [of _ "Suc (Suc 0) + k"]) (auto simp: numeral_2_eq_2)
      next
        case False
        have "unary_run n single ?T = rbind (object_units (Suc (Suc 0)) s) (\<lambda>(m, u). Inr (n - 2 + m, u))"
          unfolding pair using Inr False x soloD [OF solo] at last_pair [OF solo, of "n - 2"] by (auto simp: run Let_def)
        then show ?thesis using less.prems(3) by (intro exI [of _ "Suc (Suc 0)"]) (simp only: numeral_2_eq_2, simp)
      qed
    qed
  next
    case False
    then have "unary_run n single ?T = rbind (object_units (Suc (Suc 0)) s) (\<lambda>(m, u). Inr (n - 2 + m, u))"
      unfolding pair using soloD [OF solo] at last_pair [OF solo, of "n - 2"] by (auto simp: run Let_def)
    then show ?thesis using less.prems(3) by (intro exI [of _ "Suc (Suc 0)"]) (simp only: numeral_2_eq_2, simp)
  qed
qed

section \<open>A run of the slots of a List\<close>

text \<open>The active task is a List with slots left, and nothing has died recently.\<close>

definition list_turn :: "bounded_object \<Rightarrow> bounded \<Rightarrow> bool" where
  "list_turn object s \<longleftrightarrow> rc_bounded_recent_head s = 0 \<and> rc_bounded_active s \<noteq> 0 \<and>
     bounded_object_at (rc_bounded_active s) s = Inr object \<and> kind object = KIND_REFERENCES"

lemma active_pending:
  assumes "object_inv ext s" "rc_bounded_active s \<noteq> 0"
  shows "rc_pending_count s \<noteq> 0"
    and "bounded_object_at (rc_bounded_active s) s = Inr object \<Longrightarrow> drop_bit 3 (header object) = 0"
proof -
  obtain recents olds where heap: "heap_inv ext recents olds s" using assms(1) by (auto simp: object_inv_def)
  then show "rc_pending_count s \<noteq> 0"
    using assms(2) by (simp add: heap_inv_def queues_ok_def active_tasks_def)
  assume object: "bounded_object_at (rc_bounded_active s) s = Inr object"
  have "rc_bounded_active s + 8 \<in> set (dead_values recents olds s)" using assms(2) by (simp add: dead_values_def active_tasks_def)
  then obtain object' where "bounded_object_at (rc_bounded_active s) s = Inr object'" "header object' = kind object'"
    using task_object [OF heap] assms(2) by (metis value_header(2))
  then have "header object = kind object" using object by simp
  then have "header object = header object AND 7" unfolding kind_def .
  then have "drop_bit 3 (header object) = drop_bit 3 (header object AND 7)" by (rule arg_cong)
  also have "\<dots> = 0" by (simp only: drop_bit_and) simp
  finally show "drop_bit 3 (header object) = 0" .
qed

lemma list_unit:
  assumes "list_turn object s" "rc_bounded_cursor s < length (slots (payload object))"
  shows "rc_bounded_object_unit s =
    rbind (rc_bounded_drop (slots (payload object) ! rc_bounded_cursor s) ((flip_turn s)\<lparr>rc_bounded_cursor := Suc (rc_bounded_cursor s)\<rparr>))
      (\<lambda>(freed, u). Inr u)"
proof -
  have "bounded_object_at (rc_bounded_active s) (flip_turn s) = Inr object"
    using assms(1) by (simp add: list_turn_def bounded_object_at_def)
  then show ?thesis
    using assms by (simp add: rc_bounded_object_unit_def rc_bounded_old_object_unit_def capture_def activate_def list_turn_def Let_def)
qed

lemma leaf_drop:
  assumes "scalar_leaf v s = Inr leaf"
  shows "leaf \<Longrightarrow> rc_bounded_drop v s = rbind (rc_bounded_finish_object (v - 8) s) (\<lambda>(backing, s). Inr (1, s))"
  using assms by (subst rc_bounded_drop.simps) (auto simp: scalar_leaf_def rbind_eq_Inr split: if_splits)

lemma leaf_fault: "scalar_leaf v s = Inl e \<Longrightarrow> rc_bounded_drop v s = Inl e"
  by (subst rc_bounded_drop.simps) (cases "bounded_object_at (v - 8) s"; auto simp: scalar_leaf_def split: if_splits)

lemma list_runs:
  "object_inv ext s \<Longrightarrow> list_turn object s \<Longrightarrow> j \<le> n \<Longrightarrow> j \<le> length (slots (payload object)) - rc_bounded_cursor s \<Longrightarrow>
    \<exists>k. (0 < j \<longrightarrow> 0 < k) \<and> k \<le> j \<and> list_run j n s = rbind (object_units k s) (\<lambda>(m, u). Inr (n - k + m, u))"
proof (induction j arbitrary: n s)
  case (Suc j)
  let ?s = "(flip_turn s)\<lparr>rc_bounded_cursor := Suc (rc_bounded_cursor s)\<rparr>" and ?v = "slots (payload object) ! rc_bounded_cursor s"
  note inv = Suc.prems(1) and turn = Suc.prems(2)
  have active: "bounded_object_at (rc_bounded_active s) s = Inr object" "rc_bounded_active s \<noteq> 0"
    using turn by (simp_all add: list_turn_def)
  have less: "rc_bounded_cursor s < length (slots (payload object))" using Suc.prems(4) by linarith
  have pending: "rc_pending_count s \<noteq> 0" by (rule active_pending(1) [OF inv active(2)])
  have unit: "rc_bounded_object_unit s = rbind (rc_bounded_drop ?v ?s) (\<lambda>(freed, u). Inr u)"
    by (rule list_unit [OF turn less])
  have one: "object_units (Suc 0) s = rbind (rc_bounded_drop ?v ?s) (\<lambda>(freed, u). Inr (0, u))"
    using pending by (simp add: unit rbind_assoc split_def cong: rbind_cong)
  show ?case
  proof (cases "rc_bounded_drop ?v ?s")
    case (Inl e)
    have "list_run (Suc j) n s = Inl e"
    proof (cases "scalar_leaf ?v ?s")
      case (Inr leaf)
      with \<open>rc_bounded_drop ?v ?s = Inl e\<close> active(1) leaf_drop [OF Inr] show ?thesis
        by (cases leaf; cases "rc_bounded_finish_object (?v - 8) ?s") (auto simp: Let_def)
    qed (use Inl active(1) leaf_fault in \<open>auto simp: Let_def\<close>)
    with one Inl show ?thesis by (intro exI [of _ "Suc 0"]) simp
  next
    case (Inr r)
    then obtain freed u where drop: "rc_bounded_drop ?v ?s = Inr (freed, u)" by (cases r) auto
    have inv': "object_inv ext u" using object_unit_inv [OF inv pending] by (simp add: unit drop)
    have spares: "spares ?s u" by (rule drop_spares [OF drop])
    then have u: "rc_bounded_active u = rc_bounded_active s" "rc_bounded_cursor u = Suc (rc_bounded_cursor s)"
      using same_restD(3,4) [of ?s u] by (simp_all add: spares_def)
    have at: "bounded_object_at (rc_bounded_active u) u = Inr object"
      using spares active active_pending(2) [OF inv active(2) active(1)]
      by (auto simp: spares_def u bounded_object_at_def split: option.splits if_splits)
    have run: "list_run (Suc j) n s = (if rc_bounded_recent_head u \<noteq> 0 then Inr (n - 1, u) else list_run j (n - 1) u)"
    proof (cases "scalar_leaf ?v ?s")
      case (Inl e)
      with leaf_fault drop show ?thesis by fastforce
    next
      case (Inr leaf)
      show ?thesis
      proof (cases leaf)
        case True
        with leaf_drop [OF Inr] drop obtain backing where "rc_bounded_finish_object (?v - 8) ?s = Inr (backing, u)"
          by (cases "rc_bounded_finish_object (?v - 8) ?s") auto
        moreover from finish_object_eq [OF this] have "rc_bounded_recent_head u = 0" using turn by (simp add: list_turn_def)
        ultimately show ?thesis using Inr True active(1) by (simp add: Let_def)
      qed (use Inr active(1) drop in \<open>simp add: Let_def\<close>)
    qed
    show ?thesis
    proof (cases "rc_bounded_recent_head u = 0")
      case True
      then have turn': "list_turn object u" using turn u at by (simp add: list_turn_def)
      have j: "j \<le> n - 1" "j \<le> length (slots (payload object)) - rc_bounded_cursor u" using Suc.prems(3,4) u by auto
      obtain k where k: "k \<le> j" "list_run j (n - 1) u = rbind (object_units k u) (\<lambda>(m, u). Inr (n - 1 - k + m, u))"
        using Suc.IH [OF inv' turn' j] by blast
      have "object_units (Suc k) s = object_units k u" using pending by (simp add: unit drop)
      with k run True show ?thesis by (intro exI [of _ "Suc k"]) simp
    qed (use run one drop in \<open>intro exI [of _ "Suc 0"]; simp\<close>)
  qed
qed (simp add: exI [of _ 0])

section \<open>A poll is the scheduler\<close>

lemma units_compose:
  assumes inv: "object_inv ext s" and some: "rc_pending_count s \<noteq> 0" and k: "0 < k" "k \<le> n"
    and rest: "\<And>m u. m < n \<Longrightarrow> object_inv ext u \<Longrightarrow> f (m, u) = object_units m u"
  shows "rbind (rbind (object_units k s) (\<lambda>(m, u). Inr (n - k + m, u))) f = object_units n s"
proof -
  have "object_units n s = rbind (object_units k s) (\<lambda>(m, u). object_units (m + (n - k)) u)"
    using units_join [OF inv, of k "n - k"] k by simp
  moreover have "f (n - k + m, u) = object_units (m + (n - k)) u" if "object_units k s = Inr (m, u)" for m u
  proof -
    have "object_inv ext u" "m < k" using units_inv [OF inv, of k] that some k by (auto simp: le_less)
    with rest [of "n - k + m" u] k show ?thesis by (simp add: add.commute)
  qed
  ultimately show ?thesis by (cases "object_units k s") (auto simp: rbind_assoc)
qed

lemma poll_object:
  assumes "object_inv ext s"
  shows "rc_bounded_active s \<noteq> 0 \<Longrightarrow> \<exists>object. bounded_object_at (rc_bounded_active s) s = Inr object"
    and "a = (if rc_bounded_head s \<noteq> 0 then rc_bounded_head s else rc_bounded_recent_head s) \<Longrightarrow> a \<noteq> 0 \<Longrightarrow>
      \<exists>object. bounded_object_at a s = Inr object"
proof -
  obtain recents olds where heap: "heap_inv ext recents olds s" using assms by (auto simp: object_inv_def)
  then have q: "queues_ok recents olds s" by (simp add: heap_inv_def)
  have task: "\<exists>object. bounded_object_at b s = Inr object" if "b + 8 \<in> set (dead_values recents olds s)" for b
    using task_object [OF heap that] by (metis value_header(2))
  show "rc_bounded_active s \<noteq> 0 \<Longrightarrow> \<exists>object. bounded_object_at (rc_bounded_active s) s = Inr object"
    by (rule task) (simp add: dead_values_def active_tasks_def)
  show "\<exists>object. bounded_object_at a s = Inr object"
    if "a = (if rc_bounded_head s \<noteq> 0 then rc_bounded_head s else rc_bounded_recent_head s)" "a \<noteq> 0"
    by (rule task) (use q that in \<open>cases recents; cases olds; auto simp: queues_ok_def dead_values_def split: if_splits\<close>)
qed

lemma single_unary_cases:
  assumes inv: "object_inv ext s"
  shows "single_unary n s = Inr None \<or>
    (\<exists>single object b x. single_unary n s = Inr (Some single) \<and> 2 \<le> n \<and> solo single object b x s)"
proof (cases "n \<ge> 2 \<and> rc_pending_count s = 1 \<and> rc_bounded_active s = 0 \<and>
    (if rc_bounded_head s \<noteq> 0 then rc_bounded_head s else rc_bounded_recent_head s) \<noteq> 0")
  case True
  define single where "single = (if rc_bounded_head s \<noteq> 0 then rc_bounded_head s else rc_bounded_recent_head s)"
  obtain object where object: "bounded_object_at single s = Inr object"
    using poll_object(2) [OF inv single_def] True by (auto simp: single_def)
  then have shaped: "shaped object" by (auto simp: bounded_object_at_def split: option.splits if_splits)
  have found: "single_unary n s = Inr (case payload object of
      Record_payload references values \<Rightarrow>
        if kind object = KIND_RECORD \<and> length values = 1 \<and> drop_bit 1 (references ! 0) = 0 then Some single else None
    | _ \<Rightarrow> None)"
    using True object unfolding single_unary_def single_def by (simp add: Let_def)
  show ?thesis
  proof (cases "payload object")
    case (Record_payload references fields)
    show ?thesis
    proof (cases "kind object = KIND_RECORD \<and> length fields = 1 \<and> drop_bit 1 (references ! 0) = 0")
      case unary: True
      then obtain b x where "references = [b]" "fields = [x]"
        using shaped Record_payload by (auto simp: shaped_def length_Suc_conv)
      with unary Record_payload object True have "solo single object b x s" by (simp add: solo_def single_def)
      with found unary Record_payload True show ?thesis by auto
    qed (use found Record_payload in auto)
  qed (use found in simp_all)
next
  case False
  have "single_unary n s = Inr None" unfolding single_unary_def Let_def by (rule if_not_P [OF False])
  then show ?thesis by blast
qed

lemma list_slots_cases:
  assumes inv: "object_inv ext s"
  shows "list_slots n s = Inr 0 \<or>
    (\<exists>object j. list_slots n s = Inr (Suc j) \<and> list_turn object s \<and> Suc j \<le> n \<and>
      Suc j \<le> length (slots (payload object)) - rc_bounded_cursor s)"
proof (cases "rc_bounded_recent_head s = 0 \<and> rc_bounded_active s \<noteq> 0")
  case True
  then obtain object where object: "bounded_object_at (rc_bounded_active s) s = Inr object" using poll_object(1) [OF inv] by auto
  define count where "count = min n (length (slots (payload object)) - rc_bounded_cursor s)"
  show ?thesis
  proof (cases "kind object = KIND_REFERENCES \<and> count \<noteq> 0")
    case some: True
    then obtain j where "count = Suc j" by (cases count) auto
    with some True object show ?thesis
      by (intro disjI2 exI [of _ object] exI [of _ j]) (auto simp: list_slots_def list_turn_def count_def)
  qed (use True object in \<open>auto simp: list_slots_def count_def\<close>)
qed (auto simp: list_slots_def)

theorem poll_objects_units: "object_inv ext s \<Longrightarrow> poll_objects n s = object_units n s"
proof (induction n arbitrary: s rule: less_induct)
  case (less n)
  note inv = less.prems
  show ?case
  proof (cases "n = 0 \<or> rc_pending_count s = 0")
    case True
    then show ?thesis by (auto simp: poll_objects.simps [of n s] units_idle)
  next
    case False
    have rest: "(\<lambda>(m, u). poll_objects m u) (m, u) = object_units m u" if "m < n" "object_inv ext u" for m u
      using less.IH that by simp
    have join: "rbind r (\<lambda>(m, u). poll_objects m u) = object_units n s"
      if "0 < k" "k \<le> n" "r = rbind (object_units k s) (\<lambda>(m, u). Inr (n - k + m, u))" for k r
      unfolding that(3) by (rule units_compose [OF inv _ that(1,2) rest]) (use False in auto)
    from single_unary_cases [OF inv, of n] show ?thesis
    proof (elim disjE exE conjE)
      fix single object b x assume found: "single_unary n s = Inr (Some single)" "2 \<le> n" "solo single object b x s"
      from unary_runs [OF inv found(3,2)] obtain k where "0 < k" "k \<le> n"
        "unary_run n single (taken single object s) = rbind (object_units k s) (\<lambda>(m, u). Inr (n - k + m, u))" by blast
      with join False found take_single_taken [OF soloD(5) [OF found(3)]] show ?thesis
        by (simp add: poll_objects.simps [of n s])
    next
      assume none: "single_unary n s = Inr None"
      from list_slots_cases [OF inv, of n] show ?thesis
      proof (elim disjE exE conjE)
        assume "list_slots n s = Inr 0"
        then have "poll_objects n s = rbind (rc_bounded_object_unit s) (poll_objects (n - 1))"
          using none False by (simp add: poll_objects.simps [of n s])
        also have "\<dots> = object_units n s"
          using less.IH [of "n - 1"] object_unit_inv [OF inv] False
          by (cases n; cases "rc_bounded_object_unit s") auto
        finally show ?thesis .
      next
        fix object j assume some: "list_slots n s = Inr (Suc j)" "list_turn object s" "Suc j \<le> n"
          "Suc j \<le> length (slots (payload object)) - rc_bounded_cursor s"
        from list_runs [OF inv some(2,3,4)] obtain k where "0 < k" "k \<le> n"
          "list_run (Suc j) n s = rbind (object_units k s) (\<lambda>(m, u). Inr (n - k + m, u))" using some(3) by auto
        with join False some none show ?thesis
          by (simp add: poll_objects.simps [of n s] del: list_run.simps)
      qed
    qed
  qed
qed

theorem poll_scheduler:
  assumes inv: "bounded_inv ext recents olds s" and units: "units = min budget MINYAR_RC_POLL_BUDGET"
  shows "minyar_rc_poll budget s = rbind (poll_queues units s) (\<lambda>(n, t). Inr (units - n, t))"
proof (cases "rc_bounded_frame_queue s = [] \<and> rc_bounded_chunk_queue s = []")
  case True
  then have objects: "object_inv (ext + waiting s) s"
    using inv by (auto simp: bounded_inv_def object_inv_def objects_only_def)
  show ?thesis
    using True by (simp add: minyar_rc_poll_def units [symmetric] Let_def poll_objects_units [OF objects]
        poll_queues_objects [OF objects] rbind_assoc split_def cong: if_cong)
qed (auto simp: minyar_rc_poll_def units Let_def)

end
