(* ===== verification/Bounded_Frames.thy ===== *)
theory Bounded_Frames
  imports Bounded_Runs
begin

text \<open>
  The frames of the bounded configuration: the claims of locals and temporaries, the frames that wait or are
  kept for reuse, and what a poll does to them.
\<close>

section \<open>Frames in use\<close>

definition chunks_ok :: "ptr list list \<Rightarrow> bool" where
  "chunks_ok chunks \<longleftrightarrow> (\<forall>chunk \<in> set chunks. chunk \<noteq> [] \<and> length chunk \<le> 8) \<and> (\<forall>chunk \<in> set (butlast chunks). length chunk = 8)"

text \<open>A local is marked when its index is among the written ones; one that is not holds nothing.\<close>

definition stack_frame_ok :: "bounded_frame \<Rightarrow> bool" where
  "stack_frame_ok frame \<longleftrightarrow>
     distinct (written frame) \<and>
     (\<forall>i. i \<in> set (written frame) \<longleftrightarrow> i < length (locals frame) \<and> locals frame ! i AND 1 \<noteq> 0) \<and>
     (\<forall>i < length (locals frame). locals frame ! i AND 1 = 0 \<longrightarrow> locals frame ! i = 0) \<and>
     chunks_ok (temporaries frame) \<and> temporary_count frame = length (concat (temporaries frame)) \<and>
     (stack_header frame \<noteq> None \<longrightarrow> length (locals frame) \<le> 8)"

definition held_by :: "bounded_frame \<Rightarrow> ptr multiset" where
  "held_by frame = mset (frame_claims frame) + mset (concat (temporaries frame))"

definition stack_claims :: "bounded_frame list \<Rightarrow> ptr multiset" where
  "stack_claims frames = sum_list (map held_by frames)"

lemma stack_claims_simps [simp]:
  "stack_claims [] = {#}" "stack_claims (frame # frames) = held_by frame + stack_claims frames"
  by (simp_all add: stack_claims_def)

lemma chunks_count:
  "chunks_ok chunks \<Longrightarrow> length (concat chunks) div 8 + (if length (concat chunks) mod 8 \<noteq> 0 then 1 else 0) = length chunks"
proof (induction chunks rule: rev_induct)
  case (snoc chunk chunks)
  have "\<forall>c \<in> set chunks. length c = 8" using snoc.prems by (simp add: chunks_ok_def)
  then have "length (concat chunks) = 8 * length chunks" by (induction chunks) simp_all
  moreover have "0 < length chunk" "length chunk \<le> 8" using snoc.prems by (simp_all add: chunks_ok_def)
  ultimately show ?case by (cases "length chunk = 8") (simp_all add: div_add1_eq)
qed simp

lemma stack_frame_written: "stack_frame_ok frame \<Longrightarrow> frame_ok frame"
  by (auto simp: stack_frame_ok_def frame_ok_def)

lemma written_bound:
  assumes "stack_frame_ok frame"
  shows "length (written frame) \<le> length (locals frame)"
proof -
  have "card (set (written frame)) \<le> card {..<length (locals frame)}"
    using assms by (intro card_mono) (auto simp: stack_frame_ok_def)
  then show ?thesis using assms by (simp add: stack_frame_ok_def distinct_card)
qed

section \<open>Frames that wait, and frames kept for reuse\<close>

definition idle_frame :: "bounded_frame \<Rightarrow> bool" where
  "idle_frame frame \<longleftrightarrow> stack_header frame = None \<and> temporaries frame = []"

definition frames_kept :: "bounded \<Rightarrow> bool" where
  "frames_kept s \<longleftrightarrow> (\<forall>frame \<in> set (rc_bounded_frame_queue s) \<union> set (rc_bounded_free_frames s). idle_frame frame) \<and>
     rc_bounded_cached_frame_bytes s = sum_list (map frame_bytes (rc_bounded_free_frames s)) \<and>
     rc_bounded_cached_frame_bytes s \<le> MINYAR_FRAME_CACHE_BYTES"

lemma frames_kept_outside: "outside t = outside s \<Longrightarrow> frames_kept s \<Longrightarrow> frames_kept t"
  by (simp add: outside_def frames_kept_def)

lemma spares_outside: "spares s t \<Longrightarrow> outside t = outside s"
  by (simp add: spares_def outside_rest)

lemma outside_simps [simp]:
  "outside (s\<lparr>memory := m\<rparr>) = outside s" "outside (s\<lparr>rc_bounded_head := a\<rparr>) = outside s"
  "outside (s\<lparr>rc_bounded_tail := a\<rparr>) = outside s" "outside (s\<lparr>rc_bounded_active := a\<rparr>) = outside s"
  "outside (s\<lparr>rc_bounded_cursor := c\<rparr>) = outside s" "outside (s\<lparr>rc_bounded_recent_head := a\<rparr>) = outside s"
  "outside (s\<lparr>rc_bounded_recent_tail := a\<rparr>) = outside s" "outside (s\<lparr>rc_bounded_recent_turn := turn\<rparr>) = outside s"
  "outside (s\<lparr>rc_pending_count := n\<rparr>) = outside s"
  by (simp_all add: outside_def)

lemma drop_outside: "rc_bounded_drop v s = Inr (n, t) \<Longrightarrow> outside t = outside s"
  by (intro spares_outside drop_spares)

lemma finish_outside: "rc_bounded_finish_object a s = Inr (b, t) \<Longrightarrow> outside t = outside s"
  by (drule finish_object_eq) simp

lemma drop_then_outside: "rbind (rc_bounded_drop v s) (\<lambda>(freed, u). Inr u) = Inr t \<Longrightarrow> outside t = outside s"
  by (auto simp: rbind_eq_Inr dest: drop_outside)

lemma activate_outside: "activate s = Inr t \<Longrightarrow> outside t = outside s"
  by (auto simp: activate_def rbind_eq_Inr Let_def split: if_splits)

lemma old_unit_outside:
  assumes "rc_bounded_old_object_unit s = Inr t"
  shows "outside t = outside s"
proof -
  from assms obtain u object where u: "activate s = Inr u"
    and t: "(if (kind object = KIND_REFERENCES \<or> kind object = KIND_RECORD) \<and> rc_bounded_cursor u < length (slots (payload object)) then
        if kind object = KIND_REFERENCES \<or> reference_at (payload object) (rc_bounded_cursor u)
        then rbind (rc_bounded_drop (slots (payload object) ! rc_bounded_cursor u) (u\<lparr>rc_bounded_cursor := rc_bounded_cursor u + 1\<rparr>))
          (\<lambda>(freed, s). Inr s)
        else Inr (u\<lparr>rc_bounded_cursor := rc_bounded_cursor u + 1\<rparr>)
      else rbind (rc_bounded_finish_object (rc_bounded_active u) u) (\<lambda>(backing, s).
        Inr (s\<lparr>rc_pending_count := rc_pending_count s - 1, rc_bounded_active := 0\<rparr>))) = Inr t"
    unfolding rc_bounded_old_object_unit_def Let_def rbind_eq_Inr by blast
  have "outside t = outside u"
    using t by (simp only: split: if_splits) (auto simp: rbind_eq_Inr dest!: drop_outside finish_outside)
  then show ?thesis using activate_outside [OF u] by simp
qed

lemma recent_unit_outside: "rc_bounded_recent_object_unit s = Inr t \<Longrightarrow> outside t = outside s"
  by (simp only: rc_bounded_recent_object_unit_def Let_def rbind_eq_Inr split: if_splits)
    (auto simp: rbind_eq_Inr dest!: drop_outside finish_outside)

lemma object_unit_outside: "rc_bounded_object_unit s = Inr t \<Longrightarrow> outside t = outside s"
  by (auto simp: rc_bounded_object_unit_def rbind_eq_Inr Let_def capture_simps(2) dest: old_unit_outside recent_unit_outside
      split: if_splits)

lemma frames_kept_next: "frames_kept (s\<lparr>rc_bounded_next_queue := q\<rparr>) = frames_kept s"
  by (simp add: frames_kept_def)

lemma frame_unit_kept:
  assumes "rc_bounded_frame_unit s = Inr t" "frames_kept s"
  shows "frames_kept t"
proof -
  obtain frame frames where queue: "rc_bounded_frame_queue s = frame # frames"
    using assms(1) by (cases "rc_bounded_frame_queue s") (simp_all add: rc_bounded_frame_unit_def)
  show ?thesis
  proof (cases "written frame = []")
    case True
    with assms queue show ?thesis
      by (auto simp: rc_bounded_frame_unit_def frames_kept_def split: if_splits)
  next
    case False
    let ?s = "s\<lparr>rc_bounded_frame_queue := frame\<lparr>written := butlast (written frame)\<rparr> # frames\<rparr>"
    have "frames_kept ?s" using assms(2) queue by (simp add: frames_kept_def idle_frame_def)
    moreover have "outside t = outside ?s"
      using False assms(1) queue by (auto simp: rc_bounded_frame_unit_def rbind_eq_Inr dest!: drop_outside)
    ultimately show ?thesis by (rule frames_kept_outside [rotated])
  qed
qed

lemma chunk_unit_kept:
  assumes "rc_bounded_chunk_unit s = Inr t" "frames_kept s"
  shows "frames_kept t"
proof -
  have kept: "frames_kept (s\<lparr>rc_bounded_chunk_queue := chunks\<rparr>)" for chunks using assms(2) by (simp add: frames_kept_def)
  with assms(1) show ?thesis
    by (auto simp: rc_bounded_chunk_unit_def rbind_eq_Inr frames_kept_def split: list.splits if_splits
        dest!: drop_outside simp: outside_def)
qed

lemma unit_kept: "rc_bounded_unit s = Inr t \<Longrightarrow> frames_kept s \<Longrightarrow> frames_kept t"
  by (auto simp: rc_bounded_unit_def Let_def frames_kept_next dest!: object_unit_outside split: if_splits
      intro: frame_unit_kept chunk_unit_kept frames_kept_outside)

lemma poll_queues_kept: "poll_queues n s = Inr (m, t) \<Longrightarrow> frames_kept s \<Longrightarrow> frames_kept t"
  by (induction n arbitrary: s) (auto simp: rbind_eq_Inr dest: unit_kept split: if_splits)

end
