(* ===== verification/Bounded_Counts.thy ===== *)
theory Bounded_Counts
  imports Bounded_Frames
begin

text \<open>
  Claims gained: on an object that is alive (\<open>minyar_rc_retain\<close>) and on a new one (\<open>rc_allocate_object\<close>), while
  dead objects wait.
\<close>

section \<open>Counts of the eager view\<close>

lemma inv_increment:
  assumes inv: "rc_inv {} ext h" and object: "fmlookup (objects h) a = Some object" and "holders object > 0"
    and limit: "ownership (object\<lparr>holders := holders object + 1\<rparr>) \<le> SIZE_LIMIT"
  shows "rc_inv {} (add_mset a ext) (h\<lparr>objects := fmupd a (object\<lparr>holders := holders object + 1\<rparr>) (objects h)\<rparr>)"
proof -
  let ?h = "h\<lparr>objects := fmupd a (object\<lparr>holders := holders object + 1\<rparr>) (objects h)\<rparr>"
  have same: "claims {} (add_mset a ext) ?h = add_mset a (claims {} ext h)"
    using object_claims_count [OF object, of "{}" "holders object + 1"] by (simp add: claims_def)
  have "counted (set (rc_pending h)) (add_mset a (claims {} ext h)) (objects ?h)"
    using inv assms(3) limit invD [OF inv object]
    by (auto simp: rc_inv_def object_ok_def intro!: counted_update [of "set (rc_pending h)" "claims {} ext h"])
  moreover have "within (add_mset a (claims {} ext h)) (objects ?h)"
    using inv by (auto simp: rc_inv_def within_def)
  moreover have "queued {} ?h" using inv object by (auto simp: rc_inv_def queued_def)
  ultimately show ?thesis unfolding rc_inv_def same by simp
qed

lemma inv_more_uncounted:
  assumes inv: "rc_inv {} ext h" and object: "fmlookup (objects h) a = Some object" "holders object = 0" "a \<notin> set (rc_pending h)"
  shows "rc_inv {} (add_mset a ext) h"
proof -
  have "counted (set (rc_pending h)) (claims {} (add_mset a ext) h) (objects h)"
  proof (rule counted_same)
    show "counted (set (rc_pending h)) (claims {} ext h) (objects h)" using inv by (simp add: rc_inv_def)
    fix b other assume b: "fmlookup (objects h) b = Some other" "holders other > 0 \<or> b \<in> set (rc_pending h)"
    with object have "b \<noteq> a" by auto
    then show "count (claims {} (add_mset a ext) h) b = count (claims {} ext h) b" by (simp add: claims_simps)
  qed
  with inv object show ?thesis by (auto simp: rc_inv_def within_def claims_simps intro: fmdom'I)
qed

lemma inv_new:
  assumes inv: "rc_inv {} (mset (held c) + ext) h" and a: "a \<noteq> 0" "fmlookup (objects h) a = None" and c: "well_formed c"
  shows "rc_inv {} (add_mset a ext) (h\<lparr>objects := fmupd a \<lparr>holders = 1, content = c\<rparr> (objects h)\<rparr>)"
proof -
  let ?h = "h\<lparr>objects := fmupd a \<lparr>holders = 1, content = c\<rparr> (objects h)\<rparr>" and ?all = "claims {} (mset (held c) + ext) h"
  have unclaimed: "count ?all a = 0"
    using inv a by (auto simp: rc_inv_def within_def fmlookup_dom'_iff count_eq_zero_iff)
  have "object_claims {a} (objects h) = object_claims {} (objects h)"
    using a unfolding object_claims_def by (auto intro!: sum.cong simp: fmlookup_dom'_iff)
  then have same: "claims {} (add_mset a ext) ?h = add_mset a ?all"
    by (simp add: claims_def object_claims_update ac_simps)
  have waiting: "a \<notin> set (rc_pending h)" using inv a by (auto simp: rc_inv_def queued_def)
  have "kind_code c \<le> SIZE_LIMIT - 8" by (cases c) (simp_all)
  then have new: "object_ok (set (rc_pending h)) (add_mset a ?all) a \<lparr>holders = 1, content = c\<rparr>"
    using unclaimed a(1) c waiting by (simp add: object_ok_def ownership_def)
  have "counted (set (rc_pending h)) (add_mset a ?all) (fmupd a \<lparr>holders = 1, content = c\<rparr> (objects h))"
    by (rule counted_update [of "set (rc_pending h)" ?all]) (use inv new in \<open>auto simp: rc_inv_def\<close>)
  then have "counted (set (rc_pending h)) (add_mset a ?all) (objects ?h)" by simp
  moreover have "within (add_mset a ?all) (objects ?h)"
    using inv by (auto simp: rc_inv_def within_def)
  moreover have "queued {} ?h" using inv waiting by (auto simp: rc_inv_def queued_def)
  ultimately show ?thesis unfolding rc_inv_def same by simp
qed

section \<open>Retaining\<close>

lemma more_claims:
  fixes h :: "64 word"
  assumes "\<not> h > - 1 - 8"
  shows "(h + 8) AND 7 = h AND 7" and "unat (drop_bit 3 (h + 8)) = unat (drop_bit 3 h) + 1"
proof -
  have "unat h + 8 < 2 ^ 64"
    using assms by (simp add: word_less_nat_alt)
  then have more: "unat (h + 8) = unat h + 8" by (simp add: unat_word_ariths)
  then have "unat ((h + 8) AND 7) = unat (h AND 7)" by (simp add: kind_unat)
  then show "(h + 8) AND 7 = h AND 7" by (simp add: word_unat_eq_iff)
  show "unat (drop_bit 3 (h + 8)) = unat (drop_bit 3 h) + 1" by (simp add: holders_unat more)
qed

definition alive :: "ptr \<Rightarrow> ptr list \<Rightarrow> ptr list \<Rightarrow> bounded \<Rightarrow> bool" where
  "alive v recents olds s \<longleftrightarrow> v = 0 \<or> v \<in> fmdom' (memory s) \<and> v \<notin> set (dead_values recents olds s)"

lemma outside_put_object [simp]:
  "rc_bounded_stack (put_object a object s) = rc_bounded_stack s" "rc_bounded_next_queue (put_object a object s) = rc_bounded_next_queue s"
  by (simp_all add: put_object_def)

lemma retain_heap:
  assumes inv: "heap_inv ext recents olds s" and alive: "alive v recents olds s"
  shows "safe (bounded_retain v s) (\<lambda>t. heap_inv (add_mset v ext) recents olds t \<and> outside t = outside s)"
proof (cases "v = 0")
  case True
  then show ?thesis using inv by (simp add: bounded_retain_def)
next
  case False
  with alive obtain object where object: "fmlookup (memory s) v = Some object" and live: "v \<notin> set (dead_values recents olds s)"
    by (auto simp: alive_def fmlookup_dom'_iff)
  let ?one = "object\<lparr>header := header object + 8\<rparr>"
  let ?viewed = "\<lparr>holders = unat (drop_bit 3 (header object)), content = live_content object\<rparr>"
  have at: "bounded_object_at (v - 8) s = Inr object" by (rule heap_invD(3) [OF inv object])
  have rc: "rc_inv {} ext (eager recents olds s)" using inv by (simp add: heap_inv_def)
  have viewed: "fmlookup (objects (eager recents olds s)) v = Some ?viewed" using object live by (simp add: view_live)
  consider (immortal) "drop_bit 3 (header object) = 0" | (full) "drop_bit 3 (header object) \<noteq> 0" "header object > - 1 - 8"
    | (counted) "drop_bit 3 (header object) \<noteq> 0" "\<not> header object > - 1 - 8" by blast
  then show ?thesis
  proof cases
    case immortal
    then have "rc_inv {} (add_mset v ext) (eager recents olds s)" using live by (intro inv_more_uncounted [OF rc viewed]) simp_all
    with immortal False at inv show ?thesis by (simp add: bounded_retain_def heap_inv_def)
  next
    case full
    with False at show ?thesis by (simp add: bounded_retain_def)
  next
    case counted
    note more = more_claims [OF counted(2)]
    have "live_content ?one = live_content object" by (rule header_change(2)) (simp_all add: more)
    then have eager: "eager recents olds (put_object (v - 8) ?one s) = (eager recents olds s)\<lparr>objects :=
        fmupd v (?viewed\<lparr>holders := holders ?viewed + 1\<rparr>) (objects (eager recents olds s))\<rparr>"
      unfolding eager_put_live [OF live] by (simp add: more)
    have "unat (header object + 8) < 2 ^ LENGTH(64)" by (rule unsigned_less)
    then have "unat (drop_bit 3 (header object + 8)) < 2 ^ 61" by (simp add: holders_unat)
    then have small: "8 * (unat (drop_bit 3 (header object)) + 1) + kind_code (live_content object) \<le> SIZE_LIMIT"
      unfolding more(2) by (cases "live_content object") simp_all
    have positive: "unat (drop_bit 3 (header object)) > 0" using counted(1) by (simp add: word_unat_eq_iff)
    have "rc_inv {} (add_mset v ext) (eager recents olds (put_object (v - 8) ?one s))"
      unfolding eager by (rule inv_increment [OF rc viewed]) (use small positive in \<open>simp_all add: ownership_def\<close>)
    moreover have "object_fits (dead_values recents olds s) s v ?one"
      by (rule header_change(1) [OF _ _ live heap_invD(1) [OF inv object]]) (simp_all add: more)
    ultimately have "heap_inv (add_mset v ext) recents olds (put_object (v - 8) ?one s)"
      using put_live_ok [OF inv live] by (simp add: heap_inv_def)
    with counted False at show ?thesis by (simp add: bounded_retain_def)
  qed
qed

section \<open>A new object\<close>

definition new_object :: "64 word \<Rightarrow> payload \<Rightarrow> bounded_object" where
  "new_object k contents = \<lparr>header = 8 OR k, payload = contents\<rparr>"

text \<open>What an object may be filled in with.\<close>

definition fillable :: "64 word \<Rightarrow> payload \<Rightarrow> bool" where
  "fillable k contents \<longleftrightarrow> k \<le> 6 \<and> shaped (new_object k contents) \<and> plain_map (new_object k contents) \<and>
     length (slots contents) \<le> SIZE_LIMIT div 8 \<and>
     (case contents of List_payload values capacity \<Rightarrow> length values \<le> capacity \<and> capacity \<le> SIZE_LIMIT div 8 | _ \<Rightarrow> True)"

lemma new_header:
  assumes "k \<le> (6 :: 64 word)"
  shows "(8 OR k) AND 7 = k" "unat (drop_bit 3 (8 OR k)) = 1"
proof -
  have "unat k \<le> 6" using assms by (simp add: word_le_nat_alt)
  then have "unat k = 0 \<or> unat k = 1 \<or> unat k = 2 \<or> unat k = 3 \<or> unat k = 4 \<or> unat k = 5 \<or> unat k = 6" by arith
  then have "k = 0 \<or> k = 1 \<or> k = 2 \<or> k = 3 \<or> k = 4 \<or> k = 5 \<or> k = 6" by (simp add: word_unat_eq_iff)
  then show "(8 OR k) AND 7 = k" "unat (drop_bit 3 (8 OR k)) = 1" by auto
qed

lemma allocate_heap:
  assumes inv: "heap_inv (mset (held (live_content (new_object k contents))) + ext) recents olds s"
    and fill: "fillable k contents" and v: "fmlookup (memory s) v = None" "v \<noteq> 0" "v \<noteq> 8" "v AND 7 = 0"
  shows "heap_inv (add_mset v ext) recents olds (put_object (v - 8) (new_object k contents) s)"
proof -
  let ?object = "new_object k contents" and ?dead = "dead_values recents olds s"
  have live: "v \<notin> set ?dead"
  proof
    assume "v \<in> set ?dead"
    from task_object [OF inv this] v(1) show False by auto
  qed
  have k: "kind ?object = k" "unat (drop_bit 3 (header ?object)) = 1"
    using fill new_header by (simp_all add: fillable_def kind_def new_object_def)
  have fits: "object_fits ?dead s v ?object"
    using fill v live by (simp add: object_fits_def fillable_def new_object_def)
  have "well_formed (live_content ?object)"
    using fill by (auto simp: fillable_def live_content_def new_object_def shaped_def Let_def split: payload.splits)
  then have "rc_inv {} (add_mset v ext) (eager recents olds (put_object (v - 8) ?object s))"
    unfolding eager_put_live [OF live] k
    using inv v by (intro inv_new) (simp_all add: heap_inv_def)
  with put_live_ok [OF inv live fits] show ?thesis by (simp add: heap_inv_def)
qed

end
