(* ===== verification/Bounded_Calls.thy ===== *)
theory Bounded_Calls
  imports Bounded_Counts
begin

text \<open>
  The calls generated code makes into the bounded runtime, in any order that respects ownership, and what each
  keeps: exact counts, well-formed queues and frames, and a bounded cache of frames.
\<close>

section \<open>The invariant between calls\<close>

definition keeps :: "ptr multiset \<Rightarrow> ptr list \<Rightarrow> ptr list \<Rightarrow> bounded \<Rightarrow> bool" where
  "keeps owned recents olds s \<longleftrightarrow> bounded_inv (owned + stack_claims (rc_bounded_stack s)) recents olds s \<and>
     (\<forall>frame \<in> set (rc_bounded_stack s). stack_frame_ok frame) \<and> frames_kept s"

definition running :: "ptr multiset \<Rightarrow> bounded \<Rightarrow> bool" where
  "running owned s \<longleftrightarrow> (\<exists>recents olds. keeps owned recents olds s)"

lemma runningI: "keeps owned recents olds s \<Longrightarrow> running owned s"
  by (auto simp: running_def)

lemma bounded_inv_cong:
  assumes "bounded_inv ext recents olds s"
    and "memory s' = memory s" "rc_bounded_active s' = rc_bounded_active s" "rc_bounded_cursor s' = rc_bounded_cursor s"
      "rc_bounded_head s' = rc_bounded_head s" "rc_bounded_tail s' = rc_bounded_tail s"
      "rc_bounded_recent_head s' = rc_bounded_recent_head s" "rc_bounded_recent_tail s' = rc_bounded_recent_tail s"
      "rc_bounded_next_queue s' = rc_bounded_next_queue s"
    and "rc_pending_count s' + length (rc_bounded_frame_queue s) + length (rc_bounded_chunk_queue s) =
      rc_pending_count s + length (rc_bounded_frame_queue s') + length (rc_bounded_chunk_queue s')"
    and "ext' + waiting s' = ext + waiting s" "\<forall>frame \<in> set (rc_bounded_frame_queue s'). frame_ok frame"
  shows "bounded_inv ext' recents olds s'"
proof -
  have "heap_inv (ext + waiting s) recents olds s'"
    by (rule heap_inv_cong [OF assms(2-4)]) (use assms in \<open>auto simp: bounded_inv_def heap_inv_def queues_ok_def active_tasks_def\<close>)
  with assms show ?thesis by (simp add: bounded_inv_def)
qed

lemma keeps_cong:
  assumes "keeps owned recents olds s"
    and "memory s' = memory s" "rc_bounded_active s' = rc_bounded_active s" "rc_bounded_cursor s' = rc_bounded_cursor s"
      "rc_bounded_head s' = rc_bounded_head s" "rc_bounded_tail s' = rc_bounded_tail s"
      "rc_bounded_recent_head s' = rc_bounded_recent_head s" "rc_bounded_recent_tail s' = rc_bounded_recent_tail s"
      "rc_bounded_next_queue s' = rc_bounded_next_queue s"
    and "rc_pending_count s' + length (rc_bounded_frame_queue s) + length (rc_bounded_chunk_queue s) =
      rc_pending_count s + length (rc_bounded_frame_queue s') + length (rc_bounded_chunk_queue s')"
    and "owned' + stack_claims (rc_bounded_stack s') + waiting s' = owned + stack_claims (rc_bounded_stack s) + waiting s"
    and "\<forall>frame \<in> set (rc_bounded_frame_queue s'). frame_ok frame" "\<forall>frame \<in> set (rc_bounded_stack s'). stack_frame_ok frame"
    and "frames_kept s'"
  shows "keeps owned' recents olds s'"
  unfolding keeps_def using assms bounded_inv_cong [OF _ assms(2-10)] by (auto simp: keeps_def)

lemma keeps_null [simp]: "keeps (add_mset 0 owned) recents olds s \<longleftrightarrow> keeps owned recents olds s"
  by (simp add: keeps_def bounded_inv_def)

lemma running_null [simp]: "running (add_mset 0 owned) s \<longleftrightarrow> running owned s"
  by (simp add: running_def)

lemma keeps_frame_queue: "keeps owned recents olds s \<Longrightarrow> \<forall>frame \<in> set (rc_bounded_frame_queue s). frame_ok frame"
  by (simp add: keeps_def bounded_inv_def)

section \<open>Polling\<close>

lemma poll_running:
  assumes "running owned s"
  shows "safe (minyar_rc_poll budget s) (\<lambda>(work, t). running owned t \<and> rc_bounded_stack t = rc_bounded_stack s \<and>
    work \<le> min budget MINYAR_RC_POLL_BUDGET \<and> (work < min budget MINYAR_RC_POLL_BUDGET \<longrightarrow> rc_pending_count t = 0))"
proof -
  obtain recents olds where keeps: "keeps owned recents olds s" using assms by (auto simp: running_def)
  define units where "units = min budget MINYAR_RC_POLL_BUDGET"
  have inv: "bounded_inv (owned + stack_claims (rc_bounded_stack s)) recents olds s" using keeps by (simp add: keeps_def)
  show ?thesis
    unfolding poll_scheduler [OF inv units_def] units_def [symmetric]
  proof (rule safe_rbind_eq [OF poll_queues_progress [OF inv]])
    fix r assume r: "poll_queues units s = Inr r" and p: "case r of (m, t) \<Rightarrow> m \<le> units \<and> (m \<noteq> 0 \<longrightarrow> rc_pending_count t = 0) \<and>
      progress (owned + stack_claims (rc_bounded_stack s)) recents olds (units - m) s t"
    obtain m t where mt: "r = (m, t)" by (cases r)
    have "frames_kept t" using poll_queues_kept r mt keeps by (auto simp: keeps_def)
    then have "running owned t" "rc_bounded_stack t = rc_bounded_stack s"
      using p mt keeps by (auto simp: progress_def running_def keeps_def)
    with p mt show "safe (case r of (n, t) \<Rightarrow> Inr (units - n, t)) (\<lambda>(work, t). running owned t \<and>
        rc_bounded_stack t = rc_bounded_stack s \<and> work \<le> units \<and> (work < units \<longrightarrow> rc_pending_count t = 0))"
      by auto
  qed
qed

definition stays :: "ptr multiset \<Rightarrow> bounded \<Rightarrow> bounded \<Rightarrow> bool" where
  "stays owned s t \<longleftrightarrow> running owned t \<and> rc_bounded_stack t = rc_bounded_stack s"

lemma poll_then:
  assumes "running owned s" "\<And>t. stays owned s t \<Longrightarrow> safe (f t) P"
  shows "safe (rbind (minyar_rc_poll budget s) (\<lambda>(work, t). f t)) P"
  by (rule safe_rbind [OF poll_running [OF assms(1)]]) (use assms(2) in \<open>auto simp: stays_def\<close>)

lemma service_stays: "running owned s \<Longrightarrow> safe (rc_service_pending budget s) (stays owned s)"
  unfolding rc_service_pending_def by (auto intro!: poll_then simp: stays_def)

lemma drop_stays:
  assumes "running (add_mset v owned) s"
  shows "safe (rc_bounded_drop v s) (\<lambda>(n, t). stays owned s t)"
proof -
  obtain recents olds where keeps: "keeps (add_mset v owned) recents olds s" using assms by (auto simp: running_def)
  then have "heap_inv (add_mset v (owned + stack_claims (rc_bounded_stack s) + waiting s)) recents olds s"
    by (simp add: keeps_def bounded_inv_def)
  then show ?thesis
  proof (rule safe_mono [OF drop_inv])
    fix r assume "case r of (n, t) \<Rightarrow> dropped (owned + stack_claims (rc_bounded_stack s) + waiting s) recents olds s t"
    then obtain n t recents' where t: "r = (n, t)" "same_rest s t"
      "heap_inv (owned + stack_claims (rc_bounded_stack s) + waiting s) recents' olds t"
      by (cases r) (auto simp: dropped_def)
    note same = same_restD [OF t(2)]
    have "waiting t = waiting s" "frames_kept t"
      using keeps frames_kept_outside [OF outside_rest [OF t(2)]] by (simp_all add: waiting_def same keeps_def)
    then have "keeps owned recents' olds t"
      using keeps t(3) by (simp add: keeps_def bounded_inv_def same)
    then show "case r of (n, t) \<Rightarrow> stays owned s t" using same by (auto simp: t(1) stays_def running_def)
  qed
qed

section \<open>Counts\<close>

lemma retain_stays:
  assumes "keeps owned recents olds s" "alive v recents olds s"
  shows "safe (bounded_retain v s) (stays (add_mset v owned) s)"
proof -
  have "heap_inv (owned + stack_claims (rc_bounded_stack s) + waiting s) recents olds s"
    using assms(1) by (simp add: keeps_def bounded_inv_def)
  from retain_heap [OF this assms(2)] show ?thesis
  proof (rule safe_mono, elim conjE)
    fix t assume t: "heap_inv (add_mset v (owned + stack_claims (rc_bounded_stack s) + waiting s)) recents olds t" "outside t = outside s"
    then have "rc_bounded_stack t = rc_bounded_stack s" "waiting t = waiting s" "rc_bounded_frame_queue t = rc_bounded_frame_queue s"
      "rc_bounded_next_queue t = rc_bounded_next_queue s"
      by (simp_all add: outside_def waiting_def)
    then have "keeps (add_mset v owned) recents olds t"
      using assms(1) t frames_kept_outside [OF t(2)] by (simp add: keeps_def bounded_inv_def)
    then show "stays (add_mset v owned) s t" using \<open>rc_bounded_stack t = _\<close> by (auto simp: stays_def running_def)
  qed
qed

lemma release_stays:
  assumes "running (add_mset v owned) s"
  shows "safe (bounded_release v s) (stays owned s)"
  unfolding bounded_release_def
  by (rule safe_rbind [OF drop_stays [OF assms]]) (auto simp: stays_def elim!: safe_mono [OF service_stays])

definition fresh_bounded :: "((ptr, bounded_object) fmap \<Rightarrow> ptr option) \<Rightarrow> bool" where
  "fresh_bounded malloc \<longleftrightarrow> (\<forall>m v. malloc m = Some v \<longrightarrow> fmlookup m v = None \<and> v \<noteq> 0 \<and> v \<noteq> 8 \<and> v AND 7 = 0)"

lemma allocate_stays:
  assumes "running (mset (held (live_content (new_object k contents))) + owned) s" "fresh_bounded malloc" "fillable k contents"
  shows "safe (bounded_allocate malloc n k contents s) (\<lambda>(v, t). v \<noteq> 0 \<and> stays (add_mset v owned) s t)"
  unfolding bounded_allocate_def
proof (rule safe_rbind [OF service_stays [OF assms(1)]])
  let ?held = "mset (held (live_content (new_object k contents)))"
  fix t assume t: "stays (?held + owned) s t"
  then obtain recents olds where keeps: "keeps (?held + owned) recents olds t" by (auto simp: stays_def running_def)
  show "safe (if n > SIZE_LIMIT - 8 then out_of_memory else case malloc (memory t) of
      None \<Rightarrow> out_of_memory | Some v \<Rightarrow> Inr (v, put_object (v - 8) \<lparr>header = 8 OR k, payload = contents\<rparr> t))
    (\<lambda>(v, t). v \<noteq> 0 \<and> stays (add_mset v owned) s t)"
  proof (cases "n > SIZE_LIMIT - 8 \<or> malloc (memory t) = None")
    case False
    then obtain v where malloc: "malloc (memory t) = Some v" by auto
    then have v: "fmlookup (memory t) v = None" "v \<noteq> 0" "v \<noteq> 8" "v AND 7 = 0"
      using assms(2) unfolding fresh_bounded_def by blast+
    let ?t = "put_object (v - 8) (new_object k contents) t"
    have "heap_inv (?held + (owned + stack_claims (rc_bounded_stack t) + waiting t)) recents olds t"
      using keeps by (simp add: keeps_def bounded_inv_def ac_simps)
    from allocate_heap [OF this assms(3) v]
    have "heap_inv (add_mset v (owned + stack_claims (rc_bounded_stack t) + waiting t)) recents olds ?t" .
    moreover have "waiting ?t = waiting t" "frames_kept ?t"
      using keeps frames_kept_outside [of ?t t] by (simp_all add: waiting_def keeps_def)
    ultimately have "keeps (add_mset v owned) recents olds ?t"
      using keeps by (simp add: keeps_def bounded_inv_def)
    with t False malloc v(2) show ?thesis by (auto simp: stays_def running_def new_object_def)
  qed auto
qed

section \<open>Locals\<close>

lemma unmarked:
  fixes w :: ptr
  assumes "w AND 7 = 0"
  shows "(w OR 1) AND NOT 1 = w" and "(w OR 1) AND 1 \<noteq> 0"
proof -
  have "w AND 1 = w AND (7 AND 1)" by simp
  also have "\<dots> = (w AND 7) AND 1" by (simp only: and.assoc)
  also have "\<dots> = 0" by (simp only: assms) simp
  finally have "w AND 1 = 0" .
  moreover have "w = (w AND NOT 1) OR (w AND 1)" by (simp only: bit.conj_disj_distrib [symmetric] bit.disj_cancel_left bit.conj_one_right)
  ultimately have "w AND NOT 1 = w" by simp
  then show "(w OR 1) AND NOT 1 = w" by (simp add: bit.conj_disj_distrib2)
  show "(w OR 1) AND 1 \<noteq> 0" by (simp add: bit.conj_disj_distrib2)
qed

lemma low_bit:
  fixes w :: ptr
  shows "(w AND 1) AND NOT 1 = 0" "(w AND 1) AND 1 = w AND 1" "0 AND NOT (1 :: ptr) = 0"
  by (simp_all add: and.assoc)

lemma union_swap: "add_mset a x = add_mset b y \<Longrightarrow> add_mset a owned + x = add_mset b owned + y"
  by (metis union_mset_add_mset_left union_mset_add_mset_right)

lemma image_update_other:
  "i \<notin> set js \<Longrightarrow> image_mset (\<lambda>j. f (xs[i := w] ! j)) (mset js) = image_mset (\<lambda>j. f (xs ! j)) (mset js)"
  by (intro image_mset_cong) (metis nth_list_update_neq set_mset_mset)

text \<open>Writing a marked local exchanges the claim it shows for another.\<close>

lemma swap_marked:
  assumes ok: "stack_frame_ok frame" and i: "i < length (locals frame)" "locals frame ! i AND 1 \<noteq> 0" and w: "w AND 1 \<noteq> 0"
  defines "frame' \<equiv> frame\<lparr>locals := (locals frame)[i := w]\<rparr>"
  shows "stack_frame_ok frame'" "add_mset (locals frame ! i AND NOT 1) (held_by frame') = add_mset (w AND NOT 1) (held_by frame)"
proof -
  show "stack_frame_ok frame'" using ok i w by (auto simp: stack_frame_ok_def frame'_def nth_list_update)
  have "i \<in> set (written frame)" "distinct (written frame)" using ok i by (auto simp: stack_frame_ok_def)
  then obtain before after where split: "written frame = before @ i # after" "i \<notin> set before" "i \<notin> set after"
    by (metis in_set_conv_decomp_first disjoint_insert(2) distinct.simps(2) distinct_append)
  then show "add_mset (locals frame ! i AND NOT 1) (held_by frame') = add_mset (w AND NOT 1) (held_by frame)"
    using i(1) image_update_other [of i _ "\<lambda>w. w AND NOT 1" "locals frame" w]
    by (simp add: held_by_def frame_claims_def frame'_def)
qed

text \<open>A local that is written for the first time.\<close>

lemma mark_local:
  assumes ok: "stack_frame_ok frame" and i: "i < length (locals frame)" "locals frame ! i AND 1 = 0" and w: "w AND 1 \<noteq> 0"
  defines "frame' \<equiv> frame\<lparr>written := written frame @ [i], locals := (locals frame)[i := w]\<rparr>"
  shows "stack_frame_ok frame'" "held_by frame' = add_mset (w AND NOT 1) (held_by frame)" "locals frame ! i = 0"
proof -
  have new: "i \<notin> set (written frame)" using ok i by (auto simp: stack_frame_ok_def)
  show "locals frame ! i = 0" using ok i by (simp add: stack_frame_ok_def)
  show "stack_frame_ok frame'" using ok i w new by (auto simp: stack_frame_ok_def frame'_def nth_list_update)
  show "held_by frame' = add_mset (w AND NOT 1) (held_by frame)"
    using i(1) image_update_other [OF new, of "\<lambda>w. w AND NOT 1" "locals frame" w]
    by (simp add: held_by_def frame_claims_def frame'_def)
qed

lemma claimed_aligned:
  assumes "keeps (add_mset v owned) recents olds s"
  shows "v AND 7 = 0"
proof (cases "v = 0")
  case False
  have inv: "heap_inv (add_mset v (owned + stack_claims (rc_bounded_stack s) + waiting s)) recents olds s"
    using assms by (simp add: keeps_def bounded_inv_def)
  obtain object where "fmlookup (memory s) v = Some object" by (rule claimed_object [OF inv False])
  from heap_invD(1) [OF inv this] show ?thesis by (simp add: object_fits_def)
qed simp

lemma top_frame_keeps:
  assumes "keeps owned recents olds s" "rc_bounded_stack s = frame # callers" "stack_frame_ok frame'"
    and "owned' + held_by frame' = owned + held_by frame"
  shows "keeps owned' recents olds (s\<lparr>rc_bounded_stack := frame' # callers\<rparr>)"
proof (rule keeps_cong [OF assms(1)])
  have "owned' + held_by frame' + (stack_claims callers + waiting s) = owned + held_by frame + (stack_claims callers + waiting s)"
    using assms(4) by simp
  then show "owned' + stack_claims (rc_bounded_stack (s\<lparr>rc_bounded_stack := frame' # callers\<rparr>)) +
      waiting (s\<lparr>rc_bounded_stack := frame' # callers\<rparr>) = owned + stack_claims (rc_bounded_stack s) + waiting s"
    using assms(2) by (simp add: waiting_def ac_simps)
qed (use assms keeps_frame_queue [OF assms(1)] in \<open>auto simp: keeps_def frames_kept_def\<close>)

lemma local_take_runs:
  assumes "running (add_mset v owned) s" "rc_bounded_stack s = frame # callers" "i < length (locals frame)"
  shows "safe (bounded_local_take i v s) (running owned)"
proof -
  obtain recents olds where keeps: "keeps (add_mset v owned) recents olds s" using assms(1) by (auto simp: running_def)
  have ok: "stack_frame_ok frame" using keeps assms(2) by (simp add: keeps_def)
  note aligned = unmarked [OF claimed_aligned [OF keeps]]
  let ?previous = "locals frame ! i"
  have go: "safe (bounded_release (?previous AND NOT 1) (s\<lparr>rc_bounded_stack := frame' # callers\<rparr>)) (running owned)"
    if "keeps (add_mset (?previous AND NOT 1) owned) recents olds (s\<lparr>rc_bounded_stack := frame' # callers\<rparr>)" for frame'
    using release_stays [OF runningI [OF that]] by (rule safe_mono) (simp add: stays_def)
  consider (same) "?previous AND 1 = 0" "v = 0" | (first) "?previous AND 1 = 0" "v \<noteq> 0" | (again) "?previous AND 1 \<noteq> 0" by blast
  then show ?thesis
  proof cases
    case same
    then have "?previous = 0" using ok assms(3) by (simp add: stack_frame_ok_def)
    then have "keeps (add_mset (?previous AND NOT 1) owned) recents olds (s\<lparr>rc_bounded_stack := frame # callers\<rparr>)"
      using same by (intro top_frame_keeps [OF keeps assms(2) ok]) simp
    from go [OF this] same assms(2,3) show ?thesis by (simp add: bounded_local_take_def Let_def)
  next
    case first
    let ?frame = "frame\<lparr>written := written frame @ [i], locals := (locals frame)[i := v OR 1]\<rparr>"
    note marked = mark_local [OF ok assms(3) first(1) aligned(2)]
    have "keeps owned recents olds (s\<lparr>rc_bounded_stack := ?frame # callers\<rparr>)"
      by (rule top_frame_keeps [OF keeps assms(2) marked(1)]) (simp only: marked(2) aligned(1) union_mset_add_mset_left union_mset_add_mset_right)
    then have "keeps (add_mset (?previous AND NOT 1) owned) recents olds (s\<lparr>rc_bounded_stack := ?frame # callers\<rparr>)"
      using marked(3) by simp
    from go [OF this] first assms(2,3) show ?thesis by (simp add: bounded_local_take_def Let_def)
  next
    case again
    let ?frame = "frame\<lparr>locals := (locals frame)[i := v OR 1]\<rparr>"
    note swapped = swap_marked [OF ok assms(3) again aligned(2), unfolded aligned(1)]
    have "add_mset (?previous AND NOT 1) owned + held_by ?frame = add_mset v owned + held_by frame"
      by (rule union_swap [OF swapped(2)])
    from go [OF top_frame_keeps [OF keeps assms(2) swapped(1) this]] again assms(2,3)
    show ?thesis by (simp add: bounded_local_take_def Let_def)
  qed
qed

lemma local_move_runs:
  assumes "running owned s" "rc_bounded_stack s = frame # callers" "i < length (locals frame)"
  shows "safe (bounded_local_move i s) (running (add_mset (locals frame ! i AND NOT 1) owned))"
proof -
  obtain recents olds where keeps: "keeps owned recents olds s" using assms(1) by (auto simp: running_def)
  have ok: "stack_frame_ok frame" using keeps assms(2) by (simp add: keeps_def)
  let ?previous = "locals frame ! i" and ?frame = "frame\<lparr>locals := (locals frame)[i := locals frame ! i AND 1]\<rparr>"
  have moved: "stack_frame_ok ?frame \<and> add_mset (?previous AND NOT 1) (held_by ?frame) = add_mset 0 (held_by frame)"
  proof (cases "?previous AND 1 = 0")
    case True
    then have "?previous = 0" using ok assms(3) by (simp add: stack_frame_ok_def)
    then have "?frame = frame" by (metis (no_types, lifting) True bounded_frame.surjective bounded_frame.update_convs(2) list_update_id)
    with ok \<open>?previous = 0\<close> show ?thesis by simp
  next
    case False
    with swap_marked [OF ok assms(3) False, of "?previous AND 1"] low_bit show ?thesis by simp
  qed
  then have "add_mset (?previous AND NOT 1) owned + held_by ?frame = add_mset 0 owned + held_by frame"
    by (blast intro: union_swap)
  from top_frame_keeps [OF _ assms(2) _ this] moved keeps
  have "keeps (add_mset (?previous AND NOT 1) owned) recents olds (s\<lparr>rc_bounded_stack := ?frame # callers\<rparr>)" by simp
  with assms show ?thesis by (auto simp: bounded_local_move_def running_def)
qed

end
