(* ===== verification/Bounded_Stack.thy ===== *)
theory Bounded_Stack
  imports Bounded_Calls
begin

text \<open>
  Keeping temporaries, and entering and leaving frames on the heap and on the stack.
\<close>

section \<open>Temporaries\<close>

lemma retire_eq:
  assumes "stack_frame_ok frame"
  shows "rc_bounded_retire_temporaries frame s = (frame\<lparr>temporaries := [], temporary_count := 0\<rparr>,
    s\<lparr>rc_bounded_chunk_queue := rc_bounded_chunk_queue s @ temporaries frame,
      rc_pending_count := rc_pending_count s + length (temporaries frame)\<rparr>)"
proof -
  have count: "temporary_count frame div 8 + (if temporary_count frame mod 8 \<noteq> 0 then 1 else 0) = length (temporaries frame)"
    using assms chunks_count by (simp add: stack_frame_ok_def)
  show ?thesis
  proof (cases "temporaries frame = []")
    case True
    then have "frame\<lparr>temporaries := [], temporary_count := 0\<rparr> = frame"
      using assms by (intro bounded_frame.equality) (simp_all add: stack_frame_ok_def)
    with True show ?thesis by (simp add: rc_bounded_retire_temporaries_def)
  next
    case False
    then show ?thesis unfolding rc_bounded_retire_temporaries_def count [symmetric] by simp
  qed
qed

lemma retired_frame:
  assumes "stack_frame_ok frame"
  shows "stack_frame_ok (frame\<lparr>temporaries := [], temporary_count := 0\<rparr>)"
    and "held_by frame = mset (frame_claims frame) + mset (concat (temporaries frame))"
    and "held_by (frame\<lparr>temporaries := [], temporary_count := 0\<rparr>) = mset (frame_claims frame)"
  using assms by (simp_all add: stack_frame_ok_def chunks_ok_def held_by_def frame_claims_def)

lemma step_runs:
  assumes "running owned s" "rc_bounded_stack s = frame # callers"
  shows "safe (bounded_step s) (running owned)"
proof -
  obtain recents olds where keeps: "keeps owned recents olds s" using assms(1) by (auto simp: running_def)
  have ok: "stack_frame_ok frame" using keeps assms(2) by (simp add: keeps_def)
  let ?frame = "frame\<lparr>temporaries := [], temporary_count := 0\<rparr>"
  let ?s = "s\<lparr>rc_bounded_chunk_queue := rc_bounded_chunk_queue s @ temporaries frame,
      rc_pending_count := rc_pending_count s + length (temporaries frame), rc_bounded_stack := ?frame # callers\<rparr>"
  have "keeps owned recents olds ?s"
    by (rule keeps_cong [OF keeps]) (use keeps_frame_queue [OF keeps] retired_frame [OF ok] keeps assms(2) in
      \<open>auto simp: keeps_def frames_kept_def waiting_def ac_simps\<close>)
  then have "running owned ?s" by (rule runningI)
  then have "safe (rbind (minyar_rc_poll MINYAR_RC_POLL_BUDGET ?s) (\<lambda>(work, s). Inr s)) (running owned)"
    by (rule poll_then) (simp add: stays_def)
  then show ?thesis using assms(2) by (simp add: bounded_step_def retire_eq [OF ok])
qed

lemma chunks_ok_full:
  "chunks_ok chunks \<Longrightarrow> chunks = [] \<or> length (last chunks) = 8 \<Longrightarrow> chunks_ok (chunks @ [[v]])"
  by (cases chunks rule: rev_cases) (auto simp: chunks_ok_def butlast_append)

lemma chunks_ok_room:
  "chunks_ok chunks \<Longrightarrow> chunks \<noteq> [] \<Longrightarrow> length (last chunks) \<noteq> 8 \<Longrightarrow> chunks_ok (butlast chunks @ [last chunks @ [v]])"
  by (cases chunks rule: rev_cases) (auto simp: chunks_ok_def butlast_append)

lemma keep_runs:
  assumes "running (add_mset v owned) s" "rc_bounded_stack s = frame # callers"
  shows "safe (bounded_keep v s) (running owned)"
proof (cases "v = 0")
  case True
  then show ?thesis using assms(1) by (simp add: bounded_keep_def)
next
  case False
  obtain recents olds where keeps: "keeps (add_mset v owned) recents olds s" using assms(1) by (auto simp: running_def)
  have inv: "heap_inv (add_mset v (owned + stack_claims (rc_bounded_stack s) + waiting s)) recents olds s"
    using keeps by (simp add: keeps_def bounded_inv_def)
  obtain object where object: "fmlookup (memory s) v = Some object" "v \<notin> set (dead_values recents olds s)"
    by (rule claimed_object [OF inv False])
  have at: "bounded_object_at (v - 8) s = Inr object" by (rule heap_invD(3) [OF inv object(1)])
  show ?thesis
  proof (cases "drop_bit 3 (header object) = 0")
    case True
    have "heap_inv (owned + stack_claims (rc_bounded_stack s) + waiting s) recents olds s"
      by (rule uncounted_inv [OF inv]) (use True object in auto)
    then have "running owned s" using keeps by (auto simp: running_def keeps_def bounded_inv_def)
    with False True at show ?thesis by (simp add: bounded_keep_def)
  next
    case counted: False
    define full where "full \<longleftrightarrow> temporaries frame = [] \<or> length (last (temporaries frame)) = 8"
    define chunks where "chunks = (if full then temporaries frame @ [[v]]
      else butlast (temporaries frame) @ [last (temporaries frame) @ [v]])"
    let ?frame = "frame\<lparr>temporaries := chunks, temporary_count := temporary_count frame + 1\<rparr>"
    have ok: "stack_frame_ok frame" using keeps assms(2) by (simp add: keeps_def)
    have concat: "concat chunks = concat (temporaries frame) @ [v]"
      by (cases "temporaries frame" rule: rev_cases) (auto simp: chunks_def full_def)
    have "chunks_ok chunks"
      using ok chunks_ok_full [of "temporaries frame" v] chunks_ok_room [of "temporaries frame" v]
      by (auto simp: stack_frame_ok_def chunks_def full_def)
    with ok concat have frame: "stack_frame_ok ?frame" by (simp add: stack_frame_ok_def)
    have held: "held_by ?frame = add_mset v (held_by frame)"
      unfolding held_by_def frame_claims_def using concat by simp
    have first: "safe (if full then rc_service_pending MINYAR_RC_POLL_BUDGET s else Inr s) (stays (add_mset v owned) s)"
      using service_stays [OF assms(1)] assms(1) by (simp add: stays_def)
    have "safe (rc_service_pending MINYAR_RC_POLL_BUDGET (t\<lparr>rc_bounded_stack := ?frame # callers\<rparr>)) (running owned)"
      if stays: "stays (add_mset v owned) s t" for t
    proof -
      obtain recents olds where t: "keeps (add_mset v owned) recents olds t" "rc_bounded_stack t = frame # callers"
        using stays assms(2) by (auto simp: stays_def running_def)
      have "keeps owned recents olds (t\<lparr>rc_bounded_stack := ?frame # callers\<rparr>)"
        by (rule top_frame_keeps [OF t frame]) (simp only: held union_mset_add_mset_left union_mset_add_mset_right)
      from service_stays [OF runningI [OF this]] show ?thesis by (rule safe_mono) (simp add: stays_def)
    qed
    from safe_rbind [OF first this] show ?thesis
      using False counted at assms(2)
      by (simp add: bounded_keep_def Let_def full_def [symmetric] chunks_def [symmetric])
  qed
qed

lemma borrow_runs:
  assumes "keeps owned recents olds s" "alive v recents olds s" "rc_bounded_stack s = frame # callers"
  shows "safe (bounded_borrow v s) (running owned)"
  unfolding bounded_borrow_def
  by (rule safe_rbind [OF retain_stays [OF assms(1,2)]]) (use assms(3) keep_runs in \<open>auto simp: stays_def\<close>)

lemma local_runs:
  assumes "keeps owned recents olds s" "alive v recents olds s" "rc_bounded_stack s = frame # callers" "i < length (locals frame)"
  shows "safe (bounded_local i v s) (running owned)"
  unfolding bounded_local_def
  by (rule safe_rbind [OF retain_stays [OF assms(1,2)]]) (use assms(3,4) local_take_runs in \<open>auto simp: stays_def\<close>)

section \<open>Frames\<close>

lemma push_frame_keeps:
  assumes "keeps owned recents olds s" "stack_frame_ok frame" "held_by frame = {#}" "rc_bounded_free_frames s = base # free"
  shows "keeps owned recents olds (s\<lparr>rc_bounded_free_frames := free,
    rc_bounded_cached_frame_bytes := rc_bounded_cached_frame_bytes s - frame_bytes base, rc_bounded_stack := frame # rc_bounded_stack s\<rparr>)"
  by (rule keeps_cong [OF assms(1)]) (use keeps_frame_queue [OF assms(1)] assms in
    \<open>auto simp: keeps_def frames_kept_def waiting_def\<close>)

lemma push_new_keeps:
  assumes "keeps owned recents olds s" "stack_frame_ok frame" "held_by frame = {#}"
  shows "keeps owned recents olds (s\<lparr>rc_bounded_stack := frame # rc_bounded_stack s\<rparr>)"
  by (rule keeps_cong [OF assms(1)]) (use keeps_frame_queue [OF assms(1)] assms in
    \<open>auto simp: keeps_def frames_kept_def waiting_def\<close>)

lemma fresh_frame:
  assumes "temporaries base = []" "stack_header base = None \<or> n \<le> 8"
  shows "stack_frame_ok (base\<lparr>locals := replicate n 0, local_room := room, written := [], temporary_count := 0\<rparr>)"
    "held_by (base\<lparr>locals := replicate n 0, local_room := room, written := [], temporary_count := 0\<rparr>) = {#}"
  using assms by (auto simp: stack_frame_ok_def held_by_def frame_claims_def chunks_ok_def)

lemma enter_runs:
  assumes "running owned s"
  shows "safe (bounded_enter n s) (running owned)"
  unfolding bounded_enter_def
proof (rule poll_then [OF assms])
  fix t assume t: "stays owned s t"
  then obtain recents olds where keeps: "keeps owned recents olds t" by (auto simp: stays_def running_def)
  let ?count = "nat (n mod 2 ^ 64)"
  let ?none = "\<lparr>stack_header = None, locals = [], local_room = 0, written = [], temporaries = [], temporary_count = 0\<rparr>"
  have new: "?none\<lparr>locals := l, local_room := r, written := w, temporary_count := c\<rparr> =
    \<lparr>stack_header = None, locals = l, local_room = r, written = w, temporaries = [], temporary_count = c\<rparr>" for l r w c by simp
  show "safe (let (frame, s) = (case rc_bounded_free_frames t of
           frame # frames \<Rightarrow>
             (frame, t\<lparr>rc_bounded_free_frames := frames,
               rc_bounded_cached_frame_bytes := rc_bounded_cached_frame_bytes t - frame_bytes frame\<rparr>)
         | [] \<Rightarrow> (?none, t));
         count = nat (n mod 2 ^ 64) in
     if count > SIZE_LIMIT div 16 then out_of_memory
     else Inr (s\<lparr>rc_bounded_stack := frame\<lparr>locals := replicate count 0,
       local_room := (if count > local_room frame then count else local_room frame), written := [],
       temporary_count := 0\<rparr> # rc_bounded_stack s\<rparr>)) (running owned)"
  proof (cases "rc_bounded_free_frames t")
    case Nil
    have "keeps owned recents olds (t\<lparr>rc_bounded_stack :=
        ?none\<lparr>locals := replicate ?count 0, local_room := ?count, written := [], temporary_count := 0\<rparr> # rc_bounded_stack t\<rparr>)"
      by (rule push_new_keeps [OF keeps fresh_frame]) simp_all
    from runningI [OF this] Nil show ?thesis by (auto simp: Let_def)
  next
    case (Cons frame frames)
    have idle: "temporaries frame = []" "stack_header frame = None" using keeps Cons by (simp_all add: keeps_def frames_kept_def idle_frame_def)
    have "keeps owned recents olds (t\<lparr>rc_bounded_free_frames := frames,
        rc_bounded_cached_frame_bytes := rc_bounded_cached_frame_bytes t - frame_bytes frame, rc_bounded_stack :=
        frame\<lparr>locals := replicate ?count 0, local_room := (if ?count > local_room frame then ?count else local_room frame),
          written := [], temporary_count := 0\<rparr> # rc_bounded_stack t\<rparr>)"
      by (rule push_frame_keeps [OF keeps fresh_frame Cons]) (use idle in simp_all)
    from runningI [OF this] Cons show ?thesis by (cases "local_room frame < ?count") (simp_all add: Let_def)
  qed
qed

lemma leave_runs:
  assumes "running owned s" "rc_bounded_stack s = frame # callers" "stack_header frame = None"
  shows "safe (bounded_leave s) (running owned)"
proof -
  obtain recents olds where keeps: "keeps owned recents olds s" using assms(1) by (auto simp: running_def)
  have ok: "stack_frame_ok frame" using keeps assms(2) by (simp add: keeps_def)
  let ?frame = "frame\<lparr>temporaries := [], temporary_count := 0\<rparr>"
  let ?s = "s\<lparr>rc_bounded_stack := callers, rc_bounded_chunk_queue := rc_bounded_chunk_queue s @ temporaries frame,
      rc_bounded_frame_queue := rc_bounded_frame_queue s @ [?frame],
      rc_pending_count := Suc (rc_pending_count s + length (temporaries frame))\<rparr>"
  have "frame_ok ?frame" "idle_frame ?frame" "frame_claims ?frame = frame_claims frame"
    using stack_frame_written [OF retired_frame(1) [OF ok]] assms(3) by (simp_all add: idle_frame_def frame_claims_def)
  then have "keeps owned recents olds ?s"
    by (intro keeps_cong [OF keeps]) (use keeps_frame_queue [OF keeps] retired_frame [OF ok] keeps assms(2) in
      \<open>auto simp: keeps_def frames_kept_def waiting_def ac_simps\<close>)
  then have "running owned ?s" by (rule runningI)
  then have "safe (rbind (minyar_rc_poll MINYAR_RC_POLL_BUDGET ?s) (\<lambda>(work, s). Inr s)) (running owned)"
    by (rule poll_then) (simp add: stays_def)
  moreover have "s\<lparr>rc_bounded_stack := callers, rc_bounded_chunk_queue := rc_bounded_chunk_queue s @ temporaries frame,
      rc_pending_count := rc_pending_count s + length (temporaries frame),
      rc_bounded_frame_queue := rc_bounded_frame_queue s @ [?frame],
      rc_pending_count := Suc (rc_pending_count s + length (temporaries frame))\<rparr> = ?s"
    by (rule bounded.equality) simp_all
  ultimately show ?thesis using assms(2) by (simp add: bounded_leave_def retire_eq [OF ok])
qed

lemma enter_stack_runs:
  assumes "running owned s"
  shows "safe (minyar_rc_enter_stack_v1 h n s) (running owned)"
proof (cases "n > 0 \<and> n \<le> 8 \<and> nat n < MINYAR_RC_POLL_BUDGET")
  case True
  let ?frame = "\<lparr>stack_header = Some h, locals = replicate (nat n) 0, local_room = nat n, written = [], temporaries = [],
    temporary_count = 0\<rparr>"
  have frame: "stack_frame_ok ?frame" "held_by ?frame = {#}"
    using True by (auto simp: stack_frame_ok_def held_by_def frame_claims_def chunks_ok_def)
  have "safe (rbind (minyar_rc_poll MINYAR_RC_POLL_BUDGET s) (\<lambda>(work, s). Inr (s\<lparr>rc_bounded_stack := ?frame # rc_bounded_stack s\<rparr>)))
    (running owned)"
  proof (rule poll_then [OF assms])
    fix t assume "stays owned s t"
    then obtain recents olds where keeps: "keeps owned recents olds t" by (auto simp: stays_def running_def)
    have "keeps owned recents olds (t\<lparr>rc_bounded_stack := ?frame # rc_bounded_stack t\<rparr>)"
      by (rule push_new_keeps [OF keeps frame])
    then show "safe (Inr (t\<lparr>rc_bounded_stack := ?frame # rc_bounded_stack t\<rparr>)) (running owned)" by (auto simp: running_def)
  qed
  with True show ?thesis by (simp add: minyar_rc_enter_stack_v1_def)
next
  case False
  show ?thesis unfolding minyar_rc_enter_stack_v1_def if_not_P [OF False] by (rule enter_runs [OF assms])
qed

lemma drop_written_runs:
  "running (mset (map (\<lambda>i. locals frame ! i AND NOT 1) indices) + owned) s \<Longrightarrow> \<forall>i \<in> set indices. i < length (locals frame) \<Longrightarrow>
    safe (drop_written frame indices s) (running owned)"
proof (induction indices arbitrary: s)
  case (Cons i indices)
  have "running (add_mset (locals frame ! i AND NOT 1) (mset (map (\<lambda>i. locals frame ! i AND NOT 1) indices) + owned)) s"
    using Cons.prems(1) by simp
  from drop_stays [OF this] have "safe (rbind (rc_bounded_drop (locals frame ! i AND NOT 1) s)
      (\<lambda>(freed, s). drop_written frame indices s)) (running owned)"
    by (rule safe_rbind) (use Cons.IH Cons.prems(2) in \<open>auto simp: stays_def\<close>)
  then show ?case using Cons.prems(2) by (simp add: rc_bounded_local_value_def)
qed simp

lemma leave_stack_runs:
  assumes "running owned s" "rc_bounded_stack s = frame # callers" "stack_header frame = Some h \<or> stack_header frame = None"
  shows "safe (minyar_rc_leave_stack_v1 h s) (running owned)"
proof (cases "stack_header frame = Some h")
  case True
  obtain recents olds where keeps: "keeps owned recents olds s" using assms(1) by (auto simp: running_def)
  have ok: "stack_frame_ok frame" using keeps assms(2) by (simp add: keeps_def)
  let ?frame = "frame\<lparr>temporaries := [], temporary_count := 0\<rparr>"
  let ?s = "s\<lparr>rc_bounded_stack := callers, rc_bounded_chunk_queue := rc_bounded_chunk_queue s @ temporaries frame,
      rc_pending_count := rc_pending_count s + length (temporaries frame)\<rparr>"
  let ?claims = "mset (map (\<lambda>i. locals ?frame ! i AND NOT 1) (rev (written ?frame)))"
  have "?claims = mset (frame_claims frame)" by (simp add: frame_claims_def)
  then have "keeps (?claims + owned) recents olds ?s"
    by (intro keeps_cong [OF keeps]) (use keeps_frame_queue [OF keeps] retired_frame [OF ok] keeps assms(2) in
      \<open>auto simp: keeps_def frames_kept_def waiting_def ac_simps\<close>)
  from drop_written_runs [OF runningI [OF this]]
  have "safe (drop_written ?frame (rev (written ?frame)) ?s) (running owned)"
    using stack_frame_written [OF ok] by (simp add: frame_ok_def)
  then have "safe (rbind (drop_written ?frame (rev (written ?frame)) ?s) (\<lambda>s.
      rbind (minyar_rc_poll (MINYAR_RC_POLL_BUDGET - length (written ?frame)) s) (\<lambda>(work, s). Inr s))) (running owned)"
    by (rule safe_rbind) (rule poll_then, auto simp: stays_def)
  then show ?thesis using True assms(2) by (simp add: minyar_rc_leave_stack_v1_def retire_eq [OF ok])
next
  case False
  with assms leave_runs [OF assms(1,2)] show ?thesis by (simp add: minyar_rc_leave_stack_v1_def)
qed

end
