(* ===== verification/Bounded_Drain.thy ===== *)
theory Bounded_Drain
  imports Bounded_Stack
begin

text \<open>
  Polls come to an end: each returns, a sequence of them does no more units than there is work, and when its
  budgets reach that, nothing waits and just the objects in reach are left.
\<close>

section \<open>A poll never stops the program\<close>

definition no_stop :: "fault + 'a \<Rightarrow> bool" where
  "no_stop r \<longleftrightarrow> (\<forall>m. r \<noteq> Inl (Stopped m))"

lemma no_stop_simps [simp]: "no_stop (Inr x)" "no_stop (Inl Undefined)"
  by (simp_all add: no_stop_def)

lemma no_stop_rbind [intro]: "no_stop r \<Longrightarrow> (\<And>x. r = Inr x \<Longrightarrow> no_stop (f x)) \<Longrightarrow> no_stop (rbind r f)"
  by (cases r) (simp_all add: no_stop_def)

lemma no_stop_safe: "no_stop r \<Longrightarrow> safe r P \<Longrightarrow> \<exists>x. r = Inr x \<and> P x"
  by (auto simp: no_stop_def elim: safe_cases)

lemma object_no_stop [simp, intro]: "no_stop (bounded_object_at a s)" "no_stop (rc_bounded_finish_object a s)"
  by (auto simp: bounded_object_at_def rc_bounded_finish_object_def split: option.splits)

lemma drop_no_stop [simp, intro]: "no_stop (rc_bounded_drop v s)"
proof (induction v s rule: rc_bounded_drop.induct)
  case (1 v s)
  note run = rc_bounded_drop.simps [of v s]
  show ?case
  proof (cases "v = 0 \<or> bounded_object_at (v - 8) s = Inl Undefined")
    case True
    then show ?thesis by (auto simp: run)
  next
    case False
    then obtain object where object: "v \<noteq> 0" "bounded_object_at (v - 8) s = Inr object"
      by (auto simp: bounded_object_at_def split: option.splits if_splits)
    let ?one = "object\<lparr>header := header object - 8\<rparr>"
    have finish: "no_stop (rbind (rc_bounded_finish_object a t) (\<lambda>(backing, s). Inr (1 :: nat, s)))" for a t
      by (auto intro!: no_stop_rbind split: prod.split)
    show ?thesis
    proof (cases "header object \<noteq> 8 OR KIND_SCALAR_RECORD \<and> drop_bit 3 (header object) \<noteq> 0 \<and>
        drop_bit 3 (header ?one) = 0 \<and> kind ?one = KIND_TEXT")
      case False
      then show ?thesis using object finish by (simp add: run Let_def) blast
    next
      case True
      have "no_stop (rc_bounded_drop b u)"
        if "rc_bounded_finish_object (v - 8) (put_object (v - 8) ?one s) = Inr (b, u)" "b \<noteq> 0" for b u
        by (rule "1.IH" [OF object(1) refl object(2) _ _ refl refl _ _ that(1) refl that(2)]) (use True in auto)
      with True object show ?thesis
        by (simp add: run Let_def) (intro no_stop_rbind; auto intro!: no_stop_rbind split: prod.split)
    qed
  qed
qed

lemma units_no_stop [simp, intro]:
  "no_stop (rc_bounded_old_object_unit s)" "no_stop (rc_bounded_recent_object_unit s)" "no_stop (rc_bounded_object_unit s)"
  "no_stop (rc_bounded_frame_unit s)" "no_stop (rc_bounded_chunk_unit s)" "no_stop (rc_bounded_unit s)"
proof -
  show old: "no_stop (rc_bounded_old_object_unit s)" for s
    unfolding rc_bounded_old_object_unit_def activate_def Let_def by (auto intro!: no_stop_rbind)
  show recent: "no_stop (rc_bounded_recent_object_unit s)" for s
    unfolding rc_bounded_recent_object_unit_def Let_def by (auto intro!: no_stop_rbind)
  show object: "no_stop (rc_bounded_object_unit s)" for s
    unfolding rc_bounded_object_unit_def visited_unary_def Let_def using old recent by (auto intro!: no_stop_rbind)
  show frame: "no_stop (rc_bounded_frame_unit s)" for s
    unfolding rc_bounded_frame_unit_def rc_bounded_local_value_def by (auto intro!: no_stop_rbind split: list.split)
  show chunk: "no_stop (rc_bounded_chunk_unit s)" for s
    unfolding rc_bounded_chunk_unit_def by (auto intro!: no_stop_rbind split: list.split)
  show "no_stop (rc_bounded_unit s)"
    unfolding rc_bounded_unit_def Let_def using object frame chunk by auto
qed

lemma poll_queues_no_stop [simp, intro]: "no_stop (poll_queues n s)"
  by (induction n arbitrary: s) auto

section \<open>Polls in a row\<close>

text \<open>The result counts the units done.\<close>

fun polls :: "nat list \<Rightarrow> bounded \<Rightarrow> fault + nat \<times> bounded" where
  "polls [] s = Inr (0, s)"
| "polls (budget # budgets) s =
     rbind (minyar_rc_poll budget s) (\<lambda>(work, s). rbind (polls budgets s) (\<lambda>(more, s). Inr (work + more, s)))"

definition allowance :: "nat list \<Rightarrow> nat" where
  "allowance budgets = sum_list (map (min MINYAR_RC_POLL_BUDGET) budgets)"

lemma poll_advances:
  assumes "keeps owned recents olds s"
  obtains work t recents' olds' where "minyar_rc_poll budget s = Inr (work, t)" "keeps owned recents' olds' t"
    "kept_live (eager recents olds s) (eager recents' olds' t)" "rc_bounded_stack t = rc_bounded_stack s"
    "work_left recents' olds' t + work \<le> work_left recents olds s"
    "work \<le> min MINYAR_RC_POLL_BUDGET budget" "work < min MINYAR_RC_POLL_BUDGET budget \<Longrightarrow> rc_pending_count t = 0"
proof -
  define units where "units = min budget MINYAR_RC_POLL_BUDGET"
  have inv: "bounded_inv (owned + stack_claims (rc_bounded_stack s)) recents olds s" using assms by (simp add: keeps_def)
  from no_stop_safe [OF poll_queues_no_stop poll_queues_progress [OF inv, of units]] obtain m t where
    run: "poll_queues units s = Inr (m, t)" and t: "m \<le> units" "m \<noteq> 0 \<longrightarrow> rc_pending_count t = 0"
      "progress (owned + stack_claims (rc_bounded_stack s)) recents olds (units - m) s t" by auto
  have "frames_kept t" using poll_queues_kept [OF run] assms by (simp add: keeps_def)
  with t(3) assms obtain recents' olds' where "keeps owned recents' olds' t" "rc_bounded_stack t = rc_bounded_stack s"
    "kept_live (eager recents olds s) (eager recents' olds' t)" "work_left recents' olds' t + (units - m) \<le> work_left recents olds s"
    by (auto simp: progress_def keeps_def)
  moreover have "minyar_rc_poll budget s = Inr (units - m, t)" using poll_scheduler [OF inv units_def] run by simp
  moreover have units: "min MINYAR_RC_POLL_BUDGET budget = units" by (simp add: units_def)
  have "units - m < units \<Longrightarrow> rc_pending_count t = 0" using t(1,2) by (cases "m = 0") simp_all
  ultimately show thesis using that [of "units - m" t recents' olds'] unfolding units by simp
qed

lemma poll_idle:
  assumes "keeps owned recents olds s" "rc_pending_count s = 0"
  shows "minyar_rc_poll budget s = Inr (0, s)"
proof -
  have "bounded_inv (owned + stack_claims (rc_bounded_stack s)) recents olds s" using assms(1) by (simp add: keeps_def)
  from poll_scheduler [OF this refl, of budget] assms(2) show ?thesis
    by (cases "min budget MINYAR_RC_POLL_BUDGET") simp_all
qed

lemma polls_idle: "keeps owned recents olds s \<Longrightarrow> rc_pending_count s = 0 \<Longrightarrow> polls budgets s = Inr (0, s)"
  by (induction budgets) (simp_all add: poll_idle)

lemma polls_advance:
  "keeps owned recents olds s \<Longrightarrow>
    \<exists>work t recents' olds'. polls budgets s = Inr (work, t) \<and> keeps owned recents' olds' t \<and>
      kept_live (eager recents olds s) (eager recents' olds' t) \<and> rc_bounded_stack t = rc_bounded_stack s \<and>
      work_left recents' olds' t + work \<le> work_left recents olds s \<and>
      work \<le> allowance budgets \<and> (work < allowance budgets \<longrightarrow> rc_pending_count t = 0)"
proof (induction budgets arbitrary: s recents olds)
  case Nil
  then show ?case by (auto simp: allowance_def)
next
  case (Cons budget budgets)
  from poll_advances [OF Cons.prems] obtain work t recents' olds' where t: "minyar_rc_poll budget s = Inr (work, t)"
    "keeps owned recents' olds' t" "kept_live (eager recents olds s) (eager recents' olds' t)"
    "rc_bounded_stack t = rc_bounded_stack s" "work_left recents' olds' t + work \<le> work_left recents olds s"
    "work \<le> min MINYAR_RC_POLL_BUDGET budget" "work < min MINYAR_RC_POLL_BUDGET budget \<Longrightarrow> rc_pending_count t = 0"
    by blast
  from Cons.IH [OF t(2)] obtain more u recents'' olds'' where u: "polls budgets t = Inr (more, u)"
    "keeps owned recents'' olds'' u" "kept_live (eager recents' olds' t) (eager recents'' olds'' u)"
    "rc_bounded_stack u = rc_bounded_stack t" "work_left recents'' olds'' u + more \<le> work_left recents' olds' t"
    "more \<le> allowance budgets" "more < allowance budgets \<longrightarrow> rc_pending_count u = 0" by blast
  have more: "allowance (budget # budgets) = min MINYAR_RC_POLL_BUDGET budget + allowance budgets" by (simp add: allowance_def)
  have "rc_pending_count u = 0" if "work + more < allowance (budget # budgets)"
  proof (cases "work < min MINYAR_RC_POLL_BUDGET budget")
    case True
    with t(7) polls_idle [OF t(2)] u(1) show ?thesis by simp
  next
    case False
    with t(6) that u(7) more show ?thesis by linarith
  qed
  moreover have "polls (budget # budgets) s = Inr (work + more, u)" using t(1) u(1) by simp
  moreover have "kept_live (eager recents olds s) (eager recents'' olds'' u)" using t(3) u(3) by (rule kept_live_trans)
  moreover have "work_left recents'' olds'' u + (work + more) \<le> work_left recents olds s" using t(5) u(5) by linarith
  moreover have "work + more \<le> allowance (budget # budgets)" using t(6) u(6) more by linarith
  ultimately show ?case using u(2,4) t(4) by auto
qed

section \<open>How much work there is\<close>

text \<open>One unit for each object and each of its slots, each frame and written local, each chunk and temporary.\<close>

definition heap_work :: "bounded \<Rightarrow> nat" where
  "heap_work s = (\<Sum>v\<in>fmdom' (memory s). Suc (length (slots (payload (the (fmlookup (memory s) v)))))) + queue_work s"

lemma view_slots: "content_slots (content (view_object dead s v object)) \<le> length (slots (payload object))"
proof (cases "v \<in> set dead")
  case True
  then show ?thesis using length_references [of "payload object"] by (simp add: view_object_def dead_content_def Let_def)
next
  case False
  then show ?thesis by (auto simp: view_object_def live_content_def Let_def split: payload.splits)
qed

lemma work_left_bound: "work_left recents olds s \<le> heap_work s"
proof -
  have dom: "fmdom' (objects (eager recents olds s)) = fmdom' (memory s)"
    by (auto simp: fmlookup_dom'_iff)
  have "weight (eager recents olds s) \<le> (\<Sum>v\<in>fmdom' (memory s). Suc (length (slots (payload (the (fmlookup (memory s) v))))))"
    unfolding weight_def dom by (rule sum_mono) (auto simp: fmlookup_dom'_iff view_slots)
  then show ?thesis by (simp add: work_left_def heap_work_def)
qed

lemma no_work:
  assumes "keeps owned recents olds s" "work_left recents olds s = 0"
  shows "rc_pending_count s = 0"
proof -
  have heap: "heap_inv (owned + stack_claims (rc_bounded_stack s) + waiting s) recents olds s"
    using assms(1) by (simp add: keeps_def bounded_inv_def)
  have "fmdom' (objects (eager recents olds s)) = {}"
    using assms(2) by (auto simp: work_left_def weight_def)
  then have "memory s = fmempty" by (auto simp: fmlookup_dom'_iff intro!: fmap_ext)
  then have "v \<notin> set (dead_values recents olds s)" for v
    using task_object [OF heap, of v] by (metis fmempty_lookup option.distinct(1))
  then have "dead_values recents olds s = []" by (cases "dead_values recents olds s") auto
  moreover have "rc_bounded_frame_queue s = []" "rc_bounded_chunk_queue s = []"
    using assms(2) by (simp_all add: work_left_def queue_work_def)
  ultimately show ?thesis using heap by (simp add: heap_inv_def queues_ok_def dead_values_def)
qed

section \<open>What is left\<close>

lemma kept_liveD:
  "kept_live h h' \<Longrightarrow> fmlookup (objects h') a = Some object' \<Longrightarrow> a \<notin> set (rc_pending h') \<Longrightarrow>
    \<exists>object. fmlookup (objects h) a = Some object \<and> a \<notin> set (rc_pending h) \<and> content object' = content object"
  unfolding kept_live_def by blast

lemma reached_lives:
  assumes inv: "rc_inv {} ext h'" and kept: "kept_live h h'" and settled: "rc_pending h' = []"
    and reach: "(r, a) \<in> (holds_ref h)\<^sup>*" and root: "r \<in># ext \<or> r \<in> immortal {} h" and "a \<noteq> 0"
    and null: "fmlookup (objects h) 0 = None"
  shows "a \<in> fmdom' (objects h')"
  using reach \<open>a \<noteq> 0\<close>
proof (induction rule: rtrancl_induct)
  case base
  show ?case
  proof (cases "r \<in># ext")
    case True
    with base show ?thesis by (auto intro: claimed_live [OF inv] simp: claims_def)
  next
    case False
    with root kept have "r \<in> immortal {} h'" by (simp add: kept_live_def)
    then show ?thesis by (auto simp: immortal_def intro: fmdom'I)
  qed
next
  case (step b c)
  then obtain object where object: "fmlookup (objects h) b = Some object" "c \<in> set (held (content object))" "c \<noteq> 0"
    by (auto simp: holds_ref_def)
  have "b \<noteq> 0" using object(1) null by auto
  then have "b \<in> fmdom' (objects h')" by (rule step.IH)
  then obtain object' where object': "fmlookup (objects h') b = Some object'" by (auto simp: fmlookup_dom'_iff)
  with kept settled object(1) have "content object' = content object" by (fastforce simp: kept_live_def)
  with object object' show ?case by (auto intro: held_live [OF inv])
qed

lemma living_reached:
  assumes inv: "rc_inv {} ext h'" and kept: "kept_live h h'" and settled: "rc_pending h' = []"
    and acyclic: "acyclic (holds_ref h)" and "a \<in> fmdom' (objects h')"
  shows "\<exists>r. (r \<in># ext \<or> r \<in> immortal {} h) \<and> (r, a) \<in> (holds_ref h)\<^sup>*"
proof -
  have "wf (holds_ref h)" by (rule finite_acyclic_wf [OF finite_holds_ref acyclic])
  then show ?thesis using \<open>a \<in> fmdom' (objects h')\<close>
  proof (induction a rule: wf_induct_rule)
    case (less a)
    then obtain object where object: "fmlookup (objects h') a = Some object" by (auto simp: fmlookup_dom'_iff)
    show ?case
    proof (cases "holders object = 0")
      case True
      with object settled have "a \<in> immortal {} h'" by (auto simp: immortal_def)
      with kept show ?thesis by (auto simp: kept_live_def)
    next
      case False
      with invD [OF inv object] have "count (claims {} ext h') a > 0" and "a \<noteq> 0" by (auto simp: object_ok_def)
      then consider "a \<in># ext" | b object' where "fmlookup (objects h') b = Some object'" "a \<in> set (held (content object'))"
        by (auto simp: claims_def in_object_claims)
      then show ?thesis
      proof cases
        case 1
        then show ?thesis by blast
      next
        case 2
        then obtain old where "fmlookup (objects h) b = Some old" "content object' = content old"
          using kept settled by (fastforce simp: kept_live_def)
        with 2 \<open>a \<noteq> 0\<close> have "(b, a) \<in> holds_ref h" by (auto simp: holds_ref_def)
        moreover from this less 2 obtain r where "(r \<in># ext \<or> r \<in> immortal {} h)" "(r, b) \<in> (holds_ref h)\<^sup>*"
          by (meson fmdom'I)
        ultimately show ?thesis by (meson rtrancl.rtrancl_into_rtrancl)
      qed
    qed
  qed
qed

lemma settled_queues:
  assumes "keeps owned recents olds s" "rc_pending_count s = 0"
  shows "recents = []" "olds = []" "dead_values recents olds s = []" "waiting s = {#}"
  using assms by (auto simp: keeps_def bounded_inv_def heap_inv_def queues_ok_def dead_values_def active_tasks_def waiting_def
      split: if_splits)

theorem drained:
  assumes keeps: "keeps owned recents olds s" and enough: "heap_work s \<le> allowance budgets"
    and acyclic: "acyclic (holds_ref (eager recents olds s))"
  obtains work t where "polls budgets s = Inr (work, t)" "work \<le> heap_work s" "rc_pending_count t = 0" "keeps owned [] [] t"
    "fmdom' (memory t) = fmdom' (memory s) \<inter> reachable (owned + stack_claims (rc_bounded_stack s)) (eager recents olds s)"
    "\<And>v object. fmlookup (memory t) v = Some object \<Longrightarrow>
       \<exists>object'. fmlookup (memory s) v = Some object' \<and> live_content object' = live_content object"
proof -
  let ?h = "eager recents olds s" and ?ext = "owned + stack_claims (rc_bounded_stack s)"
  from polls_advance [OF keeps] obtain work t recents' olds' where t: "polls budgets s = Inr (work, t)"
    "keeps owned recents' olds' t" "kept_live ?h (eager recents' olds' t)" "rc_bounded_stack t = rc_bounded_stack s"
    "work_left recents' olds' t + work \<le> work_left recents olds s"
    "work \<le> allowance budgets" "work < allowance budgets \<longrightarrow> rc_pending_count t = 0" by blast
  have bound: "work_left recents olds s \<le> heap_work s" by (rule work_left_bound)
  have idle: "rc_pending_count t = 0"
    using t(5-7) bound enough no_work [OF t(2)] by (cases "work < allowance budgets") auto
  note settled = settled_queues [OF t(2) idle]
  let ?h' = "eager recents' olds' t"
  have inv': "rc_inv {} ?ext ?h'" using t(2,4) settled(4) by (simp add: keeps_def bounded_inv_def heap_inv_def)
  have "rc_inv {} (?ext + waiting s) ?h" using keeps by (simp add: keeps_def bounded_inv_def heap_inv_def)
  note nulls = inv_null [OF this] inv_null [OF inv']
  have dom: "fmdom' (objects ?h') = fmdom' (memory t)" "fmdom' (objects ?h) = fmdom' (memory s)"
    by (auto simp: fmlookup_dom'_iff)
  have pending: "rc_pending ?h' = []" using settled(3) by simp
  have old: "\<exists>object'. fmlookup (memory s) v = Some object' \<and> live_content object' = live_content object"
    if object: "fmlookup (memory t) v = Some object" for v object
  proof -
    have "fmlookup (objects ?h') v = Some \<lparr>holders = unat (drop_bit 3 (header object)), content = live_content object\<rparr>"
      using object settled(3) by (simp add: view_live)
    from kept_liveD [OF t(3) this] pending obtain viewed where "fmlookup (objects ?h) v = Some viewed"
      "v \<notin> set (rc_pending ?h)" "content viewed = live_content object" by auto
    then show ?thesis by (auto simp: view_live)
  qed
  have "fmdom' (memory t) = fmdom' (memory s) \<inter> reachable ?ext ?h"
  proof (intro equalityI subsetI)
    fix v assume v: "v \<in> fmdom' (memory t)"
    then have "v \<in> fmdom' (memory s)" using old by (fastforce simp: fmlookup_dom'_iff)
    moreover have "v \<noteq> 0" using v nulls(2) by (auto simp: fmlookup_dom'_iff)
    ultimately show "v \<in> fmdom' (memory s) \<inter> reachable ?ext ?h"
      using living_reached [OF inv' t(3) pending acyclic] v dom by (simp add: reachable_def)
  next
    fix v assume "v \<in> fmdom' (memory s) \<inter> reachable ?ext ?h"
    then show "v \<in> fmdom' (memory t)"
      using reached_lives [OF inv' t(3) pending _ _ _ nulls(1)] dom by (auto simp: reachable_def)
  qed
  moreover have "work \<le> heap_work s" using t(5) bound by linarith
  moreover have "keeps owned [] [] t" using t(2) settled by simp
  ultimately show thesis using t(1) idle old by (intro that) auto
qed

end
