(* ===== verification/Bounded_Program.thy ===== *)
theory Bounded_Program
  imports Bounded_Drain
begin

text \<open>
  Programs over the bounded runtime: every sequence of calls that respects ownership, and what such a program can
  rely on. A container is filled in when it is made; claims in it are handed over by the program.
\<close>

section \<open>Calls\<close>

datatype bounded_call =
    Claim ptr | Give_Up ptr | Make nat "64 word" payload | Poll nat
  | Push int | Pop | Next | Hold ptr | Lend ptr | Assign nat ptr | Assign_Claim nat ptr | Move_Out nat
  | Push_Stack ptr int | Pop_Stack ptr

text \<open>The pointer a call returns; zero for those that return none.\<close>

definition without_result :: "fault + bounded \<Rightarrow> fault + ptr \<times> bounded" where
  "without_result r = rbind r (\<lambda>s. Inr (0, s))"

fun run_bounded ::
    "((ptr, bounded_object) fmap \<Rightarrow> ptr option) \<Rightarrow> bounded_call \<Rightarrow> bounded \<Rightarrow> fault + ptr \<times> bounded" where
  "run_bounded malloc (Claim v) s = without_result (bounded_retain v s)"
| "run_bounded malloc (Give_Up v) s = without_result (bounded_release v s)"
| "run_bounded malloc (Make n k contents) s = bounded_allocate malloc n k contents s"
| "run_bounded malloc (Poll budget) s = without_result (rbind (minyar_rc_poll budget s) (\<lambda>(work, s). Inr s))"
| "run_bounded malloc (Push n) s = without_result (bounded_enter n s)"
| "run_bounded malloc Pop s = without_result (bounded_leave s)"
| "run_bounded malloc Next s = without_result (bounded_step s)"
| "run_bounded malloc (Hold v) s = without_result (bounded_keep v s)"
| "run_bounded malloc (Lend v) s = without_result (bounded_borrow v s)"
| "run_bounded malloc (Assign i v) s = without_result (bounded_local i v s)"
| "run_bounded malloc (Assign_Claim i v) s = without_result (bounded_local_take i v s)"
| "run_bounded malloc (Move_Out i) s = without_result (bounded_local_move i s)"
| "run_bounded malloc (Push_Stack h n) s = without_result (minyar_rc_enter_stack_v1 h n s)"
| "run_bounded malloc (Pop_Stack h) s = without_result (minyar_rc_leave_stack_v1 h s)"

section \<open>Respecting ownership\<close>

text \<open>A pointer that may be read: to an object that is not waiting to be reclaimed.\<close>

definition in_reach :: "ptr \<Rightarrow> bounded \<Rightarrow> bool" where
  "in_reach v s \<longleftrightarrow> (\<exists>recents olds. queues_ok recents olds s \<and> alive v recents olds s)"

definition is_immortal :: "ptr \<Rightarrow> bounded \<Rightarrow> bool" where
  "is_immortal v s \<longleftrightarrow> in_reach v s \<and> (case fmlookup (memory s) v of None \<Rightarrow> False | Some object \<Rightarrow> drop_bit 3 (header object) = 0)"

definition owns :: "ptr \<Rightarrow> ptr multiset \<Rightarrow> bounded \<Rightarrow> bool" where
  "owns v owned s \<longleftrightarrow> v = 0 \<or> v \<in># owned \<or> is_immortal v s"

definition has_local :: "nat \<Rightarrow> bounded \<Rightarrow> bool" where
  "has_local i s \<longleftrightarrow> (case rc_bounded_stack s of [] \<Rightarrow> False | frame # _ \<Rightarrow> i < length (locals frame))"

text \<open>The claims that go into a new object.\<close>

definition put_in :: "64 word \<Rightarrow> payload \<Rightarrow> ptr multiset" where
  "put_in k contents = {#v \<in># mset (held (live_content (new_object k contents))). v \<noteq> 0#}"

fun permitted :: "bounded_call \<Rightarrow> ptr multiset \<Rightarrow> bounded \<Rightarrow> bool" where
  "permitted (Claim v) owned s = in_reach v s"
| "permitted (Give_Up v) owned s = owns v owned s"
| "permitted (Make n k contents) owned s = (fillable k contents \<and> put_in k contents \<subseteq># owned)"
| "permitted (Poll budget) owned s = True"
| "permitted (Push n) owned s = True"
| "permitted Pop owned s = (rc_bounded_stack s \<noteq> [] \<and> stack_header (hd (rc_bounded_stack s)) = None)"
| "permitted Next owned s = (rc_bounded_stack s \<noteq> [])"
| "permitted (Hold v) owned s = (owns v owned s \<and> rc_bounded_stack s \<noteq> [])"
| "permitted (Lend v) owned s = (in_reach v s \<and> rc_bounded_stack s \<noteq> [])"
| "permitted (Assign i v) owned s = (in_reach v s \<and> has_local i s)"
| "permitted (Assign_Claim i v) owned s = (owns v owned s \<and> has_local i s)"
| "permitted (Move_Out i) owned s = has_local i s"
| "permitted (Push_Stack h n) owned s = True"
| "permitted (Pop_Stack h) owned s =
     (rc_bounded_stack s \<noteq> [] \<and> (stack_header (hd (rc_bounded_stack s)) = Some h \<or> stack_header (hd (rc_bounded_stack s)) = None))"

text \<open>The claims the program holds after a call that returned \<open>r\<close>.\<close>

fun owned_next :: "bounded_call \<Rightarrow> ptr \<Rightarrow> bounded \<Rightarrow> ptr multiset \<Rightarrow> ptr multiset" where
  "owned_next (Claim v) r s owned = add_mset v owned"
| "owned_next (Give_Up v) r s owned = owned - {#v#}"
| "owned_next (Make n k contents) r s owned = add_mset r (owned - put_in k contents)"
| "owned_next (Hold v) r s owned = owned - {#v#}"
| "owned_next (Assign_Claim i v) r s owned = owned - {#v#}"
| "owned_next (Move_Out i) r s owned = add_mset (locals (hd (rc_bounded_stack s)) ! i AND NOT 1) owned"
| "owned_next _ r s owned = owned"

section \<open>Every call is safe\<close>

lemma linked_unique: "linked m a bs \<Longrightarrow> linked m a cs \<Longrightarrow> bs = cs"
proof (induction m a bs arbitrary: cs rule: linked.induct)
  case (1 m a)
  then show ?case by (cases cs) auto
next
  case (2 m a b bs)
  then show ?case by (cases cs) auto
qed

lemma in_reach_alive:
  assumes "in_reach v s" "keeps owned recents olds s"
  shows "alive v recents olds s"
proof -
  have "queues_ok recents olds s" using assms(2) by (simp add: keeps_def bounded_inv_def heap_inv_def)
  moreover from assms(1) obtain recents' olds' where "queues_ok recents' olds' s" "alive v recents' olds' s"
    by (auto simp: in_reach_def)
  ultimately show ?thesis
    using linked_unique [of "memory s" "rc_bounded_recent_head s" recents recents']
      linked_unique [of "memory s" "rc_bounded_head s" olds olds'] by (simp add: queues_ok_def)
qed

lemma owns_running:
  assumes "owns v owned s" "running owned s"
  shows "running (add_mset v (owned - {#v#})) s"
proof -
  obtain recents olds where keeps: "keeps owned recents olds s" using assms(2) by (auto simp: running_def)
  show ?thesis
  proof (cases "v \<in># owned")
    case True
    then show ?thesis using assms(2) by simp
  next
    case False
    then have same: "owned - {#v#} = owned" by (simp add: diff_single_trivial)
    show ?thesis
    proof (cases "v = 0")
      case True
      then show ?thesis using assms(2) same by simp
    next
      case nonzero: False
      with False assms(1) have immortal: "is_immortal v s" by (simp add: owns_def)
      then obtain object where object: "fmlookup (memory s) v = Some object" "drop_bit 3 (header object) = 0" and reach: "in_reach v s"
        by (auto simp: is_immortal_def split: option.splits)
      have alive: "alive v recents olds s" by (rule in_reach_alive [OF reach keeps])
      have "heap_inv (owned + stack_claims (rc_bounded_stack s) + waiting s) recents olds s"
        using keeps by (simp add: keeps_def bounded_inv_def)
      from heap_invD(3) [OF this object(1)] have "bounded_retain v s = Inr s"
        using nonzero object(2) by (simp add: bounded_retain_def)
      with retain_stays [OF keeps alive] same show ?thesis by (simp add: stays_def)
    qed
  qed
qed

lemma running_nonzero: "running ({#v \<in># M. v \<noteq> 0#} + owned) s \<longleftrightarrow> running (M + owned) s"
proof (induction M arbitrary: owned)
  case (add x M)
  show ?case
  proof (cases "x = 0")
    case False
    with add [of "add_mset x owned"] show ?thesis by simp
  qed (simp add: add)
qed simp

lemma without_result_safe: "safe r (running owned) \<Longrightarrow> safe (without_result r) (\<lambda>(r, s). running owned s)"
  by (auto simp: without_result_def elim!: safe_cases)

lemma without_result_stays: "safe r (stays owned s) \<Longrightarrow> safe (without_result r) (\<lambda>(r, s). running owned s)"
  by (rule without_result_safe) (auto simp: stays_def elim: safe_mono)

lemma has_localE:
  assumes "has_local i s"
  obtains frame callers where "rc_bounded_stack s = frame # callers" "i < length (locals frame)"
  using assms by (auto simp: has_local_def split: list.splits)

lemma bounded_call_safe:
  assumes run: "running owned s" and malloc: "fresh_bounded malloc" and ok: "permitted c owned s"
  shows "safe (run_bounded malloc c s) (\<lambda>(r, t). running (owned_next c r s owned) t)"
proof -
  obtain recents olds where keeps: "keeps owned recents olds s" using run by (auto simp: running_def)
  have taken: "running (add_mset v (owned - {#v#})) s" if "owns v owned s" for v using owns_running [OF that run] .
  have alive: "alive v recents olds s" if "in_reach v s" for v using in_reach_alive [OF that keeps] .
  show ?thesis
  proof (cases c)
    case (Claim v)
    with ok retain_stays [OF keeps alive] show ?thesis by (auto intro!: without_result_stays)
  next
    case (Give_Up v)
    with ok release_stays [OF taken] show ?thesis by (auto intro!: without_result_stays)
  next
    case (Make n k contents)
    let ?held = "mset (held (live_content (new_object k contents)))"
    have "put_in k contents + (owned - put_in k contents) = owned" using ok Make by simp
    then have "running (?held + (owned - put_in k contents)) s"
      using running_nonzero [of ?held "owned - put_in k contents" s] run by (simp add: put_in_def)
    from allocate_stays [OF this malloc, of n] ok Make show ?thesis by (auto simp: stays_def elim!: safe_mono)
  next
    case (Poll budget)
    have "safe (rbind (minyar_rc_poll budget s) (\<lambda>(work, s). Inr s)) (running owned)"
      by (rule poll_then [OF run]) (simp add: stays_def)
    with Poll show ?thesis by (auto intro!: without_result_safe)
  next
    case (Push n)
    with enter_runs [OF run] show ?thesis by (auto intro!: without_result_safe)
  next
    case Pop
    with ok obtain frame callers where "rc_bounded_stack s = frame # callers" "stack_header frame = None"
      by (cases "rc_bounded_stack s") auto
    from leave_runs [OF run this] Pop show ?thesis by (auto intro!: without_result_safe)
  next
    case Next
    with ok obtain frame callers where "rc_bounded_stack s = frame # callers" by (cases "rc_bounded_stack s") auto
    from step_runs [OF run this] Next show ?thesis by (auto intro!: without_result_safe)
  next
    case (Hold v)
    with ok obtain frame callers where "rc_bounded_stack s = frame # callers" by (cases "rc_bounded_stack s") auto
    from keep_runs [OF taken this] ok Hold show ?thesis by (auto intro!: without_result_safe)
  next
    case (Lend v)
    with ok obtain frame callers where "rc_bounded_stack s = frame # callers" by (cases "rc_bounded_stack s") auto
    from borrow_runs [OF keeps alive this] ok Lend show ?thesis by (auto intro!: without_result_safe)
  next
    case (Assign i v)
    with ok obtain frame callers where "rc_bounded_stack s = frame # callers" "i < length (locals frame)"
      by (auto elim: has_localE)
    from local_runs [OF keeps alive this] ok Assign show ?thesis by (auto intro!: without_result_safe)
  next
    case (Assign_Claim i v)
    with ok obtain frame callers where "rc_bounded_stack s = frame # callers" "i < length (locals frame)"
      by (auto elim: has_localE)
    from local_take_runs [OF taken this] ok Assign_Claim show ?thesis by (auto intro!: without_result_safe)
  next
    case (Move_Out i)
    with ok obtain frame callers where frame: "rc_bounded_stack s = frame # callers" "i < length (locals frame)"
      by (auto elim: has_localE)
    show ?thesis
      unfolding Move_Out run_bounded.simps owned_next.simps frame(1) list.sel
      by (rule without_result_safe [OF local_move_runs [OF run frame]])
  next
    case (Push_Stack h n)
    with enter_stack_runs [OF run] show ?thesis by (auto intro!: without_result_safe)
  next
    case (Pop_Stack h)
    with ok obtain frame callers where "rc_bounded_stack s = frame # callers" "stack_header frame = Some h \<or> stack_header frame = None"
      by (cases "rc_bounded_stack s") auto
    from leave_stack_runs [OF run this] Pop_Stack show ?thesis by (auto intro!: without_result_safe)
  qed
qed

section \<open>Programs\<close>

text \<open>A program starts with its immortal literals, and nothing else.\<close>

definition bounded_start :: "(ptr, bounded_object) fmap \<Rightarrow> bounded" where
  "bounded_start literals =
     \<lparr>memory = literals, rc_bounded_head = 0, rc_bounded_tail = 0, rc_bounded_active = 0, rc_bounded_cursor = 0,
      rc_bounded_recent_head = 0, rc_bounded_recent_tail = 0, rc_bounded_recent_turn = False, rc_pending_count = 0,
      rc_bounded_frame_queue = [], rc_bounded_chunk_queue = [], rc_bounded_next_queue = 0, rc_bounded_stack = [],
      rc_bounded_free_frames = [], rc_bounded_cached_frame_bytes = 0\<rparr>"

definition literals_ok :: "(ptr, bounded_object) fmap \<Rightarrow> bool" where
  "literals_ok literals \<longleftrightarrow> (\<forall>v object. fmlookup literals v = Some object \<longrightarrow>
     v \<noteq> 0 \<and> v \<noteq> 8 \<and> v AND 7 = 0 \<and> object = \<lparr>header = KIND_TEXT, payload = Text_payload 0\<rparr>)"

inductive bounded_runs ::
    "((ptr, bounded_object) fmap \<Rightarrow> ptr option) \<Rightarrow> (ptr, bounded_object) fmap \<Rightarrow> ptr multiset \<Rightarrow> bounded \<Rightarrow> bool"
  for malloc literals where
  starts: "bounded_runs malloc literals {#} (bounded_start literals)"
| continues: "bounded_runs malloc literals owned s \<Longrightarrow> permitted c owned s \<Longrightarrow> run_bounded malloc c s = Inr (r, t) \<Longrightarrow>
    bounded_runs malloc literals (owned_next c r s owned) t"

lemma start_running:
  assumes "literals_ok literals"
  shows "running {#} (bounded_start literals)"
proof -
  let ?s = "bounded_start literals"
  define h where "h = eager [] [] ?s"
  have dead: "dead_values [] [] ?s = []" by (simp add: dead_values_def active_tasks_def bounded_start_def)
  have literal: "fmlookup (objects h) v = Some object \<Longrightarrow> object = \<lparr>holders = 0, content = RC_TEXT 0\<rparr> \<and> v \<noteq> 0" for v object
  proof -
    assume v: "fmlookup (objects h) v = Some object"
    then obtain old where old: "fmlookup literals v = Some old" "object = view_object [] ?s v old"
      using dead by (auto simp: bounded_start_def h_def)
    then have "old = \<lparr>header = KIND_TEXT, payload = Text_payload 0\<rparr>" "v \<noteq> 0" using assms unfolding literals_ok_def by blast+
    with old(2) show ?thesis by (simp add: view_object_def live_content_def)
  qed
  have "x = 0" if "x \<in># object_claims {} (objects h)" for x
    using that by (auto simp: in_object_claims dest!: literal)
  moreover have "rc_pending h = []" using dead by (simp add: h_def)
  ultimately have "rc_inv {} {#} h"
    unfolding rc_inv_def claims_def
    by (auto simp: within_def counted_def queued_def object_ok_def ownership_def dest!: literal)
  moreover have "object_fits [] ?s v object" if "fmlookup (memory ?s) v = Some object" for v object
  proof -
    have "object = \<lparr>header = KIND_TEXT, payload = Text_payload 0\<rparr>" "v \<noteq> 8" "v AND 7 = 0"
      using assms that unfolding literals_ok_def bounded_start_def by force+
    then show ?thesis by (simp add: object_fits_def shaped_def kind_def plain_map_def)
  qed
  then have "objects_fit [] ?s" by (simp add: objects_fit_def)
  moreover have "queues_ok [] [] ?s" by (simp add: queues_ok_def bounded_start_def last_task_def active_tasks_def)
  ultimately have "heap_inv {#} [] [] ?s" by (simp add: heap_inv_def dead h_def)
  then have "keeps {#} [] [] ?s"
    by (simp add: keeps_def bounded_inv_def bounded_start_def waiting_def frames_kept_def)
  then show ?thesis by (rule runningI)
qed

lemma runs_running:
  "bounded_runs malloc literals owned s \<Longrightarrow> fresh_bounded malloc \<Longrightarrow> literals_ok literals \<Longrightarrow> running owned s"
proof (induction rule: bounded_runs.induct)
  case starts
  then show ?case by (simp add: start_running)
next
  case (continues owned s c r t)
  then have "safe (run_bounded malloc c s) (\<lambda>(r, t). running (owned_next c r s owned) t)" by (intro bounded_call_safe) simp_all
  with continues.hyps(3) show ?case by simp
qed

end
