(* ===== verification/Bounded_Guarantees.thy ===== *)
theory Bounded_Guarantees
  imports Bounded_Program
begin

text \<open>
  What programs over the bounded runtime can rely on, with a program that leaves work behind.
\<close>

section \<open>A program to run\<close>

definition bounded_host :: "(ptr, bounded_object) fmap \<Rightarrow> ptr option" where
  "bounded_host m = find (\<lambda>v. fmlookup m v = None) [16, 24, 32, 40]"

definition bounded_literals :: "(ptr, bounded_object) fmap" where
  "bounded_literals = fmap_of_list [(48, \<lparr>header = KIND_TEXT, payload = Text_payload 0\<rparr>)]"

lemma bounded_host_fresh: "fresh_bounded bounded_host"
  by (auto simp: fresh_bounded_def bounded_host_def find_Some_iff nth_Cons split: nat.splits)

lemma bounded_literals_ok: "literals_ok bounded_literals"
  by (simp add: literals_ok_def bounded_literals_def)

lemma poll_none:
  "rc_pending_count s = 0 \<Longrightarrow> rc_bounded_frame_queue s = [] \<Longrightarrow> rc_bounded_chunk_queue s = [] \<Longrightarrow> minyar_rc_poll budget s = Inr (0, s)"
  by (simp add: minyar_rc_poll_def poll_objects.simps Let_def)

text \<open>
  A record of one number is in a local, and a List of forty empty slots is given up: a poll visits thirty-two of
  them.
\<close>

definition sample_frame :: "ptr \<Rightarrow> nat list \<Rightarrow> bounded_frame" where
  "sample_frame w indices = \<lparr>stack_header = None, locals = [w], local_room = 1, written = indices, temporaries = [], temporary_count = 0\<rparr>"

definition sample_record :: bounded_object where
  "sample_record = \<lparr>header = 8 OR KIND_SCALAR_RECORD, payload = Record_payload [] [7]\<rparr>"

definition sample_list :: "64 word \<Rightarrow> nat \<Rightarrow> bounded_object" where
  "sample_list h capacity = \<lparr>header = h, payload = List_payload (replicate 40 0) capacity\<rparr>"

definition sample_memory :: "bounded_object list \<Rightarrow> (ptr, bounded_object) fmap" where
  "sample_memory made = fold (\<lambda>(v, object) m. fmupd v object m) (zip [16, 24] made) bounded_literals"

definition sample_at :: "ptr \<Rightarrow> nat list \<Rightarrow> bounded_object list \<Rightarrow> bounded" where
  "sample_at w indices made = (bounded_start (sample_memory made))\<lparr>rc_bounded_stack := [sample_frame w indices]\<rparr>"

definition sample_left :: bounded where
  "sample_left = (sample_at 17 [0] [sample_record, sample_list KIND_REFERENCES 0])\<lparr>rc_bounded_active := 16,
     rc_bounded_cursor := 32, rc_pending_count := 1\<rparr>"

lemmas sample_simps = sample_at_def sample_memory_def sample_frame_def bounded_start_def without_result_def
  bounded_allocate_def rc_service_pending_def put_object_def bounded_host_def bounded_literals_def

lemma sample_push: "run_bounded bounded_host (Push 1) (bounded_start bounded_literals) = Inr (0, sample_at 0 [] [])"
  by (simp add: bounded_enter_def poll_none sample_simps Let_def)

lemma sample_make_record:
  "run_bounded bounded_host (Make 16 KIND_SCALAR_RECORD (Record_payload [] [7])) (sample_at 0 [] []) = Inr (16, sample_at 0 [] [sample_record])"
  by (simp add: sample_simps sample_record_def)

lemma sample_assign:
  "run_bounded bounded_host (Assign_Claim 0 16) (sample_at 0 [] [sample_record]) = Inr (0, sample_at 17 [0] [sample_record])"
  by (simp add: sample_simps bounded_local_take_def bounded_release_def rc_bounded_drop.simps Let_def)

lemma sample_make_list:
  "run_bounded bounded_host (Make 16 KIND_REFERENCES (List_payload (replicate 40 0) 40)) (sample_at 17 [0] [sample_record]) =
    Inr (24, sample_at 17 [0] [sample_record, sample_list (8 OR KIND_REFERENCES) 40])"
  by (simp add: sample_simps sample_list_def)

text \<open>A run of empty slots.\<close>

lemma null_run:
  "bounded_object_at (rc_bounded_active s) s = Inr object \<Longrightarrow> slots (payload object) = replicate m 0 \<Longrightarrow>
    rc_bounded_cursor s + k \<le> m \<Longrightarrow> rc_bounded_recent_head s = 0 \<Longrightarrow>
    list_run k n s = Inr (n - k, s\<lparr>rc_bounded_recent_turn := (rc_bounded_recent_turn s \<longleftrightarrow> even k),
      rc_bounded_cursor := rc_bounded_cursor s + k\<rparr>)"
proof (induction k arbitrary: n s)
  case (Suc k)
  let ?s = "s\<lparr>rc_bounded_recent_turn := \<not> rc_bounded_recent_turn s, rc_bounded_cursor := rc_bounded_cursor s + 1\<rparr>"
  have "bounded_object_at (rc_bounded_active ?s) ?s = Inr object" using Suc.prems(1) by (simp add: bounded_object_at_def)
  from Suc.IH [OF this Suc.prems(2)] Suc.prems have "list_run k (n - 1) ?s = Inr (n - 1 - k, ?s\<lparr>rc_bounded_recent_turn :=
      (rc_bounded_recent_turn ?s \<longleftrightarrow> even k), rc_bounded_cursor := rc_bounded_cursor ?s + k\<rparr>)" by simp
  with Suc.prems show ?case by (simp add: Let_def scalar_leaf_def rc_bounded_drop.simps) (auto intro!: bounded.equality)
qed (auto intro!: bounded.equality)

definition sample_queued :: bounded where
  "sample_queued = (sample_at 17 [0] [sample_record, sample_list KIND_REFERENCES 0])\<lparr>rc_bounded_recent_head := 16,
     rc_bounded_recent_tail := 16, rc_pending_count := 1\<rparr>"

definition sample_started :: bounded where
  "sample_started = (sample_at 17 [0] [sample_record, sample_list KIND_REFERENCES 0])\<lparr>rc_bounded_active := 16,
     rc_bounded_cursor := 1, rc_bounded_recent_turn := True, rc_pending_count := 1\<rparr>"

lemma sample_drop:
  "rc_bounded_drop 24 (sample_at 17 [0] [sample_record, sample_list (8 OR KIND_REFERENCES) 40]) = Inr (0, sample_queued)"
  by (simp add: rc_bounded_drop.simps [of 24] sample_queued_def sample_simps sample_list_def bounded_object_at_def shaped_def kind_def
      Let_def rc_bounded_save_cursor_def)

lemma sample_unit: "rc_bounded_object_unit sample_queued = Inr sample_started"
  by (simp add: sample_queued_def sample_started_def sample_simps sample_list_def rc_bounded_object_unit_def capture_def
      rc_bounded_old_object_unit_def activate_def bounded_object_at_def shaped_def kind_def Let_def rc_bounded_saved_cursor_def
      rc_bounded_drop.simps [of 0])

lemma sample_poll: "minyar_rc_poll 32 sample_queued = Inr (32, sample_left\<lparr>rc_bounded_next_queue := 1\<rparr>)"
proof -
  have list: "bounded_object_at 16 sample_started = Inr (sample_list KIND_REFERENCES 0)"
    by (simp add: sample_started_def sample_simps bounded_object_at_def shaped_def kind_def sample_list_def)
  have "poll_objects 31 sample_started = Inr (0, sample_left)"
  proof (subst poll_objects.simps)
    have "list_slots 31 sample_started = Inr (Suc 30)"
      using list by (simp add: list_slots_def sample_started_def sample_simps sample_list_def kind_def)
    moreover have "single_unary 31 sample_started = Inr None"
      by (simp add: single_unary_def sample_started_def sample_simps Let_def)
    moreover have "list_run (Suc 30) 31 sample_started = Inr (0, sample_left)"
      by (subst null_run [of _ "sample_list KIND_REFERENCES 0" 40])
        (use list in \<open>auto simp: sample_started_def sample_left_def sample_simps sample_list_def intro!: bounded.equality\<close>)
    moreover have "rc_pending_count sample_started \<noteq> 0" by (simp add: sample_started_def)
    ultimately show "(if (31 :: nat) = 0 \<or> rc_pending_count sample_started = 0 then Inr (31, sample_started)
      else rbind (single_unary 31 sample_started) (\<lambda>found. case found of
          Some single \<Rightarrow> rbind (rbind (take_single single sample_started) (unary_run 31 single)) (\<lambda>(n, s). poll_objects n s)
        | None \<Rightarrow> rbind (list_slots 31 sample_started) (\<lambda>count. case count of
              Suc k \<Rightarrow> rbind (list_run (Suc k) 31 sample_started) (\<lambda>(n, s). poll_objects n s)
            | 0 \<Rightarrow> rbind (rc_bounded_object_unit sample_started) (\<lambda>s. poll_objects (31 - 1) s)))) = Inr (0, sample_left)"
      by (simp del: list_run.simps add: poll_objects.simps [of 0])
  qed
  moreover have "single_unary 32 sample_queued = Inr None" "list_slots 32 sample_queued = Inr 0"
    "rc_pending_count sample_queued \<noteq> 0"
    by (simp_all add: single_unary_def list_slots_def sample_queued_def sample_simps sample_list_def Let_def bounded_object_at_def
        shaped_def kind_def)
  ultimately have "poll_objects 32 sample_queued = Inr (0, sample_left)"
    using sample_unit by (subst poll_objects.simps) simp
  then show ?thesis
    by (simp add: minyar_rc_poll_def MINYAR_RC_POLL_BUDGET_def sample_queued_def sample_simps)
qed

lemma sample_give_up:
  "run_bounded bounded_host (Give_Up 24) (sample_at 17 [0] [sample_record, sample_list (8 OR KIND_REFERENCES) 40]) =
    Inr (0, sample_left\<lparr>rc_bounded_next_queue := 1\<rparr>)"
proof -
  have "rc_pending_count sample_queued \<noteq> 0" by (simp add: sample_queued_def)
  then show ?thesis
    using sample_drop sample_poll by (simp add: bounded_release_def rc_service_pending_def MINYAR_RC_POLL_BUDGET_def without_result_def)
qed

lemma sample_put_in: "put_in KIND_REFERENCES (List_payload (replicate 40 0) 40) = {#}" "put_in KIND_SCALAR_RECORD (Record_payload [] [7]) = {#}"
  by (simp_all add: put_in_def new_object_def live_content_def kind_def)

definition bounded_sample :: bounded where
  "bounded_sample = sample_left\<lparr>rc_bounded_next_queue := 1\<rparr>"

lemma sample_bounded_runs: "bounded_runs bounded_host bounded_literals {#} bounded_sample"
proof -
  note go = bounded_runs.continues
  have "bounded_runs bounded_host bounded_literals {#} (sample_at 0 [] [])"
    using go [OF bounded_runs.starts _ sample_push] by simp
  from go [OF this _ sample_make_record] have "bounded_runs bounded_host bounded_literals {#16#} (sample_at 0 [] [sample_record])"
    by (simp add: sample_put_in fillable_def shaped_def plain_map_def new_object_def kind_def)
  from go [OF this _ sample_assign] have "bounded_runs bounded_host bounded_literals {#} (sample_at 17 [0] [sample_record])"
    by (simp add: owns_def has_local_def sample_simps)
  from go [OF this _ sample_make_list]
  have "bounded_runs bounded_host bounded_literals {#24#} (sample_at 17 [0] [sample_record, sample_list (8 OR KIND_REFERENCES) 40])"
    by (simp add: sample_put_in fillable_def shaped_def plain_map_def new_object_def kind_def)
  from go [OF this _ sample_give_up] show ?thesis by (simp add: owns_def bounded_sample_def)
qed

lemma sample_queues: "queues_ok [] [] bounded_sample" "dead_values [] [] bounded_sample = [24]"
  by (simp_all add: queues_ok_def dead_values_def active_tasks_def bounded_sample_def sample_left_def sample_simps last_task_def)

section \<open>Safety\<close>

lemma runs_keeps:
  assumes "fresh_bounded malloc" "literals_ok literals" "bounded_runs malloc literals owned s"
  obtains recents olds where "keeps owned recents olds s" "queues_ok recents olds s"
  using runs_running [OF assms(3,1,2)] by (auto simp: running_def keeps_def bounded_inv_def heap_inv_def)

lemmas sample_context = bounded_host_fresh bounded_literals_ok sample_bounded_runs

text \<open>
  C14. Whatever permitted calls a program has made on the bounded runtime, no call it is then permitted to make
  touches an object that has been reclaimed, an object of another kind, or a frame that is not there: it returns or
  stops with a message.
\<close>

theorem bounded_never_faults:
  assumes "fresh_bounded malloc" "literals_ok literals" "bounded_runs malloc literals owned s" "permitted c owned s"
  shows "run_bounded malloc c s \<noteq> Inl Undefined"
  using bounded_call_safe [OF runs_running [OF assms(3,1,2)] assms(1,4)] by (auto simp: safe_def)

theorem bounded_never_faults_witness: "run_bounded bounded_host Pop bounded_sample \<noteq> Inl Undefined"
  by (rule bounded_never_faults [OF sample_context])
    (simp add: bounded_sample_def sample_left_def sample_simps)

text \<open>
  C24. In every state a program reaches on the bounded runtime, the count of an object that does not wait is the
  number of claims on it: of the program, of its frames, of the frames and chunks that wait, and of the objects, where a
  dead one counts with the slots its cursor has not passed. Every claim leads to an object that is there and does not wait.
\<close>

theorem bounded_counts_exact:
  assumes "fresh_bounded malloc" "literals_ok literals" "bounded_runs malloc literals owned s"
  shows "\<exists>recents olds. queues_ok recents olds s \<and>
    (let all = owned + stack_claims (rc_bounded_stack s) + waiting s + object_claims {} (objects (eager recents olds s));
         dead = set (dead_values recents olds s)
     in (\<forall>v object. fmlookup (memory s) v = Some object \<longrightarrow> v \<notin> dead \<longrightarrow> drop_bit 3 (header object) \<noteq> 0 \<longrightarrow>
          unat (drop_bit 3 (header object)) = count all v) \<and>
        (\<forall>v \<in># all. v \<noteq> 0 \<longrightarrow> v \<in> fmdom' (memory s) \<and> v \<notin> dead))"
proof -
  obtain recents olds where keeps: "keeps owned recents olds s" "queues_ok recents olds s" by (rule runs_keeps [OF assms])
  let ?h = "eager recents olds s" and ?ext = "owned + stack_claims (rc_bounded_stack s) + waiting s"
  let ?all = "?ext + object_claims {} (objects ?h)" and ?dead = "set (dead_values recents olds s)"
  have inv: "rc_inv {} ?ext ?h" using keeps(1) by (simp add: keeps_def bounded_inv_def heap_inv_def)
  have ok: "object_ok ?dead ?all v (view_object (dead_values recents olds s) s v object)"
    if "fmlookup (memory s) v = Some object" for v object
    using invD [OF inv, of v] that by (simp add: claims_def)
  have "unat (drop_bit 3 (header object)) = count ?all v"
    if "fmlookup (memory s) v = Some object" "v \<notin> ?dead" "drop_bit 3 (header object) \<noteq> 0" for v object
    using ok [OF that(1)] that(2,3) by (auto simp: object_ok_def view_object_def word_unat_eq_iff)
  moreover have "v \<in> fmdom' (memory s) \<and> v \<notin> ?dead" if "v \<in># ?all" "v \<noteq> 0" for v
  proof -
    have "v \<in> fmdom' (objects ?h)" using claimed_live [OF inv _ that(2)] that(1) by (simp add: claims_def)
    then obtain object where "fmlookup (memory s) v = Some object" by (auto simp: fmlookup_dom'_iff)
    moreover have "count ?all v \<noteq> 0" using that(1) by (simp only: count_eq_zero_iff not_not)
    ultimately show ?thesis using ok by (auto simp only: object_ok_def fmlookup_dom'_iff)
  qed
  ultimately show ?thesis using keeps(2) by (intro exI [of _ recents] exI [of _ olds]) (simp add: Let_def)
qed

theorem bounded_counts_exact_witness:
  "\<exists>recents olds. queues_ok recents olds bounded_sample \<and>
    (\<forall>v object. fmlookup (memory bounded_sample) v = Some object \<longrightarrow> v \<notin> set (dead_values recents olds bounded_sample) \<longrightarrow>
      drop_bit 3 (header object) \<noteq> 0 \<longrightarrow> unat (drop_bit 3 (header object)) =
        count ({#} + stack_claims (rc_bounded_stack bounded_sample) + waiting bounded_sample +
          object_claims {} (objects (eager recents olds bounded_sample))) v)"
  using bounded_counts_exact [OF sample_context] unfolding Let_def by blast

text \<open>
  C19. In every state a program reaches on the bounded runtime, the frames kept for reuse are accounted for exactly
  and take at most 256 KiB; no frame placed in storage of a caller waits or is kept, and one in use has at
  most eight locals, so that leaving it spends less than a poll may.
\<close>

theorem frame_cache_bounded:
  assumes "fresh_bounded malloc" "literals_ok literals" "bounded_runs malloc literals owned s"
  shows "rc_bounded_cached_frame_bytes s = sum_list (map frame_bytes (rc_bounded_free_frames s)) \<and>
    rc_bounded_cached_frame_bytes s \<le> 256 * 1024 \<and>
    (\<forall>frame \<in> set (rc_bounded_frame_queue s) \<union> set (rc_bounded_free_frames s). stack_header frame = None) \<and>
    (\<forall>frame \<in> set (rc_bounded_stack s). stack_header frame \<noteq> None \<longrightarrow>
      length (locals frame) \<le> 8 \<and> length (written frame) < MINYAR_RC_POLL_BUDGET)"
proof -
  obtain recents olds where keeps: "keeps owned recents olds s" by (rule runs_keeps [OF assms])
  have "length (locals frame) \<le> 8 \<and> length (written frame) < MINYAR_RC_POLL_BUDGET"
    if "frame \<in> set (rc_bounded_stack s)" "stack_header frame \<noteq> None" for frame
  proof -
    have ok: "stack_frame_ok frame" using keeps that(1) by (simp add: keeps_def)
    with written_bound [OF ok] that(2) show ?thesis by (simp add: stack_frame_ok_def MINYAR_RC_POLL_BUDGET_def)
  qed
  with keeps show ?thesis by (auto simp: keeps_def frames_kept_def idle_frame_def MINYAR_FRAME_CACHE_BYTES_def)
qed

theorem frame_cache_bounded_witness:
  "rc_bounded_cached_frame_bytes bounded_sample \<le> 256 * 1024 \<and> rc_bounded_free_frames bounded_sample = [] \<and>
    rc_bounded_cached_frame_bytes bounded_sample = 0"
  using frame_cache_bounded [OF sample_context]
  by (simp add: bounded_sample_def sample_left_def sample_simps)

section \<open>Polls\<close>

text \<open>
  C40. A poll takes short cuts when only objects wait: a chain of records of one field is served together, and so is a
  run of slots of a List. In every state a program reaches it does just what the scheduler of the three
  queues does, unit for unit, and reports the same number of units.
\<close>

theorem poll_is_scheduler:
  assumes "fresh_bounded malloc" "literals_ok literals" "bounded_runs malloc literals owned s"
  shows "minyar_rc_poll budget s =
    rbind (poll_queues (min budget MINYAR_RC_POLL_BUDGET) s) (\<lambda>(left, t). Inr (min budget MINYAR_RC_POLL_BUDGET - left, t))"
proof -
  obtain recents olds where "keeps owned recents olds s" by (rule runs_keeps [OF assms])
  then have "bounded_inv (owned + stack_claims (rc_bounded_stack s)) recents olds s" by (simp add: keeps_def)
  from poll_scheduler [OF this refl] show ?thesis .
qed

theorem poll_is_scheduler_witness:
  "minyar_rc_poll 20 bounded_sample = rbind (poll_queues 20 bounded_sample) (\<lambda>(left, t). Inr (20 - left, t)) \<and>
    rc_pending_count bounded_sample = 1"
  using poll_is_scheduler [OF sample_context, of 20]
  by (simp add: MINYAR_RC_POLL_BUDGET_def bounded_sample_def sample_left_def)

text \<open>
  C25. Bounded polls reclaim everything there is to reclaim. They always return; a sequence of them does no more units
  than there are objects, slots, frames, locals, chunks and temporaries; and when the budgets, of which none
  counts for more than thirty-two, reach that number, nothing waits, and what is left, with its
  contents, is just what the program and its frames reach or is immortal, where the objects hold each other without a
  cycle.
\<close>

theorem polls_reclaim:
  assumes "fresh_bounded malloc" "literals_ok literals" "bounded_runs malloc literals owned s"
    and "heap_work s \<le> allowance budgets" and queues: "queues_ok recents olds s" and "acyclic (holds_ref (eager recents olds s))"
  shows "\<exists>work t. polls budgets s = Inr (work, t) \<and> work \<le> heap_work s \<and> rc_pending_count t = 0 \<and>
    fmdom' (memory t) = fmdom' (memory s) \<inter> reachable (owned + stack_claims (rc_bounded_stack s)) (eager recents olds s) \<and>
    (\<forall>v object. fmlookup (memory t) v = Some object \<longrightarrow>
       (\<exists>object'. fmlookup (memory s) v = Some object' \<and> live_content object' = live_content object))"
proof -
  obtain recents' olds' where keeps: "keeps owned recents' olds' s" "queues_ok recents' olds' s" by (rule runs_keeps [OF assms(1-3)])
  have "recents' = recents" "olds' = olds"
    using keeps(2) queues linked_unique by (metis queues_ok_def)+
  with keeps(1) have "keeps owned recents olds s" by simp
  from drained [OF this assms(4,6)] show ?thesis by metis
qed

lemma sample_holds_nothing: "holds_ref (eager [] [] bounded_sample) = {}"
proof -
  have "b = 0" if "fmlookup (memory bounded_sample) a = Some object"
      "b \<in> set (held (content (view_object [24] bounded_sample a object)))" for a b object
    using that by (auto simp: bounded_sample_def sample_left_def sample_simps sample_record_def sample_list_def view_object_def
        live_content_def dead_content_def references_from_def cursor_of_def kind_def Let_def split: if_splits)
  then show ?thesis by (auto simp: holds_ref_def sample_queues)
qed

lemma sample_domain: "fmdom' (memory bounded_sample) = {16, 24, 48}"
  by (auto simp: bounded_sample_def sample_left_def sample_simps)

lemma sample_claims: "stack_claims (rc_bounded_stack bounded_sample) = {#16#}"
  by (simp add: bounded_sample_def sample_left_def sample_simps held_by_def frame_claims_def)

lemma sample_work: "heap_work bounded_sample = 44"
  by (simp add: heap_work_def sample_domain queue_work_def)
    (simp add: bounded_sample_def sample_left_def sample_simps sample_record_def sample_list_def)

theorem polls_reclaim_witness:
  "\<exists>work t. polls [32, 32] bounded_sample = Inr (work, t) \<and> rc_pending_count t = 0 \<and> 16 \<in> fmdom' (memory t) \<and> 24 \<notin> fmdom' (memory t)"
proof -
  have "heap_work bounded_sample \<le> allowance [32, 32]"
    by (simp add: sample_work allowance_def MINYAR_RC_POLL_BUDGET_def)
  moreover have "acyclic (holds_ref (eager [] [] bounded_sample))" by (simp add: sample_holds_nothing acyclic_def)
  ultimately obtain work t where t: "polls [32, 32] bounded_sample = Inr (work, t)" "rc_pending_count t = 0"
    "fmdom' (memory t) = fmdom' (memory bounded_sample) \<inter> reachable {#16#} (eager [] [] bounded_sample)"
    using polls_reclaim [OF sample_context _ sample_queues(1), of "[32, 32]"] sample_claims by auto
  have "24 \<notin> immortal {} (eager [] [] bounded_sample)" by (simp add: immortal_def sample_queues)
  with t show ?thesis by (auto simp: sample_domain reachable_def sample_holds_nothing)
qed

end
