(* ===== verification/Spec2Isabelle.thy ===== *)
theory Spec2Isabelle
  imports Pipeline Text_Build Pool_Resize Rc_Program Builds Arena_Runs Bounded_Guarantees
begin

text \<open>
  A verification development for the Minyar compiler and runtime.
\<close>

end
